(* ===== verification/Prelude.thy ===== *)
theory Prelude
  imports Main "HOL-Library.Word" "HOL-Library.Monad_Syntax"
begin

unbundle bit_operations_syntax

text \<open>
  Shared vocabulary of the development: pointers, C integer arithmetic, chains of \<open>next\<close>
  pointers in a field map, and the theorem collections the component theories fill.

  \<^item> A pointer is a natural number, \<open>NULL\<close> is 0. Dereferencing \<open>NULL\<close> is the value \<open>None\<close> of the
    operations that can do so.
  \<^item> C \<open>int\<close> arithmetic is \<^typ>\<open>int\<close> with \<open>wrap32\<close> written out where a result can leave the
    32-bit range, \<open>(s16)x\<close> is \<open>wrap16\<close>. Bit-level code uses \<open>16 word\<close>, \<open>32 word\<close> and \<open>64 word\<close>.
\<close>

named_theorems chain_simps \<open>facts on chains of next pointers\<close>
named_theorems wrap_simps \<open>facts on C integer wrap-around\<close>

type_synonym ptr = nat
type_synonym s16 = "16 word"
type_synonym u8 = "8 word"
type_synonym u32 = "32 word"
type_synonym u64 = "64 word"

abbreviation (input) NULL :: ptr where "NULL \<equiv> 0"

section \<open>C integers\<close>

definition wrap16 :: "int \<Rightarrow> int" where
  "wrap16 x = (x + 2 ^ 15) mod 2 ^ 16 - 2 ^ 15"

definition wrap32 :: "int \<Rightarrow> int" where
  "wrap32 x = (x + 2 ^ 31) mod 2 ^ 32 - 2 ^ 31"

definition in_s16 :: "int \<Rightarrow> bool" where
  "in_s16 x \<longleftrightarrow> - (2 ^ 15) \<le> x \<and> x < 2 ^ 15"

definition in_s32 :: "int \<Rightarrow> bool" where
  "in_s32 x \<longleftrightarrow> - (2 ^ 31) \<le> x \<and> x < 2 ^ 31"

text \<open>\<open>x >> n\<close> on a signed C integer: the arithmetic shift rounds towards minus infinity.\<close>

definition asr :: "int \<Rightarrow> nat \<Rightarrow> int" where
  "asr x n = x div 2 ^ n"

lemma wrap16_id [wrap_simps]: "in_s16 x \<Longrightarrow> wrap16 x = x"
  by (simp add: in_s16_def wrap16_def)

lemma wrap32_id [wrap_simps]: "in_s32 x \<Longrightarrow> wrap32 x = x"
  by (simp add: in_s32_def wrap32_def)

lemma in_s16_wrap16 [simp]: "in_s16 (wrap16 x)"
  by (simp add: in_s16_def wrap16_def)

lemma in_s32_wrap32 [simp]: "in_s32 (wrap32 x)"
  by (simp add: in_s32_def wrap32_def)

lemma sint_u32: "unat x < 2 ^ 31 \<Longrightarrow> sint (x :: u32) = int (unat x)"
proof -
  assume "unat x < 2 ^ 31"
  then have "int (unat x) < int (2 ^ 31)" by (simp only: of_nat_less_iff)
  moreover have "- (2 ^ 31) \<le> int (unat x)" by (rule order_trans [of _ 0]) simp_all
  ultimately have "signed_take_bit 31 (int (unat x)) = int (unat x)" by (intro signed_take_bit_int_eq_self) simp_all
  moreover have "sint (word_of_int (int (unat x)) :: u32) = signed_take_bit 31 (int (unat x))" by (simp only: sint_sbintrunc') simp
  ultimately show ?thesis by simp
qed

lemma sint_wrap32: "sint (w :: 32 word) = wrap32 (uint w)"
  unfolding wrap32_def sint_uint signed_take_bit_eq_take_bit_shift take_bit_eq_mod by simp

lemma sint_nonneg: "0 \<le> sint (w :: 32 word) \<Longrightarrow> sint w = int (unat w)"
proof (rule sint_u32, rule ccontr)
  assume n: "0 \<le> sint w" and "\<not> unat w < 2 ^ 31"
  then have "int (2 ^ 31) \<le> int (unat w)" by (simp only: of_nat_le_iff not_less)
  then have u: "2 ^ 31 \<le> uint w" "uint w < 2 ^ 32" using unsigned_less [of w] by simp_all
  then have "(uint w + 2 ^ 31 - 2 ^ 32) mod 2 ^ 32 = uint w + 2 ^ 31 - 2 ^ 32" by (intro mod_pos_pos_trivial) simp_all
  then have "(uint w + 2 ^ 31) mod 2 ^ 32 = uint w + 2 ^ 31 - 2 ^ 32" by (simp only: minus_mod_self2)
  then show False using n u unfolding sint_wrap32 wrap32_def by simp
qed

lemma in_s16_imp_s32: "in_s16 x \<Longrightarrow> in_s32 x"
  by (simp add: in_s16_def in_s32_def)

lemma sint_s16_range [simp]: "in_s16 (sint (x :: s16))"
  using sint_range_size [of x] by (simp add: in_s16_def word_size)

lemma sint_word_of_int_s16: "in_s16 x \<Longrightarrow> sint (word_of_int x :: s16) = x"
  by (simp add: in_s16_def sint_sbintrunc' signed_take_bit_int_eq_self)

lemma asr_mono: "x \<le> y \<Longrightarrow> asr x n \<le> asr y n"
  by (simp add: asr_def zdiv_mono1)

section \<open>Chains of next pointers\<close>

text \<open>
  \<open>chain n p as\<close>: following the field map \<open>n\<close> from \<open>p\<close> visits exactly the addresses \<open>as\<close> and
  ends at \<open>NULL\<close>.
\<close>

primrec chain :: "(ptr \<Rightarrow> ptr) \<Rightarrow> ptr \<Rightarrow> ptr list \<Rightarrow> bool" where
  "chain n p [] \<longleftrightarrow> p = NULL"
| "chain n p (a # as) \<longleftrightarrow> p = a \<and> a \<noteq> NULL \<and> chain n (n a) as"

lemma chain_NULL [simp]: "chain n 0 as \<longleftrightarrow> as = []"
  by (cases as) auto

lemma chain_unique: "chain n p as \<Longrightarrow> chain n p bs \<Longrightarrow> as = bs"
proof (induction as arbitrary: p bs)
  case (Cons a as)
  then show ?case by (cases bs) auto
qed auto

lemma chain_hd: "chain n p as \<Longrightarrow> p = (if as = [] then NULL else hd as)"
  by (cases as) auto

lemma chain_nonnull: "chain n p as \<Longrightarrow> NULL \<notin> set as"
  by (induction as arbitrary: p) auto

lemma chain_upd [chain_simps]: "a \<notin> set as \<Longrightarrow> chain (n(a := q)) p as = chain n p as"
  by (induction as arbitrary: p) auto

lemmas chain_upd_fun = chain_upd [unfolded fun_upd_def]

lemma chain_cong: "(\<And>a. a \<in> set as \<Longrightarrow> n a = n' a) \<Longrightarrow> chain n p as = chain n' p as"
  by (induction as arbitrary: p) auto

lemma chain_drop: "chain n p (as @ bs) \<Longrightarrow> \<exists>q. chain n q bs"
  by (induction as arbitrary: p) auto

lemma chain_distinct: "chain n p as \<Longrightarrow> distinct as"
proof (induction as arbitrary: p)
  case (Cons a as)
  then have rest: "chain n (n a) as" by simp
  have "a \<notin> set as"
  proof
    assume "a \<in> set as"
    then obtain us vs where as: "as = us @ a # vs" by (meson split_list)
    with rest have "chain n (n a) (us @ a # vs)" by simp
    then have "\<exists>q. chain n q (a # vs)" by (rule chain_drop)
    then have "chain n (n a) vs" by auto
    with rest have "as = vs" by (rule chain_unique)
    with as show False by simp
  qed
  with rest Cons.IH show ?case by simp
qed simp

text \<open>Appending a cell at the end: the last cell's link is redirected.\<close>

lemma chain_snoc:
  assumes "chain n p as" "as \<noteq> []" "a \<noteq> NULL" "a \<notin> set as"
  shows "chain (n(a := NULL, last as := a)) p (as @ [a])"
  using assms
proof (induction as arbitrary: p)
  case (Cons b bs)
  have d: "b \<notin> set bs" using chain_distinct [OF Cons.prems(1)] by simp
  show ?case
  proof (cases "bs = []")
    case True
    with Cons.prems show ?thesis by simp
  next
    case False
    with Cons.prems have "chain (n(a := NULL, last bs := a)) (n b) (bs @ [a])"
      by (intro Cons.IH) auto
    moreover have "last bs \<noteq> b" using d False by (metis last_in_set)
    ultimately show ?thesis using Cons.prems by (simp add: last_ConsR [OF False] fun_upd_def del: last.simps)
  qed
qed simp

text \<open>Joining two chains at the last cell of the first.\<close>

lemma chain_join:
  assumes "chain n p as" "as \<noteq> []" "chain n q bs" "set as \<inter> set bs = {}"
  shows "chain (n(last as := q)) p (as @ bs)"
  using assms
proof (induction as arbitrary: p)
  case (Cons b cs)
  have d: "b \<notin> set cs" using chain_distinct [OF Cons.prems(1)] by simp
  show ?case
  proof (cases "cs = []")
    case True
    show ?thesis using Cons.prems by (simp add: True fun_upd_def chain_upd_fun)
  next
    case False
    with Cons.prems have "chain (n(last cs := q)) (n b) (cs @ bs)"
      by (intro Cons.IH) auto
    moreover have "last cs \<noteq> b" using d False by (metis last_in_set)
    ultimately show ?thesis using Cons.prems by (simp add: last_ConsR [OF False] fun_upd_def del: last.simps)
  qed
qed simp

text \<open>Unlinking the cell after a prefix.\<close>

lemma chain_unlink:
  assumes "chain n p (us @ a # vs)" "us \<noteq> []"
  shows "chain (n(last us := n a)) p (us @ vs)"
  using assms
proof (induction us arbitrary: p)
  case (Cons b cs)
  have d: "b \<notin> set cs" "b \<notin> set vs" "b \<noteq> a"
    using chain_distinct [OF Cons.prems(1)] by auto
  show ?case
  proof (cases "cs = []")
    case True
    show ?thesis using Cons.prems d by (simp add: True fun_upd_def chain_upd_fun)
  next
    case False
    with Cons.prems have "chain (n(last cs := n a)) (n b) (cs @ vs)"
      by (intro Cons.IH) auto
    moreover have "last cs \<noteq> b" using d False by (metis last_in_set)
    ultimately show ?thesis using Cons.prems by (simp add: last_ConsR [OF False] fun_upd_def del: last.simps)
  qed
qed simp

section \<open>Masks of 32-bit words\<close>

lemma unat_take_bit_u32: "unat (take_bit k (i::u32)) = unat i mod 2 ^ k"
  by (simp only: unsigned_take_bit_eq) (simp add: take_bit_eq_mod)

lemma unat_neg_u32: "unat (- x :: u32) = (if x = 0 then 0 else 2 ^ 32 - unat x)"
proof (cases "x = 0")
  case False
  have "unat (x + - x) = 0" by (simp only: right_minus unsigned_0)
  then have "(if unat x + unat (- x) < 2 ^ 32 then unat x + unat (- x) else unat x + unat (- x) - 2 ^ 32) = 0"
    unfolding unat_plus_if_size by (auto simp: word_size split: if_splits)
  moreover have "unat x \<noteq> 0" using False by (simp add: unat_eq_zero)
  moreover have "unat x < 2 ^ 32" "unat (- x) < 2 ^ 32" using unsigned_less [of x] unsigned_less [of "- x"] by auto
  ultimately show ?thesis using False by (simp split: if_splits)
qed simp

lemma unat_m1: "unat (-1 :: u32) = 2 ^ 32 - 1" by (simp only: unat_neg_u32) simp

lemma mask_u32: "k < 32 \<Longrightarrow> unat (mask k :: u32) = 2 ^ k - 1"
proof -
  assume k: "k < 32"
  have "unat (mask k :: u32) = unat (take_bit k (-1) :: u32)" by (simp add: take_bit_minus_one_eq_mask)
  also have "\<dots> = (2 ^ 32 - 1) mod 2 ^ k" by (simp only: unat_take_bit_u32 unat_m1)
  also have "\<dots> = 2 ^ k - 1"
  proof -
    have "(2::nat) ^ 32 = 2 ^ k * 2 ^ (32 - k)" using k by (simp flip: power_add)
    moreover have "(2::nat) ^ k > 0" "(2::nat) ^ (32 - k) > 0" by simp_all
    ultimately have "(2::nat) ^ 32 - 1 = (2 ^ k - 1) + 2 ^ k * (2 ^ (32 - k) - 1)"
      by (metis (no_types, lifting) Suc_pred' add.commute add_diff_inverse_nat less_one mult.right_neutral diff_mult_distrib2 Nat.diff_add_assoc2 le_square mult_le_mono2 not_less plus_1_eq_Suc Suc_leI One_nat_def add_diff_assoc2 )
    then show ?thesis by (metis mod_mult_self2 mod_less diff_less zero_less_power zero_less_numeral zero_less_one)
  qed
  finally show ?thesis .
qed

lemma mod_inj_le: "i < n \<Longrightarrow> j < n \<Longrightarrow> i \<le> j \<Longrightarrow> (a + i) mod n = (a + j) mod n \<Longrightarrow> i = (j :: nat)"
proof -
  assume *: "i < n" "j < n" "i \<le> j" "(a + i) mod n = (a + j) mod n"
  then have "n dvd (a + j) - (a + i)" by (metis add_le_mono le_refl mod_eq_dvd_iff_nat)
  then have "n dvd j - i" by simp
  with *(2,3) show "i = j" by (metis diff_is_0_eq' dvd_imp_le diff_le_self le_trans not_less le_antisym gr0I diff_is_0_eq)
qed

lemma mod_inj: "i < n \<Longrightarrow> j < n \<Longrightarrow> (a + i) mod n = (a + j) mod n \<Longrightarrow> i = (j :: nat)"
  using mod_inj_le [of i n j a] mod_inj_le [of j n i a] by (metis nat_le_linear)

end
