(* ===== verification/Mem.thy ===== *)
theory Mem
  imports Prelude "HOL-Library.While_Combinator"
begin

text \<open>
  The fast fixed-size allocator of \<^verbatim>\<open>system/kernel/pdp_mem.c\<close>.

  A free cell's first word links it to the next free cell, so the memory of an allocator is the
  map \<open>nxt\<close> of first words and the break \<open>brk\<close> below which \<open>malloc\<close> has handed out addresses;
  \<open>malloc\<close> never returns an address twice and returns \<open>NULL\<close> when the memory up to \<open>limit\<close> is used up
  (no limit: it never is). Sizes are 32-bit unsigned products that \<open>pdp_alloc\<close> takes as an \<open>int\<close>.
  \<open>None\<close> is a write through \<open>NULL\<close> or past the block. The mutex of the allocator makes each operation
  atomic and is not modelled; \<open>PDP_ASSERT\<close>, empty unless \<open>PDP_DEBUG\<close> is set, is left out.

  The lemmas show that free and live cells never overlap, that a new cell is fresh, and that the
  refill loop of \<open>pdp_fastalloc_new_atom\<close> runs at most once.
\<close>

record mem =
  nxt :: "ptr \<Rightarrow> ptr"
  brk :: ptr
  limit :: "ptr option"

record t_pdp_fastalloc =
  atom_size :: "32 word"
  block_elements :: "32 word"
  freelist :: ptr

definition PDP_FASTALLOC_BLOCK_ELEMENTS :: "32 word" where
  "PDP_FASTALLOC_BLOCK_ELEMENTS = 4096"

definition has_memory :: "nat \<Rightarrow> mem \<Rightarrow> bool" where
  "has_memory n m = (case limit m of None \<Rightarrow> True | Some e \<Rightarrow> brk m + n \<le> e)"

text \<open>\<open>malloc\<close> takes a \<open>size_t\<close>: a negative size is more than any memory holds.\<close>

definition pdp_alloc :: "int \<Rightarrow> mem \<Rightarrow> ptr \<times> mem" where
  "pdp_alloc sz m =
     (if sz < 0 \<or> \<not> has_memory (max 1 (nat sz)) m then (NULL, m)
      else (brk m, m\<lparr>brk := brk m + max 1 (nat sz)\<rparr>))"

text \<open>The loop that links the cells of a fresh block, \<open>k\<close> links still to be made.\<close>

fun link_atoms :: "nat \<Rightarrow> nat \<Rightarrow> ptr \<Rightarrow> (ptr \<Rightarrow> ptr) \<Rightarrow> (ptr \<Rightarrow> ptr)" where
  "link_atoms 0 sz atom n = n(atom := NULL)"
| "link_atoms (Suc k) sz atom n = link_atoms k sz (atom + sz) (n(atom := atom + sz))"

definition pdp_fastalloc_refill_freelist ::
  "t_pdp_fastalloc \<Rightarrow> mem \<Rightarrow> (t_pdp_fastalloc \<times> mem) option" where
  "pdp_fastalloc_refill_freelist x m =
     (let sz = sint (block_elements x * atom_size x);
          (p, m') = pdp_alloc sz m;
          k = unat (block_elements x - 1)
      in if p = NULL \<or> int (k * unat (atom_size x) + 8) > sz then None
         else Some (x\<lparr>freelist := p\<rparr>, m'\<lparr>nxt := link_atoms k (unat (atom_size x)) p (nxt m')\<rparr>))"

text \<open>The loop \<open>while (!(atom = x->freelist))\<close>.\<close>

partial_function (option) refill_loop :: "t_pdp_fastalloc \<Rightarrow> mem \<Rightarrow> (t_pdp_fastalloc \<times> mem) option" where [code]:
  "refill_loop x m =
     (if freelist x = NULL
      then (case pdp_fastalloc_refill_freelist x m of None \<Rightarrow> None | Some (x, m) \<Rightarrow> refill_loop x m)
      else Some (x, m))"

definition pdp_fastalloc_new_atom ::
  "t_pdp_fastalloc \<Rightarrow> mem \<Rightarrow> (ptr \<times> t_pdp_fastalloc \<times> mem) option" where
  "pdp_fastalloc_new_atom x m =
     do { (x, m) \<leftarrow> refill_loop x m;
          let atom = freelist x;
          Some (atom, x\<lparr>freelist := nxt m atom\<rparr>, m\<lparr>nxt := (nxt m)(atom := NULL)\<rparr>) }"

definition pdp_fastalloc_save_atom ::
  "t_pdp_fastalloc \<Rightarrow> ptr \<Rightarrow> mem \<Rightarrow> t_pdp_fastalloc \<times> mem" where
  "pdp_fastalloc_save_atom x atom m =
     (x\<lparr>freelist := atom\<rparr>, m\<lparr>nxt := (nxt m)(atom := freelist x)\<rparr>)"

text \<open>\<open>sizeof(t_fastalloc)\<close>, one pointer, is 8.\<close>

definition pdp_fastalloc_new :: "32 word \<Rightarrow> t_pdp_fastalloc" where
  "pdp_fastalloc_new sz =
     \<lparr>atom_size = (if sz < 8 then 8 else sz),
      block_elements = PDP_FASTALLOC_BLOCK_ELEMENTS, freelist = NULL\<rparr>"

section \<open>Cells that do not overlap\<close>

definition apart :: "nat \<Rightarrow> ptr set \<Rightarrow> bool" where
  "apart sz S \<longleftrightarrow> (\<forall>p\<in>S. \<forall>q\<in>S. p < q \<longrightarrow> p + sz \<le> q)"

abbreviation cell_size :: "t_pdp_fastalloc \<Rightarrow> nat" where
  "cell_size x \<equiv> unat (atom_size x)"

text \<open>
  \<open>alloc_inv x m L fs\<close>: the free list of \<open>x\<close> is exactly \<open>fs\<close>, disjoint from the live cells \<open>L\<close>,
  and all cells are inside the heap and pairwise apart.
\<close>

definition alloc_inv :: "t_pdp_fastalloc \<Rightarrow> mem \<Rightarrow> ptr set \<Rightarrow> ptr list \<Rightarrow> bool" where
  "alloc_inv x m L fs \<longleftrightarrow>
     0 < brk m \<and> 8 \<le> cell_size x \<and> 0 < block_elements x \<and>
     chain (nxt m) (freelist x) fs \<and> set fs \<inter> L = {} \<and> NULL \<notin> L \<and>
     apart (cell_size x) (set fs \<union> L) \<and>
     (\<forall>p\<in>set fs \<union> L. p + cell_size x \<le> brk m)"

fun block_addrs :: "nat \<Rightarrow> nat \<Rightarrow> ptr \<Rightarrow> ptr list" where
  "block_addrs 0 sz p = [p]"
| "block_addrs (Suc k) sz p = p # block_addrs k sz (p + sz)"

lemma block_addrs_bounds:
  assumes "0 < sz" "q \<in> set (block_addrs k sz p)"
  shows "p \<le> q \<and> q + sz \<le> p + (k + 1) * sz"
  using assms by (induction k arbitrary: p) fastforce+

lemma block_addrs_apart:
  assumes "0 < sz"
  shows "apart sz (set (block_addrs k sz p))"
proof (induction k arbitrary: p)
  case (Suc k)
  have "\<And>q. q \<in> set (block_addrs k sz (p + sz)) \<Longrightarrow> p + sz \<le> q"
    using block_addrs_bounds [OF assms] by blast
  with Suc [of "p + sz"] show ?case
    by (fastforce simp: apart_def)
qed (simp add: apart_def)

lemma link_atoms_other:
  assumes "0 < sz" "q \<notin> set (block_addrs k sz p)"
  shows "link_atoms k sz p n q = n q"
  using assms by (induction k arbitrary: p n) auto

lemma chain_link_atoms:
  assumes "0 < sz" "0 < p"
  shows "chain (link_atoms k sz p n) p (block_addrs k sz p)"
  using assms
proof (induction k arbitrary: p n)
  case (Suc k)
  have "p \<notin> set (block_addrs k sz (p + sz))"
    using block_addrs_bounds [OF Suc.prems(1), of p k "p + sz"] Suc.prems by auto
  then have "link_atoms k sz (p + sz) (n(p := p + sz)) p = p + sz"
    by (simp add: link_atoms_other [OF Suc.prems(1)])
  with Suc show ?case by simp
qed simp

lemma block_addrs_nonempty [simp]: "block_addrs k sz p \<noteq> []"
  by (cases k) auto

lemma hd_block_addrs [simp]: "hd (block_addrs k sz p) = p"
  by (cases k) auto

text \<open>The bytes of a block; \<open>fits x m\<close>: there is room for one more.\<close>

abbreviation block_bytes :: "t_pdp_fastalloc \<Rightarrow> nat" where
  "block_bytes x \<equiv> unat (block_elements x) * cell_size x"

definition fits :: "t_pdp_fastalloc \<Rightarrow> mem \<Rightarrow> bool" where
  "fits x m \<longleftrightarrow> block_bytes x < 2 ^ 31 \<and> has_memory (block_bytes x) m"

lemma sint_product: "sint (a * b :: 32 word) = wrap32 (int (unat a * unat b))"
proof -
  have "uint (a * b) = int (unat a * unat b) mod 2 ^ 32" by (simp add: uint_word_ariths)
  then show ?thesis unfolding sint_wrap32 wrap32_def by (simp add: mod_simps)
qed

lemma block_small:
  assumes "int ((unat a - 1) * unat b + 8) \<le> sint (a * b :: 32 word)" "0 < a"
  shows "unat a * unat b < 2 ^ 31"
proof -
  obtain n where n: "unat a = Suc n" using assms(2) by (metis gr0_implies_Suc unat_gt_0 word_gt_0)
  define s where "s = int (unat a * unat b)"
  define k where "k = (s + 2 ^ 31) div 2 ^ 32"
  have "s + 2 ^ 31 = k * 2 ^ 32 + (s + 2 ^ 31) mod 2 ^ 32" by (simp add: k_def)
  then have w: "sint (a * b) = s - k * 2 ^ 32" unfolding sint_product s_def [symmetric] wrap32_def by simp
  have "int (unat b) < 2 ^ 32" using unsigned_less [of b] by simp
  moreover have "s = int (n * unat b) + int (unat b)" by (simp add: s_def n)
  moreover have "int (n * unat b) + 8 \<le> s - k * 2 ^ 32" using assms(1) by (simp only: w n) simp
  ultimately have "k * 2 ^ 32 < 1 * 2 ^ 32" by linarith
  then have "k < 1" by (simp only: mult_less_cancel_right) simp
  moreover have "0 \<le> s" by (simp only: s_def of_nat_0_le_iff)
  then have "0 \<le> k" by (simp add: k_def pos_imp_zdiv_nonneg_iff)
  ultimately have "k = 0" by linarith
  with w have "s = sint (a * b)" by simp
  then have "s < 2 ^ 31" using sint_lt [of "a * b"] by simp
  then have "int (unat a * unat b) < int (2 ^ 31)" by (simp only: s_def of_nat_power of_nat_numeral)
  then show ?thesis by (simp only: of_nat_less_iff)
qed

lemma refill_eq:
  assumes "0 < brk m" "8 \<le> cell_size x" "0 < block_elements x"
  shows "pdp_fastalloc_refill_freelist x m =
    (if fits x m
     then Some (x\<lparr>freelist := brk m\<rparr>, m\<lparr>brk := brk m + block_bytes x,
            nxt := link_atoms (unat (block_elements x) - 1) (cell_size x) (brk m) (nxt m)\<rparr>)
     else None)"
proof -
  let ?b = "block_elements x" and ?s = "sint (block_elements x * atom_size x)"
  obtain n where n: "unat ?b = Suc n" using assms(3) by (metis gr0_implies_Suc unat_gt_0 word_gt_0)
  have k: "unat (?b - 1) = unat ?b - 1" using assms(3) by (intro unat_minus_one) auto
  show ?thesis
  proof (cases "block_bytes x < 2 ^ 31")
    case True
    define B where "B = block_bytes x"
    from True have "int B < int (2 ^ 31)" by (simp only: of_nat_less_iff B_def)
    then have "int B < 2 ^ 31" by (simp only: of_nat_power of_nat_numeral)
    then have s: "?s = int B" unfolding sint_product B_def [symmetric] by (intro wrap32_id) (simp add: in_s32_def)
    have B: "(unat ?b - 1) * cell_size x + 8 \<le> B" unfolding B_def n using assms(2) by simp
    then have "max 1 B = B" by simp
    with assms(1) B True show ?thesis
      unfolding pdp_fastalloc_refill_freelist_def pdp_alloc_def fits_def k Let_def s B_def [symmetric]
      by (auto simp del: of_nat_add of_nat_mult)
  next
    case False
    then have "\<not> int ((unat ?b - 1) * cell_size x + 8) \<le> ?s" using block_small [OF _ assms(3)] by blast
    then show ?thesis using False unfolding pdp_fastalloc_refill_freelist_def fits_def k Let_def
      by (auto simp del: of_nat_add of_nat_mult split: prod.splits)
  qed
qed

lemma refill_inv:
  assumes inv: "alloc_inv x m L []" and r: "pdp_fastalloc_refill_freelist x m = Some (x', m')"
  shows "alloc_inv x' m' L (block_addrs (unat (block_elements x) - 1) (cell_size x) (brk m))"
    and "freelist x' = brk m" "0 < brk m"
    and "\<And>a. a < brk m \<Longrightarrow> nxt m' a = nxt m a"
    and "atom_size x' = atom_size x" "block_elements x' = block_elements x" "limit m' = limit m"
proof -
  let ?bs = "block_addrs (unat (block_elements x) - 1) (cell_size x) (brk m)"
  have sz: "0 < brk m" "8 \<le> cell_size x" "0 < block_elements x" using inv by (auto simp: alloc_inv_def)
  then have pos: "0 < cell_size x" "0 < unat (block_elements x)" by (linarith, simp add: unat_gt_0 word_gt_0)
  have be: "(unat (block_elements x) - 1 + 1) * cell_size x = block_bytes x" using pos(2) by simp
  have bnd: "\<And>q. q \<in> set ?bs \<Longrightarrow> brk m \<le> q \<and> q + cell_size x \<le> brk m + block_bytes x"
    using block_addrs_bounds [OF pos(1)] be by metis
  from r refill_eq [OF sz] have x': "x' = x\<lparr>freelist := brk m\<rparr>"
    and m': "m' = m\<lparr>brk := brk m + block_bytes x,
              nxt := link_atoms (unat (block_elements x) - 1) (cell_size x) (brk m) (nxt m)\<rparr>"
    by (simp_all split: if_splits)
  have live: "\<And>p. p \<in> L \<Longrightarrow> p + cell_size x \<le> brk m" using inv by (auto simp: alloc_inv_def)
  have ap: "apart (cell_size x) (set ?bs \<union> L)"
    unfolding apart_def
  proof (intro ballI impI)
    fix p q assume p: "p \<in> set ?bs \<union> L" and q: "q \<in> set ?bs \<union> L" and lt: "p < q"
    have b: "apart (cell_size x) (set ?bs)" by (rule block_addrs_apart [OF pos(1)])
    have l: "apart (cell_size x) L" using inv by (simp add: alloc_inv_def)
    have "q \<in> L \<Longrightarrow> p \<in> L" using lt bnd [of p] live [of q] p by force
    with p q lt b l bnd [of q] live [of p] show "p + cell_size x \<le> q"
      unfolding apart_def by auto
  qed
  have ch: "chain (nxt m') (freelist x') ?bs"
    using chain_link_atoms [OF pos(1) sz(1)] by (simp add: x' m')
  have dj: "p \<notin> L" if "p \<in> set ?bs" for p
    using bnd [OF that] live [of p] pos(1) by auto
  have inb: "p + cell_size x \<le> brk m'" if "p \<in> set ?bs \<union> L" for p
    using that bnd [of p] live [of p] by (auto simp: m')
  show "alloc_inv x' m' L ?bs"
    unfolding alloc_inv_def
    using inv ap ch dj inb by (auto simp: alloc_inv_def x' m')
  show "freelist x' = brk m" "0 < brk m" "atom_size x' = atom_size x"
    "block_elements x' = block_elements x" "limit m' = limit m" using sz by (auto simp: x' m')
  show "nxt m' a = nxt m a" if "a < brk m" for a
  proof -
    have "a \<notin> set ?bs" using bnd [of a] that by auto
    then show ?thesis by (simp add: m' link_atoms_other [OF pos(1)])
  qed
qed

text \<open>
  The interface of the allocator to its clients: what a client may rely on when it takes a cell
  and when it gives one back.
\<close>

lemma apart_subset: "apart sz S \<Longrightarrow> T \<subseteq> S \<Longrightarrow> apart sz T"
  by (auto simp: apart_def)

lemma take_cell_inv:
  assumes inv: "alloc_inv x m L fs" and ne: "freelist x \<noteq> NULL"
  shows "\<exists>fs'. fs = freelist x # fs' \<and>
     alloc_inv (x\<lparr>freelist := nxt m (freelist x)\<rparr>) (m\<lparr>nxt := (nxt m)(freelist x := NULL)\<rparr>)
       (insert (freelist x) L) fs'"
proof -
  from inv ne obtain fs' where fs: "fs = freelist x # fs'"
    and ch: "chain (nxt m) (nxt m (freelist x)) fs'"
    by (cases fs) (auto simp: alloc_inv_def)
  have "distinct fs" using inv by (auto simp: alloc_inv_def dest: chain_distinct)
  with fs have "freelist x \<notin> set fs'" by simp
  with ch have ch': "chain ((nxt m)(freelist x := NULL)) (nxt m (freelist x)) fs'"
    by (simp add: chain_simps)
  have "set fs' \<union> insert (freelist x) L = set fs \<union> L" using fs by auto
  with inv fs ch' \<open>freelist x \<notin> set fs'\<close> ne show ?thesis
    by (auto simp: alloc_inv_def)
qed

lemma new_atom_unfold:
  assumes "alloc_inv x m L fs"
  shows "pdp_fastalloc_new_atom x m =
     do { (x, m) \<leftarrow> (if freelist x = NULL then pdp_fastalloc_refill_freelist x m else Some (x, m));
          Some (freelist x, x\<lparr>freelist := nxt m (freelist x)\<rparr>, m\<lparr>nxt := (nxt m)(freelist x := NULL)\<rparr>) }"
proof (cases "freelist x = NULL")
  case True
  with assms have inv: "alloc_inv x m L []" by (auto simp: alloc_inv_def)
  have "freelist x' \<noteq> NULL" if "pdp_fastalloc_refill_freelist x m = Some (x', m')" for x' m'
    using refill_inv(2,3) [OF inv that] by simp
  then have "refill_loop x m = pdp_fastalloc_refill_freelist x m"
    using True refill_loop.simps [of "fst r" "snd r" for r]
    by (subst refill_loop.simps) (auto split: option.splits)
  then show ?thesis using True by (simp add: pdp_fastalloc_new_atom_def Let_def)
qed (simp add: pdp_fastalloc_new_atom_def refill_loop.simps Let_def)

lemma new_atom_ok:
  assumes inv: "alloc_inv x m L fs" and r: "pdp_fastalloc_new_atom x m = Some (a, x', m')"
  shows "a \<noteq> NULL" "a \<notin> L" "\<exists>fs'. alloc_inv x' m' (insert a L) fs'"
    and "\<And>b. b \<in> L \<Longrightarrow> nxt m' b = nxt m b" and "nxt m' a = NULL"
    and "atom_size x' = atom_size x" "block_elements x' = block_elements x" "limit m' = limit m"
proof -
  from r obtain y n where yn: "(if freelist x = NULL then pdp_fastalloc_refill_freelist x m else Some (x, m)) = Some (y, n)"
    and res: "a = freelist y" "x' = y\<lparr>freelist := nxt n (freelist y)\<rparr>" "m' = n\<lparr>nxt := (nxt n)(freelist y := NULL)\<rparr>"
    by (auto simp: new_atom_unfold [OF inv] bind_eq_Some_conv)
  have "\<exists>gs. alloc_inv y n L gs \<and> freelist y \<noteq> NULL \<and> (\<forall>b\<in>L. nxt n b = nxt m b) \<and>
      atom_size y = atom_size x \<and> block_elements y = block_elements x \<and> limit n = limit m"
  proof (cases "freelist x = NULL")
    case True
    with inv have inv0: "alloc_inv x m L []" by (auto simp: alloc_inv_def)
    from True yn have r': "pdp_fastalloc_refill_freelist x m = Some (y, n)" by simp
    note I = refill_inv [OF inv0 r']
    have "b < brk m" if "b \<in> L" for b
    proof -
      have "b + cell_size x \<le> brk m" "8 \<le> cell_size x" using inv that by (auto simp: alloc_inv_def)
      then show ?thesis by linarith
    qed
    with I(4) have "\<forall>b\<in>L. nxt n b = nxt m b" by blast
    moreover have "freelist y \<noteq> NULL" using I(2,3) by simp
    ultimately show ?thesis using I(1,5,6,7) by blast
  next
    case False
    with yn inv show ?thesis by auto
  qed
  then obtain gs where gs: "alloc_inv y n L gs" "freelist y \<noteq> NULL" "\<forall>b\<in>L. nxt n b = nxt m b"
    "atom_size y = atom_size x" "block_elements y = block_elements x" "limit n = limit m" by blast
  from take_cell_inv [OF gs(1,2)] obtain fs' where fs': "gs = a # fs'" "alloc_inv x' m' (insert a L) fs'"
    by (auto simp: res)
  from gs(1) fs'(1) have "a \<notin> L" by (auto simp: alloc_inv_def)
  then show "a \<noteq> NULL" "a \<notin> L" "\<exists>fs'. alloc_inv x' m' (insert a L) fs'"
    "nxt m' a = NULL" "\<And>b. b \<in> L \<Longrightarrow> nxt m' b = nxt m b"
    "atom_size x' = atom_size x" "block_elements x' = block_elements x" "limit m' = limit m"
    using gs fs' by (auto simp: res)
qed

text \<open>A new cell can be had when the free list is not empty or one more block fits.\<close>

lemma new_atom_returns:
  assumes "alloc_inv x m L fs"
  shows "pdp_fastalloc_new_atom x m \<noteq> None \<longleftrightarrow> fs \<noteq> [] \<or> fits x m"
proof -
  have z: "0 < brk m" "8 \<le> cell_size x" "0 < block_elements x" using assms by (simp_all add: alloc_inv_def)
  have "freelist x = NULL \<longleftrightarrow> fs = []" using assms by (cases fs) (auto simp: alloc_inv_def)
  then show ?thesis by (auto simp: new_atom_unfold [OF assms] refill_eq [OF z])
qed

lemma save_atom_ok:
  assumes inv: "alloc_inv x m L fs" and "a \<in> L"
    and r: "pdp_fastalloc_save_atom x a m = (x', m')"
  shows "alloc_inv x' m' (L - {a}) (a # fs)" and "\<And>b. b \<noteq> a \<Longrightarrow> nxt m' b = nxt m b"
proof -
  have "a \<notin> set fs" "a \<noteq> NULL" using assms by (auto simp: alloc_inv_def)
  moreover have "set (a # fs) \<union> (L - {a}) = set fs \<union> L" using assms(2) by auto
  ultimately show "alloc_inv x' m' (L - {a}) (a # fs)"
    using inv r by (auto simp: alloc_inv_def pdp_fastalloc_save_atom_def chain_simps)
  show "\<And>b. b \<noteq> a \<Longrightarrow> nxt m' b = nxt m b"
    using r by (auto simp: pdp_fastalloc_save_atom_def)
qed

lemma fastalloc_new_inv:
  "0 < brk m \<Longrightarrow> alloc_inv (pdp_fastalloc_new sz) m {} []"
  by (auto simp: alloc_inv_def pdp_fastalloc_new_def PDP_FASTALLOC_BLOCK_ELEMENTS_def apart_def word_le_nat_alt word_less_nat_alt)

section \<open>Memory without limit\<close>

text \<open>\<open>endless x m L\<close>: an allocator with the live cells \<open>L\<close> whose requests for blocks are always met.\<close>

definition endless :: "t_pdp_fastalloc \<Rightarrow> mem \<Rightarrow> ptr set \<Rightarrow> bool" where
  "endless x m L \<longleftrightarrow> limit m = None \<and> block_bytes x < 2 ^ 31 \<and> (\<exists>fs. alloc_inv x m L fs)"

lemma endless_new_atom:
  assumes "endless x m L"
  shows "\<exists>a x' m'. pdp_fastalloc_new_atom x m = Some (a, x', m') \<and> a \<noteq> NULL \<and> a \<notin> L \<and> endless x' m' (insert a L) \<and>
    (\<forall>b\<in>L. nxt m' b = nxt m b)"
proof -
  from assms obtain fs where fs: "alloc_inv x m L fs" "fits x m" by (auto simp: endless_def fits_def has_memory_def)
  with new_atom_returns [OF fs(1)] obtain a x' m' where r: "pdp_fastalloc_new_atom x m = Some (a, x', m')" by auto
  note ok = new_atom_ok [OF fs(1) r]
  have "endless x' m' (insert a L)" using assms ok(3,6-8) by (simp add: endless_def)
  with r ok(1,2,4) show ?thesis by blast
qed

lemma endless_save_atom:
  assumes "endless x m L" "a \<in> L" "pdp_fastalloc_save_atom x a m = (x', m')"
  shows "endless x' m' (L - {a})" "\<And>b. b \<noteq> a \<Longrightarrow> nxt m' b = nxt m b"
proof -
  from assms(1) obtain fs where fs: "alloc_inv x m L fs" by (auto simp: endless_def)
  note ok = save_atom_ok [OF fs assms(2,3)]
  have "atom_size x' = atom_size x" "block_elements x' = block_elements x" "limit m' = limit m"
    using assms(3) by (auto simp: pdp_fastalloc_save_atom_def)
  then show "endless x' m' (L - {a})" using assms(1) ok(1) by (auto simp: endless_def)
  show "\<And>b. b \<noteq> a \<Longrightarrow> nxt m' b = nxt m b" by (rule ok(2))
qed

lemma endless_new:
  "0 < brk m \<Longrightarrow> limit m = None \<Longrightarrow> unat sz < 524288 \<Longrightarrow> endless (pdp_fastalloc_new sz) m {}"
  using fastalloc_new_inv [of m sz]
  by (auto simp: endless_def pdp_fastalloc_new_def PDP_FASTALLOC_BLOCK_ELEMENTS_def)

lemma endless_nonnull: "endless x m L \<Longrightarrow> NULL \<notin> L"
  by (auto simp: endless_def alloc_inv_def)

section \<open>Properties\<close>

lemma apart_disjoint: "apart sz S \<Longrightarrow> p \<in> S \<Longrightarrow> q \<in> S \<Longrightarrow> p \<noteq> q \<Longrightarrow> p + sz \<le> q \<or> q + sz \<le> p"
  unfolding apart_def by (meson linorder_neqE_nat)

text \<open>
  C18: \<open>pdp_fastalloc_new_atom\<close> returns exactly when the free list has a cell or one more block fits (its
  size, a 32-bit product passed as an \<open>int\<close>, stays below \<open>2^31\<close> and \<open>malloc\<close> has the memory); otherwise it writes
  through \<open>NULL\<close> or past the block. The cell it returns is not \<open>NULL\<close> and overlaps no live cell, whether it
  came from the free list or from a fresh block; no live cell is written, and the free list and the
  cell sizes stay well-formed with the new cell live.
\<close>

theorem fastalloc_new_atom_fresh:
  assumes inv: "alloc_inv x m L fs"
  shows "(pdp_fastalloc_new_atom x m \<noteq> None \<longleftrightarrow> fs \<noteq> [] \<or> fits x m) \<and>
    (\<forall>a x' m'. pdp_fastalloc_new_atom x m = Some (a, x', m') \<longrightarrow>
      a \<noteq> NULL \<and> a \<notin> L \<and>
      (\<forall>b\<in>L. (a + cell_size x' \<le> b \<or> b + cell_size x' \<le> a) \<and> nxt m' b = nxt m b) \<and>
      (\<exists>fs'. alloc_inv x' m' (insert a L) fs'))"
proof (intro conjI new_atom_returns [OF inv] allI impI)
  fix a x' m' assume r: "pdp_fastalloc_new_atom x m = Some (a, x', m')"
  note ok = new_atom_ok [OF inv r]
  show "a \<noteq> NULL" "a \<notin> L" "\<exists>fs'. alloc_inv x' m' (insert a L) fs'" by (fact ok)+
  from ok(3) obtain fs' where "alloc_inv x' m' (insert a L) fs'" by blast
  then have "apart (cell_size x') (insert a L)" by (auto simp: alloc_inv_def intro: apart_subset)
  then show "\<forall>b\<in>L. (a + cell_size x' \<le> b \<or> b + cell_size x' \<le> a) \<and> nxt m' b = nxt m b"
    using apart_disjoint [of "cell_size x'" "insert a L" a] ok(2,4) by auto
qed

definition small_alloc :: t_pdp_fastalloc where
  "small_alloc = \<lparr>atom_size = 8, block_elements = 2, freelist = NULL\<rparr>"

definition empty_mem :: mem where
  "empty_mem = \<lparr>nxt = (\<lambda>_. NULL), brk = 8, limit = Some 32\<rparr>"

lemma small_alloc_inv: "alloc_inv small_alloc empty_mem {} []"
  by (simp add: alloc_inv_def small_alloc_def empty_mem_def apart_def)

lemma small_alloc_new:
  "pdp_fastalloc_new_atom small_alloc empty_mem =
     Some (8, small_alloc\<lparr>freelist := 16\<rparr>, \<lparr>nxt = (\<lambda>_. NULL)(8 := 16, 16 := NULL, 8 := NULL), brk = 24, limit = Some 32\<rparr>)"
  by (subst new_atom_unfold [OF small_alloc_inv], subst refill_eq)
    (simp_all add: small_alloc_def empty_mem_def fits_def has_memory_def)

text \<open>Cells of a megabyte: the size of a block wraps to 0.\<close>

definition huge_alloc :: t_pdp_fastalloc where
  "huge_alloc = pdp_fastalloc_new 1048576"

theorem fastalloc_new_atom_fresh_witness:
  "(8::nat) \<noteq> NULL \<and>
   (\<exists>fs'. alloc_inv (small_alloc\<lparr>freelist := 16\<rparr>)
     \<lparr>nxt = (\<lambda>_. NULL)(8 := 16, 16 := NULL, 8 := NULL), brk = 24, limit = Some 32\<rparr> (insert 8 {}) fs') \<and>
   pdp_fastalloc_new_atom huge_alloc empty_mem = None"
proof -
  have "alloc_inv huge_alloc empty_mem {} []" unfolding huge_alloc_def by (rule fastalloc_new_inv) (simp add: empty_mem_def)
  moreover have "\<not> fits huge_alloc empty_mem"
    by (simp add: fits_def huge_alloc_def pdp_fastalloc_new_def PDP_FASTALLOC_BLOCK_ELEMENTS_def)
  ultimately have "pdp_fastalloc_new_atom huge_alloc empty_mem = None" using fastalloc_new_atom_fresh by blast
  then show ?thesis using fastalloc_new_atom_fresh [OF small_alloc_inv] small_alloc_new by blast
qed

end
