(* ===== verification/PdpList.thy ===== *)
theory PdpList
  imports Mem
begin

text \<open>
  The linked list of \<^verbatim>\<open>system/kernel/pdp_list.c\<close> on an explicit heap.

  A \<open>t_pdp_atom\<close> is an address with three fields, \<open>next\<close> (the first word, shared with the free
  list of the allocator: \<open>nxt (a_mem h)\<close>), the word \<open>a_w\<close> and its type tag \<open>a_t\<close>. The union
  \<open>t_pdp_word\<close> is its 64 bits; \<open>w_int\<close> and \<open>w_packet\<close> read the low half. A \<open>t_pdp_list\<close> header is
  the record of its three fields at an address. Every operation takes the heap and returns it;
  \<open>None\<close> is a dereference of \<open>NULL\<close>. The lists are modelled as long as memory lasts: a cell that
  \<open>pdp_fastalloc_new_atom\<close> cannot deliver has no specified value (\<open>the\<close>), and \<open>lists_inv\<close> is stated for a memory
  without limit.

  \<open>lists_inv\<close> relates a heap to the lists that live in it; each operation is shown to act on this
  abstraction as the obvious list operation, leaving all other lists alone.
\<close>

datatype t_pdp_word_type =
  a_undef | a_pointer | a_float | a_int | a_symbol | a_packet | a_list | a_atom_pointer
| a_forthword | a_vmword | a_vmmacro

type_synonym t_pdp_word = "64 word"

definition w_int :: "t_pdp_word \<Rightarrow> 32 word" where
  "w_int w = ucast w"

text \<open>An assignment to \<open>w_int\<close> leaves the high half of the union as it is.\<close>

definition put_w_int :: "32 word \<Rightarrow> t_pdp_word \<Rightarrow> t_pdp_word" where
  "put_w_int i w = (w AND NOT (mask 32)) OR ucast i"

record t_pdp_list =
  elements :: int
  first :: ptr
  last_atom :: ptr

record pheap =
  a_mem :: mem
  a_t :: "ptr \<Rightarrow> t_pdp_word_type"
  a_w :: "ptr \<Rightarrow> t_pdp_word"
  l_mem :: mem
  l_hdr :: "ptr \<Rightarrow> t_pdp_list"
  fast_atom_allocator :: t_pdp_fastalloc
  fast_list_allocator :: t_pdp_fastalloc

section \<open>Field access and allocation\<close>

abbreviation a_next :: "pheap \<Rightarrow> ptr \<Rightarrow> ptr" where
  "a_next h a \<equiv> nxt (a_mem h) a"

definition set_next :: "ptr \<Rightarrow> ptr \<Rightarrow> pheap \<Rightarrow> pheap" where
  "set_next a q h = h\<lparr>a_mem := (a_mem h)\<lparr>nxt := (nxt (a_mem h))(a := q)\<rparr>\<rparr>"

definition set_tw :: "ptr \<Rightarrow> t_pdp_word_type \<Rightarrow> t_pdp_word \<Rightarrow> pheap \<Rightarrow> pheap" where
  "set_tw a t w h = h\<lparr>a_t := (a_t h)(a := t), a_w := (a_w h)(a := w)\<rparr>"

definition set_hdr :: "ptr \<Rightarrow> t_pdp_list \<Rightarrow> pheap \<Rightarrow> pheap" where
  "set_hdr l r h = h\<lparr>l_hdr := (l_hdr h)(l := r)\<rparr>"

definition PDP_ATOM_ALLOC :: "pheap \<Rightarrow> ptr \<times> pheap" where
  "PDP_ATOM_ALLOC h =
     (let (a, x, m) = the (pdp_fastalloc_new_atom (fast_atom_allocator h) (a_mem h))
      in (a, h\<lparr>fast_atom_allocator := x, a_mem := m\<rparr>))"

definition PDP_ATOM_DEALLOC :: "ptr \<Rightarrow> pheap \<Rightarrow> pheap" where
  "PDP_ATOM_DEALLOC a h =
     (let (x, m) = pdp_fastalloc_save_atom (fast_atom_allocator h) a (a_mem h)
      in h\<lparr>fast_atom_allocator := x, a_mem := m\<rparr>)"

definition PDP_LIST_ALLOC :: "pheap \<Rightarrow> ptr \<times> pheap" where
  "PDP_LIST_ALLOC h =
     (let (l, x, m) = the (pdp_fastalloc_new_atom (fast_list_allocator h) (l_mem h))
      in (l, h\<lparr>fast_list_allocator := x, l_mem := m\<rparr>))"

definition pdp_list_dealloc :: "ptr \<Rightarrow> pheap \<Rightarrow> pheap" where
  "pdp_list_dealloc l h =
     (let (x, m) = pdp_fastalloc_save_atom (fast_list_allocator h) l (l_mem h)
      in h\<lparr>fast_list_allocator := x, l_mem := m\<rparr>)"

text \<open>\<open>pdp_list_setup\<close>; on LP64 \<open>sizeof(t_pdp_atom)\<close> and \<open>sizeof(t_pdp_list)\<close> are 24.\<close>

definition pdp_list_setup :: "pheap \<Rightarrow> pheap" where
  "pdp_list_setup h = h\<lparr>fast_atom_allocator := pdp_fastalloc_new 24,
                        fast_list_allocator := pdp_fastalloc_new 24\<rparr>"

section \<open>Creation and destruction\<close>

fun list_new_loop :: "nat \<Rightarrow> ptr \<Rightarrow> pheap \<Rightarrow> pheap" where
  "list_new_loop 0 l h = h"
| "list_new_loop (Suc n) l h =
     (let (a, h) = PDP_ATOM_ALLOC h;
          h = set_hdr l ((l_hdr h l)\<lparr>elements := elements (l_hdr h l) + 1\<rparr>) h;
          h = set_tw a a_undef (put_w_int 0 (a_w h a)) h;
          h = set_next a (first (l_hdr h l)) h;
          h = set_hdr l ((l_hdr h l)\<lparr>first := a\<rparr>) h
      in list_new_loop n l h)"

definition pdp_list_new :: "nat \<Rightarrow> pheap \<Rightarrow> ptr \<times> pheap" where
  "pdp_list_new n h =
     (let (l, h) = PDP_LIST_ALLOC h;
          h = set_hdr l ((l_hdr h l)\<lparr>elements := 0\<rparr>) h
      in if n = 0
         then (l, set_hdr l ((l_hdr h l)\<lparr>first := NULL, last_atom := NULL\<rparr>) h)
         else let (a, h) = PDP_ATOM_ALLOC h;
                  h = set_hdr l ((l_hdr h l)\<lparr>elements := elements (l_hdr h l) + 1\<rparr>) h;
                  h = set_tw a a_undef (put_w_int 0 (a_w h a)) h;
                  h = set_next a NULL h;
                  h = set_hdr l ((l_hdr h l)\<lparr>first := a, last_atom := a\<rparr>) h
              in (l, list_new_loop (n - 1) l h))"

text \<open>
  The deallocation loop of \<open>pdp_list_clear\<close>: \<open>while (a) { next = a->next; dealloc(a); a = next; }\<close>.
  A cyclic list would loop for ever; \<open>None\<close>.
\<close>

partial_function (option) list_clear_loop :: "ptr \<Rightarrow> pheap \<Rightarrow> pheap option" where [code]:
  "list_clear_loop a h =
     (if a = NULL then Some h
      else list_clear_loop (a_next h a) (PDP_ATOM_DEALLOC a h))"

definition pdp_list_clear :: "ptr \<Rightarrow> pheap \<Rightarrow> pheap option" where
  "pdp_list_clear l h =
     do { h \<leftarrow> list_clear_loop (first (l_hdr h l)) h;
          Some (set_hdr l \<lparr>elements = 0, first = NULL, last_atom = NULL\<rparr> h) }"

definition pdp_list_free :: "ptr \<Rightarrow> pheap \<Rightarrow> pheap option" where
  "pdp_list_free l h =
     (if l \<noteq> NULL
      then do { h \<leftarrow> pdp_list_clear l h; Some (pdp_list_dealloc l h) }
      else Some h)"

definition pdp_atom_new :: "pheap \<Rightarrow> ptr \<times> pheap" where
  "pdp_atom_new h = (let (a, h) = PDP_ATOM_ALLOC h in (a, set_next a NULL h))"

definition pdp_atom_free :: "ptr \<Rightarrow> pheap \<Rightarrow> pheap" where
  "pdp_atom_free a h = PDP_ATOM_DEALLOC a h"

section \<open>Adding and removing\<close>

definition pdp_list_add_atom :: "ptr \<Rightarrow> ptr \<Rightarrow> pheap \<Rightarrow> pheap" where
  "pdp_list_add_atom l a h =
     (let h = set_next a (first (l_hdr h l)) h;
          r = l_hdr h l;
          r = r\<lparr>first := a, elements := elements r + 1\<rparr>;
          r = (if last_atom r = NULL then r\<lparr>last_atom := a\<rparr> else r)
      in set_hdr l r h)"

definition pdp_list_add :: "ptr \<Rightarrow> t_pdp_word_type \<Rightarrow> t_pdp_word \<Rightarrow> pheap \<Rightarrow> pheap" where
  "pdp_list_add l t w h =
     (let (a, h) = PDP_ATOM_ALLOC h in pdp_list_add_atom l a (set_tw a t w h))"

definition pdp_list_add_back_atom :: "ptr \<Rightarrow> ptr \<Rightarrow> pheap \<Rightarrow> pheap" where
  "pdp_list_add_back_atom l a h =
     (let h = set_hdr l ((l_hdr h l)\<lparr>elements := elements (l_hdr h l) + 1\<rparr>) h;
          h = set_next a NULL h;
          h = (if last_atom (l_hdr h l) \<noteq> NULL
               then set_next (last_atom (l_hdr h l)) a h
               else set_hdr l ((l_hdr h l)\<lparr>first := a\<rparr>) h)
      in set_hdr l ((l_hdr h l)\<lparr>last_atom := a\<rparr>) h)"

definition pdp_list_add_back :: "ptr \<Rightarrow> t_pdp_word_type \<Rightarrow> t_pdp_word \<Rightarrow> pheap \<Rightarrow> pheap" where
  "pdp_list_add_back l t w h =
     (let (a, h) = PDP_ATOM_ALLOC h in pdp_list_add_back_atom l a (set_tw a t w h))"

definition pdp_list_size :: "ptr \<Rightarrow> pheap \<Rightarrow> int" where
  "pdp_list_size l h = elements (l_hdr h l)"

definition pdp_list_pop_atom :: "ptr \<Rightarrow> pheap \<Rightarrow> ptr \<times> pheap" where
  "pdp_list_pop_atom l h =
     (let a = first (l_hdr h l)
      in if a = NULL then (a, h)
         else let r = (l_hdr h l)\<lparr>first := a_next h a, elements := elements (l_hdr h l) - 1\<rparr>;
                  r = (if first r = NULL then r\<lparr>last_atom := NULL\<rparr> else r)
              in (a, set_next a NULL (set_hdr l r h)))"

definition pdp_list_pop :: "ptr \<Rightarrow> pheap \<Rightarrow> (t_pdp_word \<times> pheap) option" where
  "pdp_list_pop l h =
     (let (a, h) = pdp_list_pop_atom l h
      in if a = NULL then None else Some (a_w h a, PDP_ATOM_DEALLOC a h))"

text \<open>\<open>pdp_list_pop_push\<close>, with its two tests as they stand in the source.\<close>

definition pdp_list_pop_push :: "ptr \<Rightarrow> ptr \<Rightarrow> pheap \<Rightarrow> pheap option" where
  "pdp_list_pop_push source dest h =
     (let a = first (l_hdr h source);
          r = (l_hdr h source)\<lparr>elements := elements (l_hdr h source) - 1\<rparr>;
          r = (if elements r \<noteq> 0 then r\<lparr>last_atom := NULL\<rparr> else r)
      in if a = NULL then None
         else let h = set_hdr source (r\<lparr>first := a_next h a\<rparr>) h;
                  h = set_next a (first (l_hdr h dest)) h;
                  d = l_hdr h dest;
                  d = (if elements d \<noteq> 0
                       then d\<lparr>elements := elements d + 1, last_atom := a\<rparr>
                       else d\<lparr>elements := elements d + 1\<rparr>)
              in Some (set_hdr dest (d\<lparr>first := a\<rparr>) h))"

fun list_index_loop :: "nat \<Rightarrow> ptr \<Rightarrow> pheap \<Rightarrow> t_pdp_word option" where
  "list_index_loop 0 a h = (if a = NULL then None else Some (a_w h a))"
| "list_index_loop (Suc n) a h = (if a = NULL then None else list_index_loop n (a_next h a) h)"

definition pdp_list_index :: "ptr \<Rightarrow> nat \<Rightarrow> pheap \<Rightarrow> t_pdp_word option" where
  "pdp_list_index l i h = list_index_loop i (first (l_hdr h l)) h"

text \<open>
  The search loop of \<open>pdp_list_remove\<close>. The local \<open>head\<close> atom is the pointer \<open>NULL\<close> here: \<open>prev\<close>
  is the atom before the candidate, \<open>NULL\<close> when that is \<open>head\<close>, whose \<open>next\<close> is the list's first.
\<close>

partial_function (option) list_remove_loop ::
  "ptr \<Rightarrow> ptr \<Rightarrow> ptr \<Rightarrow> t_pdp_word_type \<Rightarrow> t_pdp_word \<Rightarrow> pheap \<Rightarrow> pheap option" where [code]:
  "list_remove_loop prev a l t w h =
     (if a = NULL then Some h
      else if w_int (a_w h a) = w_int w \<and> a_t h a = t
      then let nx = a_next h a;
               h = (if prev = NULL then h else set_next prev nx h);
               h = PDP_ATOM_DEALLOC a h;
               r = l_hdr h l;
               r = r\<lparr>elements := elements r - 1,
                     first := (if prev = NULL then nx else first r)\<rparr>;
               r = (if last_atom r = a then r\<lparr>last_atom := prev\<rparr> else r)
           in Some (set_hdr l r h)
      else list_remove_loop a (a_next h a) l t w h)"

definition pdp_list_remove :: "ptr \<Rightarrow> t_pdp_word_type \<Rightarrow> t_pdp_word \<Rightarrow> pheap \<Rightarrow> pheap option" where
  "pdp_list_remove l t w h = list_remove_loop NULL (first (l_hdr h l)) l t w h"

section \<open>Copying, joining, reversing\<close>

partial_function (option) copy_reverse_loop :: "ptr \<Rightarrow> ptr \<Rightarrow> pheap \<Rightarrow> pheap option" where [code]:
  "copy_reverse_loop a newlist h =
     (if a = NULL then Some h
      else let h' = pdp_list_add newlist (a_t h a) (a_w h a) h
           in copy_reverse_loop (a_next h' a) newlist h')"

definition pdp_list_copy_reverse :: "ptr \<Rightarrow> pheap \<Rightarrow> (ptr \<times> pheap) option" where
  "pdp_list_copy_reverse l h =
     (let (newlist, h) = pdp_list_new 0 h
      in do { h \<leftarrow> copy_reverse_loop (first (l_hdr h l)) newlist h; Some (newlist, h) })"

partial_function (option) list_copy_loop :: "ptr \<Rightarrow> ptr \<Rightarrow> pheap \<Rightarrow> pheap option" where [code]:
  "list_copy_loop a_src a_dst h =
     (if a_src = NULL then Some h
      else if a_dst = NULL then None
      else let h = set_tw a_dst (a_t h a_src) (a_w h a_src) h
           in list_copy_loop (a_next h a_src) (a_next h a_dst) h)"

definition pdp_list_copy :: "ptr \<Rightarrow> pheap \<Rightarrow> (ptr \<times> pheap) option" where
  "pdp_list_copy l h =
     (let (newlist, h) = pdp_list_new (nat (elements (l_hdr h l))) h
      in do { h \<leftarrow> list_copy_loop (first (l_hdr h l)) (first (l_hdr h newlist)) h;
              Some (newlist, h) })"

definition pdp_list_join :: "ptr \<Rightarrow> ptr \<Rightarrow> pheap \<Rightarrow> pheap" where
  "pdp_list_join l tail h =
     (let tr = l_hdr h tail;
          h = (if elements tr \<noteq> 0
               then let r = (l_hdr h l)\<lparr>elements := elements (l_hdr h l) + elements tr\<rparr>
                    in if last_atom r \<noteq> NULL
                       then set_hdr l (r\<lparr>last_atom := last_atom tr\<rparr>)
                              (set_next (last_atom r) (first tr) h)
                       else set_hdr l (r\<lparr>first := first tr, last_atom := last_atom tr\<rparr>) h
               else h)
      in pdp_list_dealloc tail h)"

definition pdp_list_cat :: "ptr \<Rightarrow> ptr \<Rightarrow> pheap \<Rightarrow> pheap option" where
  "pdp_list_cat l tail h =
     do { (tmp, h) \<leftarrow> pdp_list_copy tail h; Some (pdp_list_join l tmp h) }"

text \<open>
  \<open>pdp_list_reverse\<close> pops from a copy of the header on the stack (\<open>tmp\<close>) and adds to \<open>l\<close>; \<open>a\<close> is
  \<open>tmp.first\<close>, and the other fields of \<open>tmp\<close> are never read.
\<close>

partial_function (option) list_reverse_loop :: "ptr \<Rightarrow> ptr \<Rightarrow> pheap \<Rightarrow> pheap option" where [code]:
  "list_reverse_loop a l h =
     (if a = NULL then Some h
      else let nx = a_next h a; h = set_next a NULL h
           in list_reverse_loop nx l (pdp_list_add_atom l a h))"

definition pdp_list_reverse :: "ptr \<Rightarrow> pheap \<Rightarrow> pheap option" where
  "pdp_list_reverse l h =
     list_reverse_loop (first (l_hdr h l)) l
       (set_hdr l \<lparr>elements = 0, first = NULL, last_atom = NULL\<rparr> h)"

definition pdp_list_reverse_old :: "ptr \<Rightarrow> pheap \<Rightarrow> pheap option" where
  "pdp_list_reverse_old l h =
     do { (l2, h) \<leftarrow> pdp_list_copy_reverse l h;
          h \<leftarrow> pdp_list_clear l h;
          Some (pdp_list_dealloc l2 (set_hdr l (l_hdr h l2) h)) }"

partial_function (option) list_contains_loop ::
  "ptr \<Rightarrow> t_pdp_word_type \<Rightarrow> t_pdp_word \<Rightarrow> pheap \<Rightarrow> bool option" where [code]:
  "list_contains_loop a t w h =
     (if a = NULL then Some False
      else if w_int (a_w h a) = w_int w \<and> a_t h a = t then Some True
      else list_contains_loop (a_next h a) t w h)"

definition pdp_list_contains :: "ptr \<Rightarrow> t_pdp_word_type \<Rightarrow> t_pdp_word \<Rightarrow> pheap \<Rightarrow> bool option" where
  "pdp_list_contains l t w h = list_contains_loop (first (l_hdr h l)) t w h"

definition pdp_list_add_to_set ::
  "ptr \<Rightarrow> t_pdp_word_type \<Rightarrow> t_pdp_word \<Rightarrow> pheap \<Rightarrow> pheap option" where
  "pdp_list_add_to_set l t w h =
     do { c \<leftarrow> pdp_list_contains l t w h; Some (if c then h else pdp_list_add l t w h) }"


section \<open>The lists that live in a heap\<close>

type_synonym cell = "ptr \<times> t_pdp_word_type \<times> t_pdp_word"

abbreviation addrs :: "cell list \<Rightarrow> ptr set" where
  "addrs xs \<equiv> fst ` set xs"

definition is_list :: "pheap \<Rightarrow> ptr \<Rightarrow> cell list \<Rightarrow> bool" where
  "is_list h l xs \<longleftrightarrow>
     chain (nxt (a_mem h)) (first (l_hdr h l)) (map fst xs) \<and>
     last_atom (l_hdr h l) = (if xs = [] then NULL else fst (last xs)) \<and>
     elements (l_hdr h l) = int (length xs) \<and>
     (\<forall>x\<in>set xs. a_t h (fst x) = fst (snd x) \<and> a_w h (fst x) = snd (snd x))"

text \<open>
  \<open>lists_inv h H K D\<close>: \<open>K\<close> are the allocated headers, \<open>H\<close> maps the headers of complete lists to
  their cells, \<open>D\<close> are the allocated atoms that are in no complete list. Lists share no atom.
\<close>

definition owned :: "(ptr \<rightharpoonup> cell list) \<Rightarrow> ptr set" where
  "owned H = {a. \<exists>l xs. H l = Some xs \<and> a \<in> addrs xs}"

definition lists_inv ::
  "pheap \<Rightarrow> (ptr \<rightharpoonup> cell list) \<Rightarrow> ptr set \<Rightarrow> ptr set \<Rightarrow> bool" where
  "lists_inv h H K D \<longleftrightarrow>
     endless (fast_atom_allocator h) (a_mem h) (owned H \<union> D) \<and>
     endless (fast_list_allocator h) (l_mem h) K \<and>
     dom H \<subseteq> K \<and>
     (\<forall>l xs. H l = Some xs \<longrightarrow> is_list h l xs \<and> addrs xs \<inter> D = {}) \<and>
     (\<forall>l l' xs xs'. H l = Some xs \<longrightarrow> H l' = Some xs' \<longrightarrow> l \<noteq> l' \<longrightarrow> addrs xs \<inter> addrs xs' = {})"

lemma lists_invI:
  assumes "endless (fast_atom_allocator h) (a_mem h) (owned H \<union> D)"
    and "endless (fast_list_allocator h) (l_mem h) K" "dom H \<subseteq> K"
    and "\<And>l xs. H l = Some xs \<Longrightarrow> is_list h l xs" "\<And>l xs. H l = Some xs \<Longrightarrow> addrs xs \<inter> D = {}"
    and "\<And>l l' xs xs'. H l = Some xs \<Longrightarrow> H l' = Some xs' \<Longrightarrow> l \<noteq> l' \<Longrightarrow> addrs xs \<inter> addrs xs' = {}"
  shows "lists_inv h H K D"
  unfolding lists_inv_def
proof (intro conjI allI impI)
  fix l xs assume l: "H l = Some xs"
  show "is_list h l xs" "addrs xs \<inter> D = {}" using assms(4,5) [OF l] .
  fix l' xs' assume "H l' = Some xs'" "l \<noteq> l'"
  then show "addrs xs \<inter> addrs xs' = {}" by (rule assms(6) [OF l])
qed (fact assms)+

lemma lists_invD:
  assumes "lists_inv h H K D"
  shows "endless (fast_atom_allocator h) (a_mem h) (owned H \<union> D)"
    and "endless (fast_list_allocator h) (l_mem h) K" "dom H \<subseteq> K"
    and "\<And>l xs. H l = Some xs \<Longrightarrow> is_list h l xs" "\<And>l xs. H l = Some xs \<Longrightarrow> addrs xs \<inter> D = {}"
    and "\<And>l l' xs xs'. H l = Some xs \<Longrightarrow> H l' = Some xs' \<Longrightarrow> l \<noteq> l' \<Longrightarrow> addrs xs \<inter> addrs xs' = {}"
proof -
  note E = assms [unfolded lists_inv_def]
  show "endless (fast_atom_allocator h) (a_mem h) (owned H \<union> D)"
    by (rule E [THEN conjunct1])
  show "endless (fast_list_allocator h) (l_mem h) K"
    by (rule E [THEN conjunct2, THEN conjunct1])
  show "dom H \<subseteq> K" by (rule E [THEN conjunct2, THEN conjunct2, THEN conjunct1])
  note F = E [THEN conjunct2, THEN conjunct2, THEN conjunct2]
  show "is_list h l xs" "addrs xs \<inter> D = {}" if "H l = Some xs" for l xs
    using F [THEN conjunct1, rule_format, OF that] by blast+
  show "addrs xs \<inter> addrs xs' = {}" if "H l = Some xs" "H l' = Some xs'" "l \<noteq> l'" for l l' xs xs'
    by (rule F [THEN conjunct2, rule_format, OF that])
qed

named_theorems list_ops \<open>how an operation acts on the lists of a heap\<close>

lemma heap_field_simps [simp]:
  "l_hdr (set_next a q h) = l_hdr h" "a_t (set_next a q h) = a_t h" "a_w (set_next a q h) = a_w h"
  "l_mem (set_next a q h) = l_mem h" "nxt (a_mem (set_next a q h)) = (nxt (a_mem h))(a := q)"
  "brk (a_mem (set_next a q h)) = brk (a_mem h)"
  "limit (a_mem (set_next a q h)) = limit (a_mem h)"
  "fast_atom_allocator (set_next a q h) = fast_atom_allocator h"
  "fast_list_allocator (set_next a q h) = fast_list_allocator h"
  "l_hdr (set_tw a t w h) = l_hdr h" "a_t (set_tw a t w h) = (a_t h)(a := t)"
  "a_w (set_tw a t w h) = (a_w h)(a := w)" "a_mem (set_tw a t w h) = a_mem h"
  "l_mem (set_tw a t w h) = l_mem h"
  "fast_atom_allocator (set_tw a t w h) = fast_atom_allocator h"
  "fast_list_allocator (set_tw a t w h) = fast_list_allocator h"
  "l_hdr (set_hdr l r h) = (l_hdr h)(l := r)" "a_t (set_hdr l r h) = a_t h"
  "a_w (set_hdr l r h) = a_w h" "a_mem (set_hdr l r h) = a_mem h" "l_mem (set_hdr l r h) = l_mem h"
  "fast_atom_allocator (set_hdr l r h) = fast_atom_allocator h"
  "fast_list_allocator (set_hdr l r h) = fast_list_allocator h"
  by (simp_all add: set_next_def set_tw_def set_hdr_def)

lemma is_list_cong:
  assumes "l_hdr h' l = l_hdr h l"
    and "\<And>a. a \<in> addrs xs \<Longrightarrow> nxt (a_mem h') a = nxt (a_mem h) a \<and> a_t h' a = a_t h a \<and> a_w h' a = a_w h a"
  shows "is_list h' l xs = is_list h l xs"
proof -
  have "chain (nxt (a_mem h')) p (map fst xs) = chain (nxt (a_mem h)) p (map fst xs)" for p
    by (rule chain_cong) (use assms(2) in auto)
  with assms show ?thesis by (auto simp: is_list_def)
qed

lemma endless_cong:
  assumes "endless x m L" "brk m' = brk m" "limit m' = limit m" "\<And>a. a \<notin> L \<Longrightarrow> nxt m' a = nxt m a"
  shows "endless x m' L"
proof -
  from assms(1) obtain fs where fs: "alloc_inv x m L fs" by (auto simp: endless_def)
  have "chain (nxt m') (freelist x) fs = chain (nxt m) (freelist x) fs"
    by (rule chain_cong) (use fs assms(4) in \<open>auto simp: alloc_inv_def\<close>)
  with fs assms(2) have "alloc_inv x m' L fs" by (simp add: alloc_inv_def)
  with assms(1,3) show ?thesis by (auto simp: endless_def)
qed

text \<open>
  A change confined to detached atoms and detached headers keeps the invariant: the rule behind
  every field assignment of the code.
\<close>

lemma lists_inv_frame:
  assumes inv: "lists_inv h H K D"
    and same: "fast_atom_allocator h' = fast_atom_allocator h"
      "fast_list_allocator h' = fast_list_allocator h" "l_mem h' = l_mem h"
      "brk (a_mem h') = brk (a_mem h)" "limit (a_mem h') = limit (a_mem h)"
    and cells: "\<And>a. a \<notin> D \<Longrightarrow>
      nxt (a_mem h') a = nxt (a_mem h) a \<and> a_t h' a = a_t h a \<and> a_w h' a = a_w h a"
    and hdrs: "\<And>l. l \<in> dom H \<Longrightarrow> l_hdr h' l = l_hdr h l"
  shows "lists_inv h' H K D"
proof -
  have l: "is_list h' l xs = is_list h l xs" if "H l = Some xs" for l xs
  proof (rule is_list_cong)
    show "l_hdr h' l = l_hdr h l" using that by (intro hdrs) auto
    have "addrs xs \<inter> D = {}" using inv that by (auto simp: lists_inv_def)
    then show "nxt (a_mem h') a = nxt (a_mem h) a \<and> a_t h' a = a_t h a \<and> a_w h' a = a_w h a"
      if "a \<in> addrs xs" for a using that by (intro cells) blast
  qed
  from inv have "endless (fast_atom_allocator h) (a_mem h) (owned H \<union> D)"
    by (simp add: lists_inv_def)
  then have "endless (fast_atom_allocator h) (a_mem h') (owned H \<union> D)"
    by (rule endless_cong) (use same cells in auto)
  with inv l same show ?thesis by (auto simp: lists_inv_def)
qed

lemma set_next_inv: "lists_inv h H K D \<Longrightarrow> a \<in> D \<Longrightarrow> lists_inv (set_next a q h) H K D"
  by (rule lists_inv_frame) auto

lemma set_tw_inv: "lists_inv h H K D \<Longrightarrow> a \<in> D \<Longrightarrow> lists_inv (set_tw a t w h) H K D"
  by (rule lists_inv_frame) auto

lemma set_hdr_inv: "lists_inv h H K D \<Longrightarrow> H l = None \<Longrightarrow> lists_inv (set_hdr l r h) H K D"
  by (rule lists_inv_frame) auto

lemma owned_upd: "H l = None \<Longrightarrow> owned (H(l \<mapsto> xs)) = owned H \<union> addrs xs"
proof (intro set_eqI iffI)
  fix a assume l: "H l = None" and "a \<in> owned H \<union> addrs xs"
  then consider l' xs' where "H l' = Some xs'" "a \<in> addrs xs'" | "a \<in> addrs xs"
    by (auto simp: owned_def)
  then show "a \<in> owned (H(l \<mapsto> xs))"
  proof cases
    case 1
    with l have "(H(l \<mapsto> xs)) l' = Some xs'" by auto
    with 1 show ?thesis by (auto simp only: owned_def)
  next
    case 2
    have "(H(l \<mapsto> xs)) l = Some xs" by simp
    with 2 show ?thesis by (auto simp only: owned_def)
  qed
qed (auto simp: owned_def split: if_splits)

lemma owned_del: "H l = Some xs \<Longrightarrow> owned (H(l := None)) \<union> addrs xs = owned H"
  using owned_upd [of "H(l := None)" l xs] by (simp add: fun_upd_idem)

lemma owned_in: "H l = Some xs \<Longrightarrow> addrs xs \<subseteq> owned H"
  by (auto simp: owned_def)

lemma lists_inv_apart: "lists_inv h H K D \<Longrightarrow> H l = Some xs \<Longrightarrow> addrs xs \<inter> D = {}"
  unfolding lists_inv_def by blast

lemma lists_inv_lists: "lists_inv h H K D \<Longrightarrow> H l = Some xs \<Longrightarrow> is_list h l xs"
  unfolding lists_inv_def by blast

text \<open>Taking a list apart and putting one together.\<close>

lemma detach:
  assumes inv: "lists_inv h H K D" and l: "H l = Some xs"
  shows "lists_inv h (H(l := None)) K (D \<union> addrs xs)" "is_list h l xs" "addrs xs \<inter> D = {}" "l \<in> K"
proof -
  note D = lists_invD [OF inv]
  have eq: "owned (H(l := None)) \<union> (D \<union> addrs xs) = owned H \<union> D"
    using owned_del [of H l xs, OF l] by auto
  show "lists_inv h (H(l := None)) K (D \<union> addrs xs)"
  proof (rule lists_invI)
    fix k ys assume "(H(l := None)) k = Some ys"
    then have k: "H k = Some ys" "k \<noteq> l" by (simp_all split: if_splits)
    show "is_list h k ys" by (rule D(4) [OF k(1)])
    show "addrs ys \<inter> (D \<union> addrs xs) = {}" using D(5) [OF k(1)] D(6) [OF k(1) l k(2)] by blast
    fix k' ys' assume "(H(l := None)) k' = Some ys'" "k \<noteq> k'"
    then show "addrs ys \<inter> addrs ys' = {}" by (intro D(6) [OF k(1)]) (simp_all split: if_splits)
  qed (use D(1-3) in \<open>auto simp: eq\<close>)
  show "is_list h l xs" "addrs xs \<inter> D = {}" by (rule D(4,5) [OF l])+
  show "l \<in> K" using D(3) l by auto
qed

lemma attach:
  assumes inv: "lists_inv h H K D" and l: "H l = None" "l \<in> K"
    and xs: "is_list h l xs" "addrs xs \<subseteq> D"
  shows "lists_inv h (H(l \<mapsto> xs)) K (D - addrs xs)"
proof -
  note D = lists_invD [OF inv]
  have eq: "owned (H(l \<mapsto> xs)) \<union> (D - addrs xs) = owned H \<union> D"
    using owned_upd [of H l, OF l(1)] xs(2) by auto
  have dj: "addrs ys \<inter> addrs xs = {}" if "H k = Some ys" for k ys
    using D(5) [OF that] xs(2) by blast
  show ?thesis
  proof (rule lists_invI)
    fix k ys assume k: "(H(l \<mapsto> xs)) k = Some ys"
    show "is_list h k ys" using k D(4) xs(1) by (cases "k = l") simp_all
    show "addrs ys \<inter> (D - addrs xs) = {}"
    proof (cases "k = l")
      case False
      with k have "H k = Some ys" by simp
      from D(5) [OF this] show ?thesis by blast
    qed (use k in auto)
    fix k' ys' assume k': "(H(l \<mapsto> xs)) k' = Some ys'" "k \<noteq> k'"
    show "addrs ys \<inter> addrs ys' = {}"
    proof (cases "k = l \<or> k' = l")
      case True
      with k k' dj show ?thesis by (metis Int_commute fun_upd_apply option.inject)
    next
      case False
      with k k' show ?thesis by (intro D(6)) simp_all
    qed
  qed (use D(1-3) l(2) in \<open>auto simp: eq\<close>)
qed

text \<open>Allocation of atoms and headers.\<close>

lemma PDP_ATOM_ALLOC_inv:
  assumes inv: "lists_inv h H K D" and r: "PDP_ATOM_ALLOC h = (a, h')"
  shows "lists_inv h' H K (insert a D)" "a \<noteq> NULL" "a \<notin> D" "\<And>l xs. H l = Some xs \<Longrightarrow> a \<notin> addrs xs"
    "l_hdr h' = l_hdr h" "a_t h' = a_t h" "a_w h' = a_w h"
    "\<And>b. b \<in> D \<Longrightarrow> a_next h' b = a_next h b"
proof -
  let ?L = "owned H \<union> D"
  from endless_new_atom [OF lists_invD(1) [OF inv]] obtain b x m where
    b: "pdp_fastalloc_new_atom (fast_atom_allocator h) (a_mem h) = Some (b, x, m)" and
    b_ok: "b \<noteq> NULL" "b \<notin> ?L" "endless x m (insert b ?L)" "\<And>c. c \<in> ?L \<Longrightarrow> nxt m c = nxt (a_mem h) c" by blast
  then have a: "b = a" and h': "h' = h\<lparr>fast_atom_allocator := x, a_mem := m\<rparr>"
    using r by (simp_all add: PDP_ATOM_ALLOC_def)
  note ok = b_ok [unfolded a]
  show "a \<noteq> NULL" "a \<notin> D" "l_hdr h' = l_hdr h" "a_t h' = a_t h" "a_w h' = a_w h"
    using ok(1,2) by (simp_all add: h')
  show "\<And>b. b \<in> D \<Longrightarrow> a_next h' b = a_next h b" using ok(4) by (simp add: h')
  show na: "a \<notin> addrs xs" if "H l = Some xs" for l xs
    using ok(2) that by (auto simp: owned_def)
  have l: "is_list h' l xs = is_list h l xs" if "H l = Some xs" for l xs
  proof (rule is_list_cong)
    show "a_next h' b = a_next h b \<and> a_t h' b = a_t h b \<and> a_w h' b = a_w h b"
      if "b \<in> addrs xs" for b
      using that ok(4) [of b] owned_in [of H l xs, OF \<open>H l = Some xs\<close>] by (auto simp: h')
  qed (simp add: h')
  have at: "endless (fast_atom_allocator h') (a_mem h') (owned H \<union> insert a D)"
    using ok(3) by (simp add: h')
  have ap: "addrs xs \<inter> insert a D = {}" if "H l = Some xs" for l xs
    using na [OF that] lists_inv_apart [OF inv that] by blast
  have fl: "fast_list_allocator h' = fast_list_allocator h" "l_mem h' = l_mem h" by (simp_all add: h')
  show "lists_inv h' H K (insert a D)"
  proof (rule lists_invI)
    show "is_list h' l xs" if "H l = Some xs" for l xs
      using l [OF that] lists_invD(4) [OF inv that] by simp
    show "endless (fast_list_allocator h') (l_mem h') K"
      using lists_invD(2) [OF inv] by (simp only: fl)
  qed (rule at ap lists_invD(3,6) [OF inv]; assumption)+
qed

lemma PDP_ATOM_DEALLOC_inv:
  assumes inv: "lists_inv h H K D" and a: "a \<in> D"
  shows "lists_inv (PDP_ATOM_DEALLOC a h) H K (D - {a})"
    "l_hdr (PDP_ATOM_DEALLOC a h) = l_hdr h" "a_t (PDP_ATOM_DEALLOC a h) = a_t h"
    "a_w (PDP_ATOM_DEALLOC a h) = a_w h"
    "\<And>b. b \<noteq> a \<Longrightarrow> a_next (PDP_ATOM_DEALLOC a h) b = a_next h b"
proof -
  let ?L = "owned H \<union> D"
  let ?h = "PDP_ATOM_DEALLOC a h"
  obtain x m where n: "pdp_fastalloc_save_atom (fast_atom_allocator h) a (a_mem h) = (x, m)"
    by fastforce
  then have h': "?h = h\<lparr>fast_atom_allocator := x, a_mem := m\<rparr>"
    by (simp add: PDP_ATOM_DEALLOC_def)
  have "a \<in> ?L" using a by simp
  note ok = endless_save_atom [OF lists_invD(1) [OF inv] this n]
  show "l_hdr ?h = l_hdr h" "a_t ?h = a_t h" "a_w ?h = a_w h"
    "\<And>b. b \<noteq> a \<Longrightarrow> a_next ?h b = a_next h b" using ok(2) by (simp_all add: h')
  have na: "a \<notin> addrs xs" if "H l = Some xs" for l xs
    using lists_inv_apart [OF inv that] a by blast
  have l: "is_list ?h l xs = is_list h l xs" if "H l = Some xs" for l xs
  proof (rule is_list_cong)
    show "a_next ?h b = a_next h b \<and> a_t ?h b = a_t h b \<and> a_w ?h b = a_w h b"
      if "b \<in> addrs xs" for b using that ok(2) [of b] na [OF \<open>H l = Some xs\<close>] by (auto simp: h')
  qed (simp add: h')
  have eq: "?L - {a} = owned H \<union> (D - {a})" using na by (auto simp: owned_def)
  have at: "endless (fast_atom_allocator ?h) (a_mem ?h) (owned H \<union> (D - {a}))"
    using ok(1) unfolding eq by (auto simp: h')
  have ap: "addrs xs \<inter> (D - {a}) = {}" if "H l = Some xs" for l xs
    using lists_inv_apart [OF inv that] by blast
  have fl: "fast_list_allocator ?h = fast_list_allocator h" "l_mem ?h = l_mem h" by (simp_all add: h')
  show "lists_inv ?h H K (D - {a})"
  proof (rule lists_invI)
    show "is_list ?h l xs" if "H l = Some xs" for l xs
      using l [OF that] lists_invD(4) [OF inv that] by simp
    show "endless (fast_list_allocator ?h) (l_mem ?h) K"
      using lists_invD(2) [OF inv] by (simp only: fl)
  qed (rule at ap lists_invD(3,6) [OF inv]; assumption)+
qed

lemma PDP_LIST_ALLOC_inv:
  assumes inv: "lists_inv h H K D" and r: "PDP_LIST_ALLOC h = (l, h')"
  shows "lists_inv h' H (insert l K) D" "l \<notin> K" "l \<noteq> NULL" "H l = None"
    "l_hdr h' = l_hdr h" "a_t h' = a_t h" "a_w h' = a_w h" "a_mem h' = a_mem h"
proof -
  from endless_new_atom [OF lists_invD(2) [OF inv]] obtain b x m where
    n: "pdp_fastalloc_new_atom (fast_list_allocator h) (l_mem h) = Some (b, x, m)" and
    b_ok: "b \<noteq> NULL" "b \<notin> K" "endless x m (insert b K)" by blast
  then have l: "b = l" and h': "h' = h\<lparr>fast_list_allocator := x, l_mem := m\<rparr>"
    using r by (simp_all add: PDP_LIST_ALLOC_def)
  note ok = b_ok [unfolded l]
  show "l \<notin> K" "l \<noteq> NULL" "l_hdr h' = l_hdr h" "a_t h' = a_t h" "a_w h' = a_w h"
    "a_mem h' = a_mem h" using ok(1,2) by (simp_all add: h')
  show "H l = None" using lists_invD(3) [OF inv] ok(2) by auto
  show "lists_inv h' H (insert l K) D"
  proof (rule lists_invI)
    show "is_list h' k xs" if "H k = Some xs" for k xs
      using lists_invD(4) [OF inv that] by (simp add: h' is_list_def)
    show "endless (fast_atom_allocator h') (a_mem h') (owned H \<union> D)"
      using lists_invD(1) [OF inv] by (simp add: h')
    show "endless (fast_list_allocator h') (l_mem h') (insert l K)"
      using ok(3) by (simp add: h')
    show "dom H \<subseteq> insert l K" using lists_invD(3) [OF inv] by blast
  qed (rule lists_invD(5,6) [OF inv]; assumption)+
qed

lemma pdp_list_dealloc_inv:
  assumes inv: "lists_inv h H K D" and l: "l \<in> K" "H l = None"
  shows "lists_inv (pdp_list_dealloc l h) H (K - {l}) D"
    "l_hdr (pdp_list_dealloc l h) = l_hdr h"
proof -
  obtain x m where n: "pdp_fastalloc_save_atom (fast_list_allocator h) l (l_mem h) = (x, m)"
    by fastforce
  then have h': "pdp_list_dealloc l h = h\<lparr>fast_list_allocator := x, l_mem := m\<rparr>"
    by (simp add: pdp_list_dealloc_def)
  note ok = endless_save_atom [OF lists_invD(2) [OF inv] l(1) n]
  show "lists_inv (pdp_list_dealloc l h) H (K - {l}) D"
  proof (rule lists_invI)
    show "is_list (pdp_list_dealloc l h) k xs" if "H k = Some xs" for k xs
      using lists_invD(4) [OF inv that] by (simp add: h' is_list_def)
    show "endless (fast_atom_allocator (pdp_list_dealloc l h)) (a_mem (pdp_list_dealloc l h)) (owned H \<union> D)" using lists_invD(1) [OF inv] by (simp add: h')
    show "endless (fast_list_allocator (pdp_list_dealloc l h)) (l_mem (pdp_list_dealloc l h)) (K - {l})" using ok(1) by (auto simp: h')
    show "dom H \<subseteq> K - {l}" using lists_invD(3) [OF inv] l(2) by blast
  qed (rule lists_invD(5,6) [OF inv]; assumption)+
  show "l_hdr (pdp_list_dealloc l h) = l_hdr h" by (simp add: h')
qed

end
