(* ===== verification/PdpListOps.thy ===== *)
theory PdpListOps
  imports PdpList
begin

text \<open>
  How each operation of \<^verbatim>\<open>system/kernel/pdp_list.c\<close> acts on the lists of a heap.

  The first part shows, operation by operation, how \<open>lists_inv\<close> changes; \<open>rebuild\<close> is the rule
  behind all of them. The second part hides the addresses of atoms: \<open>lists_rel\<close> relates a heap to a
  store of word sequences, and \<open>call_simulation\<close> shows that every legal call returns, with the
  result and the effect the store prescribes. The locale \<open>list_store\<close> states what the clients of
  the lists rely on and derives the queue and the stack discipline from it.
\<close>

section \<open>Operations on the lists of a heap\<close>

lemma detached_nonnull: "lists_inv h H K D \<Longrightarrow> a \<in> D \<Longrightarrow> a \<noteq> NULL"
  using lists_invD(1) [of h H K D] by (auto dest: endless_nonnull)

lemma lists_inv_distinct: "lists_inv h H K D \<Longrightarrow> H l = Some xs \<Longrightarrow> distinct (map fst xs)"
  using lists_invD(4) [of h H K D l xs] by (auto simp: is_list_def dest: chain_distinct)

lemma is_list_last:
  assumes "is_list h l xs" "xs \<noteq> []"
  shows "fst (last xs) \<noteq> NULL" "fst (last xs) \<in> addrs xs" "last_atom (l_hdr h l) = fst (last xs)"
proof -
  show m: "fst (last xs) \<in> addrs xs" using assms(2) by simp
  have "NULL \<notin> set (map fst xs)" using assms(1) unfolding is_list_def by (blast dest: chain_nonnull)
  with m show "fst (last xs) \<noteq> NULL" by (metis set_map)
qed (use assms in \<open>simp add: is_list_def\<close>)

text \<open>
  The rule for a change of one list: only cells of the list or detached ones and only its own
  header change, and the result is again a list.
\<close>

lemma rebuild:
  assumes inv: "lists_inv h H K D" and l: "H l = Some xs"
    and same: "fast_atom_allocator h' = fast_atom_allocator h"
      "fast_list_allocator h' = fast_list_allocator h" "l_mem h' = l_mem h"
      "brk (a_mem h') = brk (a_mem h)" "limit (a_mem h') = limit (a_mem h)"
    and cells: "\<And>a. a \<notin> D \<union> addrs xs \<Longrightarrow>
      nxt (a_mem h') a = nxt (a_mem h) a \<and> a_t h' a = a_t h a \<and> a_w h' a = a_w h a"
    and hdrs: "\<And>k. k \<noteq> l \<Longrightarrow> l_hdr h' k = l_hdr h k"
    and ys: "is_list h' l ys" "addrs ys \<subseteq> D \<union> addrs xs"
    and D': "D' = D \<union> addrs xs - addrs ys"
  shows "lists_inv h' (H(l \<mapsto> ys)) K D'"
proof -
  note dt = detach [of h H K D l xs, OF inv l]
  have "lists_inv h' (H(l := None)) K (D \<union> addrs xs)"
    by (rule lists_inv_frame [OF dt(1) same cells]) (auto intro: hdrs split: if_splits)
  from attach [OF this _ dt(4) ys] show ?thesis by (simp add: D')
qed

lemma pdp_list_add_atom_inv:
  assumes inv: "lists_inv h H K D" and l: "H l = Some xs" and a: "a \<in> D"
  shows "lists_inv (pdp_list_add_atom l a h) (H(l \<mapsto> (a, a_t h a, a_w h a) # xs)) K (D - {a})"
proof -
  let ?h = "pdp_list_add_atom l a h" and ?ys = "(a, a_t h a, a_w h a) # xs"
  note dt = detach [of h H K D l xs, OF inv l]
  have a': "a \<notin> addrs xs" "a \<noteq> NULL" using dt(3) a detached_nonnull [OF inv a] by auto
  show ?thesis
  proof (rule rebuild [of h H K D l xs, OF inv l])
    show "is_list ?h l ?ys" using dt(2) a' is_list_last(1) [OF dt(2)]
      by (auto simp: pdp_list_add_atom_def is_list_def Let_def chain_simps)
    show "D - {a} = D \<union> addrs xs - addrs ?ys" using dt(3) a' by auto
  qed (use a in \<open>auto simp: pdp_list_add_atom_def Let_def\<close>)
qed

lemma pdp_list_add_back_atom_inv:
  assumes inv: "lists_inv h H K D" and l: "H l = Some xs" and a: "a \<in> D"
  shows "lists_inv (pdp_list_add_back_atom l a h) (H(l \<mapsto> xs @ [(a, a_t h a, a_w h a)])) K (D - {a})"
proof -
  let ?h = "pdp_list_add_back_atom l a h" and ?ys = "xs @ [(a, a_t h a, a_w h a)]"
  note dt = detach [of h H K D l xs, OF inv l]
  have a': "a \<notin> addrs xs" "a \<noteq> NULL" using dt(3) a detached_nonnull [OF inv a] by auto
  have nn: "xs \<noteq> [] \<Longrightarrow> fst (last xs) \<noteq> NULL" "xs \<noteq> [] \<Longrightarrow> fst (last xs) \<in> addrs xs"
    using is_list_last [OF dt(2)] by simp_all
  have "is_list ?h l ?ys"
  proof (cases "xs = []")
    case True
    with dt(2) a' show ?thesis by (auto simp: pdp_list_add_back_atom_def is_list_def Let_def)
  next
    case False
    with dt(2) a' chain_snoc [of "nxt (a_mem h)" "first (l_hdr h l)" "map fst xs" a]
    have "chain ((nxt (a_mem h))(a := NULL, fst (last xs) := a)) (first (l_hdr h l)) (map fst xs @ [a])"
      by (auto simp: is_list_def last_map)
    with False dt(2) a' nn show ?thesis by (auto simp: pdp_list_add_back_atom_def is_list_def Let_def)
  qed
  moreover have "D - {a} = D \<union> addrs xs - addrs ?ys" using dt(3) a' by auto
  moreover have "last_atom (l_hdr h l) \<noteq> NULL \<Longrightarrow> last_atom (l_hdr h l) \<in> addrs xs"
    using nn dt(2) by (simp add: is_list_def split: if_splits)
  ultimately show ?thesis using a
    by (intro rebuild [of h H K D l xs, OF inv l]) (auto simp: pdp_list_add_back_atom_def Let_def)
qed

lemma pdp_list_pop_atom_inv:
  assumes inv: "lists_inv h H K D" and l: "H l = Some (x # xs)"
    and r: "pdp_list_pop_atom l h = (a, h')"
  shows "lists_inv h' (H(l \<mapsto> xs)) K (insert a D)" "a = fst x"
    "a_t h' = a_t h" "a_w h' = a_w h" "a_t h a = fst (snd x)" "a_w h a = snd (snd x)" "a \<noteq> NULL" "a \<notin> D"
proof -
  note dt = detach [of h H K D l "x # xs", OF inv l]
  have d: "distinct (map fst (x # xs))" by (rule lists_inv_distinct [of h H K D l, OF inv l])
  show a: "a = fst x" "a_t h' = a_t h" "a_w h' = a_w h" "a_t h a = fst (snd x)"
    "a_w h a = snd (snd x)" "a \<noteq> NULL" "a \<notin> D"
    using dt(2,3) r by (auto simp: pdp_list_pop_atom_def is_list_def Let_def split: if_splits)
  have "is_list h' l xs"
    using dt(2) r d a
    by (cases xs) (auto simp: pdp_list_pop_atom_def is_list_def Let_def chain_simps split: if_splits)
  moreover have "insert a D = D \<union> addrs (x # xs) - addrs xs" using dt(3) a d by auto
  moreover have "first (l_hdr h l) = a" using dt(2) a by (simp add: is_list_def)
  ultimately show "lists_inv h' (H(l \<mapsto> xs)) K (insert a D)" using r a
    by (intro rebuild [of h H K D l "x # xs", OF inv l])
      (auto simp: pdp_list_pop_atom_def Let_def split: if_splits)
qed

lemma pdp_list_pop_atom_empty:
  "lists_inv h H K D \<Longrightarrow> H l = Some [] \<Longrightarrow> pdp_list_pop_atom l h = (NULL, h)"
  using lists_invD(4) [of h H K D l "[]"] by (simp add: pdp_list_pop_atom_def is_list_def)

lemma set_hdr_DEALLOC: "set_hdr l r (PDP_ATOM_DEALLOC a h) = PDP_ATOM_DEALLOC a (set_hdr l r h)"
  by (simp add: PDP_ATOM_DEALLOC_def set_hdr_def pdp_fastalloc_save_atom_def)

lemma l_hdr_DEALLOC [simp]: "l_hdr (PDP_ATOM_DEALLOC a h) = l_hdr h"
  by (simp add: PDP_ATOM_DEALLOC_def pdp_fastalloc_save_atom_def)

lemma pdp_list_add_inv:
  assumes inv: "lists_inv h H K D" and l: "H l = Some xs"
  shows "\<exists>a. lists_inv (pdp_list_add l t w h) (H(l \<mapsto> (a, t, w) # xs)) K D"
proof -
  obtain a h1 where al: "PDP_ATOM_ALLOC h = (a, h1)" by fastforce
  note A = PDP_ATOM_ALLOC_inv [OF inv al]
  have "lists_inv (set_tw a t w h1) H K (insert a D)" by (rule set_tw_inv [OF A(1)]) simp
  from pdp_list_add_atom_inv [of _ H _ _ l xs, OF this l, of a] A(3)
  show ?thesis by (auto simp: pdp_list_add_def al)
qed

lemma pdp_list_add_back_inv:
  assumes inv: "lists_inv h H K D" and l: "H l = Some xs"
  shows "\<exists>a. lists_inv (pdp_list_add_back l t w h) (H(l \<mapsto> xs @ [(a, t, w)])) K D"
proof -
  obtain a h1 where al: "PDP_ATOM_ALLOC h = (a, h1)" by fastforce
  note A = PDP_ATOM_ALLOC_inv [OF inv al]
  have "lists_inv (set_tw a t w h1) H K (insert a D)" by (rule set_tw_inv [OF A(1)]) simp
  from pdp_list_add_back_atom_inv [of _ H _ _ l xs, OF this l, of a] A(3)
  show ?thesis by (auto simp: pdp_list_add_back_def al)
qed

lemma pdp_list_pop_inv:
  assumes inv: "lists_inv h H K D" and l: "H l = Some (x # xs)"
  shows "\<exists>h'. pdp_list_pop l h = Some (snd (snd x), h') \<and> lists_inv h' (H(l \<mapsto> xs)) K D"
proof -
  obtain a h1 where p: "pdp_list_pop_atom l h = (a, h1)" by fastforce
  note P = pdp_list_pop_atom_inv [of h H K D l x xs, OF inv l p]
  have "lists_inv (PDP_ATOM_DEALLOC a h1) (H(l \<mapsto> xs)) K (insert a D - {a})"
    by (rule PDP_ATOM_DEALLOC_inv [OF P(1)]) simp
  moreover have "insert a D - {a} = D" using P(8) by blast
  ultimately show ?thesis using P by (simp add: pdp_list_pop_def p)
qed

lemma pdp_list_pop_empty:
  "lists_inv h H K D \<Longrightarrow> H l = Some [] \<Longrightarrow> pdp_list_pop l h = None"
  using pdp_list_pop_atom_empty [of h H K D l] by (simp add: pdp_list_pop_def)

lemma list_clear_loop_inv:
  assumes "lists_inv h H K D" "chain (nxt (a_mem h)) a as" "set as \<subseteq> D"
  shows "\<exists>h'. list_clear_loop a h = Some h' \<and> lists_inv h' H K (D - set as) \<and> l_hdr h' = l_hdr h"
  using assms
proof (induction as arbitrary: a h D)
  case Nil
  then show ?case by (simp add: list_clear_loop.simps)
next
  case (Cons b bs)
  then have a: "a = b" "a \<noteq> NULL" "a \<in> D" and ch: "chain (nxt (a_mem h)) (nxt (a_mem h) a) bs" by auto
  have d: "a \<notin> set bs" using chain_distinct [OF Cons.prems(2)] a by simp
  let ?h = "PDP_ATOM_DEALLOC a h"
  note P = PDP_ATOM_DEALLOC_inv [OF Cons.prems(1) a(3)]
  have "chain (nxt (a_mem ?h)) (nxt (a_mem h) a) bs"
    using ch d P(5) by (subst chain_cong [of bs _ "nxt (a_mem h)"]) metis+
  moreover have "set bs \<subseteq> D - {a}" using d Cons.prems(3) by auto
  ultimately obtain h' where h': "list_clear_loop (nxt (a_mem h) a) ?h = Some h'"
      "lists_inv h' H K (D - {a} - set bs)" "l_hdr h' = l_hdr ?h"
    using Cons.IH [OF P(1)] by blast
  have "D - {a} - set bs = D - set (b # bs)" using a by auto
  with h' a show ?case by (subst list_clear_loop.simps) simp
qed

lemma pdp_list_clear_inv:
  assumes inv: "lists_inv h H K D" and l: "H l = Some xs"
  shows "\<exists>h'. pdp_list_clear l h = Some h' \<and> lists_inv h' (H(l \<mapsto> [])) K D"
proof -
  note dt = detach [of h H K D l xs, OF inv l]
  have "chain (nxt (a_mem h)) (first (l_hdr h l)) (map fst xs)" using dt(2) by (simp add: is_list_def)
  from list_clear_loop_inv [OF dt(1) this] obtain h1 where
    h1: "list_clear_loop (first (l_hdr h l)) h = Some h1"
      "lists_inv h1 (H(l := None)) K (D \<union> addrs xs - addrs xs)" by auto
  let ?h = "set_hdr l \<lparr>elements = 0, first = NULL, last_atom = NULL\<rparr> h1"
  have "D \<union> addrs xs - addrs xs = D" using dt(3) by auto
  with h1(2) have "lists_inv ?h (H(l := None)) K D" by (auto intro: set_hdr_inv)
  from attach [OF this _ dt(4), of "[]"] h1(1) show ?thesis
    by (simp add: pdp_list_clear_def is_list_def)
qed

lemma pdp_list_free_inv:
  assumes inv: "lists_inv h H K D" and l: "H l = Some xs"
  shows "\<exists>h'. pdp_list_free l h = Some h' \<and> lists_inv h' (H(l := None)) (K - {l}) D"
proof -
  from pdp_list_clear_inv [of h H K D l xs, OF assms] obtain h1 where
    h1: "pdp_list_clear l h = Some h1" "lists_inv h1 (H(l \<mapsto> [])) K D" by blast
  have "lists_inv h1 (H(l := None)) K D" "l \<in> K"
    using detach(1,4) [OF h1(2), of l "[]"] by simp_all
  then have "lists_inv (pdp_list_dealloc l h1) (H(l := None)) (K - {l}) D"
    by (intro pdp_list_dealloc_inv(1)) simp_all
  moreover have "l \<noteq> NULL"
    using \<open>l \<in> K\<close> endless_nonnull [OF lists_invD(2) [OF inv]] by metis
  ultimately show ?thesis using h1(1) by (simp add: pdp_list_free_def)
qed

lemma w_int_put_w_int [simp]: "w_int (put_w_int i w) = i"
  unfolding w_int_def put_w_int_def
  by (rule bit_word_eqI) (auto simp: bit_simps)

lemma hdr_upd_swap: "(r :: t_pdp_list)\<lparr>first := a, elements := e\<rparr> = r\<lparr>elements := e, first := a\<rparr>"
  by (cases r) simp

lemma hdr_upd_all:
  "(r :: t_pdp_list)\<lparr>elements := e, first := a, last_atom := b\<rparr> = \<lparr>elements = e, first = a, last_atom = b\<rparr>"
  by (cases r) simp

abbreviation undef_cell :: "cell \<Rightarrow> bool" where
  "undef_cell x \<equiv> fst (snd x) = a_undef \<and> w_int (snd (snd x)) = 0"

lemma list_new_loop_inv:
  assumes "lists_inv h H K D" "H l = Some xs" "xs \<noteq> []"
  shows "\<exists>ys. lists_inv (list_new_loop n l h) (H(l \<mapsto> ys @ xs)) K D \<and> length ys = n \<and>
    (\<forall>y\<in>set ys. undef_cell y)"
  using assms
proof (induction n arbitrary: h H xs)
  case 0
  then show ?case by (intro exI [of _ "[]"]) (simp add: map_upd_triv)
next
  case (Suc n)
  obtain a h1 where al: "PDP_ATOM_ALLOC h = (a, h1)" by fastforce
  note A = PDP_ATOM_ALLOC_inv [OF Suc.prems(1) al]
  let ?w = "put_w_int 0 (a_w h1 a)" and ?h1 = "set_tw a a_undef (put_w_int 0 (a_w h1 a)) h1"
  have i1: "lists_inv ?h1 H K (insert a D)" by (rule set_tw_inv [OF A(1)]) simp
  have nn: "last_atom (l_hdr h1 l) \<noteq> NULL"
    using is_list_last(1,3) [OF lists_invD(4) [of ?h1 H _ _ l xs, OF i1 Suc.prems(2)] Suc.prems(3)] by simp
  have step: "list_new_loop (Suc n) l h = list_new_loop n l (pdp_list_add_atom l a ?h1)"
    using nn by (simp add: al pdp_list_add_atom_def Let_def set_hdr_def set_tw_def set_next_def hdr_upd_swap)
  have "insert a D - {a} = D" using A(3) by blast
  with pdp_list_add_atom_inv [of ?h1 H K "insert a D" l xs a, OF i1 Suc.prems(2)]
  have "lists_inv (pdp_list_add_atom l a ?h1) (H(l \<mapsto> (a, a_undef, ?w) # xs)) K D" by simp
  from Suc.IH [OF this, of "(a, a_undef, ?w) # xs", simplified fun_upd_upd fun_upd_same] obtain ys where
    "lists_inv (list_new_loop n l (pdp_list_add_atom l a ?h1)) (H(l \<mapsto> ys @ (a, a_undef, ?w) # xs)) K D"
    "length ys = n" "\<forall>y\<in>set ys. undef_cell y" by blast
  then show ?case unfolding step by (intro exI [of _ "ys @ [(a, a_undef, ?w)]"]) (auto simp: fun_upd_def)
qed

lemma pdp_list_new_inv:
  assumes inv: "lists_inv h H K D" and r: "pdp_list_new n h = (l, h')"
  shows "\<exists>xs. lists_inv h' (H(l \<mapsto> xs)) (insert l K) D \<and> length xs = n \<and> (\<forall>x\<in>set xs. undef_cell x)"
    and "l \<notin> K" "H l = None" "l \<noteq> NULL"
proof -
  obtain k h1 where "PDP_LIST_ALLOC h = (k, h1)" by fastforce
  with r have al: "PDP_LIST_ALLOC h = (l, h1)"
    by (auto simp: pdp_list_new_def Let_def split: if_splits prod.splits)
  note L = PDP_LIST_ALLOC_inv [OF inv al]
  show "l \<notin> K" "H l = None" "l \<noteq> NULL" by (fact L)+
  show "\<exists>xs. lists_inv h' (H(l \<mapsto> xs)) (insert l K) D \<and> length xs = n \<and> (\<forall>x\<in>set xs. undef_cell x)"
  proof (cases "n = 0")
    case True
    with r al have h': "h' = set_hdr l \<lparr>elements = 0, first = NULL, last_atom = NULL\<rparr> h1"
      by (simp add: pdp_list_new_def Let_def set_hdr_def hdr_upd_all)
    have "lists_inv h' H (insert l K) D" unfolding h' by (rule set_hdr_inv [OF L(1,4)])
    from attach [OF this L(4), of "[]"] True show ?thesis by (simp add: h' is_list_def)
  next
    case False
    then obtain m where n: "n = Suc m" by (cases n) auto
    let ?h2 = "set_hdr l ((l_hdr h1 l)\<lparr>elements := 0\<rparr>) h1"
    have i2: "lists_inv ?h2 H (insert l K) D" by (rule set_hdr_inv [OF L(1,4)])
    obtain a h3 where al3: "PDP_ATOM_ALLOC ?h2 = (a, h3)" by fastforce
    note A = PDP_ATOM_ALLOC_inv [OF i2 al3]
    let ?w = "put_w_int 0 (a_w h3 a)"
    define h4 where "h4 = set_hdr l \<lparr>elements = 1, first = a, last_atom = a\<rparr>
      (set_next a NULL (set_tw a a_undef ?w h3))"
    have "lists_inv h4 H (insert l K) (insert a D)"
      unfolding h4_def by (rule set_hdr_inv [OF set_next_inv [OF set_tw_inv [OF A(1)]] L(4)]) simp_all
    moreover have "is_list h4 l [(a, a_undef, ?w)]" using A(2) by (simp add: h4_def is_list_def)
    moreover have "insert a D - {a} = D" using A(3) by blast
    ultimately have "lists_inv h4 (H(l \<mapsto> [(a, a_undef, ?w)])) (insert l K) D"
      using attach [of h4 H "insert l K" "insert a D" l "[(a, a_undef, ?w)]"] L(4) by simp
    from list_new_loop_inv [OF this, of l _ m] obtain ys where
      ys: "lists_inv (list_new_loop m l h4) (H(l \<mapsto> ys @ [(a, a_undef, ?w)])) (insert l K) D"
      "length ys = m" "\<forall>y\<in>set ys. undef_cell y" by auto
    have "h' = list_new_loop m l h4"
      using r A(5) by (simp add: pdp_list_new_def al n al3 [unfolded set_hdr_def] Let_def h4_def set_hdr_def set_tw_def set_next_def hdr_upd_all)
    with ys n show ?thesis by (intro exI [of _ "ys @ [(a, a_undef, ?w)]"]) auto
  qed
qed

lemma list_index_loop_chain:
  assumes "chain (nxt (a_mem h)) a (map fst xs)" "\<forall>x\<in>set xs. a_w h (fst x) = snd (snd x)"
  shows "list_index_loop i a h = (if i < length xs then Some (snd (snd (xs ! i))) else None)"
  using assms
proof (induction i arbitrary: a xs)
  case 0 then show ?case by (cases xs) auto
next
  case (Suc i) then show ?case by (cases xs) auto
qed

lemma pdp_list_index_eq:
  "lists_inv h H K D \<Longrightarrow> H l = Some xs \<Longrightarrow>
    pdp_list_index l i h = (if i < length xs then Some (snd (snd (xs ! i))) else None)"
  unfolding pdp_list_index_def
  by (rule list_index_loop_chain; drule (1) lists_invD(4); simp add: is_list_def)

definition matches :: "t_pdp_word_type \<Rightarrow> t_pdp_word \<Rightarrow> t_pdp_word_type \<times> t_pdp_word \<Rightarrow> bool" where
  "matches t w v \<longleftrightarrow> w_int (snd v) = w_int w \<and> fst v = t"

primrec remove_first :: "('a \<Rightarrow> bool) \<Rightarrow> 'a list \<Rightarrow> 'a list" where
  "remove_first P [] = []"
| "remove_first P (x # xs) = (if P x then xs else x # remove_first P xs)"

lemma map_remove_first: "map f (remove_first (P \<circ> f) xs) = remove_first P (map f xs)"
  by (induction xs) auto

lemma list_contains_loop_chain:
  assumes "chain (nxt (a_mem h)) a (map fst xs)"
    "\<forall>x\<in>set xs. a_t h (fst x) = fst (snd x) \<and> a_w h (fst x) = snd (snd x)"
  shows "list_contains_loop a t w h = Some (\<exists>x\<in>set xs. matches t w (snd x))"
  using assms
proof (induction xs arbitrary: a)
  case Nil then show ?case by (simp add: list_contains_loop.simps)
next
  case (Cons x xs) then show ?case by (subst list_contains_loop.simps) (auto simp: matches_def)
qed

lemma pdp_list_contains_eq:
  "lists_inv h H K D \<Longrightarrow> H l = Some xs \<Longrightarrow>
    pdp_list_contains l t w h = Some (\<exists>x\<in>set xs. matches t w (snd x))"
  unfolding pdp_list_contains_def
  by (rule list_contains_loop_chain; drule (1) lists_invD(4); simp add: is_list_def)

lemma last_addr: "vs \<noteq> [] \<Longrightarrow> fst (last vs) \<in> addrs vs"
  by simp

lemma last_fresh: "vs \<noteq> [] \<Longrightarrow> a \<notin> addrs vs \<Longrightarrow> fst (last vs) \<noteq> a"
  by (metis last_addr)

lemma is_list_cell_nonnull: "is_list h l (us @ vs) \<Longrightarrow> us \<noteq> [] \<Longrightarrow> fst (last us) \<noteq> NULL"
proof -
  assume "is_list h l (us @ vs)" "us \<noteq> []"
  then have "NULL \<notin> set (map fst (us @ vs))" unfolding is_list_def by (blast dest: chain_nonnull)
  moreover have "fst (last us) \<in> addrs us" using \<open>us \<noteq> []\<close> by simp
  ultimately show ?thesis by (metis UnI1 map_append set_append set_map)
qed

text \<open>Unlinking the cell \<open>x\<close> after the cells \<open>us\<close>, as the body of \<open>pdp_list_remove\<close> does.\<close>

lemma unlink_inv:
  assumes inv: "lists_inv h H K D" and l: "H l = Some (us @ x # vs)"
    and prev: "prev = (if us = [] then NULL else fst (last us))"
    and h': "h' = set_hdr l ((l_hdr h l)\<lparr>elements := elements (l_hdr h l) - 1,
         first := (if prev = NULL then a_next h (fst x) else first (l_hdr h l)),
         last_atom := (if last_atom (l_hdr h l) = fst x then prev else last_atom (l_hdr h l))\<rparr>)
       (if prev = NULL then h else set_next prev (a_next h (fst x)) h)"
  shows "lists_inv h' (H(l \<mapsto> us @ vs)) K (insert (fst x) D)"
proof -
  note dt = detach [of h H K D l "us @ x # vs", OF inv l]
  have d: "distinct (map fst (us @ x # vs))" by (rule lists_inv_distinct [of h H K D l, OF inv l])
  have ch: "chain (nxt (a_mem h)) (first (l_hdr h l)) (map fst us @ fst x # map fst vs)"
    using dt(2) by (simp add: is_list_def)
  have pr: "us \<noteq> [] \<Longrightarrow> prev \<noteq> NULL" "us \<noteq> [] \<Longrightarrow> prev \<in> addrs us" "us = [] \<Longrightarrow> prev = NULL"
    using prev is_list_cell_nonnull [OF dt(2)] by simp_all
  have "is_list h' l (us @ vs)"
  proof (cases "us = []")
    case True
    have "vs \<noteq> [] \<Longrightarrow> fst (last vs) \<noteq> fst x" using d by (intro last_fresh) auto
    with dt(2) pr(3) True show ?thesis by (cases "vs = []") (auto simp: h' is_list_def)
  next
    case False
    have "chain ((nxt (a_mem h))(prev := a_next h (fst x))) (first (l_hdr h l)) (map fst us @ map fst vs)"
      using chain_unlink [OF ch] False prev by (simp add: last_map)
    moreover have "vs \<noteq> [] \<Longrightarrow> fst (last vs) \<noteq> fst x" using d by (intro last_fresh) auto
    ultimately show ?thesis using dt(2) pr False prev by (cases "vs = []") (auto simp: h' is_list_def)
  qed
  moreover have "insert (fst x) D = D \<union> addrs (us @ x # vs) - addrs (us @ vs)" using dt(3) d by auto
  ultimately show ?thesis using pr
    by (intro rebuild [of h H K D l "us @ x # vs", OF inv l]) (cases "us = []", auto simp: h')
qed

lemma list_remove_loop_inv:
  assumes "lists_inv h H K D" "H l = Some (us @ vs)" "chain (nxt (a_mem h)) a (map fst vs)"
    and "prev = (if us = [] then NULL else fst (last us))"
  shows "\<exists>h'. list_remove_loop prev a l t w h = Some h' \<and>
    lists_inv h' (H(l \<mapsto> us @ remove_first (matches t w \<circ> snd) vs)) K D"
  using assms
proof (induction vs arbitrary: us a prev)
  case Nil
  then show ?case by (simp add: list_remove_loop.simps map_upd_triv)
next
  case (Cons x vs)
  note inv = Cons.prems(1) and l = Cons.prems(2)
  note dt = detach [of h H K D l "us @ x # vs", OF inv l]
  have a: "a = fst x" "a \<noteq> NULL" using Cons.prems(3) by simp_all
  have rd: "a_t h (fst x) = fst (snd x)" "a_w h (fst x) = snd (snd x)"
    using dt(2) by (simp_all add: is_list_def)
  show ?case
  proof (cases "matches t w (snd x)")
    case True
    define h1 where h1: "h1 = set_hdr l ((l_hdr h l)\<lparr>elements := elements (l_hdr h l) - 1,
         first := (if prev = NULL then a_next h (fst x) else first (l_hdr h l)),
         last_atom := (if last_atom (l_hdr h l) = fst x then prev else last_atom (l_hdr h l))\<rparr>)
       (if prev = NULL then h else set_next prev (a_next h (fst x)) h)"
    have e: "insert (fst x) D - {fst x} = D" using dt(3) by auto
    have "lists_inv h1 (H(l \<mapsto> us @ vs)) K (insert (fst x) D)"
      by (rule unlink_inv [of h H K D l us x vs prev h1, OF inv l Cons.prems(4) h1])
    then have "lists_inv (PDP_ATOM_DEALLOC (fst x) h1) (H(l \<mapsto> us @ vs)) K (insert (fst x) D - {fst x})"
      by (rule PDP_ATOM_DEALLOC_inv(1)) simp
    moreover have "remove_first (matches t w \<circ> snd) (x # vs) = vs" using True by simp
    moreover have "list_remove_loop prev a l t w h = Some (PDP_ATOM_DEALLOC (fst x) h1)"
      unfolding h1 using a True rd
      by (subst list_remove_loop.simps, cases "prev = NULL"; cases "last_atom (l_hdr h l) = fst x")
        (simp_all add: Let_def matches_def set_hdr_DEALLOC)
    ultimately show ?thesis unfolding e using True by (simp del: fun_upd_apply)
  next
    case False
    have step: "list_remove_loop prev a l t w h = list_remove_loop (fst x) (a_next h (fst x)) l t w h"
      using a False rd by (subst list_remove_loop.simps) (auto simp: matches_def)
    have "H l = Some ((us @ [x]) @ vs)" "chain (nxt (a_mem h)) (a_next h (fst x)) (map fst vs)"
      "fst x = (if us @ [x] = [] then NULL else fst (last (us @ [x])))"
      using l Cons.prems(3) by simp_all
    note Cons.IH [of "us @ [x]", OF inv this]
    moreover have "(us @ [x]) @ remove_first (matches t w \<circ> snd) vs =
        us @ remove_first (matches t w \<circ> snd) (x # vs)" using False by simp
    ultimately show ?thesis unfolding step by (simp only:)
  qed
qed

lemma pdp_list_remove_inv:
  assumes "lists_inv h H K D" "H l = Some xs"
  shows "\<exists>h'. pdp_list_remove l t w h = Some h' \<and>
    lists_inv h' (H(l \<mapsto> remove_first (matches t w \<circ> snd) xs)) K D"
  using list_remove_loop_inv [of h H K D l "[]" xs "first (l_hdr h l)" NULL] assms
    lists_invD(4) [of h H K D l xs] by (simp add: pdp_list_remove_def is_list_def)

lemma copy_reverse_loop_inv:
  assumes "lists_inv h H K D" "H l = Some (us @ vs)" "H k = Some ys" "k \<noteq> l"
    and "chain (nxt (a_mem h)) a (map fst vs)"
  shows "\<exists>h' zs. copy_reverse_loop a k h = Some h' \<and> lists_inv h' (H(k \<mapsto> zs)) K D \<and>
    map snd zs = rev (map snd vs) @ map snd ys"
  using assms
proof (induction vs arbitrary: us a h H ys)
  case Nil
  then have "H(k \<mapsto> ys) = H" by (simp add: map_upd_triv)
  with Nil show ?case by (intro exI [of _ h] exI [of _ ys]) (simp add: copy_reverse_loop.simps)
next
  case (Cons x vs)
  have a: "a = fst x" "a \<noteq> NULL" using Cons.prems(5) by simp_all
  have "is_list h l (us @ x # vs)" by (rule lists_invD(4) [of h H K D, OF Cons.prems(1,2)])
  then have rd: "a_t h a = fst (snd x)" "a_w h a = snd (snd x)" using a by (simp_all add: is_list_def)
  let ?h = "pdp_list_add k (a_t h a) (a_w h a) h"
  obtain b where i: "lists_inv ?h (H(k \<mapsto> (b, snd x) # ys)) K D"
    using pdp_list_add_inv [of h H K D k ys "fst (snd x)" "snd (snd x)", OF Cons.prems(1,3)] rd by auto
  let ?H = "H(k \<mapsto> (b, snd x) # ys)"
  have l': "?H l = Some ((us @ [x]) @ vs)" "?H k = Some ((b, snd x) # ys)" using Cons.prems by simp_all
  have "is_list ?h l ((us @ [x]) @ vs)" by (rule lists_invD(4) [OF i l'(1)])
  then have "\<exists>p. chain (nxt (a_mem ?h)) p (map fst (x # vs))"
    using chain_drop [of "nxt (a_mem ?h)" _ "map fst us" "map fst (x # vs)"] by (auto simp: is_list_def)
  then have "chain (nxt (a_mem ?h)) (a_next ?h a) (map fst vs)" using a by auto
  from Cons.IH [OF i l' Cons.prems(4) this] obtain h' zs where
    "copy_reverse_loop (a_next ?h a) k ?h = Some h'" "lists_inv h' (?H(k \<mapsto> zs)) K D"
    "map snd zs = rev (map snd vs) @ map snd ((b, snd x) # ys)" by blast
  moreover have "copy_reverse_loop a k h = copy_reverse_loop (a_next ?h a) k ?h"
    using a by (subst copy_reverse_loop.simps) (simp add: Let_def)
  ultimately show ?case by (intro exI [of _ h'] exI [of _ zs]) (simp del: fun_upd_apply)
qed

lemma pdp_list_copy_reverse_inv:
  assumes inv: "lists_inv h H K D" and l: "H l = Some xs"
  shows "\<exists>k h' zs. pdp_list_copy_reverse l h = Some (k, h') \<and> k \<notin> K \<and>
    lists_inv h' (H(k \<mapsto> zs)) (insert k K) D \<and> map snd zs = rev (map snd xs)"
proof -
  obtain k h1 where n: "pdp_list_new 0 h = (k, h1)" by fastforce
  note N = pdp_list_new_inv [OF inv n]
  from N(1) have i: "lists_inv h1 (H(k \<mapsto> [])) (insert k K) D" by auto
  have kl: "k \<noteq> l" using N(3) l by auto
  then have l': "(H(k \<mapsto> [])) l = Some ([] @ xs)" "(H(k \<mapsto> [])) k = Some []" using l by simp_all
  have "chain (nxt (a_mem h1)) (first (l_hdr h1 l)) (map fst xs)"
    using lists_invD(4) [OF i l'(1)] by (simp add: is_list_def)
  from copy_reverse_loop_inv [OF i l' kl this] obtain h' zs where
    "copy_reverse_loop (first (l_hdr h1 l)) k h1 = Some h'"
    "lists_inv h' (H(k \<mapsto> zs)) (insert k K) D" "map snd zs = rev (map snd xs)"
    by (auto simp only: fun_upd_upd list.map append_Nil2)
  with n N(2) show ?thesis
    by (intro exI [of _ k] exI [of _ h'] exI [of _ zs]) (simp add: pdp_list_copy_reverse_def)
qed

definition only_cells :: "pheap \<Rightarrow> pheap \<Rightarrow> bool" where
  "only_cells h h' \<longleftrightarrow> a_mem h' = a_mem h \<and> l_hdr h' = l_hdr h \<and> l_mem h' = l_mem h \<and>
     fast_atom_allocator h' = fast_atom_allocator h \<and> fast_list_allocator h' = fast_list_allocator h"

lemma list_copy_loop_chain:
  assumes "chain (nxt (a_mem h)) p (map fst vs)" "chain (nxt (a_mem h)) q ds" "length ds = length vs"
    and "addrs vs \<inter> set ds = {}"
    and "\<forall>x\<in>set vs. a_t h (fst x) = fst (snd x) \<and> a_w h (fst x) = snd (snd x)"
  shows "\<exists>h'. list_copy_loop p q h = Some h' \<and> only_cells h h' \<and>
    (\<forall>a. a \<notin> set ds \<longrightarrow> a_t h' a = a_t h a \<and> a_w h' a = a_w h a) \<and>
    (\<forall>i < length ds. a_t h' (ds ! i) = fst (snd (vs ! i)) \<and> a_w h' (ds ! i) = snd (snd (vs ! i)))"
  using assms
proof (induction vs arbitrary: h p q ds)
  case Nil
  then show ?case by (simp add: list_copy_loop.simps only_cells_def)
next
  case (Cons v vs)
  then obtain d ds' where ds: "ds = d # ds'" by (cases ds) auto
  let ?h = "set_tw d (a_t h (fst v)) (a_w h (fst v)) h"
  have pq: "p = fst v" "q = d" "p \<noteq> NULL" "q \<noteq> NULL" using Cons.prems ds by auto
  have d: "d \<notin> set ds'" "d \<notin> addrs vs" "d \<noteq> fst v" "fst v \<notin> set ds'"
    using chain_distinct [OF Cons.prems(2)] Cons.prems(4) ds by auto
  have "\<exists>h'. list_copy_loop (a_next h (fst v)) (a_next h d) ?h = Some h' \<and>
    only_cells ?h h' \<and>
    (\<forall>a. a \<notin> set ds' \<longrightarrow> a_t h' a = a_t ?h a \<and> a_w h' a = a_w ?h a) \<and>
    (\<forall>i < length ds'. a_t h' (ds' ! i) = fst (snd (vs ! i)) \<and> a_w h' (ds' ! i) = snd (snd (vs ! i)))"
    using Cons.prems ds d by (intro Cons.IH) auto
  then obtain h' where h': "list_copy_loop (a_next h (fst v)) (a_next h d) ?h = Some h'"
    "only_cells ?h h'"
    "\<And>a. a \<notin> set ds' \<Longrightarrow> a_t h' a = a_t ?h a \<and> a_w h' a = a_w ?h a"
    "\<And>i. i < length ds' \<Longrightarrow> a_t h' (ds' ! i) = fst (snd (vs ! i)) \<and> a_w h' (ds' ! i) = snd (snd (vs ! i))"
    by blast
  have "only_cells h h'" using h'(2) by (simp add: only_cells_def)
  moreover have "list_copy_loop p q h = Some h'"
    using pq h'(1) by (subst list_copy_loop.simps) (simp add: Let_def)
  moreover have "a_t h' a = a_t h a \<and> a_w h' a = a_w h a" if "a \<notin> set ds" for a
    using that h'(3) [of a] by (simp add: ds)
  moreover have "a_t h' (ds ! i) = fst (snd ((v # vs) ! i)) \<and> a_w h' (ds ! i) = snd (snd ((v # vs) ! i))"
    if "i < length ds" for i
    using that h'(3) [of d] h'(4) d Cons.prems(5) by (cases i) (auto simp: ds)
  ultimately show ?case by blast
qed

lemma pdp_list_copy_inv:
  assumes inv: "lists_inv h H K D" and l: "H l = Some xs"
  shows "\<exists>k h' zs. pdp_list_copy l h = Some (k, h') \<and> k \<notin> K \<and>
    lists_inv h' (H(k \<mapsto> zs)) (insert k K) D \<and> map snd zs = map snd xs"
proof -
  have el: "nat (elements (l_hdr h l)) = length xs"
    using lists_invD(4) [of h H K D l xs, OF inv l] by (simp add: is_list_def)
  obtain k h1 where n: "pdp_list_new (length xs) h = (k, h1)" by fastforce
  note N = pdp_list_new_inv [OF inv n]
  from N(1) obtain ys where i: "lists_inv h1 (H(k \<mapsto> ys)) (insert k K) D" and len: "length ys = length xs"
    by auto
  have kl: "k \<noteq> l" using N(3) l by auto
  then have l': "(H(k \<mapsto> ys)) l = Some xs" "(H(k \<mapsto> ys)) k = Some ys" using l by simp_all
  have s: "is_list h1 l xs" "is_list h1 k ys" and dj: "addrs xs \<inter> addrs ys = {}"
    using lists_invD(4,6) [OF i] l' kl by metis+
  obtain h' where h': "list_copy_loop (first (l_hdr h1 l)) (first (l_hdr h1 k)) h1 = Some h'" "only_cells h1 h'"
    "\<forall>a. a \<notin> addrs ys \<longrightarrow> a_t h' a = a_t h1 a \<and> a_w h' a = a_w h1 a"
    "\<forall>j < length ys. a_t h' (fst (ys ! j)) = fst (snd (xs ! j)) \<and> a_w h' (fst (ys ! j)) = snd (snd (xs ! j))"
    using list_copy_loop_chain [of h1 "first (l_hdr h1 l)" xs "first (l_hdr h1 k)" "map fst ys"] s dj len
    by (auto simp: is_list_def)
  define zs where "zs = map2 (\<lambda>y x. (fst y, snd x)) ys xs"
  have zs: "map fst zs = map fst ys" "map snd zs = map snd xs" "length zs = length ys"
    using len by (auto simp: zs_def intro: nth_equalityI)
  have az: "addrs zs = addrs ys" using zs(1) by (metis set_map)
  have cell: "a_t h' (fst z) = fst (snd z) \<and> a_w h' (fst z) = snd (snd z)" if z: "z \<in> set zs" for z
  proof -
    obtain j where "j < length ys" "z = (fst (ys ! j), snd (xs ! j))"
      using z len by (force simp: zs_def in_set_conv_nth)
    with h'(4) show ?thesis by simp
  qed
  have "is_list h' k zs"
    using s(2) h'(2) cell zs by (auto simp: is_list_def only_cells_def) (metis last_map zs(1) zs(3) length_0_conv)+
  moreover have "D = D \<union> addrs ys - addrs zs" using lists_invD(5) [OF i l'(2)] az by auto
  ultimately have "lists_inv h' (H(k \<mapsto> ys, k \<mapsto> zs)) (insert k K) D"
    using h'(2,3) az by (intro rebuild [OF i l'(2)]) (auto simp: only_cells_def)
  with n N(2) h'(1) zs(2) el show ?thesis
    by (intro exI [of _ k] exI [of _ h'] exI [of _ zs]) (simp add: pdp_list_copy_def del: fun_upd_apply)
qed

lemma pdp_list_join_inv:
  assumes inv: "lists_inv h H K D" and l: "H l = Some xs" "H k = Some ys" "k \<noteq> l"
  shows "lists_inv (pdp_list_join l k h) (H(l \<mapsto> xs @ ys, k := None)) (K - {k}) D"
proof -
  note dk = detach [of h H K D k ys, OF inv l(2)]
  define r where "r = (l_hdr h l)\<lparr>elements := elements (l_hdr h l) + elements (l_hdr h k)\<rparr>"
  define h' where "h' = (if elements (l_hdr h k) \<noteq> 0 then
       if last_atom r \<noteq> NULL
       then set_hdr l (r\<lparr>last_atom := last_atom (l_hdr h k)\<rparr>) (set_next (last_atom r) (first (l_hdr h k)) h)
       else set_hdr l (r\<lparr>first := first (l_hdr h k), last_atom := last_atom (l_hdr h k)\<rparr>) h
     else h)"
  have l': "(H(k := None)) l = Some xs" using l by simp
  have s: "is_list h l xs" by (rule lists_invD(4) [of h H K D, OF inv l(1)])
  have dj: "addrs xs \<inter> addrs ys = {}" "addrs xs \<inter> D = {}"
    using lists_invD(6) [of h H K D l xs k ys, OF inv l(1,2)] lists_invD(5) [of h H K D l xs, OF inv l(1)] l(3) by auto
  have last: "last_atom (l_hdr h l) \<noteq> NULL \<Longrightarrow> last_atom (l_hdr h l) \<in> addrs xs"
    using s last_addr [of xs] by (simp add: is_list_def split: if_splits)
  have "is_list h' l (xs @ ys)"
  proof (cases "xs = [] \<or> ys = []")
    case True
    with s dk(2) show ?thesis by (auto simp: h'_def r_def is_list_def)
  next
    case False
    then have "chain ((nxt (a_mem h))(fst (last xs) := first (l_hdr h k))) (first (l_hdr h l)) (map fst xs @ map fst ys)"
      using chain_join [of "nxt (a_mem h)" "first (l_hdr h l)" "map fst xs" _ "map fst ys"] s dk(2) dj
      by (auto simp: is_list_def last_map)
    with False s dk(2) is_list_last(1) [OF s] show ?thesis by (auto simp: h'_def r_def is_list_def)
  qed
  moreover have "D = D \<union> addrs ys \<union> addrs xs - addrs (xs @ ys)" using dj dk(3) by auto
  ultimately have "lists_inv h' ((H(k := None))(l \<mapsto> xs @ ys)) K D"
    using last l(3) by (intro rebuild [OF dk(1) l']) (auto simp: h'_def r_def)
  moreover have "(H(k := None))(l \<mapsto> xs @ ys) = H(l \<mapsto> xs @ ys, k := None)"
    using l(3) by (rule fun_upd_twist)
  moreover have "pdp_list_join l k h = pdp_list_dealloc k h'"
    by (simp add: pdp_list_join_def h'_def r_def Let_def)
  ultimately show ?thesis using pdp_list_dealloc_inv(1) [OF _ dk(4)] by simp
qed

lemma pdp_list_cat_inv:
  assumes inv: "lists_inv h H K D" and l: "H l = Some xs" "H k = Some ys"
  shows "\<exists>h' zs. pdp_list_cat l k h = Some h' \<and> lists_inv h' (H(l \<mapsto> xs @ zs)) K D \<and>
    map snd zs = map snd ys"
proof -
  from pdp_list_copy_inv [of h H K D k ys, OF inv l(2)] obtain tmp h1 zs where
    c: "pdp_list_copy k h = Some (tmp, h1)" "tmp \<notin> K" "lists_inv h1 (H(tmp \<mapsto> zs)) (insert tmp K) D"
    "map snd zs = map snd ys" by blast
  have t: "tmp \<noteq> l" "H tmp = None" using c(2) lists_invD(3) [OF inv] l(1) by auto
  have "lists_inv (pdp_list_join l tmp h1) (H(tmp \<mapsto> zs, l \<mapsto> xs @ zs, tmp := None)) (insert tmp K - {tmp}) D"
    using t l(1) by (intro pdp_list_join_inv [OF c(3)]) auto
  moreover have "H(tmp \<mapsto> zs, l \<mapsto> xs @ zs, tmp := None) = H(l \<mapsto> xs @ zs)" using t by auto
  moreover have "insert tmp K - {tmp} = K" using c(2) by blast
  ultimately show ?thesis using c
    by (intro exI [of _ "pdp_list_join l tmp h1"] exI [of _ zs]) (simp add: pdp_list_cat_def del: fun_upd_apply)
qed

lemma list_reverse_loop_inv:
  assumes "lists_inv h H K D" "H l = Some ys" "chain (nxt (a_mem h)) a (map fst xs)" "addrs xs \<subseteq> D"
    and "\<forall>x\<in>set xs. a_t h (fst x) = fst (snd x) \<and> a_w h (fst x) = snd (snd x)"
  shows "\<exists>h'. list_reverse_loop a l h = Some h' \<and> lists_inv h' (H(l \<mapsto> rev xs @ ys)) K (D - addrs xs)"
  using assms
proof (induction xs arbitrary: h H D ys a)
  case Nil
  then show ?case by (simp add: list_reverse_loop.simps map_upd_triv)
next
  case (Cons x xs)
  have a: "a = fst x" "a \<noteq> NULL" "a \<in> D" using Cons.prems by auto
  have d: "a \<notin> addrs xs" using chain_distinct [OF Cons.prems(3)] a by simp
  let ?h1 = "set_next a NULL h" and ?h = "pdp_list_add_atom l a (set_next a NULL h)"
  have i1: "lists_inv ?h1 H K D" by (rule set_next_inv [OF Cons.prems(1) a(3)])
  have x: "(a, a_t ?h1 a, a_w ?h1 a) = x" using Cons.prems(5) a by (cases x) auto
  have i2: "lists_inv ?h (H(l \<mapsto> x # ys)) K (D - {a})"
    using pdp_list_add_atom_inv [of ?h1 H K D l ys a, OF i1 Cons.prems(2) a(3)] unfolding x .
  have "chain (nxt (a_mem ?h)) (a_next h a) (map fst xs)"
    using Cons.prems(3) d a(1) by (simp add: pdp_list_add_atom_def Let_def chain_simps)
  moreover have "\<forall>y\<in>set xs. a_t ?h (fst y) = fst (snd y) \<and> a_w ?h (fst y) = snd (snd y)"
    using Cons.prems(5) by (simp add: pdp_list_add_atom_def Let_def)
  moreover have "addrs xs \<subseteq> D - {a}" using Cons.prems(4) d by auto
  ultimately obtain h' where h': "list_reverse_loop (a_next h a) l ?h = Some h'"
    "lists_inv h' (H(l \<mapsto> x # ys, l \<mapsto> rev xs @ x # ys)) K (D - {a} - addrs xs)"
    using Cons.IH [OF i2 fun_upd_same, of "a_next h a"] by blast
  have "D - {a} - addrs xs = D - addrs (x # xs)" using a by auto
  moreover have "list_reverse_loop a l h = list_reverse_loop (a_next h a) l ?h"
    using a by (subst list_reverse_loop.simps) (simp add: Let_def)
  ultimately show ?case using h' by (intro exI [of _ h']) (simp del: fun_upd_apply)
qed

lemma pdp_list_reverse_inv:
  assumes inv: "lists_inv h H K D" and l: "H l = Some xs"
  shows "\<exists>h'. pdp_list_reverse l h = Some h' \<and> lists_inv h' (H(l \<mapsto> rev xs)) K D"
proof -
  note dt = detach [of h H K D l xs, OF inv l]
  let ?h = "set_hdr l \<lparr>elements = 0, first = NULL, last_atom = NULL\<rparr> h"
  have "lists_inv ?h (H(l := None)) K (D \<union> addrs xs)" by (rule set_hdr_inv [OF dt(1)]) simp
  from attach [OF this _ dt(4), of "[]"]
  have i: "lists_inv ?h (H(l \<mapsto> [])) K (D \<union> addrs xs)" by (simp add: is_list_def)
  have "\<exists>h'. list_reverse_loop (first (l_hdr h l)) l ?h = Some h' \<and>
     lists_inv h' (H(l \<mapsto> [], l \<mapsto> rev xs @ [])) K (D \<union> addrs xs - addrs xs)"
    using dt(2) by (intro list_reverse_loop_inv [OF i]) (auto simp: is_list_def)
  moreover have "D \<union> addrs xs - addrs xs = D" using dt(3) by auto
  ultimately show ?thesis by (simp add: pdp_list_reverse_def del: fun_upd_apply)
qed

lemma pdp_list_reverse_old_inv:
  assumes inv: "lists_inv h H K D" and l: "H l = Some xs"
  shows "\<exists>h' zs. pdp_list_reverse_old l h = Some h' \<and> lists_inv h' (H(l \<mapsto> zs)) K D \<and>
    map snd zs = rev (map snd xs)"
proof -
  from pdp_list_copy_reverse_inv [of h H K D l xs, OF inv l] obtain k h1 zs where
    c: "pdp_list_copy_reverse l h = Some (k, h1)" "k \<notin> K" "lists_inv h1 (H(k \<mapsto> zs)) (insert k K) D"
    "map snd zs = rev (map snd xs)" by blast
  have kl: "k \<noteq> l" "H k = None" "l \<in> K" using c(2) lists_invD(3) [OF inv] l by auto
  have "(H(k \<mapsto> zs)) l = Some xs" using kl l by simp
  from pdp_list_clear_inv [OF c(3) this] obtain h2 where
    h2: "pdp_list_clear l h1 = Some h2" "lists_inv h2 (H(k \<mapsto> zs, l \<mapsto> [])) (insert k K) D" by blast
  let ?H = "H(l := None)" and ?h3 = "set_hdr l (l_hdr h2 k) h2"
  have sk: "is_list h2 k zs" using lists_invD(4) [OF h2(2), of k zs] kl by simp
  have dk: "addrs zs \<inter> D = {}" using lists_invD(5) [OF h2(2), of k zs] kl by simp
  have "lists_inv h2 (H(k \<mapsto> zs, l := None)) (insert k K) D"
    using detach(1) [OF h2(2), of l "[]"] by (simp del: fun_upd_apply add: fun_upd_same)
  from detach(1) [OF this, of k zs] kl
  have "lists_inv h2 (H(k \<mapsto> zs, l := None, k := None)) (insert k K) (D \<union> addrs zs)" by simp
  moreover have "H(k \<mapsto> zs, l := None, k := None) = ?H" using kl by auto
  ultimately have "lists_inv h2 ?H (insert k K) (D \<union> addrs zs)" by simp
  then have "lists_inv ?h3 ?H (insert k K) (D \<union> addrs zs)" by (rule set_hdr_inv) simp
  moreover have "is_list ?h3 l zs" using sk by (simp add: is_list_def)
  moreover have "D \<union> addrs zs - addrs zs = D" using dk by auto
  ultimately have "lists_inv ?h3 (H(l \<mapsto> zs)) (insert k K) D"
    using attach [of ?h3 ?H "insert k K" "D \<union> addrs zs" l zs] kl by simp
  then have "lists_inv (pdp_list_dealloc k ?h3) (H(l \<mapsto> zs)) (insert k K - {k}) D"
    using kl by (intro pdp_list_dealloc_inv(1)) auto
  moreover have "insert k K - {k} = K" using c(2) by blast
  ultimately show ?thesis using c(1,4) h2(1)
    by (intro exI [of _ "pdp_list_dealloc k ?h3"] exI [of _ zs])
      (simp add: pdp_list_reverse_old_def del: fun_upd_apply)
qed

section \<open>The store of lists a client sees\<close>

text \<open>
  A client sees a store: a map from list pointers to sequences of typed words. \<open>lists_rel h A\<close> says
  that heap \<open>h\<close> represents the store \<open>A\<close> and that every allocated atom belongs to a list of \<open>A\<close>.
\<close>

type_synonym lstore = "ptr \<rightharpoonup> (t_pdp_word_type \<times> t_pdp_word) list"

definition view :: "(ptr \<rightharpoonup> cell list) \<Rightarrow> lstore" where
  "view H = (\<lambda>l. map_option (map snd) (H l))"

definition lists_rel :: "pheap \<Rightarrow> lstore \<Rightarrow> bool" where
  "lists_rel h A \<longleftrightarrow> (\<exists>H. lists_inv h H (dom H) {} \<and> A = view H)"

lemma view_upd [simp]: "view (H(l \<mapsto> xs)) = (view H)(l \<mapsto> map snd xs)"
  by (auto simp: view_def)

lemma view_del [simp]: "view (H(l := None)) = (view H)(l := None)"
  by (auto simp: view_def)

lemma view_Some: "view H l = Some vs \<longleftrightarrow> (\<exists>xs. H l = Some xs \<and> vs = map snd xs)"
  by (auto simp: view_def)

lemma lists_relE:
  assumes "lists_rel h A" "A l = Some vs"
  obtains H xs where "lists_inv h H (dom H) {}" "A = view H" "H l = Some xs" "vs = map snd xs"
  using assms by (auto simp: lists_rel_def view_Some)

lemma lists_relI: "lists_inv h H K {} \<Longrightarrow> K = dom H \<Longrightarrow> A = view H \<Longrightarrow> lists_rel h A"
  by (auto simp: lists_rel_def)

lemma lists_rel_setup:
  assumes "0 < brk (a_mem h)" "0 < brk (l_mem h)" "limit (a_mem h) = None" "limit (l_mem h) = None"
  shows "lists_rel (pdp_list_setup h) Map.empty"
proof (rule lists_relI [where H = Map.empty and K = "{}"])
  have e: "owned Map.empty \<union> {} = {}" by (simp add: owned_def)
  show "lists_inv (pdp_list_setup h) Map.empty {} {}"
    using endless_new [OF assms(1,3), of 24] endless_new [OF assms(2,4), of 24]
    by (auto simp: lists_inv_def e pdp_list_setup_def owned_def)
qed (simp_all add: view_def)

lemma dom_upd_in: "H l = Some xs \<Longrightarrow> dom H = dom (H(l \<mapsto> ys))"
  by auto

text \<open>Each operation, seen on the store.\<close>

lemma add_rel:
  assumes "lists_rel h A" "A l = Some vs"
  shows "lists_rel (pdp_list_add l t w h) (A(l \<mapsto> (t, w) # vs))"
proof -
  from assms obtain H xs where H: "lists_inv h H (dom H) {}" "A = view H" "H l = Some xs" "vs = map snd xs"
    by (rule lists_relE)
  from pdp_list_add_inv [of h H "dom H" "{}" l xs, OF H(1,3)] obtain a where
    "lists_inv (pdp_list_add l t w h) (H(l \<mapsto> (a, t, w) # xs)) (dom H) {}" by blast
  then show ?thesis by (rule lists_relI) (use H in auto)
qed

lemma add_back_rel:
  assumes "lists_rel h A" "A l = Some vs"
  shows "lists_rel (pdp_list_add_back l t w h) (A(l \<mapsto> vs @ [(t, w)]))"
proof -
  from assms obtain H xs where H: "lists_inv h H (dom H) {}" "A = view H" "H l = Some xs" "vs = map snd xs"
    by (rule lists_relE)
  from pdp_list_add_back_inv [of h H "dom H" "{}" l xs, OF H(1,3)] obtain a where
    "lists_inv (pdp_list_add_back l t w h) (H(l \<mapsto> xs @ [(a, t, w)])) (dom H) {}" by blast
  then show ?thesis by (rule lists_relI) (use H in auto)
qed

lemma pop_rel:
  assumes "lists_rel h A" "A l = Some (v # vs)"
  shows "\<exists>h'. pdp_list_pop l h = Some (snd v, h') \<and> lists_rel h' (A(l \<mapsto> vs))"
proof -
  from assms obtain H xs where H: "lists_inv h H (dom H) {}" "A = view H" "H l = Some xs" "v # vs = map snd xs"
    by (rule lists_relE)
  from H(4) obtain y ys where xs: "xs = y # ys" by (cases xs) auto
  from pdp_list_pop_inv [of h H "dom H" "{}" l y ys] H xs obtain h' where
    h': "pdp_list_pop l h = Some (snd v, h')" "lists_inv h' (H(l \<mapsto> ys)) (dom H) {}" by auto
  from h'(2) have "lists_rel h' (A(l \<mapsto> vs))" by (rule lists_relI) (use H xs in auto)
  with h'(1) show ?thesis by blast
qed

lemma pop_empty_rel: "lists_rel h A \<Longrightarrow> A l = Some [] \<Longrightarrow> pdp_list_pop l h = None"
  by (elim lists_relE) (auto intro: pdp_list_pop_empty)

lemma size_rel:
  assumes "lists_rel h A" "A l = Some vs"
  shows "pdp_list_size l h = int (length vs)"
proof -
  from assms obtain H xs where H: "lists_inv h H (dom H) {}" "H l = Some xs" "vs = map snd xs"
    by (auto elim: lists_relE)
  from lists_invD(4) [of h H _ _ l xs, OF H(1,2)] H(3) show ?thesis by (simp add: pdp_list_size_def is_list_def)
qed

lemma index_rel:
  assumes "lists_rel h A" "A l = Some vs"
  shows "pdp_list_index l i h = (if i < length vs then Some (snd (vs ! i)) else None)"
proof -
  from assms obtain H xs where H: "lists_inv h H (dom H) {}" "H l = Some xs" "vs = map snd xs"
    by (auto elim: lists_relE)
  from pdp_list_index_eq [of h H _ _ l xs, OF H(1,2)] H(3) show ?thesis by simp
qed

lemma contains_rel:
  assumes "lists_rel h A" "A l = Some vs"
  shows "pdp_list_contains l t w h = Some (list_ex (matches t w) vs)"
proof -
  from assms obtain H xs where H: "lists_inv h H (dom H) {}" "H l = Some xs" "vs = map snd xs"
    by (auto elim: lists_relE)
  from pdp_list_contains_eq [of h H _ _ l xs, OF H(1,2)] H(3) show ?thesis
    by (auto simp: list_ex_iff)
qed

lemma remove_rel:
  assumes "lists_rel h A" "A l = Some vs"
  shows "\<exists>h'. pdp_list_remove l t w h = Some h' \<and> lists_rel h' (A(l \<mapsto> remove_first (matches t w) vs))"
proof -
  from assms obtain H xs where H: "lists_inv h H (dom H) {}" "A = view H" "H l = Some xs" "vs = map snd xs"
    by (rule lists_relE)
  from pdp_list_remove_inv [of h H "dom H" "{}" l xs, OF H(1,3)] obtain h' where
    h': "pdp_list_remove l t w h = Some h'"
    "lists_inv h' (H(l \<mapsto> remove_first (matches t w \<circ> snd) xs)) (dom H) {}" by blast
  from h'(2) have "lists_rel h' (A(l \<mapsto> remove_first (matches t w) vs))"
    by (rule lists_relI) (use H in \<open>auto simp: map_remove_first\<close>)
  with h'(1) show ?thesis by blast
qed

lemma clear_rel:
  assumes "lists_rel h A" "A l = Some vs"
  shows "\<exists>h'. pdp_list_clear l h = Some h' \<and> lists_rel h' (A(l \<mapsto> []))"
proof -
  from assms obtain H xs where H: "lists_inv h H (dom H) {}" "A = view H" "H l = Some xs" "vs = map snd xs"
    by (rule lists_relE)
  from pdp_list_clear_inv [of h H "dom H" "{}" l xs, OF H(1,3)] obtain h' where
    h': "pdp_list_clear l h = Some h'" "lists_inv h' (H(l \<mapsto> [])) (dom H) {}" by blast
  from h'(2) have "lists_rel h' (A(l \<mapsto> []))" by (rule lists_relI) (use H in auto)
  with h'(1) show ?thesis by blast
qed

lemma free_rel:
  assumes "lists_rel h A" "A l = Some vs"
  shows "\<exists>h'. pdp_list_free l h = Some h' \<and> lists_rel h' (A(l := None))"
proof -
  from assms obtain H xs where H: "lists_inv h H (dom H) {}" "A = view H" "H l = Some xs" "vs = map snd xs"
    by (rule lists_relE)
  from pdp_list_free_inv [of h H "dom H" "{}" l xs, OF H(1,3)] obtain h' where
    h': "pdp_list_free l h = Some h'" "lists_inv h' (H(l := None)) (dom H - {l}) {}" by blast
  from h'(2) have "lists_rel h' (A(l := None))" by (rule lists_relI) (use H in auto)
  with h'(1) show ?thesis by blast
qed

lemma view_None: "view H l = None \<longleftrightarrow> H l = None"
  by (simp add: view_def)

lemma new_rel:
  assumes "lists_rel h A" "pdp_list_new n h = (l, h')"
  shows "\<exists>vs. lists_rel h' (A(l \<mapsto> vs)) \<and> length vs = n \<and> (\<forall>v\<in>set vs. fst v = a_undef \<and> w_int (snd v) = 0)"
    and "A l = None" "l \<noteq> NULL"
proof -
  from assms(1) obtain H where H: "lists_inv h H (dom H) {}" "A = view H" by (auto simp: lists_rel_def)
  note N = pdp_list_new_inv [OF H(1) assms(2)]
  from N(1) obtain xs where xs: "lists_inv h' (H(l \<mapsto> xs)) (insert l (dom H)) {}" "length xs = n"
    "\<forall>x\<in>set xs. undef_cell x" by blast
  from xs(1) have "lists_rel h' (A(l \<mapsto> map snd xs))" by (rule lists_relI) (use H in auto)
  then show "\<exists>vs. lists_rel h' (A(l \<mapsto> vs)) \<and> length vs = n \<and> (\<forall>v\<in>set vs. fst v = a_undef \<and> w_int (snd v) = 0)"
    using xs(2,3) by (intro exI [of _ "map snd xs"]) auto
  show "A l = None" using N(3) H(2) by (simp add: view_None)
  show "l \<noteq> NULL" by (fact N(4))
qed

lemma copy_rel:
  assumes "lists_rel h A" "A l = Some vs"
  shows "\<exists>k h'. pdp_list_copy l h = Some (k, h') \<and> A k = None \<and> lists_rel h' (A(k \<mapsto> vs))"
proof -
  from assms obtain H xs where H: "lists_inv h H (dom H) {}" "A = view H" "H l = Some xs" "vs = map snd xs"
    by (rule lists_relE)
  from pdp_list_copy_inv [of h H "dom H" "{}" l xs, OF H(1,3)] obtain k h' zs where
    h': "pdp_list_copy l h = Some (k, h')" "k \<notin> dom H" "lists_inv h' (H(k \<mapsto> zs)) (insert k (dom H)) {}"
    "map snd zs = map snd xs" by blast
  from h'(3) have "lists_rel h' (A(k \<mapsto> vs))" by (rule lists_relI) (use H h'(4) in auto)
  with h'(1,2) show ?thesis by (auto simp: H(2) view_None)
qed

lemma copy_reverse_rel:
  assumes "lists_rel h A" "A l = Some vs"
  shows "\<exists>k h'. pdp_list_copy_reverse l h = Some (k, h') \<and> A k = None \<and> lists_rel h' (A(k \<mapsto> rev vs))"
proof -
  from assms obtain H xs where H: "lists_inv h H (dom H) {}" "A = view H" "H l = Some xs" "vs = map snd xs"
    by (rule lists_relE)
  from pdp_list_copy_reverse_inv [of h H "dom H" "{}" l xs, OF H(1,3)] obtain k h' zs where
    h': "pdp_list_copy_reverse l h = Some (k, h')" "k \<notin> dom H" "lists_inv h' (H(k \<mapsto> zs)) (insert k (dom H)) {}"
    "map snd zs = rev (map snd xs)" by blast
  from h'(3) have "lists_rel h' (A(k \<mapsto> rev vs))" by (rule lists_relI) (use H h'(4) in auto)
  with h'(1,2) show ?thesis by (auto simp: H(2) view_None)
qed

lemma join_rel:
  assumes "lists_rel h A" "A l = Some vs" "A k = Some us" "k \<noteq> l"
  shows "lists_rel (pdp_list_join l k h) (A(l \<mapsto> vs @ us, k := None))"
proof -
  from assms(1) obtain H where H: "lists_inv h H (dom H) {}" "A = view H" by (auto simp: lists_rel_def)
  with assms obtain xs ys where xs: "H l = Some xs" "vs = map snd xs" "H k = Some ys" "us = map snd ys"
    by (auto simp: view_Some)
  from pdp_list_join_inv [of h H "dom H" "{}" l xs k ys, OF H(1) xs(1,3) assms(4)]
  show ?thesis by (rule lists_relI) (use H xs in auto)
qed

lemma cat_rel:
  assumes "lists_rel h A" "A l = Some vs" "A k = Some us"
  shows "\<exists>h'. pdp_list_cat l k h = Some h' \<and> lists_rel h' (A(l \<mapsto> vs @ us))"
proof -
  from assms(1) obtain H where H: "lists_inv h H (dom H) {}" "A = view H" by (auto simp: lists_rel_def)
  with assms obtain xs ys where xs: "H l = Some xs" "vs = map snd xs" "H k = Some ys" "us = map snd ys"
    by (auto simp: view_Some)
  from pdp_list_cat_inv [of h H "dom H" "{}" l xs k ys, OF H(1) xs(1,3)] obtain h' zs where
    h': "pdp_list_cat l k h = Some h'" "lists_inv h' (H(l \<mapsto> xs @ zs)) (dom H) {}" "map snd zs = map snd ys"
    by blast
  from h'(2) have "lists_rel h' (A(l \<mapsto> vs @ us))" by (rule lists_relI) (use H xs h'(3) in auto)
  with h'(1) show ?thesis by blast
qed

lemma reverse_rel:
  assumes "lists_rel h A" "A l = Some vs"
  shows "\<exists>h'. pdp_list_reverse l h = Some h' \<and> lists_rel h' (A(l \<mapsto> rev vs))"
proof -
  from assms obtain H xs where H: "lists_inv h H (dom H) {}" "A = view H" "H l = Some xs" "vs = map snd xs"
    by (rule lists_relE)
  from pdp_list_reverse_inv [of h H "dom H" "{}" l xs, OF H(1,3)] obtain h' where
    h': "pdp_list_reverse l h = Some h'" "lists_inv h' (H(l \<mapsto> rev xs)) (dom H) {}" by blast
  from h'(2) have "lists_rel h' (A(l \<mapsto> rev vs))" by (rule lists_relI) (use H in \<open>auto simp: rev_map\<close>)
  with h'(1) show ?thesis by blast
qed

lemma reverse_old_rel:
  assumes "lists_rel h A" "A l = Some vs"
  shows "\<exists>h'. pdp_list_reverse_old l h = Some h' \<and> lists_rel h' (A(l \<mapsto> rev vs))"
proof -
  from assms obtain H xs where H: "lists_inv h H (dom H) {}" "A = view H" "H l = Some xs" "vs = map snd xs"
    by (rule lists_relE)
  from pdp_list_reverse_old_inv [of h H "dom H" "{}" l xs, OF H(1,3)] obtain h' zs where
    h': "pdp_list_reverse_old l h = Some h'" "lists_inv h' (H(l \<mapsto> zs)) (dom H) {}"
    "map snd zs = rev (map snd xs)" by blast
  from h'(2) have "lists_rel h' (A(l \<mapsto> rev vs))" by (rule lists_relI) (use H h'(3) in auto)
  with h'(1) show ?thesis by blast
qed

lemma add_to_set_rel:
  assumes "lists_rel h A" "A l = Some vs"
  shows "\<exists>h'. pdp_list_add_to_set l t w h = Some h' \<and>
    lists_rel h' (A(l \<mapsto> if list_ex (matches t w) vs then vs else (t, w) # vs))"
proof (cases "list_ex (matches t w) vs")
  case True
  with assms show ?thesis by (simp add: pdp_list_add_to_set_def contains_rel map_upd_triv)
next
  case False
  with assms show ?thesis by (simp add: pdp_list_add_to_set_def contains_rel add_rel del: fun_upd_apply)
qed

section \<open>Simulation of every call\<close>

text \<open>
  A call of the list interface, its result, and what the store makes of both: \<open>abs_call\<close> is \<open>None\<close>
  for a result the store does not allow. \<open>call_ok\<close> is the precondition of the call.
\<close>

datatype list_call =
  ListNew | ListAdd ptr t_pdp_word_type t_pdp_word | ListAddBack ptr t_pdp_word_type t_pdp_word
| ListPop ptr | ListSize ptr | ListIndex ptr nat | ListContains ptr t_pdp_word_type t_pdp_word
| ListRemove ptr t_pdp_word_type t_pdp_word | ListAddToSet ptr t_pdp_word_type t_pdp_word
| ListClear ptr | ListFree ptr | ListCopy ptr | ListCopyReverse ptr | ListJoin ptr ptr
| ListCat ptr ptr | ListReverse ptr | ListReverseOld ptr

datatype list_result = Done | Ptr ptr | Word t_pdp_word | Num int | Flag bool

fun do_call :: "list_call \<Rightarrow> pheap \<Rightarrow> (list_result \<times> pheap) option" where
  "do_call ListNew h = (let (l, h) = pdp_list_new 0 h in Some (Ptr l, h))"
| "do_call (ListAdd l t w) h = Some (Done, pdp_list_add l t w h)"
| "do_call (ListAddBack l t w) h = Some (Done, pdp_list_add_back l t w h)"
| "do_call (ListPop l) h = do { (w, h) \<leftarrow> pdp_list_pop l h; Some (Word w, h) }"
| "do_call (ListSize l) h = Some (Num (pdp_list_size l h), h)"
| "do_call (ListIndex l i) h = do { w \<leftarrow> pdp_list_index l i h; Some (Word w, h) }"
| "do_call (ListContains l t w) h = do { b \<leftarrow> pdp_list_contains l t w h; Some (Flag b, h) }"
| "do_call (ListRemove l t w) h = do { h \<leftarrow> pdp_list_remove l t w h; Some (Done, h) }"
| "do_call (ListAddToSet l t w) h = do { h \<leftarrow> pdp_list_add_to_set l t w h; Some (Done, h) }"
| "do_call (ListClear l) h = do { h \<leftarrow> pdp_list_clear l h; Some (Done, h) }"
| "do_call (ListFree l) h = do { h \<leftarrow> pdp_list_free l h; Some (Done, h) }"
| "do_call (ListCopy l) h = do { (k, h) \<leftarrow> pdp_list_copy l h; Some (Ptr k, h) }"
| "do_call (ListCopyReverse l) h = do { (k, h) \<leftarrow> pdp_list_copy_reverse l h; Some (Ptr k, h) }"
| "do_call (ListJoin l k) h = Some (Done, pdp_list_join l k h)"
| "do_call (ListCat l k) h = do { h \<leftarrow> pdp_list_cat l k h; Some (Done, h) }"
| "do_call (ListReverse l) h = do { h \<leftarrow> pdp_list_reverse l h; Some (Done, h) }"
| "do_call (ListReverseOld l) h = do { h \<leftarrow> pdp_list_reverse_old l h; Some (Done, h) }"

fun call_ok :: "list_call \<Rightarrow> lstore \<Rightarrow> bool" where
  "call_ok ListNew A \<longleftrightarrow> True"
| "call_ok (ListAdd l t w) A \<longleftrightarrow> A l \<noteq> None"
| "call_ok (ListAddBack l t w) A \<longleftrightarrow> A l \<noteq> None"
| "call_ok (ListPop l) A \<longleftrightarrow> A l \<noteq> None \<and> A l \<noteq> Some []"
| "call_ok (ListSize l) A \<longleftrightarrow> A l \<noteq> None"
| "call_ok (ListIndex l i) A \<longleftrightarrow> (case A l of None \<Rightarrow> False | Some vs \<Rightarrow> i < length vs)"
| "call_ok (ListContains l t w) A \<longleftrightarrow> A l \<noteq> None"
| "call_ok (ListRemove l t w) A \<longleftrightarrow> A l \<noteq> None"
| "call_ok (ListAddToSet l t w) A \<longleftrightarrow> A l \<noteq> None"
| "call_ok (ListClear l) A \<longleftrightarrow> A l \<noteq> None"
| "call_ok (ListFree l) A \<longleftrightarrow> A l \<noteq> None"
| "call_ok (ListCopy l) A \<longleftrightarrow> A l \<noteq> None"
| "call_ok (ListCopyReverse l) A \<longleftrightarrow> A l \<noteq> None"
| "call_ok (ListJoin l k) A \<longleftrightarrow> A l \<noteq> None \<and> A k \<noteq> None \<and> k \<noteq> l"
| "call_ok (ListCat l k) A \<longleftrightarrow> A l \<noteq> None \<and> A k \<noteq> None"
| "call_ok (ListReverse l) A \<longleftrightarrow> A l \<noteq> None"
| "call_ok (ListReverseOld l) A \<longleftrightarrow> A l \<noteq> None"

definition contents :: "lstore \<Rightarrow> ptr \<Rightarrow> (t_pdp_word_type \<times> t_pdp_word) list" where
  "contents A l = (case A l of None \<Rightarrow> [] | Some vs \<Rightarrow> vs)"

fun abs_call :: "list_call \<Rightarrow> list_result \<Rightarrow> lstore \<Rightarrow> lstore option" where
  "abs_call ListNew r A = (case r of Ptr k \<Rightarrow> (if A k = None then Some (A(k \<mapsto> [])) else None) | _ \<Rightarrow> None)"
| "abs_call (ListAdd l t w) r A = (if r = Done then Some (A(l \<mapsto> (t, w) # contents A l)) else None)"
| "abs_call (ListAddBack l t w) r A = (if r = Done then Some (A(l \<mapsto> contents A l @ [(t, w)])) else None)"
| "abs_call (ListPop l) r A = (case r of Word w \<Rightarrow> (case contents A l of [] \<Rightarrow> None | v # vs \<Rightarrow> if w = snd v then Some (A(l \<mapsto> vs)) else None) | _ \<Rightarrow> None)"
| "abs_call (ListSize l) r A = (case r of Num n \<Rightarrow> (if n = int (length (contents A l)) then Some A else None) | _ \<Rightarrow> None)"
| "abs_call (ListIndex l i) r A = (case r of Word w \<Rightarrow> (if w = snd (contents A l ! i) then Some A else None) | _ \<Rightarrow> None)"
| "abs_call (ListContains l t w) r A = (case r of Flag b \<Rightarrow> (if b = list_ex (matches t w) (contents A l) then Some A else None) | _ \<Rightarrow> None)"
| "abs_call (ListRemove l t w) r A = (if r = Done then Some (A(l \<mapsto> remove_first (matches t w) (contents A l))) else None)"
| "abs_call (ListAddToSet l t w) r A = (if r = Done then Some (A(l \<mapsto> if list_ex (matches t w) (contents A l) then contents A l else (t, w) # contents A l)) else None)"
| "abs_call (ListClear l) r A = (if r = Done then Some (A(l \<mapsto> [])) else None)"
| "abs_call (ListFree l) r A = (if r = Done then Some (A(l := None)) else None)"
| "abs_call (ListCopy l) r A = (case r of Ptr k \<Rightarrow> (if A k = None then Some (A(k \<mapsto> contents A l)) else None) | _ \<Rightarrow> None)"
| "abs_call (ListCopyReverse l) r A = (case r of Ptr k \<Rightarrow> (if A k = None then Some (A(k \<mapsto> rev (contents A l))) else None) | _ \<Rightarrow> None)"
| "abs_call (ListJoin l k) r A = (if r = Done then Some (A(l \<mapsto> contents A l @ contents A k, k := None)) else None)"
| "abs_call (ListCat l k) r A = (if r = Done then Some (A(l \<mapsto> contents A l @ contents A k)) else None)"
| "abs_call (ListReverse l) r A = (if r = Done then Some (A(l \<mapsto> rev (contents A l))) else None)"
| "abs_call (ListReverseOld l) r A = (if r = Done then Some (A(l \<mapsto> rev (contents A l))) else None)"

lemma contents_Some [simp]: "A l = Some vs \<Longrightarrow> contents A l = vs"
  by (simp add: contents_def)

lemma call_simulation:
  assumes rel: "lists_rel h A" and ok: "call_ok c A"
  shows "\<exists>r h' A'. do_call c h = Some (r, h') \<and> abs_call c r A = Some A' \<and> lists_rel h' A'"
proof (cases c)
  case ListNew
  obtain l h' where n: "pdp_list_new 0 h = (l, h')" by fastforce
  from new_rel [OF rel n] ok ListNew n show ?thesis by auto
next
  case (ListAdd l t w)
  with ok obtain vs where "A l = Some vs" by auto
  with add_rel [OF rel this] ListAdd show ?thesis by (auto simp del: fun_upd_apply)
next
  case (ListAddBack l t w)
  with ok obtain vs where "A l = Some vs" by auto
  with add_back_rel [OF rel this] ListAddBack show ?thesis by (auto simp del: fun_upd_apply)
next
  case (ListPop l)
  with ok obtain v vs where "A l = Some (v # vs)" by (auto simp: neq_Nil_conv)
  with pop_rel [OF rel this] ListPop show ?thesis by (auto simp del: fun_upd_apply)
next
  case (ListSize l)
  with ok obtain vs where "A l = Some vs" by auto
  with size_rel [OF rel this] rel ListSize show ?thesis by (auto simp del: fun_upd_apply)
next
  case (ListContains l t w)
  with ok obtain vs where "A l = Some vs" by auto
  with contains_rel [OF rel this] rel ListContains show ?thesis by (auto simp del: fun_upd_apply)
next
  case (ListIndex l i)
  with ok obtain vs where "A l = Some vs" "i < length vs" by (auto split: option.splits)
  with index_rel [OF rel this(1)] rel ListIndex show ?thesis by auto
next
  case (ListRemove l t w)
  with ok obtain vs where "A l = Some vs" by auto
  with remove_rel [OF rel this, of t w] ListRemove show ?thesis by (auto simp del: fun_upd_apply)
next
  case (ListAddToSet l t w)
  with ok obtain vs where "A l = Some vs" by auto
  with add_to_set_rel [OF rel this, of t w] ListAddToSet show ?thesis by (auto simp del: fun_upd_apply)
next
  case (ListClear l)
  with ok obtain vs where "A l = Some vs" by auto
  with clear_rel [OF rel this] ListClear show ?thesis by (auto simp del: fun_upd_apply)
next
  case (ListFree l)
  with ok obtain vs where "A l = Some vs" by auto
  with free_rel [OF rel this] ListFree show ?thesis by (auto simp del: fun_upd_apply)
next
  case (ListCopy l)
  with ok obtain vs where "A l = Some vs" by auto
  with copy_rel [OF rel this] ListCopy show ?thesis by (auto simp del: fun_upd_apply)
next
  case (ListCopyReverse l)
  with ok obtain vs where "A l = Some vs" by auto
  with copy_reverse_rel [OF rel this] ListCopyReverse show ?thesis by (auto simp del: fun_upd_apply)
next
  case (ListReverse l)
  with ok obtain vs where "A l = Some vs" by auto
  with reverse_rel [OF rel this] ListReverse show ?thesis by (auto simp del: fun_upd_apply)
next
  case (ListReverseOld l)
  with ok obtain vs where "A l = Some vs" by auto
  with reverse_old_rel [OF rel this] ListReverseOld show ?thesis by (auto simp del: fun_upd_apply)
next
  case (ListJoin l k)
  with ok obtain vs us where "A l = Some vs" "A k = Some us" by auto
  with join_rel [OF rel this] ListJoin ok show ?thesis by (auto simp del: fun_upd_apply)
next
  case (ListCat l k)
  with ok obtain vs us where "A l = Some vs" "A k = Some us" by auto
  with cat_rel [OF rel this] ListCat ok show ?thesis by (auto simp del: fun_upd_apply)
qed

text \<open>
  The states a program can reach from \<open>pdp_list_setup\<close> by legal calls, with the store it has built.
\<close>

inductive list_reach :: "pheap \<Rightarrow> lstore \<Rightarrow> bool" where
  start: "0 < brk (a_mem h) \<Longrightarrow> 0 < brk (l_mem h) \<Longrightarrow> limit (a_mem h) = None \<Longrightarrow> limit (l_mem h) = None \<Longrightarrow>
    list_reach (pdp_list_setup h) Map.empty"
| step: "list_reach h A \<Longrightarrow> call_ok c A \<Longrightarrow> do_call c h = Some (r, h') \<Longrightarrow> abs_call c r A = Some A' \<Longrightarrow>
    list_reach h' A'"

lemma list_reach_rel: "list_reach h A \<Longrightarrow> lists_rel h A"
proof (induction rule: list_reach.induct)
  case (start h)
  then show ?case by (rule lists_rel_setup)
next
  case (step h A c r h' A')
  with call_simulation [of h A c] show ?case by auto
qed

section \<open>The interface of the list store\<close>

primrec pop_n :: "('h \<Rightarrow> ('w \<times> 'h) option) \<Rightarrow> nat \<Rightarrow> 'h \<Rightarrow> ('w list \<times> 'h) option" where
  "pop_n pop 0 h = Some ([], h)"
| "pop_n pop (Suc n) h = do { (w, h) \<leftarrow> pop h; (ws, h) \<leftarrow> pop_n pop n h; Some (w # ws, h) }"

text \<open>
  What the queues, stacks and pools of the other components rely on: a list takes words at either
  end and gives them back at the front.
\<close>

locale list_store =
  fixes rel :: "'h \<Rightarrow> (ptr \<rightharpoonup> ('t \<times> 'w) list) \<Rightarrow> bool"
    and add :: "ptr \<Rightarrow> 't \<Rightarrow> 'w \<Rightarrow> 'h \<Rightarrow> 'h"
    and add_back :: "ptr \<Rightarrow> 't \<Rightarrow> 'w \<Rightarrow> 'h \<Rightarrow> 'h"
    and pop :: "ptr \<Rightarrow> 'h \<Rightarrow> ('w \<times> 'h) option"
  assumes add: "rel h A \<Longrightarrow> A l = Some vs \<Longrightarrow> rel (add l t w h) (A(l \<mapsto> (t, w) # vs))"
    and add_back: "rel h A \<Longrightarrow> A l = Some vs \<Longrightarrow> rel (add_back l t w h) (A(l \<mapsto> vs @ [(t, w)]))"
    and pop: "rel h A \<Longrightarrow> A l = Some (v # vs) \<Longrightarrow>
      \<exists>h'. pop l h = Some (snd v, h') \<and> rel h' (A(l \<mapsto> vs))"
begin

lemma add_all:
  "rel h A \<Longrightarrow> A l = Some vs \<Longrightarrow> rel (fold (\<lambda>(t, w). add l t w) us h) (A(l \<mapsto> rev us @ vs))"
proof (induction us arbitrary: h A vs)
  case Nil
  then show ?case by (simp add: map_upd_triv)
next
  case (Cons u us)
  obtain t w where u: "u = (t, w)" by fastforce
  from Cons.IH [OF add [of h A l vs t w, OF Cons.prems] fun_upd_same] show ?case
    by (simp add: u del: fun_upd_apply)
qed

lemma add_back_all:
  "rel h A \<Longrightarrow> A l = Some vs \<Longrightarrow> rel (fold (\<lambda>(t, w). add_back l t w) us h) (A(l \<mapsto> vs @ us))"
proof (induction us arbitrary: h A vs)
  case Nil
  then show ?case by (simp add: map_upd_triv)
next
  case (Cons u us)
  obtain t w where u: "u = (t, w)" by fastforce
  from Cons.IH [OF add_back [of h A l vs t w, OF Cons.prems] fun_upd_same] show ?case
    by (simp add: u del: fun_upd_apply)
qed

lemma pop_prefix:
  "rel h A \<Longrightarrow> A l = Some (us @ vs) \<Longrightarrow>
    \<exists>h'. pop_n (pop l) (length us) h = Some (map snd us, h') \<and> rel h' (A(l \<mapsto> vs))"
proof (induction us arbitrary: h A)
  case Nil
  then show ?case by (simp add: map_upd_triv)
next
  case (Cons u us)
  from pop [of h A l u "us @ vs"] Cons.prems obtain h1 where
    h1: "pop l h = Some (snd u, h1)" "rel h1 (A(l \<mapsto> us @ vs))" by auto
  from Cons.IH [OF h1(2) fun_upd_same] h1(1) show ?case by (auto simp del: fun_upd_apply)
qed

lemma queue_order:
  assumes "rel h A" "A l = Some []"
  shows "\<exists>h'. pop_n (pop l) (length us) (fold (\<lambda>(t, w). add_back l t w) us h) = Some (map snd us, h') \<and> rel h' A"
proof -
  have "rel (fold (\<lambda>(t, w). add_back l t w) us h) (A(l \<mapsto> us @ []))" using add_back_all [OF assms] by simp
  from pop_prefix [OF this fun_upd_same] assms(2) show ?thesis by (simp add: map_upd_triv del: fun_upd_apply)
qed

lemma stack_order:
  assumes "rel h A" "A l = Some vs"
  shows "\<exists>h'. pop_n (pop l) (length us) (fold (\<lambda>(t, w). add l t w) us h) = Some (rev (map snd us), h') \<and> rel h' A"
proof -
  have "rel (fold (\<lambda>(t, w). add l t w) us h) (A(l \<mapsto> rev us @ vs))" by (rule add_all [OF assms])
  from pop_prefix [OF this fun_upd_same] assms(2) show ?thesis
    by (simp add: map_upd_triv rev_map del: fun_upd_apply)
qed

end

interpretation ls: list_store lists_rel pdp_list_add pdp_list_add_back pdp_list_pop
  by unfold_locales (fact add_rel add_back_rel pop_rel)+

section \<open>The inverted tests of \<open>pdp_list_pop_push\<close>\<close>

lemma pop_push_corrupts:
  assumes inv: "lists_inv h H K D" and s: "H s = Some (x # y # xs)" and d: "H d = Some ys" "s \<noteq> d"
  shows "\<exists>h'. pdp_list_pop_push s d h = Some h' \<and> first (l_hdr h' s) \<noteq> NULL \<and> last_atom (l_hdr h' s) = NULL \<and>
    (\<forall>zs. \<not> is_list h' s zs)"
proof -
  have l: "is_list h s (x # y # xs)" by (rule lists_invD(4) [of h H K D, OF inv s])
  then have e: "elements (l_hdr h s) \<noteq> 1" "first (l_hdr h s) = fst x" "fst x \<noteq> NULL"
    "a_next h (fst x) = fst y" "fst y \<noteq> NULL" by (auto simp: is_list_def)
  then obtain h' where h': "pdp_list_pop_push s d h = Some h'" "first (l_hdr h' s) = fst y" "last_atom (l_hdr h' s) = NULL"
    using d(2) by (simp add: pdp_list_pop_push_def Let_def)
  have "\<not> is_list h' s zs" for zs
  proof
    assume z: "is_list h' s zs"
    with h'(2) e(5) have "zs \<noteq> []" by (auto simp: is_list_def)
    from is_list_last(1,3) [OF z this] h'(3) show False by simp
  qed
  with h' e(5) show ?thesis by auto
qed

section \<open>Properties\<close>

definition boot_heap :: pheap where
  "boot_heap = \<lparr>a_mem = empty_mem\<lparr>limit := None\<rparr>, a_t = (\<lambda>_. a_undef), a_w = (\<lambda>_. 0), l_mem = empty_mem\<lparr>limit := None\<rparr>,
     l_hdr = (\<lambda>_. \<lparr>elements = 0, first = NULL, last_atom = NULL\<rparr>),
     fast_atom_allocator = small_alloc, fast_list_allocator = small_alloc\<rparr>"

lemma reach_boot: "list_reach (pdp_list_setup boot_heap) Map.empty"
  by (rule list_reach.start) (simp_all add: boot_heap_def empty_mem_def)

lemma reach_empty_list: "\<exists>h A l. list_reach h A \<and> A l = Some []"
proof -
  from call_simulation [OF list_reach_rel [OF reach_boot], of ListNew] obtain r h A where
    s: "do_call ListNew (pdp_list_setup boot_heap) = Some (r, h)" "abs_call ListNew r Map.empty = Some A" by auto
  with list_reach.step [OF reach_boot _ s] have "list_reach h A" by simp
  moreover from s(2) obtain l where "A l = Some []" by (auto split: list_result.splits)
  ultimately show ?thesis by blast
qed

text \<open>
  C1: from \<open>pdp_list_setup\<close> on, every legal call of the list interface returns, with exactly the result
  and the effect on the lists that the abstract store prescribes; all other lists keep their contents.
\<close>

theorem list_calls_refine_store:
  assumes "list_reach h A" "call_ok c A"
  shows "\<exists>r h' A'. do_call c h = Some (r, h') \<and> abs_call c r A = Some A' \<and> list_reach h' A' \<and> lists_rel h' A'"
proof -
  from call_simulation [OF list_reach_rel [OF assms(1)] assms(2)] obtain r h' A' where
    "do_call c h = Some (r, h')" "abs_call c r A = Some A'" "lists_rel h' A'" by blast
  with list_reach.step [OF assms] show ?thesis by blast
qed

theorem list_calls_refine_store_witness:
  "\<exists>h A l. list_reach h A \<and> A l = Some [] \<and>
     (\<exists>r h' A'. do_call (ListAdd l a_int 7) h = Some (r, h') \<and> abs_call (ListAdd l a_int 7) r A = Some A' \<and>
       list_reach h' A' \<and> lists_rel h' A')"
proof -
  from reach_empty_list obtain h A l where r: "list_reach h A" "A l = Some []" by blast
  then have "call_ok (ListAdd l a_int 7) A" by simp
  from list_calls_refine_store [OF r(1) this] r show ?thesis by blast
qed

text \<open>
  a list used with \<open>pdp_list_add_back\<close> and \<open>pdp_list_pop\<close> is a first-in first-out queue: popping as
  often as words were added gives the words in order and leaves the store as it was.
\<close>

theorem list_fifo_order:
  assumes "list_reach h A" "A l = Some []"
  shows "\<exists>h'. pop_n (pdp_list_pop l) (length us) (fold (\<lambda>(t, w). pdp_list_add_back l t w) us h) =
      Some (map snd us, h') \<and> lists_rel h' A"
  by (rule ls.queue_order [of h A l us, OF list_reach_rel [OF assms(1)] assms(2)])

theorem list_fifo_order_witness:
  "\<exists>h A l h'. list_reach h A \<and> A l = Some [] \<and>
     pop_n (pdp_list_pop l) 2 (pdp_list_add_back l a_packet 5 (pdp_list_add_back l a_packet 3 h)) =
       Some ([3, 5], h') \<and> lists_rel h' A"
proof -
  from reach_empty_list obtain h A l where r: "list_reach h A" "A l = Some []" by blast
  from list_fifo_order [of h A l "[(a_packet, 3), (a_packet, 5)]", OF r] r show ?thesis
    by (auto simp: numeral_2_eq_2)
qed

text \<open>
  \<open>pdp_list_reverse\<close> reverses in place: it returns, and the list consists of the very same atoms
  (address, type, word) in reverse order, so pointers to atoms stay accurate; no other list and no
  detached atom changes.
\<close>

theorem list_reverse_in_place:
  assumes "lists_inv h H K D" "H l = Some xs"
  shows "\<exists>h'. pdp_list_reverse l h = Some h' \<and> lists_inv h' (H(l \<mapsto> rev xs)) K D \<and> is_list h' l (rev xs)"
proof -
  from pdp_list_reverse_inv [of h H K D l xs, OF assms] obtain h' where
    h': "pdp_list_reverse l h = Some h'" "lists_inv h' (H(l \<mapsto> rev xs)) K D" by blast
  from lists_invD(4) [OF h'(2) fun_upd_same] h' show ?thesis by blast
qed

lemma inv_example: "\<exists>h H K D s d x y ys. lists_inv h H K D \<and> H s = Some [x, y] \<and> H d = Some ys \<and> s \<noteq> d"
proof -
  from reach_empty_list obtain h A d where r: "list_reach h A" "A d = Some []" by blast
  from call_simulation [OF list_reach_rel [OF r(1)], of ListNew] obtain rs h1 A1 where
    s: "abs_call ListNew rs A = Some A1" "lists_rel h1 A1" by auto
  then obtain l where l: "A l = None" "A1 = A(l \<mapsto> [])" by (auto split: list_result.splits if_splits)
  with r have ld: "l \<noteq> d" "A1 l = Some []" "A1 d = Some []" by auto
  from add_rel [OF add_rel [OF s(2) ld(2), of a_int 1] fun_upd_same, of a_int 2] obtain h2 A2 where
    h2: "lists_rel h2 A2" "A2 = A1(l \<mapsto> [(a_int, 2), (a_int, 1)])" by (simp del: fun_upd_apply)
  then obtain H xs where H: "lists_inv h2 H (dom H) {}" "A2 = view H" "H l = Some xs"
      "[(a_int, 2), (a_int, 1)] = map snd xs" using lists_relE [of h2 A2 l] by (metis fun_upd_same)
  then obtain x y where "xs = [x, y]" by auto
  moreover obtain ys where "H d = Some ys" using H(2) h2(2) ld view_Some [of H d] by (metis fun_upd_other)
  ultimately show ?thesis using H ld by blast
qed

theorem list_reverse_in_place_witness:
  "\<exists>h H K D l x y h'. lists_inv h H K D \<and> H l = Some [x, y] \<and> pdp_list_reverse l h = Some h' \<and>
     is_list h' l [y, x]"
proof -
  from inv_example obtain h H K D l x y where e: "lists_inv h H K D" "H l = Some [x, y]" by blast
  from list_reverse_in_place [of h H K D l "[x, y]", OF e] obtain h' where
    "pdp_list_reverse l h = Some h'" "is_list h' l [y, x]" by (auto simp only: rev.simps append.simps)
  with e show ?thesis by blast
qed

text \<open>
  C24: \<open>pdp_list_pop_push\<close> corrupts the list it pops from: when at least two atoms are in it, its
  \<open>last\<close> pointer is cleared although its \<open>first\<close> pointer is not, so the header describes no list.
\<close>

theorem list_pop_push_corrupts:
  assumes "lists_inv h H K D" "H s = Some (x # y # xs)" "H d = Some ys" "s \<noteq> d"
  shows "\<exists>h'. pdp_list_pop_push s d h = Some h' \<and> first (l_hdr h' s) \<noteq> NULL \<and>
    last_atom (l_hdr h' s) = NULL \<and> (\<forall>zs. \<not> is_list h' s zs)"
  by (rule pop_push_corrupts [of h H K D s x y xs d ys, OF assms])

theorem list_pop_push_corrupts_witness:
  "\<exists>h H K D s d x y h'. lists_inv h H K D \<and> H s = Some [x, y] \<and> s \<noteq> d \<and>
     pdp_list_pop_push s d h = Some h' \<and> (\<forall>zs. \<not> is_list h' s zs)"
proof -
  from inv_example obtain h H K D s d x y ys where
    e: "lists_inv h H K D" "H s = Some [x, y]" "H d = Some ys" "s \<noteq> d" by blast
  from list_pop_push_corrupts [of h H K D s x y "[]" d ys, OF e] e show ?thesis by blast
qed

text \<open>
  \<open>pdp_list_contains\<close> and \<open>pdp_list_remove\<close> compare only the type and the low 32 bits of a word: two
  words that agree there are the same word to them, also when they are different 64-bit pointers.
\<close>

theorem list_search_ignores_high_half:
  assumes "list_reach h A" "A l = Some vs" "w_int w = w_int w'"
  shows "pdp_list_contains l t w h = pdp_list_contains l t w' h \<and>
    (\<exists>h1 h2. pdp_list_remove l t w h = Some h1 \<and> pdp_list_remove l t w' h = Some h2 \<and>
       lists_rel h1 (A(l \<mapsto> remove_first (matches t w) vs)) \<and>
       lists_rel h2 (A(l \<mapsto> remove_first (matches t w) vs)))"
proof -
  note rel = list_reach_rel [OF assms(1)]
  have m: "matches t w = matches t w'" using assms(3) by (auto simp: matches_def)
  have "pdp_list_contains l t w h = pdp_list_contains l t w' h"
    using contains_rel [OF rel assms(2)] m by simp
  moreover obtain h1 h2 where "pdp_list_remove l t w h = Some h1"
      "lists_rel h1 (A(l \<mapsto> remove_first (matches t w) vs))"
      "pdp_list_remove l t w' h = Some h2" "lists_rel h2 (A(l \<mapsto> remove_first (matches t w') vs))"
    using remove_rel [OF rel assms(2)] by metis
  ultimately show ?thesis unfolding m by blast
qed

theorem list_search_ignores_high_half_witness:
  "\<exists>h A l. list_reach h A \<and> A l = Some [] \<and> w_int (2 ^ 32) = w_int 0 \<and>
     pdp_list_contains l a_pointer (2 ^ 32) h = pdp_list_contains l a_pointer 0 h"
proof -
  from reach_empty_list obtain h A l where r: "list_reach h A" "A l = Some []" by blast
  have w: "w_int (2 ^ 32) = w_int 0" by (simp add: w_int_def)
  from list_search_ignores_high_half [OF r w] r w show ?thesis by blast
qed

end
