(* ===== verification/Symbol.thy ===== *)
theory Symbol
  imports Mem
begin

text \<open>
  The symbol table of \<^verbatim>\<open>system/kernel/pdp_symbol.c\<close>: 1024 buckets of symbols chained by
  \<open>s_next\<close>, filled by \<open>pdp_gensym\<close>.

  Symbols are addresses with the fields \<open>s_next\<close>, \<open>s_name\<close> and \<open>s_type\<close> (the cached type list, an
  address). The table lock makes \<open>_pdp_dogensym\<close> atomic. The lemmas show that the table interns
  names: a name has one symbol for ever, two symbols never share a name, so comparing symbol
  pointers is comparing names. The other theories use names for symbols on this ground.
\<close>

record symtab =
  pdp_symhash :: "nat \<Rightarrow> ptr"
  s_next :: "ptr \<Rightarrow> ptr"
  s_name :: "ptr \<Rightarrow> string"
  s_type :: "ptr \<Rightarrow> ptr"
  s_brk :: ptr

definition HASHSIZE :: nat where
  "HASHSIZE = 1024"

text \<open>The \<open>char\<close>s of a name are signed and widened to \<open>unsigned int\<close>.\<close>

definition char_u32 :: "char \<Rightarrow> 32 word" where
  "char_u32 c = scast (of_char c :: 8 word)"

fun hash_loop :: "string \<Rightarrow> 32 word \<Rightarrow> 32 word \<Rightarrow> 32 word" where
  "hash_loop [] hash1 hash2 = hash2"
| "hash_loop (c # cs) hash1 hash2 = (let hash1 = hash1 + char_u32 c in hash_loop cs hash1 (hash2 + hash1))"

definition sym_hash :: "string \<Rightarrow> nat" where
  "sym_hash s = unat (hash_loop s 0 0 AND (word_of_nat HASHSIZE - 1))"

text \<open>\<open>sizeof(t_pdp_symbol)\<close> on LP64: two pointers, an atom, two pointers.\<close>

definition pdp_symbol_init :: "ptr \<Rightarrow> symtab \<Rightarrow> symtab" where
  "pdp_symbol_init s h = h\<lparr>s_next := (s_next h)(s := NULL), s_name := (s_name h)(s := []),
     s_type := (s_type h)(s := NULL)\<rparr>"

text \<open>
  The search loop: \<open>prev\<close> is the symbol whose \<open>s_next\<close> is \<open>sym1\<close>, \<open>NULL\<close> when \<open>sym1\<close> is the bucket.
\<close>

partial_function (option) gensym_loop :: "ptr \<Rightarrow> ptr \<Rightarrow> string \<Rightarrow> symtab \<Rightarrow> (ptr \<times> ptr) option" where [code]:
  "gensym_loop prev sym2 s h =
     (if sym2 = NULL then Some (prev, NULL)
      else if s_name h sym2 = s then Some (prev, sym2)
      else gensym_loop sym2 (s_next h sym2) s h)"

definition pdp_dogensym :: "string \<Rightarrow> ptr \<Rightarrow> symtab \<Rightarrow> (ptr \<times> symtab) option" where
  "pdp_dogensym s oldsym h =
     do { (prev, sym2) \<leftarrow> gensym_loop NULL (pdp_symhash h (sym_hash s)) s h;
          if sym2 \<noteq> NULL then Some (sym2, h)
          else let (sym2, h) =
                     (if oldsym \<noteq> NULL then (oldsym, h)
                      else let p = s_brk h;
                               h = pdp_symbol_init p (h\<lparr>s_brk := p + 72\<rparr>)
                           in (p, h\<lparr>s_name := (s_name h)(p := s), s_next := (s_next h)(p := NULL)\<rparr>));
                   h = (if prev = NULL
                        then h\<lparr>pdp_symhash := (pdp_symhash h)(sym_hash s := sym2)\<rparr>
                        else h\<lparr>s_next := (s_next h)(prev := sym2)\<rparr>)
               in Some (sym2, h) }"

definition pdp_gensym :: "string \<Rightarrow> symtab \<Rightarrow> (ptr \<times> symtab) option" where
  "pdp_gensym s h = pdp_dogensym s NULL h"

definition pdp_symbol_set_typelist :: "ptr \<Rightarrow> ptr \<Rightarrow> symtab \<Rightarrow> bool \<times> symtab" where
  "pdp_symbol_set_typelist s typelist h =
     (if s_type h s = NULL then (True, h\<lparr>s_type := (s_type h)(s := typelist)\<rparr>) else (False, h))"

text \<open>\<open>_sym\<close>; the value \<open>None\<close> is also its failing assertion.\<close>

definition sym_static :: "string \<Rightarrow> ptr \<Rightarrow> symtab \<Rightarrow> symtab option" where
  "sym_static name s h =
     do { let h = pdp_symbol_init s h;
          let h = h\<lparr>s_name := (s_name h)(s := name)\<rparr>;
          (realsym, h) \<leftarrow> pdp_dogensym name s h;
          if realsym = s then Some h else None }"

definition predefined :: "string list" where
  "predefined = [''*'', ''float'', ''int'', ''symbol'', ''packet'', ''pointer'', ''invalid'', ''list'',
     ''?'', ''atom'', ''null'', ''['', '']'', ''ret'', ''nret'', '':'', '';'', ''if'', ''then'',
     ''local'', ''forth'', ''call'', ''push'', ''pop'']"

fun sym_all :: "string list \<Rightarrow> ptr \<Rightarrow> symtab \<Rightarrow> symtab option" where
  "sym_all [] s h = Some h"
| "sym_all (n # ns) s h = do { h \<leftarrow> sym_static n s h; sym_all ns (s + 72) h }"

text \<open>
  \<open>pdp_symbol_setup\<close>: the static symbols lie one after the other from \<open>base\<close> on, below the heap.
\<close>

definition pdp_symbol_setup :: "ptr \<Rightarrow> symtab \<Rightarrow> symtab option" where
  "pdp_symbol_setup base h = sym_all predefined base (h\<lparr>pdp_symhash := (\<lambda>_. NULL)\<rparr>)"

text \<open>\<open>pdp_symbol_apply_all\<close> with an iterator that works on a state of its own.\<close>

partial_function (option) apply_bucket ::
  "(ptr \<Rightarrow> 'st \<Rightarrow> 'st) \<Rightarrow> ptr \<Rightarrow> symtab \<Rightarrow> 'st \<Rightarrow> 'st option" where [code]:
  "apply_bucket it s h st = (if s = NULL then Some st else apply_bucket it (s_next h s) h (it s st))"

fun apply_buckets :: "(ptr \<Rightarrow> 'st \<Rightarrow> 'st) \<Rightarrow> nat list \<Rightarrow> symtab \<Rightarrow> 'st \<Rightarrow> 'st option" where
  "apply_buckets it [] h st = Some st"
| "apply_buckets it (i # is) h st =
     do { st \<leftarrow> apply_bucket it (pdp_symhash h i) h st; apply_buckets it is h st }"

definition pdp_symbol_apply_all :: "(ptr \<Rightarrow> 'st \<Rightarrow> 'st) \<Rightarrow> symtab \<Rightarrow> 'st \<Rightarrow> 'st option" where
  "pdp_symbol_apply_all it h st = apply_buckets it [0..<HASHSIZE] h st"

section \<open>The names in the table\<close>

text \<open>
  \<open>tab_inv h T\<close>: bucket \<open>i\<close> is the chain \<open>T i\<close>, a symbol is in the bucket of its name's hash, no
  bucket holds a name twice, and all symbols lie below the break.
\<close>

definition tab_inv :: "symtab \<Rightarrow> (nat \<Rightarrow> ptr list) \<Rightarrow> bool" where
  "tab_inv h T \<longleftrightarrow>
     (\<forall>i. chain (s_next h) (pdp_symhash h i) (T i)) \<and>
     (\<forall>i. \<forall>p\<in>set (T i). sym_hash (s_name h p) = i \<and> p < s_brk h) \<and>
     (\<forall>i. inj_on (s_name h) (set (T i))) \<and> 0 < s_brk h"

definition symbols :: "(nat \<Rightarrow> ptr list) \<Rightarrow> ptr set" where
  "symbols T = {p. \<exists>i. p \<in> set (T i)}"

lemma tab_invD:
  assumes "tab_inv h T"
  shows "chain (s_next h) (pdp_symhash h i) (T i)" "0 < s_brk h" "inj_on (s_name h) (set (T i))"
    and "\<And>p. p \<in> set (T i) \<Longrightarrow> sym_hash (s_name h p) = i"
    and "\<And>p. p \<in> set (T i) \<Longrightarrow> p < s_brk h" "\<And>p. p \<in> set (T i) \<Longrightarrow> p \<noteq> NULL"
proof -
  note E = assms [unfolded tab_inv_def]
  show ch: "chain (s_next h) (pdp_symhash h i) (T i)" using E [THEN conjunct1] by simp
  note F = E [THEN conjunct2]
  show "sym_hash (s_name h p) = i" "p < s_brk h" if "p \<in> set (T i)" for p
    using F [THEN conjunct1] that by simp_all
  show "inj_on (s_name h) (set (T i))" "0 < s_brk h" using F [THEN conjunct2] by simp_all
  show "p \<noteq> NULL" if "p \<in> set (T i)" for p using chain_nonnull [OF ch] that by metis
qed

lemma bucket_disjoint: "tab_inv h T \<Longrightarrow> p \<in> set (T i) \<Longrightarrow> p \<in> set (T j) \<Longrightarrow> i = j"
  using tab_invD(4) by metis

lemma gensym_loop_chain:
  assumes "chain (s_next h) p as"
  shows "gensym_loop prev p s h = Some
    (let us = takeWhile (\<lambda>a. s_name h a \<noteq> s) as
     in (if us = [] then prev else last us,
         case dropWhile (\<lambda>a. s_name h a \<noteq> s) as of [] \<Rightarrow> NULL | a # _ \<Rightarrow> a))"
  using assms
proof (induction as arbitrary: p prev)
  case Nil
  then show ?case by (simp add: gensym_loop.simps)
next
  case (Cons a as)
  then show ?case by (subst gensym_loop.simps) (auto simp: Let_def)
qed

text \<open>A name in the table is found, the table unchanged.\<close>

lemma dogensym_found:
  assumes inv: "tab_inv h T" and p: "p \<in> symbols T" "s_name h p = s"
  shows "pdp_dogensym s oldsym h = Some (p, h)"
proof -
  let ?i = "sym_hash s"
  obtain i where i: "p \<in> set (T i)" using p(1) by (auto simp: symbols_def)
  with tab_invD(4) [OF inv this] p(2) have pi: "p \<in> set (T ?i)" by simp
  obtain a as where d: "dropWhile (\<lambda>a. s_name h a \<noteq> s) (T ?i) = a # as"
    using pi p(2) by (cases "dropWhile (\<lambda>a. s_name h a \<noteq> s) (T ?i)") (auto simp: dropWhile_eq_Nil_conv)
  have "s_name h a = s" using d hd_dropWhile [of "\<lambda>a. s_name h a \<noteq> s" "T ?i"] by simp
  moreover have "a \<in> set (T ?i)" using d by (metis list.set_intros(1) set_dropWhileD)
  ultimately have "a = p" using pi p(2) tab_invD(3) [OF inv, of ?i] by (auto dest: inj_onD)
  moreover have "p \<noteq> NULL" by (rule tab_invD(6) [OF inv pi])
  ultimately show ?thesis
    using gensym_loop_chain [OF tab_invD(1) [OF inv, of ?i], of NULL s] d
    by (simp add: pdp_dogensym_def Let_def)
qed

text \<open>A new name gets the given or a fresh symbol, at the end of its bucket.\<close>

lemma bucket_append:
  assumes inv: "tab_inv h T" and q: "q \<notin> symbols T" "q \<noteq> NULL" "q < s_brk h" "s_next h q = NULL"
    and nm: "s_name h q = s" "\<forall>p\<in>symbols T. s_name h p \<noteq> s"
    and h': "h' = (if T (sym_hash s) = [] then h\<lparr>pdp_symhash := (pdp_symhash h)(sym_hash s := q)\<rparr>
                   else h\<lparr>s_next := (s_next h)(last (T (sym_hash s)) := q)\<rparr>)"
  shows "tab_inv h' (T(sym_hash s := T (sym_hash s) @ [q]))"
proof -
  let ?i = "sym_hash s" and ?T = "T(sym_hash s := T (sym_hash s) @ [q])"
  have nq: "q \<notin> set (T i)" for i using q(1) by (auto simp: symbols_def)
  have nx: "(s_next h)(q := NULL) = s_next h" using q(4) by (simp add: fun_upd_idem)
  have ch: "chain (s_next h') (pdp_symhash h' i) (?T i)" for i
  proof (cases "T ?i = []")
    case True
    then show ?thesis using tab_invD(1) [OF inv, of i] q by (auto simp: h')
  next
    case False
    note c = tab_invD(1) [OF inv, of ?i]
    have "chain ((s_next h)(last (T ?i) := q)) (pdp_symhash h ?i) (T ?i @ [q])"
      using chain_snoc [OF c False q(2) nq] by (simp only: nx)
    moreover have "last (T ?i) \<notin> set (T i)" if "i \<noteq> ?i"
      using False that bucket_disjoint [OF inv, of "last (T ?i)" ?i i] by auto
    ultimately show ?thesis using False tab_invD(1) [OF inv, of i] by (auto simp: h' chain_simps)
  qed
  have same: "s_name h' = s_name h" "s_brk h' = s_brk h" by (simp_all add: h')
  have "inj_on (s_name h) (set (?T i))" for i
    using tab_invD(3) [OF inv, of i] nm by (auto simp: symbols_def)
  moreover have "\<forall>p\<in>set (?T i). sym_hash (s_name h p) = i \<and> p < s_brk h" for i
    using tab_invD(4,5) [OF inv, of _ i] nm(1) q(3) by auto
  ultimately show ?thesis using ch tab_invD(2) [OF inv] unfolding tab_inv_def same by blast
qed

lemma gensym_loop_miss:
  assumes inv: "tab_inv h T" and "\<forall>p\<in>symbols T. s_name h p \<noteq> s"
  shows "gensym_loop NULL (pdp_symhash h (sym_hash s)) s h =
    Some (if T (sym_hash s) = [] then NULL else last (T (sym_hash s)), NULL)"
proof -
  have "\<forall>a\<in>set (T (sym_hash s)). s_name h a \<noteq> s" using assms(2) by (auto simp: symbols_def)
  then have "takeWhile (\<lambda>a. s_name h a \<noteq> s) (T (sym_hash s)) = T (sym_hash s)"
    "dropWhile (\<lambda>a. s_name h a \<noteq> s) (T (sym_hash s)) = []" by auto
  with gensym_loop_chain [OF tab_invD(1) [OF inv, of "sym_hash s"], of NULL s] show ?thesis
    by (simp add: Let_def)
qed

lemma tab_inv_cong:
  assumes inv: "tab_inv h T" and "pdp_symhash h' = pdp_symhash h" "s_brk h \<le> s_brk h'"
    and same: "\<And>p. p \<in> symbols T \<Longrightarrow> s_next h' p = s_next h p \<and> s_name h' p = s_name h p"
  shows "tab_inv h' T"
proof -
  have same': "p \<in> set (T i) \<Longrightarrow> s_next h' p = s_next h p \<and> s_name h' p = s_name h p" for p i
    using same by (auto simp: symbols_def)
  have ch: "chain (s_next h') (pdp_symhash h' i) (T i)" for i
    using chain_cong [of "T i" "s_next h'" "s_next h"] same' tab_invD(1) [OF inv] assms(2) by metis
  have "inj_on (s_name h') (set (T i))" for i
    using inj_on_cong [of "set (T i)" "s_name h'" "s_name h"] same' tab_invD(3) [OF inv] by metis
  moreover have "\<forall>p\<in>set (T i). sym_hash (s_name h' p) = i \<and> p < s_brk h'" for i
    using tab_invD(4,5) [OF inv, of _ i] same' assms(3) by (auto intro: less_le_trans)
  ultimately show ?thesis using ch tab_invD(2) [OF inv] assms(3) unfolding tab_inv_def by simp
qed

lemma dogensym_static:
  assumes inv: "tab_inv h T" and new: "\<forall>p\<in>symbols T. s_name h p \<noteq> s"
    and q: "q \<notin> symbols T" "q \<noteq> NULL" "q < s_brk h" "s_next h q = NULL" "s_name h q = s"
  shows "\<exists>h'. pdp_dogensym s q h = Some (q, h') \<and> tab_inv h' (T(sym_hash s := T (sym_hash s) @ [q])) \<and>
    s_name h' = s_name h \<and> s_brk h' = s_brk h"
proof -
  let ?h = "if T (sym_hash s) = [] then h\<lparr>pdp_symhash := (pdp_symhash h)(sym_hash s := q)\<rparr>
            else h\<lparr>s_next := (s_next h)(last (T (sym_hash s)) := q)\<rparr>"
  have "T (sym_hash s) \<noteq> [] \<Longrightarrow> last (T (sym_hash s)) \<noteq> NULL"
    by (intro tab_invD(6) [OF inv, of _ "sym_hash s"]) simp
  then have "pdp_dogensym s q h = Some (q, ?h)"
    using gensym_loop_miss [OF inv new] q(2)
    by (cases "T (sym_hash s) = []") (simp_all add: pdp_dogensym_def Let_def)
  with bucket_append [OF inv q new refl] show ?thesis by (intro exI [of _ ?h]) simp
qed

lemma gensym_fresh:
  assumes inv: "tab_inv h T" and new: "\<forall>p\<in>symbols T. s_name h p \<noteq> s"
  shows "\<exists>h'. pdp_gensym s h = Some (s_brk h, h') \<and>
    tab_inv h' (T(sym_hash s := T (sym_hash s) @ [s_brk h])) \<and> s_name h' = (s_name h)(s_brk h := s)"
proof -
  let ?q = "s_brk h"
  let ?h = "pdp_symbol_init ?q (h\<lparr>s_brk := ?q + 72\<rparr>)"
  let ?h1 = "?h\<lparr>s_name := (s_name ?h)(?q := s), s_next := (s_next ?h)(?q := NULL)\<rparr>"
  have lt: "p < ?q" if "p \<in> symbols T" for p using tab_invD(5) [OF inv] that by (auto simp: symbols_def)
  have i1: "tab_inv ?h1 T" by (rule tab_inv_cong [OF inv]) (auto simp: pdp_symbol_init_def dest: lt)
  have n1: "\<forall>p\<in>symbols T. s_name ?h1 p \<noteq> s" using new lt by (auto simp: pdp_symbol_init_def)
  have q: "?q \<notin> symbols T" "?q \<noteq> NULL" "?q < s_brk ?h1" "s_next ?h1 ?q = NULL" "s_name ?h1 ?q = s"
    using lt tab_invD(2) [OF inv] by (auto simp: pdp_symbol_init_def)
  from dogensym_static [OF i1 n1 q] obtain h' where
    h': "pdp_dogensym s ?q ?h1 = Some (?q, h')" "tab_inv h' (T(sym_hash s := T (sym_hash s) @ [?q]))"
      "s_name h' = s_name ?h1" by blast
  have "pdp_gensym s h = pdp_dogensym s ?q ?h1"
    using gensym_loop_miss [OF inv new] gensym_loop_miss [OF i1 n1] q(2)
    by (simp add: pdp_gensym_def pdp_dogensym_def Let_def pdp_symbol_init_def)
  with h' show ?thesis by (simp add: pdp_symbol_init_def)
qed

section \<open>Interning\<close>

text \<open>\<open>interns h A\<close>: the table of \<open>h\<close> maps exactly the names of \<open>A\<close> to their symbols.\<close>

definition interns :: "symtab \<Rightarrow> (string \<rightharpoonup> ptr) \<Rightarrow> bool" where
  "interns h A \<longleftrightarrow> (\<exists>T. tab_inv h T \<and> (\<forall>s p. A s = Some p \<longleftrightarrow> p \<in> symbols T \<and> s_name h p = s))"

lemma symbols_append: "symbols (T(i := T i @ [q])) = insert q (symbols T)"
  by (auto simp: symbols_def split: if_splits)

lemma intern_old: "interns h A \<Longrightarrow> A s = Some p \<Longrightarrow> pdp_gensym s h = Some (p, h)"
  by (auto simp: interns_def pdp_gensym_def intro: dogensym_found)

lemma intern_new:
  assumes "interns h A" "A s = None"
  shows "\<exists>p h'. pdp_gensym s h = Some (p, h') \<and> p \<noteq> NULL \<and> p \<notin> ran A \<and> interns h' (A(s \<mapsto> p))"
proof -
  from assms(1) obtain T where T: "tab_inv h T" "\<And>s p. A s = Some p \<longleftrightarrow> p \<in> symbols T \<and> s_name h p = s"
    by (auto simp: interns_def)
  have new: "\<forall>p\<in>symbols T. s_name h p \<noteq> s"
  proof
    fix p assume "p \<in> symbols T"
    with T(2) [of s p] assms(2) show "s_name h p \<noteq> s" by simp
  qed
  let ?q = "s_brk h"
  from gensym_fresh [OF T(1) new] obtain h' where
    h': "pdp_gensym s h = Some (?q, h')" "tab_inv h' (T(sym_hash s := T (sym_hash s) @ [?q]))"
      "s_name h' = (s_name h)(?q := s)" by blast
  have q: "?q \<notin> symbols T" "?q \<noteq> NULL" using tab_invD(2,5) [OF T(1)] by (auto simp: symbols_def)
  have "(A(s \<mapsto> ?q)) t = Some p \<longleftrightarrow> p \<in> insert ?q (symbols T) \<and> s_name h' p = t" for t p
  proof (cases "p = ?q")
    case True
    then show ?thesis using T(2) [of t p] q(1) by (simp add: h'(3))
  next
    case False
    then show ?thesis using T(2) [of t p] T(2) [of s p] assms(2) by (simp add: h'(3))
  qed
  then have "interns h' (A(s \<mapsto> ?q))"
    unfolding interns_def using h'(2)
    by (intro exI [of _ "T(sym_hash s := T (sym_hash s) @ [?q])"]) (simp only: symbols_append simp_thms)
  moreover have "?q \<notin> ran A"
  proof
    assume "?q \<in> ran A"
    then obtain t where "A t = Some ?q" by (auto simp: ran_def)
    with T(2) [of t ?q] q(1) show False by simp
  qed
  ultimately show ?thesis using h'(1) q by blast
qed

lemma interns_inj: "interns h A \<Longrightarrow> A s = Some p \<Longrightarrow> A t = Some p \<Longrightarrow> s = t"
  by (auto simp: interns_def)

fun gensyms :: "(string \<Rightarrow> 'h \<Rightarrow> (ptr \<times> 'h) option) \<Rightarrow> string list \<Rightarrow> 'h \<Rightarrow> (ptr list \<times> 'h) option" where
  "gensyms gensym [] h = Some ([], h)"
| "gensyms gensym (s # ss) h =
     do { (p, h) \<leftarrow> gensym s h; (ps, h) \<leftarrow> gensyms gensym ss h; Some (p # ps, h) }"

text \<open>What the users of symbols rely on.\<close>

locale interning =
  fixes rel :: "'h \<Rightarrow> (string \<rightharpoonup> ptr) \<Rightarrow> bool"
    and gensym :: "string \<Rightarrow> 'h \<Rightarrow> (ptr \<times> 'h) option"
  assumes old: "rel h A \<Longrightarrow> A s = Some p \<Longrightarrow> gensym s h = Some (p, h)"
    and new: "rel h A \<Longrightarrow> A s = None \<Longrightarrow>
      \<exists>p h'. gensym s h = Some (p, h') \<and> p \<noteq> NULL \<and> p \<notin> ran A \<and> rel h' (A(s \<mapsto> p))"
    and inj: "rel h A \<Longrightarrow> A s = Some p \<Longrightarrow> A t = Some p \<Longrightarrow> s = t"
begin

lemma extends:
  assumes "rel h A"
  shows "\<exists>p h' A'. gensym s h = Some (p, h') \<and> rel h' A' \<and> A \<subseteq>\<^sub>m A' \<and> A' s = Some p"
proof (cases "A s")
  case None
  with new [OF assms None] show ?thesis by (metis fun_upd_same map_le_imp_upd_le map_le_refl upd_None_map_le fun_upd_triv)
next
  case (Some p)
  with old [OF assms Some] assms show ?thesis by (metis map_le_refl)
qed

lemma gensyms_extends:
  "rel h A \<Longrightarrow> \<exists>ps h' A'. gensyms gensym ss h = Some (ps, h') \<and> rel h' A' \<and> A \<subseteq>\<^sub>m A' \<and>
     length ps = length ss \<and> (\<forall>i < length ss. A' (ss ! i) = Some (ps ! i))"
proof (induction ss arbitrary: h A)
  case Nil
  then show ?case by (intro exI [of _ "[]"] exI [of _ h] exI [of _ A]) simp
next
  case (Cons s ss)
  from extends [OF Cons.prems, of s] obtain p h1 A1 where
    1: "gensym s h = Some (p, h1)" "rel h1 A1" "A \<subseteq>\<^sub>m A1" "A1 s = Some p" by blast
  from Cons.IH [OF 1(2)] obtain ps h2 A2 where
    2: "gensyms gensym ss h1 = Some (ps, h2)" "rel h2 A2" "A1 \<subseteq>\<^sub>m A2" "length ps = length ss"
      "\<forall>i < length ss. A2 (ss ! i) = Some (ps ! i)" by blast
  have "A2 s = Some p" using 1(4) 2(3) by (metis domI map_le_def)
  then have "\<forall>i < length (s # ss). A2 ((s # ss) ! i) = Some ((p # ps) ! i)"
    using 2(5) by (auto simp: nth_Cons split: nat.split)
  with 1 2 show ?case
    by (intro exI [of _ "p # ps"] exI [of _ h2] exI [of _ A2]) (auto intro: map_le_trans)
qed

lemma pointers_are_names:
  assumes "rel h A"
  shows "\<exists>ps h'. gensyms gensym ss h = Some (ps, h') \<and> length ps = length ss \<and>
    (\<forall>i < length ss. \<forall>j < length ss. ps ! i = ps ! j \<longleftrightarrow> ss ! i = ss ! j)"
proof -
  from gensyms_extends [OF assms] obtain ps h' A' where
    g: "gensyms gensym ss h = Some (ps, h')" "rel h' A'" "length ps = length ss"
      "\<And>i. i < length ss \<Longrightarrow> A' (ss ! i) = Some (ps ! i)" by blast
  have "ps ! i = ps ! j \<longleftrightarrow> ss ! i = ss ! j" if "i < length ss" "j < length ss" for i j
    using g(4) [OF that(1)] g(4) [OF that(2)] inj [OF g(2)] by (metis option.inject)
  with g show ?thesis by blast
qed

end

interpretation sym: interning interns pdp_gensym
  by unfold_locales (fact intern_old intern_new interns_inj)+

section \<open>Set-up and iteration\<close>

lemma sym_static_ok:
  assumes inv: "tab_inv h T" and new: "\<forall>p\<in>symbols T. s_name h p \<noteq> n"
    and q: "q \<notin> symbols T" "q \<noteq> NULL" "q < s_brk h"
  shows "\<exists>h'. sym_static n q h = Some h' \<and> tab_inv h' (T(sym_hash n := T (sym_hash n) @ [q])) \<and>
    s_brk h' = s_brk h \<and> s_name h' = (s_name h)(q := n)"
proof -
  let ?h = "pdp_symbol_init q h" and ?h1 = "(pdp_symbol_init q h)\<lparr>s_name := (s_name (pdp_symbol_init q h))(q := n)\<rparr>"
  have ne: "p \<noteq> q" if "p \<in> symbols T" for p using that q(1) by metis
  have i1: "tab_inv ?h1 T" by (rule tab_inv_cong [OF inv]) (simp_all add: pdp_symbol_init_def ne)
  have n1: "\<forall>p\<in>symbols T. s_name ?h1 p \<noteq> n" using new by (simp add: pdp_symbol_init_def ne)
  from dogensym_static [OF i1 n1 q(1,2)] q(3) obtain h' where
    "pdp_dogensym n q ?h1 = Some (q, h')" "tab_inv h' (T(sym_hash n := T (sym_hash n) @ [q]))"
    "s_name h' = s_name ?h1" "s_brk h' = s_brk ?h1" by (auto simp: pdp_symbol_init_def)
  then show ?thesis by (intro exI [of _ h']) (simp add: sym_static_def pdp_symbol_init_def Let_def)
qed

lemma sym_all_ok:
  assumes "tab_inv h T" "distinct ns" "\<forall>p\<in>symbols T. s_name h p \<notin> set ns \<and> p < q"
    and "q \<noteq> NULL" "q + 72 * length ns \<le> s_brk h"
  shows "\<exists>h' T'. sym_all ns q h = Some h' \<and> tab_inv h' T' \<and>
    (\<lambda>p. s_name h' p) ` symbols T' = (\<lambda>p. s_name h p) ` symbols T \<union> set ns"
  using assms
proof (induction ns arbitrary: q h T)
  case Nil
  then show ?case by auto
next
  case (Cons n ns)
  let ?T = "T(sym_hash n := T (sym_hash n) @ [q])"
  have q: "q \<notin> symbols T" "q < s_brk h" and new: "\<forall>p\<in>symbols T. s_name h p \<noteq> n"
    using Cons.prems(3,5) by auto
  from sym_static_ok [OF Cons.prems(1) new q(1) Cons.prems(4) q(2)] obtain h1 where
    h1: "sym_static n q h = Some h1" "tab_inv h1 ?T" "s_brk h1 = s_brk h" "s_name h1 = (s_name h)(q := n)" by blast
  have "\<forall>p\<in>symbols ?T. s_name h1 p \<notin> set ns \<and> p < q + 72"
    using Cons.prems(2,3) by (auto simp: symbols_append h1(4) intro: trans_less_add1)
  moreover have "q + 72 + 72 * length ns \<le> s_brk h1" using Cons.prems(5) h1(3) by simp
  ultimately have "\<exists>h' T'. sym_all ns (q + 72) h1 = Some h' \<and> tab_inv h' T' \<and>
     s_name h' ` symbols T' = s_name h1 ` symbols ?T \<union> set ns"
    using Cons.prems(2) by (intro Cons.IH [OF h1(2)]) (simp_all del: fun_upd_apply)
  moreover have "s_name h1 ` symbols ?T = insert n (s_name h ` symbols T)"
  proof -
    have "s_name h1 ` symbols T = s_name h ` symbols T"
      by (rule image_cong) (use q(1) in \<open>auto simp: h1(4)\<close>)
    moreover have "s_name h1 q = n" by (simp add: h1(4))
    ultimately show ?thesis by (simp only: symbols_append image_insert)
  qed
  ultimately show ?case by (simp add: h1(1))
qed

lemma apply_bucket_chain:
  "chain (s_next h) p as \<Longrightarrow> apply_bucket it p h st = Some (fold it as st)"
proof (induction as arbitrary: p st)
  case Nil
  then show ?case by (simp add: apply_bucket.simps)
next
  case (Cons a as)
  then show ?case by (subst apply_bucket.simps) simp
qed

lemma apply_buckets_fold:
  "tab_inv h T \<Longrightarrow> apply_buckets it is h st = Some (fold it (concat (map T is)) st)"
  by (induction "is" arbitrary: st) (simp_all add: apply_bucket_chain [OF tab_invD(1)])

lemma sym_hash_less: "sym_hash s < HASHSIZE"
proof -
  have "hash_loop s 0 0 AND (word_of_nat HASHSIZE - 1) \<le> word_of_nat HASHSIZE - (1 :: 32 word)"
    by (rule word_and_le1)
  then have "unat (hash_loop s 0 0 AND (word_of_nat HASHSIZE - 1)) \<le> unat (word_of_nat HASHSIZE - 1 :: 32 word)"
    by (simp add: word_le_nat_alt)
  also have "unat (word_of_nat HASHSIZE - 1 :: 32 word) = 1023" by (simp add: HASHSIZE_def)
  finally show ?thesis by (simp add: sym_hash_def HASHSIZE_def)
qed

lemma concat_buckets:
  assumes "tab_inv h T"
  shows "set (concat (map T [0..<HASHSIZE])) = symbols T" "distinct (concat (map T [0..<HASHSIZE]))"
proof -
  have "i < HASHSIZE" if "p \<in> set (T i)" for p i
    using tab_invD(4) [OF assms that] sym_hash_less by metis
  then have "(\<Union>i\<in>{0..<HASHSIZE}. set (T i)) = symbols T" unfolding symbols_def by fastforce
  then show "set (concat (map T [0..<HASHSIZE])) = symbols T" by simp
  have d: "distinct (T i)" for i using chain_distinct [OF tab_invD(1) [OF assms]] .
  have dj: "i \<noteq> j \<Longrightarrow> set (T i) \<inter> set (T j) = {}" for i j using bucket_disjoint [OF assms] by blast
  have "distinct is \<Longrightarrow> distinct (concat (map T is))" for "is"
  proof (induction "is")
    case (Cons i "is")
    then have "i \<noteq> j" if "j \<in> set is" for j using that by auto
    then have "set (T i) \<inter> (\<Union>j\<in>set is. set (T j)) = {}" using dj by blast
    with Cons d [of i] show ?case by simp
  qed simp
  then show "distinct (concat (map T [0..<HASHSIZE]))" by simp
qed

lemma names_inj:
  assumes "tab_inv h T"
  shows "inj_on (s_name h) (symbols T)"
proof (rule inj_onI)
  fix p q assume "p \<in> symbols T" "q \<in> symbols T" "s_name h p = s_name h q"
  then have "pdp_dogensym (s_name h p) NULL h = Some (p, h)" "pdp_dogensym (s_name h p) NULL h = Some (q, h)"
    using dogensym_found [OF assms] by metis+
  then show "p = q" by simp
qed

lemma tab_inv_interns:
  assumes "tab_inv h T"
  shows "\<exists>A. interns h A \<and> dom A = s_name h ` symbols T"
proof -
  let ?N = "s_name h ` symbols T"
  define A where "A s = (if s \<in> ?N then Some (inv_into (symbols T) (s_name h) s) else None)" for s
  have "A s = Some p \<longleftrightarrow> p \<in> symbols T \<and> s_name h p = s" for s p
  proof
    assume "A s = Some p"
    then have "s \<in> ?N" "p = inv_into (symbols T) (s_name h) s" by (simp_all add: A_def split: if_splits)
    then show "p \<in> symbols T \<and> s_name h p = s" using inv_into_into f_inv_into_f by metis
  next
    assume "p \<in> symbols T \<and> s_name h p = s"
    then show "A s = Some p" using inv_into_f_f [OF names_inj [OF assms]] by (auto simp: A_def)
  qed
  then have "interns h A" unfolding interns_def by (intro exI [of _ T] conjI allI assms)
  moreover have "dom A = ?N" by (simp add: A_def dom_def)
  ultimately show ?thesis by blast
qed

lemma distinct_predefined: "distinct predefined"
  by code_simp

section \<open>Properties\<close>

text \<open>
  C9: \<open>pdp_gensym\<close> interns names: over any sequence of calls every call returns a symbol, and two
  returned symbol pointers are equal exactly when the two names are.
\<close>

theorem gensym_pointers_are_names:
  assumes "interns h A"
  shows "\<exists>ps h'. gensyms pdp_gensym ss h = Some (ps, h') \<and> length ps = length ss \<and>
    (\<forall>i < length ss. \<forall>j < length ss. ps ! i = ps ! j \<longleftrightarrow> ss ! i = ss ! j)"
  by (rule sym.pointers_are_names [OF assms])

definition empty_symtab :: symtab where
  "empty_symtab = \<lparr>pdp_symhash = (\<lambda>_. NULL), s_next = (\<lambda>_. NULL), s_name = (\<lambda>_. []), s_type = (\<lambda>_. NULL), s_brk = 4096\<rparr>"

lemma empty_tab_inv: "tab_inv (h\<lparr>pdp_symhash := (\<lambda>_. NULL)\<rparr>) (\<lambda>_. []) \<longleftrightarrow> 0 < s_brk h"
  by (simp add: tab_inv_def)

lemma empty_symtab_interns: "interns empty_symtab Map.empty"
proof -
  have "tab_inv empty_symtab (\<lambda>_. [])" by (simp add: tab_inv_def empty_symtab_def)
  then show ?thesis unfolding interns_def by (intro exI [of _ "\<lambda>_. []"]) (simp add: symbols_def)
qed

theorem gensym_pointers_are_names_witness:
  "\<exists>ps h'. gensyms pdp_gensym [''image'', ''grey'', ''image''] empty_symtab = Some (ps, h') \<and>
     ps ! 0 = ps ! 2 \<and> ps ! 0 \<noteq> ps ! 1"
  using gensym_pointers_are_names [OF empty_symtab_interns, of "[''image'', ''grey'', ''image'']"]
  by (auto simp: All_less_Suc numeral_3_eq_3 numeral_2_eq_2)

text \<open>
  \<open>pdp_symbol_setup\<close> succeeds: none of the assertions of \<open>_sym\<close> fails, since no name is listed
  twice, and afterwards the table holds exactly the predefined names.
\<close>

theorem symbol_setup_ok:
  assumes "base \<noteq> NULL" "base + 72 * length predefined \<le> s_brk h"
  shows "\<exists>h' A. pdp_symbol_setup base h = Some h' \<and> interns h' A \<and> dom A = set predefined"
proof -
  let ?h = "h\<lparr>pdp_symhash := (\<lambda>_. NULL)\<rparr>"
  have i: "tab_inv ?h (\<lambda>_. [])" using assms by (simp add: empty_tab_inv)
  have e: "symbols (\<lambda>_. []) = {}" by (simp add: symbols_def)
  have "\<exists>h' T'. sym_all predefined base ?h = Some h' \<and> tab_inv h' T' \<and>
      s_name h' ` symbols T' = s_name ?h ` symbols (\<lambda>_. []) \<union> set predefined"
    by (rule sym_all_ok [OF i distinct_predefined]) (use assms in \<open>simp_all add: e\<close>)
  then obtain h' T' where h': "pdp_symbol_setup base h = Some h'" "tab_inv h' T'"
    "s_name h' ` symbols T' = set predefined" unfolding pdp_symbol_setup_def e by auto
  from tab_inv_interns [OF h'(2)] h'(1,3) show ?thesis by metis
qed

theorem symbol_setup_ok_witness:
  "\<exists>h' A. pdp_symbol_setup 8 empty_symtab = Some h' \<and> interns h' A \<and> dom A = set predefined"
  by (rule symbol_setup_ok) (simp_all add: predefined_def empty_symtab_def)

text \<open>
  \<open>pdp_symbol_apply_all\<close> returns and calls its iterator on every symbol of the table exactly once.
\<close>

theorem symbol_apply_all_visits_once:
  assumes "tab_inv h T"
  shows "\<exists>ps. pdp_symbol_apply_all it h st = Some (fold it ps st) \<and> distinct ps \<and> set ps = symbols T"
  using apply_buckets_fold [OF assms, of it "[0..<HASHSIZE]" st] concat_buckets [OF assms]
  by (auto simp: pdp_symbol_apply_all_def)

theorem symbol_apply_all_visits_once_witness:
  "\<exists>ps. pdp_symbol_apply_all (\<lambda>p n. n + 1) empty_symtab (0 :: nat) = Some (fold (\<lambda>p n. n + 1) ps 0) \<and>
     distinct ps \<and> set ps = symbols (\<lambda>_. [])"
  by (rule symbol_apply_all_visits_once) (simp add: tab_inv_def empty_symtab_def)

end
