(* ===== verification/Queue.thy ===== *)
theory Queue
  imports Prelude
begin

text \<open>
  The process queue of \<^verbatim>\<open>puredata/pdp_queue.c\<close>: a ring of tasks fed by the main thread, processed by a
  worker thread, and called back by the main thread on a clock tick.

  The three counters run freely and index the ring through \<open>mask\<close>; they are of type \<^verbatim>\<open>int\<close>, and the
  model lets them wrap around in two's complement. The clock period is left out. A task's
  methods are numbers; \<open>trace\<close> records their calls. A callback runs in the main thread and may add
  tasks itself: \<open>E m owner\<close> is its effect on the queue, a parameter. The worker's round is the step
  \<open>thread_step\<close>; waiting for the worker is letting it run until it has nothing left.

  The lemmas show that the ring refines a pair of sequences, tasks not yet processed and tasks not
  yet called back, that no slot is overwritten while in use, and that the tasks the ring takes are processed
  and called back once each, in the order they were added, also when the counters wrap around, while a task
  added to a full ring is not processed and called back at once.
\<close>

record t_process_queue_item =
  x_owner :: nat
  x_process :: "nat option"
  x_callback :: "nat option"
  x_queue_id :: ptr

datatype qevent = Process nat nat | Callback nat nat

record t_pdp_procqueue =
  slots :: "nat \<Rightarrow> t_process_queue_item"
  qmask :: u32
  head :: u32
  tail :: u32
  curr :: u32
  packets :: u64
  ticks :: u64
  use_thread :: bool
  clock_set :: bool
  ids :: "ptr \<Rightarrow> int"
  trace :: "qevent list"

type_synonym callback_env = "nat \<Rightarrow> nat \<Rightarrow> t_pdp_procqueue \<Rightarrow> t_pdp_procqueue"

section \<open>Operations\<close>

definition slot :: "u32 \<Rightarrow> t_pdp_procqueue \<Rightarrow> nat" where
  "slot i q = unat (i AND qmask q)"

definition call_process :: "nat option \<Rightarrow> nat \<Rightarrow> t_pdp_procqueue \<Rightarrow> t_pdp_procqueue" where
  "call_process m ow q = (case m of None \<Rightarrow> q | Some f \<Rightarrow> q\<lparr>trace := trace q @ [Process f ow]\<rparr>)"

definition call_callback :: "callback_env \<Rightarrow> nat option \<Rightarrow> nat \<Rightarrow> t_pdp_procqueue \<Rightarrow> t_pdp_procqueue" where
  "call_callback E m ow q = (case m of None \<Rightarrow> q | Some f \<Rightarrow> E f ow (q\<lparr>trace := trace q @ [Callback f ow]\<rparr>))"

definition set_id :: "ptr \<Rightarrow> int \<Rightarrow> t_pdp_procqueue \<Rightarrow> t_pdp_procqueue" where
  "set_id p i q = (if p \<noteq> NULL then q\<lparr>ids := (ids q)(p := i)\<rparr> else q)"

definition pdp_procqueue_full :: "t_pdp_procqueue \<Rightarrow> bool" where
  "pdp_procqueue_full q = (1 = ((tail q - head q) AND qmask q))"

definition pdp_procqueue_add ::
  "callback_env \<Rightarrow> nat \<Rightarrow> nat option \<Rightarrow> nat option \<Rightarrow> ptr \<Rightarrow> t_pdp_procqueue \<Rightarrow> t_pdp_procqueue" where
  "pdp_procqueue_add E owner process callback queue_id q =
     (if \<not> use_thread q
      then call_callback E callback owner (call_process process owner (set_id queue_id (-1) q))
      else if pdp_procqueue_full q
      then call_callback E callback owner (set_id queue_id (-1) q)
      else let i = slot (head q) q;
               q = q\<lparr>slots := (slots q)(i := \<lparr>x_owner = owner, x_process = process, x_callback = callback,
                                              x_queue_id = queue_id\<rparr>)\<rparr>;
               q = set_id queue_id (int i) q
           in q\<lparr>packets := packets q + 1, head := head q + 1\<rparr>)"

text \<open>A round of \<open>pdp_procqueue_thread\<close>; \<open>None\<close> while it waits for the feeder.\<close>

definition thread_step :: "t_pdp_procqueue \<Rightarrow> t_pdp_procqueue option" where
  "thread_step q =
     (if (curr q - head q) AND qmask q = 0 then None
      else let p = slots q (slot (curr q) q);
               q = call_process (x_process p) (x_owner p) q
           in Some (q\<lparr>curr := curr q + 1\<rparr>))"

partial_function (option) pdp_procqueue_wait :: "t_pdp_procqueue \<Rightarrow> t_pdp_procqueue option" where [code]:
  "pdp_procqueue_wait q =
     (if (curr q - head q) AND qmask q \<noteq> 0
      then (case thread_step q of None \<Rightarrow> None | Some q \<Rightarrow> pdp_procqueue_wait q)
      else Some q)"

text \<open>A round of the loop of \<open>pdp_procqueue_callback\<close>.\<close>

definition callback_step :: "callback_env \<Rightarrow> t_pdp_procqueue \<Rightarrow> t_pdp_procqueue" where
  "callback_step E q =
     (let i = slot (tail q) q;
          q = set_id (x_queue_id (slots q i)) (-1) q;
          q = call_callback E (x_callback (slots q i)) (x_owner (slots q i)) q
      in q\<lparr>tail := tail q + 1\<rparr>)"

partial_function (option) pdp_procqueue_callback ::
  "callback_env \<Rightarrow> t_pdp_procqueue \<Rightarrow> t_pdp_procqueue option" where [code]:
  "pdp_procqueue_callback E q =
     (if (curr q - tail q) AND qmask q \<noteq> 0 then pdp_procqueue_callback E (callback_step E q) else Some q)"

definition pdp_procqueue_finish :: "int \<Rightarrow> t_pdp_procqueue \<Rightarrow> t_pdp_procqueue option" where
  "pdp_procqueue_finish indx q =
     (if indx = -1 then Some q
      else do { q \<leftarrow> pdp_procqueue_wait q;
                let i = slot (word_of_int indx) q;
                Some (q\<lparr>slots := (slots q)(i := (slots q i)\<lparr>x_callback := None, x_queue_id := NULL\<rparr>)\<rparr>) })"

partial_function (option) flush_loop :: "callback_env \<Rightarrow> t_pdp_procqueue \<Rightarrow> t_pdp_procqueue option" where [code]:
  "flush_loop E q =
     do { q \<leftarrow> pdp_procqueue_callback E q;
          q \<leftarrow> pdp_procqueue_wait q;
          if (curr q - head q) AND qmask q \<noteq> 0 then flush_loop E q else Some q }"

definition pdp_procqueue_flush :: "callback_env \<Rightarrow> t_pdp_procqueue \<Rightarrow> t_pdp_procqueue option" where
  "pdp_procqueue_flush E q = do { q \<leftarrow> pdp_procqueue_wait q; flush_loop E q }"

definition pdp_procqueue_tick :: "callback_env \<Rightarrow> t_pdp_procqueue \<Rightarrow> t_pdp_procqueue option" where
  "pdp_procqueue_tick E q =
     (if \<not> use_thread q then Some q
      else do { q \<leftarrow> pdp_procqueue_callback E q;
                Some (q\<lparr>ticks := ticks q + 1, clock_set := True\<rparr>) })"

definition pdp_procqueue_use_thread :: "callback_env \<Rightarrow> bool \<Rightarrow> t_pdp_procqueue \<Rightarrow> t_pdp_procqueue option" where
  "pdp_procqueue_use_thread E t q =
     (if \<not> t
      then do { q \<leftarrow> pdp_procqueue_wait q;
                q \<leftarrow> pdp_procqueue_callback E (q\<lparr>use_thread := False\<rparr>);
                Some (q\<lparr>clock_set := False\<rparr>) }
      else Some (q\<lparr>clock_set := True, use_thread := True\<rparr>))"

definition empty_item :: t_process_queue_item where
  "empty_item = \<lparr>x_owner = 0, x_process = None, x_callback = None, x_queue_id = NULL\<rparr>"

definition pdp_procqueue_init :: "callback_env \<Rightarrow> nat \<Rightarrow> t_pdp_procqueue \<Rightarrow> t_pdp_procqueue option" where
  "pdp_procqueue_init E logsize q =
     pdp_procqueue_use_thread E False
       (q\<lparr>ticks := 0, qmask := push_bit logsize 1 - 1, head := 0, tail := 0, curr := 0,
          slots := (\<lambda>_. empty_item), use_thread := True, clock_set := True\<rparr>)"

definition PDP_QUEUE_LOGSIZE :: nat where
  "PDP_QUEUE_LOGSIZE = 10"

definition pdp_queue_setup :: "callback_env \<Rightarrow> t_pdp_procqueue \<Rightarrow> t_pdp_procqueue option" where
  "pdp_queue_setup E q = do { q \<leftarrow> pdp_procqueue_init E PDP_QUEUE_LOGSIZE q; pdp_procqueue_use_thread E False q }"

section \<open>The ring\<close>

definition qsize :: "t_pdp_procqueue \<Rightarrow> nat" where
  "qsize q = unat (qmask q) + 1"

text \<open>Number of tasks not called back, and not processed.\<close>

abbreviation used :: "t_pdp_procqueue \<Rightarrow> nat" where
  "used q \<equiv> unat (head q - tail q)"

abbreviation ndone :: "t_pdp_procqueue \<Rightarrow> nat" where
  "ndone q \<equiv> unat (curr q - tail q)"

abbreviation npending :: "t_pdp_procqueue \<Rightarrow> nat" where
  "npending q \<equiv> unat (head q - curr q)"

definition ring_inv :: "t_pdp_procqueue \<Rightarrow> bool" where
  "ring_inv q \<longleftrightarrow> (\<exists>k. 0 < k \<and> k < 32 \<and> qmask q = mask k) \<and> used q < qsize q \<and> ndone q + npending q = used q"

text \<open>The \<open>n\<close> tasks from counter \<open>a\<close> on.\<close>

definition window :: "t_pdp_procqueue \<Rightarrow> u32 \<Rightarrow> nat \<Rightarrow> t_process_queue_item list" where
  "window q a n = map (\<lambda>i. slots q (slot (a + of_nat i) q)) [0..<n]"

definition called_back :: "t_pdp_procqueue \<Rightarrow> t_process_queue_item list" where
  "called_back q = window q (tail q) (ndone q)"

definition pending :: "t_pdp_procqueue \<Rightarrow> t_process_queue_item list" where
  "pending q = window q (curr q) (npending q)"



section \<open>Arithmetic of the ring\<close>

lemma ring_invE:
  assumes "ring_inv q"
  obtains k where "0 < k" "k < 32" "qmask q = mask k" "qsize q = 2 ^ k"
proof -
  from assms obtain k where k: "0 < k" "k < 32" "qmask q = mask k" unfolding ring_inv_def by blast
  then have "qsize q = 2 ^ k" by (simp add: qsize_def mask_u32)
  with k that show thesis by blast
qed

lemma ring_inv_used: "ring_inv q \<Longrightarrow> used q < qsize q"
  by (simp add: ring_inv_def)

lemma ring_inv_split: "ring_inv q \<Longrightarrow> used q = ndone q + npending q"
  by (simp add: ring_inv_def)

lemma masked_mod:
  assumes "ring_inv q"
  shows "unat (i AND qmask q) = unat i mod qsize q"
proof -
  from assms obtain k where k: "k < 32" "qmask q = mask k" "qsize q = 2 ^ k" by (rule ring_invE)
  have "unat (i AND qmask q) = unat (take_bit k i)" by (simp add: k(2) take_bit_eq_mask)
  then show ?thesis by (simp add: k(3) unat_take_bit_u32)
qed

lemma qsize_dvd: "ring_inv q \<Longrightarrow> qsize q dvd 2 ^ 32"
  by (metis ring_invE le_imp_power_dvd less_imp_le)

lemma qsize_pos: "ring_inv q \<Longrightarrow> 1 < qsize q"
  by (metis ring_invE one_less_numeral_iff one_less_power semiring_norm(76))

lemma qsize_le: "ring_inv q \<Longrightarrow> qsize q \<le> 2 ^ 31"
proof (erule ring_invE)
  fix k :: nat
  assume "k < 32" "qsize q = 2 ^ k"
  then show "qsize q \<le> 2 ^ 31" using power_increasing [of k 31 "2 :: nat"] by simp
qed

lemma slot_add:
  assumes "ring_inv q"
  shows "slot (a + of_nat i) q = (unat a + i) mod qsize q"
proof -
  have "unat (a + of_nat i) = (unat a + i mod 2 ^ 32) mod 2 ^ 32"
    by (simp add: unat_word_ariths(1) unsigned_of_nat take_bit_eq_mod)
  then have "unat (a + of_nat i) = (unat a + i) mod 2 ^ 32" by (simp only: mod_simps)
  then show ?thesis by (simp add: slot_def masked_mod assms mod_mod_cancel [OF qsize_dvd [OF assms, simplified]])
qed

lemma slot_inj:
  assumes "ring_inv q" and "i < qsize q" and "j < qsize q"
  shows "slot (a + of_nat i) q = slot (a + of_nat j) q \<longleftrightarrow> i = j"
  using mod_inj [OF assms(2,3)] by (auto simp: slot_add assms(1))

lemma masked_zero:
  assumes "ring_inv q" and "unat x < qsize q"
  shows "x AND qmask q = 0 \<longleftrightarrow> unat x = 0"
  using masked_mod [OF assms(1), of x] assms(2) by (simp add: word_unat_eq_iff)

lemma masked_neg:
  assumes "ring_inv q" and "unat x < qsize q"
  shows "unat (- x AND qmask q) = (if unat x = 0 then 0 else qsize q - unat x)"
proof (cases "x = 0")
  case False
  from qsize_dvd [OF assms(1)] obtain c where c: "2 ^ 32 = qsize q * c" by (rule dvdE)
  then have c0: "c \<noteq> 0" by (metis mult_0_right power_not_zero zero_neq_numeral)
  have x0: "unat x \<noteq> 0" using False by (simp add: unat_eq_zero)
  have "unat (- x) = 2 ^ 32 - unat x" using False by (simp only: unat_neg_u32 if_False)
  also have "\<dots> = (qsize q - unat x) + qsize q * (c - 1)"
    using c0 assms(2) by (cases c) (simp_all only: c, simp add: algebra_simps)
  finally have "unat (- x) mod qsize q = (qsize q - unat x) mod qsize q" by (simp only: mod_mult_self2)
  also have "\<dots> = qsize q - unat x" using x0 assms(2) by (intro mod_less) simp
  finally show ?thesis using x0 by (simp only: masked_mod [OF assms(1)] if_False)
qed simp

lemma empty_pending_test:
  assumes "ring_inv q"
  shows "(curr q - head q) AND qmask q = 0 \<longleftrightarrow> npending q = 0"
proof -
  have lt: "npending q < qsize q" using ring_inv_used [OF assms] ring_inv_split [OF assms] by simp
  have "unat ((curr q - head q) AND qmask q) = (if npending q = 0 then 0 else qsize q - npending q)"
    using masked_neg [OF assms lt] by simp
  with lt show ?thesis by (simp add: word_unat_eq_iff split: if_splits)
qed

lemma empty_callback_test:
  assumes "ring_inv q"
  shows "(curr q - tail q) AND qmask q = 0 \<longleftrightarrow> ndone q = 0"
  using masked_zero [OF assms, of "curr q - tail q"] ring_inv_used [OF assms] ring_inv_split [OF assms] by simp

lemma full_test:
  assumes "ring_inv q"
  shows "pdp_procqueue_full q \<longleftrightarrow> Suc (used q) = qsize q"
proof -
  have "unat ((tail q - head q) AND qmask q) = (if used q = 0 then 0 else qsize q - used q)"
    using masked_neg [OF assms ring_inv_used [OF assms]] by simp
  then show ?thesis using ring_inv_used [OF assms] qsize_pos [OF assms]
    by (auto simp: pdp_procqueue_full_def word_unat_eq_iff split: if_splits)
qed

lemma unat_inc: "unat x < 2 ^ 31 \<Longrightarrow> unat (x + 1 :: u32) = Suc (unat x)"
  by (simp add: unat_plus_if_size word_size)

section \<open>Windows\<close>

lemma window_Nil [simp]: "window q a 0 = []"
  by (simp add: window_def)

lemma length_window [simp]: "length (window q a n) = n"
  by (simp add: window_def)

lemma window_Cons: "window q a (Suc n) = slots q (slot a q) # window q (a + 1) n"
proof -
  have "[0..<Suc n] = 0 # map Suc [0..<n]" by (simp add: upt_conv_Cons map_Suc_upt del: upt_Suc)
  then show ?thesis by (simp add: window_def ac_simps del: upt_Suc)
qed

lemma window_snoc: "window q a (Suc n) = window q a n @ [slots q (slot (a + of_nat n) q)]"
  by (simp add: window_def)

lemma window_append: "window q a (m + n) = window q a m @ window q (a + of_nat m) n"
  by (induction m arbitrary: a) (simp_all add: window_Cons ac_simps)

lemma window_cong:
  "(\<And>i. i < n \<Longrightarrow> slots q' (slot (a + of_nat i) q) = slots q (slot (a + of_nat i) q)) \<Longrightarrow>
   qmask q' = qmask q \<Longrightarrow> window q' a n = window q a n"
  by (simp add: window_def slot_def)

lemma length_called_back [simp]: "length (called_back q) = ndone q"
  by (simp add: called_back_def)

lemma length_pending [simp]: "length (pending q) = npending q"
  by (simp add: pending_def)

lemma curr_of_tail: "tail q + of_nat (ndone q) = curr q"
  by simp

lemma head_of_tail: "tail q + of_nat (used q) = head q"
  by simp

lemma head_of_curr: "curr q + of_nat (npending q) = head q"
  by simp

text \<open>Queues that agree on ring and counters hold the same tasks.\<close>

definition same_ring :: "t_pdp_procqueue \<Rightarrow> t_pdp_procqueue \<Rightarrow> bool" where
  "same_ring q q' \<longleftrightarrow> slots q' = slots q \<and> qmask q' = qmask q \<and> head q' = head q \<and> tail q' = tail q \<and> curr q' = curr q"

lemma same_ring_tasks:
  "same_ring q q' \<Longrightarrow> ring_inv q' = ring_inv q \<and> called_back q' = called_back q \<and> pending q' = pending q"
  by (simp add: same_ring_def ring_inv_def qsize_def called_back_def pending_def window_def slot_def)

section \<open>The three moves of a task\<close>

lemma put_head:
  assumes inv: "ring_inv q" and nf: "\<not> pdp_procqueue_full q"
    and q': "q' = q\<lparr>slots := (slots q)(slot (head q) q := it), head := head q + 1\<rparr>"
  shows "ring_inv q'" "called_back q' = called_back q" "pending q' = pending q @ [it]"
proof -
  from nf have sp: "Suc (used q) < qsize q" using ring_inv_used [OF inv] by (simp add: full_test inv)
  note split = ring_inv_split [OF inv] and small = qsize_le [OF inv]
  have p1: "unat (head q + 1 - curr q) = Suc (npending q)" and u1: "unat (head q + 1 - tail q) = Suc (used q)"
    using unat_inc [of "head q - curr q"] unat_inc [of "head q - tail q"] sp split small by (simp_all add: algebra_simps)
  show "ring_inv q'" using inv sp p1 u1 split by (simp add: ring_inv_def q' qsize_def)
  have fresh: "slot (tail q + of_nat i) q \<noteq> slot (head q) q" if "i < used q" for i
    using slot_inj [OF inv, of i "used q" "tail q"] that sp by simp
  have w: "window q' a n = window q a n" if "a = tail q + of_nat m" "m + n \<le> used q" for a m n
    by (rule window_cong) (use that fresh [of "m + _"] in \<open>auto simp: q' ac_simps\<close>)
  show "called_back q' = called_back q" using w [of "tail q" 0 "ndone q"] split by (simp add: called_back_def q')
  have wp: "window q' (curr q) (npending q) = window q (curr q) (npending q)"
    using w [of "curr q" "ndone q" "npending q"] split by simp
  have at: "slot (curr q + of_nat (npending q)) q' = slot (head q) q" by (simp add: slot_def q')
  have "pending q' = window q' (curr q) (Suc (npending q))" using p1 by (simp add: pending_def q')
  also have "\<dots> = window q (curr q) (npending q) @ [slots q' (slot (head q) q)]" unfolding window_snoc at wp ..
  finally show "pending q' = pending q @ [it]" by (simp add: pending_def q')
qed

lemma move_curr:
  assumes inv: "ring_inv q" and ne: "npending q \<noteq> 0"
  shows "ring_inv (q\<lparr>curr := curr q + 1\<rparr>)"
    and "called_back (q\<lparr>curr := curr q + 1\<rparr>) = called_back q @ [slots q (slot (curr q) q)]"
    and "pending q = slots q (slot (curr q) q) # pending (q\<lparr>curr := curr q + 1\<rparr>)"
proof -
  let ?q = "q\<lparr>curr := curr q + 1\<rparr>"
  note split = ring_inv_split [OF inv] and lt = ring_inv_used [OF inv] and small = qsize_le [OF inv]
  have d1: "unat (curr q + 1 - tail q) = Suc (ndone q)"
    using unat_inc [of "curr q - tail q"] split lt small by (simp add: algebra_simps)
  have "unat (head q - curr q - 1) = npending q - 1" using ne by (intro unat_minus_one) (auto simp: unat_eq_zero)
  then have p1: "npending q = Suc (unat (head q - (curr q + 1)))" using ne by (simp add: algebra_simps)
  show "ring_inv ?q" using inv d1 p1 split by (simp add: ring_inv_def qsize_def)
  have w: "window ?q a n = window q a n" for a n by (rule window_cong) auto
  have "called_back ?q = window q (tail q) (Suc (ndone q))" using d1 by (simp add: called_back_def w)
  also have "\<dots> = called_back q @ [slots q (slot (curr q) q)]"
    unfolding window_snoc called_back_def by simp
  finally show "called_back ?q = called_back q @ [slots q (slot (curr q) q)]" .
  have "pending q = window q (curr q) (Suc (unat (head q - (curr q + 1))))" unfolding pending_def p1 ..
  also have "\<dots> = slots q (slot (curr q) q) # pending ?q" unfolding window_Cons by (simp add: pending_def w)
  finally show "pending q = slots q (slot (curr q) q) # pending ?q" .
qed

lemma move_tail:
  assumes inv: "ring_inv q" and ne: "ndone q \<noteq> 0"
  shows "ring_inv (q\<lparr>tail := tail q + 1\<rparr>)"
    and "called_back q = slots q (slot (tail q) q) # called_back (q\<lparr>tail := tail q + 1\<rparr>)"
    and "pending (q\<lparr>tail := tail q + 1\<rparr>) = pending q"
proof -
  let ?q = "q\<lparr>tail := tail q + 1\<rparr>"
  note split = ring_inv_split [OF inv] and lt = ring_inv_used [OF inv]
  have dec: "x \<noteq> 0 \<Longrightarrow> unat x = Suc (unat (x - 1))" for x :: u32
    using unat_minus_one [of x] unat_eq_zero [of x] by simp
  have "curr q - tail q \<noteq> 0" "head q - tail q \<noteq> 0" using ne split by auto
  from this [THEN dec] have d1: "ndone q = Suc (unat (curr q - (tail q + 1)))"
    and u1: "used q = Suc (unat (head q - (tail q + 1)))" by (simp_all add: algebra_simps)
  show "ring_inv ?q" using inv d1 u1 split by (simp add: ring_inv_def qsize_def)
  have w: "window ?q a n = window q a n" for a n by (rule window_cong) auto
  then show "pending ?q = pending q" by (simp add: pending_def)
  have "called_back q = window q (tail q) (Suc (unat (curr q - (tail q + 1))))" unfolding called_back_def d1 ..
  also have "\<dots> = slots q (slot (tail q) q) # called_back ?q" unfolding window_Cons by (simp add: called_back_def w)
  finally show "called_back q = slots q (slot (tail q) q) # called_back ?q" .
qed


section \<open>Contracts of callbacks, events of a task\<close>

text \<open>A callback may use the queue only to add tasks that the ring takes.\<close>

definition callback_ok :: "callback_env \<Rightarrow> bool" where
  "callback_ok E \<longleftrightarrow> (\<forall>f ow q. ring_inv q \<longrightarrow>
     ring_inv (E f ow q) \<and> called_back (E f ow q) = called_back q \<and> (\<exists>ts. pending (E f ow q) = pending q @ ts) \<and>
     trace (E f ow q) = trace q)"

lemma callback_okD:
  "callback_ok E \<Longrightarrow> ring_inv q \<Longrightarrow> ring_inv (E f ow q) \<and> called_back (E f ow q) = called_back q \<and>
   (\<exists>ts. pending (E f ow q) = pending q @ ts) \<and> trace (E f ow q) = trace q"
  by (simp add: callback_ok_def)

text \<open>It leaves the mode of the queue alone.\<close>

definition keeps_thread :: "callback_env \<Rightarrow> bool" where
  "keeps_thread E \<longleftrightarrow> (\<forall>f ow q. use_thread (E f ow q) = use_thread q)"

lemma call_callback_use_thread: "keeps_thread E \<Longrightarrow> use_thread (call_callback E m ow q) = use_thread q"
  by (simp add: keeps_thread_def call_callback_def split: option.split)

definition proc_events :: "t_process_queue_item \<Rightarrow> qevent list" where
  "proc_events t = (case x_process t of None \<Rightarrow> [] | Some f \<Rightarrow> [Process f (x_owner t)])"

definition callback_events :: "t_process_queue_item \<Rightarrow> qevent list" where
  "callback_events t = (case x_callback t of None \<Rightarrow> [] | Some f \<Rightarrow> [Callback f (x_owner t)])"

fun is_process :: "qevent \<Rightarrow> bool" where
  "is_process (Process f ow) = True"
| "is_process (Callback f ow) = False"

lemma filter_events [simp]:
  "filter is_process (proc_events t) = proc_events t" "filter (Not \<circ> is_process) (proc_events t) = []"
  "filter is_process (callback_events t) = []" "filter (Not \<circ> is_process) (callback_events t) = callback_events t"
  by (simp_all add: proc_events_def callback_events_def split: option.split)

lemma set_id_same_ring: "same_ring q (set_id p i q)"
  by (simp add: set_id_def same_ring_def)

lemma set_id_fields [simp]:
  "trace (set_id p i q) = trace q" "use_thread (set_id p i q) = use_thread q" "slots (set_id p i q) = slots q"
  "curr (set_id p i q) = curr q" "head (set_id p i q) = head q" "tail (set_id p i q) = tail q" "qmask (set_id p i q) = qmask q"
  by (simp_all add: set_id_def)

lemma call_process_fields [simp]:
  "slots (call_process m ow q) = slots q" "qmask (call_process m ow q) = qmask q" "curr (call_process m ow q) = curr q"
  "head (call_process m ow q) = head q" "tail (call_process m ow q) = tail q"
  by (simp_all add: call_process_def split: option.split)

lemma call_process_use_thread [simp]: "use_thread (call_process m ow q) = use_thread q"
  by (simp add: call_process_def split: option.split)

lemma call_process_trace: "trace (call_process (x_process t) (x_owner t) q) = trace q @ proc_events t"
  by (simp add: call_process_def proc_events_def split: option.split)

section \<open>Operations on sequences of tasks\<close>

lemma add_spec:
  assumes "ring_inv q" "use_thread q" "\<not> pdp_procqueue_full q"
    and "q' = pdp_procqueue_add E ow p c i q"
  shows "ring_inv q'" "called_back q' = called_back q"
    and "pending q' = pending q @ [\<lparr>x_owner = ow, x_process = p, x_callback = c, x_queue_id = i\<rparr>]"
    and "trace q' = trace q" "use_thread q'"
proof -
  let ?it = "\<lparr>x_owner = ow, x_process = p, x_callback = c, x_queue_id = i\<rparr>"
  let ?r = "q\<lparr>slots := (slots q)(slot (head q) q := ?it), head := head q + 1\<rparr>"
  have "same_ring ?r q'" using assms by (simp add: pdp_procqueue_add_def Let_def same_ring_def set_id_def)
  from same_ring_tasks [OF this] put_head [OF assms(1,3) refl, of ?it]
  show "ring_inv q'" "called_back q' = called_back q" "pending q' = pending q @ [?it]" by simp_all
  show "trace q' = trace q" "use_thread q'" using assms by (simp_all add: pdp_procqueue_add_def Let_def set_id_def)
qed

text \<open>A task that a full ring does not take: no process method, the callback at once.\<close>

lemma add_full_spec:
  assumes "callback_ok E" "ring_inv q" "use_thread q" "pdp_procqueue_full q"
    and "q' = pdp_procqueue_add E ow p c i q"
  shows "ring_inv q'" "called_back q' = called_back q" "\<exists>ts. pending q' = pending q @ ts"
    and "trace q' = trace q @ (case c of None \<Rightarrow> [] | Some f \<Rightarrow> [Callback f ow])"
    and "keeps_thread E \<Longrightarrow> use_thread q'"
proof -
  let ?r = "set_id i (-1) q"
  have q': "q' = call_callback E c ow ?r" using assms(3-5) by (simp add: pdp_procqueue_add_def)
  have r: "ring_inv ?r" "called_back ?r = called_back q" "pending ?r = pending q"
    using same_ring_tasks [OF set_id_same_ring] assms(2) by simp_all
  have "ring_inv q' \<and> called_back q' = called_back q \<and> (\<exists>ts. pending q' = pending q @ ts) \<and>
    trace q' = trace q @ (case c of None \<Rightarrow> [] | Some f \<Rightarrow> [Callback f ow])"
  proof (cases c)
    case None
    then show ?thesis using r q' by (simp add: call_callback_def)
  next
    case (Some f)
    let ?s = "?r\<lparr>trace := trace ?r @ [Callback f ow]\<rparr>"
    have "same_ring ?r ?s" by (simp add: same_ring_def)
    from same_ring_tasks [OF this] r have "ring_inv ?s" "called_back ?s = called_back q" "pending ?s = pending q" by simp_all
    with callback_okD [OF assms(1), of ?s f ow] Some q' show ?thesis by (auto simp: call_callback_def)
  qed
  then show "ring_inv q'" "called_back q' = called_back q" "\<exists>ts. pending q' = pending q @ ts"
    and "trace q' = trace q @ (case c of None \<Rightarrow> [] | Some f \<Rightarrow> [Callback f ow])" by blast+
  show "keeps_thread E \<Longrightarrow> use_thread q'" using assms(3) by (simp add: q' call_callback_use_thread)
qed

lemma thread_step_spec:
  assumes "ring_inv q" "thread_step q = Some q'"
  obtains t where "pending q = t # pending q'" "ring_inv q'" "called_back q' = called_back q @ [t]"
    "trace q' = trace q @ proc_events t" "use_thread q' = use_thread q"
proof -
  let ?t = "slots q (slot (curr q) q)"
  let ?r = "q\<lparr>curr := curr q + 1\<rparr>"
  have ne: "npending q \<noteq> 0" and q': "q' = (call_process (x_process ?t) (x_owner ?t) q)\<lparr>curr := curr q + 1\<rparr>"
    using assms(2) empty_pending_test [OF assms(1)] by (simp_all add: thread_step_def Let_def split: if_splits)
  have sr: "same_ring ?r q'" by (simp add: same_ring_def q')
  show thesis
  proof (rule that [of ?t])
    show "pending q = ?t # pending q'" "ring_inv q'" "called_back q' = called_back q @ [?t]"
      using same_ring_tasks [OF sr] move_curr [OF assms(1) ne] by simp_all
    show "trace q' = trace q @ proc_events ?t" "use_thread q' = use_thread q" by (simp_all add: q' call_process_trace)
  qed
qed

lemma thread_step_None: "ring_inv q \<Longrightarrow> thread_step q = None \<longleftrightarrow> pending q = []"
  using empty_pending_test [of q] by (simp add: thread_step_def Let_def flip: length_0_conv)

lemma pending_test: "ring_inv q \<Longrightarrow> (curr q - head q) AND qmask q = 0 \<longleftrightarrow> pending q = []"
  by (simp add: empty_pending_test flip: length_0_conv)

lemma callback_test: "ring_inv q \<Longrightarrow> (curr q - tail q) AND qmask q = 0 \<longleftrightarrow> called_back q = []"
  by (simp add: empty_callback_test flip: length_0_conv)

lemma callback_step_spec:
  assumes ok: "callback_ok E" and inv: "ring_inv q" and ne: "called_back q = t # ts"
  defines "q' \<equiv> callback_step E q"
  shows "ring_inv q'" "called_back q' = ts" "\<exists>new. pending q' = pending q @ new" "trace q' = trace q @ callback_events t"
    and "keeps_thread E \<Longrightarrow> use_thread q' = use_thread q"
proof -
  have nd: "ndone q \<noteq> 0" using ne by (metis length_called_back length_0_conv list.distinct(1))
  have t: "t = slots q (slot (tail q) q)" using move_tail(2) [OF inv nd] ne by simp
  define r where "r = set_id (x_queue_id t) (-1) q"
  define r' where "r' = call_callback E (x_callback t) (x_owner t) r"
  have q': "q' = r'\<lparr>tail := tail r' + 1\<rparr>" by (simp add: q'_def callback_step_def Let_def r'_def r_def t)
  have r: "ring_inv r" "called_back r = called_back q" "pending r = pending q" "trace r = trace q"
    using same_ring_tasks [OF set_id_same_ring] inv by (simp_all add: r_def)
  have r': "ring_inv r' \<and> called_back r' = called_back q \<and> (\<exists>new. pending r' = pending q @ new) \<and>
      trace r' = trace q @ callback_events t"
  proof (cases "x_callback t")
    case None
    then show "ring_inv r' \<and> called_back r' = called_back q \<and> (\<exists>new. pending r' = pending q @ new) \<and>
      trace r' = trace q @ callback_events t" using r by (simp add: r'_def call_callback_def callback_events_def)
  next
    case (Some f)
    let ?r = "r\<lparr>trace := trace r @ [Callback f (x_owner t)]\<rparr>"
    have "same_ring r ?r" by (simp add: same_ring_def)
    from same_ring_tasks [OF this] r have "ring_inv ?r" "called_back ?r = called_back q" "pending ?r = pending q" by simp_all
    with callback_okD [OF ok, of ?r f "x_owner t"] Some show "ring_inv r' \<and> called_back r' = called_back q \<and> (\<exists>new. pending r' = pending q @ new) \<and>
      trace r' = trace q @ callback_events t"
      using r(4) by (auto simp: r'_def call_callback_def callback_events_def)
  qed
  then have nd': "ndone r' \<noteq> 0" using ne by (metis length_called_back length_0_conv list.distinct(1))
  from move_tail [OF conjunct1 [OF r'] nd'] ne r' show "ring_inv q'" "called_back q' = ts" "\<exists>new. pending q' = pending q @ new"
    "trace q' = trace q @ callback_events t" by (simp_all add: q')
  show "keeps_thread E \<Longrightarrow> use_thread q' = use_thread q" by (simp add: q' r'_def r_def call_callback_use_thread)
qed

lemma wait_spec:
  assumes "ring_inv q"
  obtains q' where "pdp_procqueue_wait q = Some q'" "ring_inv q'" "pending q' = []"
    "called_back q' = called_back q @ pending q" "trace q' = trace q @ concat (map proc_events (pending q))"
    "use_thread q' = use_thread q"
  using assms
proof (induction "pending q" arbitrary: q thesis)
  case Nil
  show ?case by (rule Nil(2) [of q]) (use Nil(1) Nil(3) in \<open>simp_all add: pdp_procqueue_wait.simps pending_test\<close>)
next
  case (Cons t ts)
  have ne: "pending q \<noteq> []" using Cons(2) by auto
  then obtain r where r: "thread_step q = Some r" using thread_step_None [OF Cons(4)] by auto
  from thread_step_spec [OF Cons(4) r] Cons(2)
  have s: "pending q = t # ts" "ts = pending r" "ring_inv r" "called_back r = called_back q @ [t]" "trace r = trace q @ proc_events t"
    "use_thread r = use_thread q" by (metis list.inject)+
  obtain q' where q': "pdp_procqueue_wait r = Some q'" "ring_inv q'" "pending q' = []"
    "called_back q' = called_back r @ pending r" "trace q' = trace r @ concat (map proc_events (pending r))"
    "use_thread q' = use_thread r" using Cons(1) [OF s(2) _ s(3)] by blast
  have "pdp_procqueue_wait q = Some q'"
    using ne q'(1) r by (simp add: pdp_procqueue_wait.simps [of q] pending_test [OF Cons(4)])
  then show ?case using Cons(3) [of q'] q' s by simp
qed

lemma callback_spec:
  assumes "callback_ok E" "ring_inv q"
  obtains q' where "pdp_procqueue_callback E q = Some q'" "ring_inv q'" "called_back q' = []"
    "\<exists>new. pending q' = pending q @ new" "trace q' = trace q @ concat (map callback_events (called_back q))"
  using assms(2)
proof (induction "called_back q" arbitrary: q thesis)
  case Nil
  show ?case by (rule Nil(2) [of q]) (use Nil(1) Nil(3) in \<open>simp_all add: pdp_procqueue_callback.simps callback_test\<close>)
next
  case (Cons t ts)
  let ?r = "callback_step E q"
  note s = callback_step_spec [OF assms(1) Cons(4) Cons(2) [symmetric]]
  obtain q' where q': "pdp_procqueue_callback E ?r = Some q'" "ring_inv q'" "called_back q' = []"
    "\<exists>new. pending q' = pending ?r @ new" "trace q' = trace ?r @ concat (map callback_events (called_back ?r))"
    using Cons(1) [OF s(2) [symmetric] _ s(1)] by blast
  have "pdp_procqueue_callback E q = Some q'"
    using Cons(2) [symmetric] q'(1) by (simp add: pdp_procqueue_callback.simps [of E q] callback_test [OF Cons(4)])
  then show ?case using Cons(3) [of q'] q' s Cons(2) [symmetric] by auto
qed


section \<open>The interface: a queue between two threads\<close>

text \<open>
  What a client of the queue relies on. The main thread puts tasks and takes callbacks, the worker
  takes tasks to process; \<open>todo\<close> and \<open>ready\<close> are the tasks in the two stages, \<open>plog\<close> and \<open>clog\<close> the
  events of the two methods. A task that finds no room is refused: it is not processed, and its callback is
  called at once. A callback may put further tasks. \<open>drive\<close> performs a sequence of moves and lists the
  tasks the queue took, in order, and those it refused.
\<close>

datatype 't qaction = Put 't | Work | Call

fun drive :: "('q \<Rightarrow> 't list) \<Rightarrow> ('q \<Rightarrow> bool) \<Rightarrow> ('t \<Rightarrow> 'q \<Rightarrow> 'q) \<Rightarrow> ('q \<Rightarrow> 'q option) \<Rightarrow> ('q \<Rightarrow> 'q option) \<Rightarrow>
    't qaction list \<Rightarrow> 'q \<Rightarrow> ('q \<times> 't list \<times> 't list) option" where
  "drive todo room put work call [] q = Some (q, [], [])"
| "drive todo room put work call (Put t # as) q =
     (let r = put t q; new = drop (length (todo q)) (todo r) in
      map_option (\<lambda>(q', ts, rs). if room q then (q', t # ts, rs) else (q', new @ ts, t # rs)) (drive todo room put work call as r))"
| "drive todo room put work call (Work # as) q = Option.bind (work q) (drive todo room put work call as)"
| "drive todo room put work call (Call # as) q =
     Option.bind (call q) (\<lambda>r. map_option (\<lambda>(q', ts, rs). (q', drop (length (todo q)) (todo r) @ ts, rs))
       (drive todo room put work call as r))"

definition works :: "'t qaction list \<Rightarrow> nat" where
  "works as = length (filter (\<lambda>a. a = Work) as)"

definition calls :: "'t qaction list \<Rightarrow> nat" where
  "calls as = length (filter (\<lambda>a. a = Call) as)"

lemma works_calls_simps [simp]:
  "works [] = 0" "works (Put t # as) = works as" "works (Work # as) = Suc (works as)" "works (Call # as) = works as"
  "calls [] = 0" "calls (Put t # as) = calls as" "calls (Work # as) = calls as" "calls (Call # as) = Suc (calls as)"
  by (simp_all add: works_def calls_def)

locale worker_queue =
  fixes good :: "'q \<Rightarrow> bool" and ready :: "'q \<Rightarrow> 't list" and todo :: "'q \<Rightarrow> 't list"
    and room :: "'q \<Rightarrow> bool" and put :: "'t \<Rightarrow> 'q \<Rightarrow> 'q" and work :: "'q \<Rightarrow> 'q option" and call :: "'q \<Rightarrow> 'q option"
    and plog :: "'q \<Rightarrow> 'e list" and clog :: "'q \<Rightarrow> 'e list" and pev :: "'t \<Rightarrow> 'e list" and cev :: "'t \<Rightarrow> 'e list"
  assumes put_law: "good q \<Longrightarrow> room q \<Longrightarrow> good (put t q) \<and> ready (put t q) = ready q \<and> todo (put t q) = todo q @ [t] \<and>
      plog (put t q) = plog q \<and> clog (put t q) = clog q"
    and refuse_law: "good q \<Longrightarrow> \<not> room q \<Longrightarrow> good (put t q) \<and> ready (put t q) = ready q \<and> (\<exists>ts. todo (put t q) = todo q @ ts) \<and>
      plog (put t q) = plog q \<and> clog (put t q) = clog q @ cev t"
    and work_law: "good q \<Longrightarrow> work q = Some q' \<Longrightarrow> \<exists>t. good q' \<and> todo q = t # todo q' \<and> ready q' = ready q @ [t] \<and>
      plog q' = plog q @ pev t \<and> clog q' = clog q"
    and call_law: "good q \<Longrightarrow> call q = Some q' \<Longrightarrow> \<exists>t. good q' \<and> ready q = t # ready q' \<and> (\<exists>ts. todo q' = todo q @ ts) \<and>
      clog q' = clog q @ cev t \<and> plog q' = plog q"
begin

definition account :: "'q \<Rightarrow> 't list \<Rightarrow> 't list \<Rightarrow> nat \<Rightarrow> nat \<Rightarrow> 'q \<Rightarrow> bool" where
  "account q ts rs w c q' \<longleftrightarrow> good q' \<and> w \<le> length (todo q @ ts) \<and> c \<le> length (ready q) + w \<and>
     todo q' = drop w (todo q @ ts) \<and> ready q' = drop c (ready q @ take w (todo q @ ts)) \<and>
     plog q' = plog q @ concat (map pev (take w (todo q @ ts))) \<and>
     (\<exists>cs \<in> shuffles (take c (ready q @ take w (todo q @ ts))) rs. clog q' = clog q @ concat (map cev cs))"

lemma account_put: "good q \<Longrightarrow> room q \<Longrightarrow> account (put t q) ts rs w c q' \<Longrightarrow> account q (t # ts) rs w c q'"
  using put_law [of q t] by (simp add: account_def)

lemma account_refuse:
  assumes "good q" "\<not> room q" "account (put t q) ts rs w c q'"
  shows "account q (drop (length (todo q)) (todo (put t q)) @ ts) (t # rs) w c q'"
proof -
  obtain new where new: "todo (put t q) = todo q @ new" using refuse_law [OF assms(1,2)] by blast
  from assms(3) obtain cs where
    cs: "cs \<in> shuffles (take c (ready (put t q) @ take w (todo (put t q) @ ts))) rs" "clog q' = clog (put t q) @ concat (map cev cs)"
    by (auto simp: account_def)
  have "t # cs \<in> shuffles (take c (ready (put t q) @ take w (todo (put t q) @ ts))) (t # rs)"
    using cs(1) by (rule Cons_in_shuffles_rightI)
  moreover note r = refuse_law [OF assms(1,2), of t] new
  ultimately have "\<exists>cs \<in> shuffles (take c (ready q @ take w (todo q @ drop (length (todo q)) (todo (put t q)) @ ts))) (t # rs).
      clog q' = clog q @ concat (map cev cs)"
    using cs(2) by (intro bexI [of _ "t # cs"]) simp_all
  with assms(3) r show ?thesis unfolding account_def by (elim conjE) (intro conjI; simp)
qed

lemma account_work:
  assumes "good q" "work q = Some r" "account r ts rs w c q'"
  shows "account q ts rs (Suc w) c q'"
proof -
  obtain t where "good r" "todo q = t # todo r" "ready r = ready q @ [t]" "plog r = plog q @ pev t" "clog r = clog q"
    using work_law [OF assms(1,2)] by blast
  with assms(3) show ?thesis by (simp add: account_def)
qed

lemma account_call:
  assumes "good q" "call q = Some r" "account r ts rs w c q'"
  shows "account q (drop (length (todo q)) (todo r) @ ts) rs w (Suc c) q'"
proof -
  obtain t new where t: "good r" "ready q = t # ready r" "todo r = todo q @ new" "clog r = clog q @ cev t" "plog r = plog q"
    using call_law [OF assms(1,2)] by blast
  from assms(3) obtain cs where
    cs: "cs \<in> shuffles (take c (ready r @ take w (todo r @ ts))) rs" "clog q' = clog r @ concat (map cev cs)"
    by (auto simp: account_def)
  have "t # cs \<in> shuffles (t # take c (ready r @ take w (todo r @ ts))) rs" using cs(1) by (rule Cons_in_shuffles_leftI)
  with cs(2) t have "\<exists>cs \<in> shuffles (take (Suc c) (ready q @ take w (todo q @ drop (length (todo q)) (todo r) @ ts))) rs.
      clog q' = clog q @ concat (map cev cs)"
    by (intro bexI [of _ "t # cs"]) simp_all
  with assms(3) t show ?thesis unfolding account_def by (elim conjE) (intro conjI; simp)
qed

lemma drive_account:
  "good q \<Longrightarrow> drive todo room put work call as q = Some (q', ts, rs) \<Longrightarrow> account q ts rs (works as) (calls as) q'"
proof (induction as arbitrary: q ts rs)
  case Nil
  then show ?case by (simp add: account_def)
next
  case (Cons a as)
  show ?case
  proof (cases a)
    case (Put t)
    with Cons.prems obtain us vs where d: "drive todo room put work call as (put t q) = Some (q', us, vs)"
      by (auto simp: Let_def split: if_splits)
    show ?thesis
    proof (cases "room q")
      case True
      with Cons.IH [of "put t q" us vs] put_law [of q t] Cons.prems Put d show ?thesis by (auto simp: Let_def account_put)
    next
      case False
      have "account (put t q) us vs (works as) (calls as) q'"
        using Cons.IH [OF _ d] refuse_law [OF Cons.prems(1) False] by blast
      from account_refuse [OF Cons.prems(1) False this] show ?thesis using Cons.prems(2) Put d False by (auto simp: Let_def)
    qed
  next
    case Work
    with Cons.prems obtain r where "work q = Some r" "drive todo room put work call as r = Some (q', ts, rs)"
      by (auto simp: bind_eq_Some_conv)
    with Cons.IH [of r ts rs] work_law [of q r] Cons.prems(1) show ?thesis by (auto simp: Work intro: account_work)
  next
    case Call
    with Cons.prems obtain r us where "call q = Some r" "drive todo room put work call as r = Some (q', us, rs)"
      "ts = drop (length (todo q)) (todo r) @ us" by (auto simp: bind_eq_Some_conv)
    with Cons.IH [of r us rs] call_law [of q r] Cons.prems(1) show ?thesis by (auto simp: Call intro: account_call)
  qed
qed

end

text \<open>
  A threaded queue provides the interface for every callback environment that keeps the contract: a put is
  \<open>pdp_procqueue_add\<close>, the worker's move a round of the thread, the main thread's a round of the callback
  loop; there is room unless \<open>pdp_procqueue_full\<close>.
\<close>

definition add_task :: "callback_env \<Rightarrow> t_process_queue_item \<Rightarrow> t_pdp_procqueue \<Rightarrow> t_pdp_procqueue" where
  "add_task E t = pdp_procqueue_add E (x_owner t) (x_process t) (x_callback t) (x_queue_id t)"

definition has_room :: "t_pdp_procqueue \<Rightarrow> bool" where
  "has_room q \<longleftrightarrow> \<not> pdp_procqueue_full q"

definition threaded :: "t_pdp_procqueue \<Rightarrow> bool" where
  "threaded q \<longleftrightarrow> ring_inv q \<and> use_thread q"

definition take_callback :: "callback_env \<Rightarrow> t_pdp_procqueue \<Rightarrow> t_pdp_procqueue option" where
  "take_callback E q = (if (curr q - tail q) AND qmask q \<noteq> 0 then Some (callback_step E q) else None)"

abbreviation proc_trace :: "t_pdp_procqueue \<Rightarrow> qevent list" where
  "proc_trace q \<equiv> filter is_process (trace q)"

abbreviation callback_trace :: "t_pdp_procqueue \<Rightarrow> qevent list" where
  "callback_trace q \<equiv> filter (Not \<circ> is_process) (trace q)"

lemma procqueue_worker_queue:
  assumes "callback_ok E" "keeps_thread E"
  shows "worker_queue threaded called_back pending has_room (add_task E) thread_step (take_callback E)
    proc_trace callback_trace proc_events callback_events"
proof
  fix q t
  assume "threaded q" "has_room q"
  then have a: "ring_inv q" "use_thread q" "\<not> pdp_procqueue_full q" by (simp_all add: threaded_def has_room_def)
  have t: "\<lparr>x_owner = x_owner t, x_process = x_process t, x_callback = x_callback t, x_queue_id = x_queue_id t\<rparr> = t"
    by (cases t) simp
  from add_spec [OF a refl, of E "x_owner t" "x_process t" "x_callback t" "x_queue_id t"]
  show "threaded (add_task E t q) \<and> called_back (add_task E t q) = called_back q \<and> pending (add_task E t q) = pending q @ [t] \<and>
    proc_trace (add_task E t q) = proc_trace q \<and> callback_trace (add_task E t q) = callback_trace q"
    by (simp add: add_task_def t threaded_def)
next
  fix q t
  assume "threaded q" "\<not> has_room q"
  then have a: "ring_inv q" "use_thread q" "pdp_procqueue_full q" by (simp_all add: threaded_def has_room_def)
  from add_full_spec [OF assms(1) a refl, of "x_owner t" "x_process t" "x_callback t" "x_queue_id t"] assms(2)
  have "threaded (add_task E t q)" "called_back (add_task E t q) = called_back q" "\<exists>ts. pending (add_task E t q) = pending q @ ts"
    "trace (add_task E t q) = trace q @ callback_events t" by (simp_all add: add_task_def threaded_def callback_events_def)
  then show "threaded (add_task E t q) \<and> called_back (add_task E t q) = called_back q \<and> (\<exists>ts. pending (add_task E t q) = pending q @ ts) \<and>
    proc_trace (add_task E t q) = proc_trace q \<and> callback_trace (add_task E t q) = callback_trace q @ callback_events t" by simp
next
  fix q q'
  assume "threaded q" "thread_step q = Some q'"
  then have a: "ring_inv q" "thread_step q = Some q'" "use_thread q" by (simp_all add: threaded_def)
  from thread_step_spec [OF a(1,2)]
  obtain t where "pending q = t # pending q'" "ring_inv q'" "called_back q' = called_back q @ [t]"
    "trace q' = trace q @ proc_events t" "use_thread q' = use_thread q" by blast
  then show "\<exists>t. threaded q' \<and> pending q = t # pending q' \<and> called_back q' = called_back q @ [t] \<and>
    proc_trace q' = proc_trace q @ proc_events t \<and> callback_trace q' = callback_trace q" using a(3) by (auto simp: threaded_def)
next
  fix q q'
  assume th: "threaded q" and "take_callback E q = Some q'"
  then have inv: "ring_inv q" "use_thread q" and q': "q' = callback_step E q" and "called_back q \<noteq> []"
    by (auto simp: threaded_def take_callback_def callback_test split: if_splits)
  then obtain t ts where c: "called_back q = t # ts" by (cases "called_back q") auto
  from callback_step_spec [OF assms(1) inv(1) c] assms(2) inv(2)
  show "\<exists>t. threaded q' \<and> called_back q = t # called_back q' \<and> (\<exists>ts. pending q' = pending q @ ts) \<and>
    callback_trace q' = callback_trace q @ callback_events t \<and> proc_trace q' = proc_trace q"
    by (intro exI [of _ t]) (simp add: q' c threaded_def)
qed


text \<open>A callback environment that keeps the contract: it puts its owner's task back while there is room.\<close>

definition again :: callback_env where
  "again f ow q =
     (if use_thread q \<and> has_room q then pdp_procqueue_add (\<lambda>f ow q. q) ow (Some f) (Some f) NULL q else q)"

lemma again_ok: "callback_ok again"
  unfolding callback_ok_def again_def has_room_def using add_spec [OF _ _ _ refl] by auto

lemma again_thread: "keeps_thread again"
  by (simp add: keeps_thread_def again_def has_room_def pdp_procqueue_add_def Let_def)

definition idle :: callback_env where
  "idle f ow q = q"

lemma idle_ok: "callback_ok idle"
  by (simp add: callback_ok_def idle_def)

interpretation pq: worker_queue threaded called_back pending has_room "add_task again" thread_step "take_callback again"
    proc_trace callback_trace proc_events callback_events
  by (rule procqueue_worker_queue [OF again_ok again_thread])

lemmas drive_procqueue = worker_queue.drive_account [OF procqueue_worker_queue, unfolded pq.account_def]

section \<open>Properties\<close>

definition new_queue :: t_pdp_procqueue where
  "new_queue = \<lparr>slots = (\<lambda>_. empty_item), qmask = 3, head = 4294967294, tail = 4294967294, curr = 4294967294, packets = 0, ticks = 0,
     use_thread = True, clock_set = True, ids = (\<lambda>_. 0), trace = []\<rparr>"

definition demo_task :: "nat \<Rightarrow> t_process_queue_item" where
  "demo_task n = \<lparr>x_owner = n, x_process = Some 1, x_callback = Some 2, x_queue_id = NULL\<rparr>"

lemma new_queue_inv: "ring_inv new_queue"
  unfolding ring_inv_def
proof (intro conjI exI [of _ "2 :: nat"])
  show "qmask new_queue = mask 2" by (simp add: new_queue_def mask_numeral)
qed (simp_all add: new_queue_def qsize_def)

text \<open>
  C5: for every sequence of adds by the feeder to a threaded queue, full or not, rounds of the worker thread and
  rounds of the callback loop: the tasks the ring takes (\<open>ts\<close>, in the order of the adds) are processed exactly once, in that
  order, and called back exactly once, in that order: after \<open>w\<close> worker rounds and \<open>c\<close> callback rounds the first \<open>w\<close> of them have
  been processed and the first \<open>c\<close> called back, the rest still waiting in the two stages of the ring. The
  tasks added while the ring is full (\<open>rs\<close>) are never processed and called back exactly once, in the order of their
  adds, at the add itself; their callbacks thus overtake those of tasks in the ring. Callbacks may
  add tasks the ring takes; the counters may wrap.
\<close>

theorem queue_order_exactly_once:
  assumes "callback_ok E" "keeps_thread E" and "ring_inv q" "use_thread q"
    and "called_back q = []" and "pending q = []" and "trace q = []"
    and "drive pending has_room (add_task E) thread_step (take_callback E) as q = Some (q', ts, rs)"
  shows "ring_inv q' \<and> use_thread q' \<and> calls as \<le> works as \<and> works as \<le> length ts \<and>
    pending q' = drop (works as) ts \<and> called_back q' = drop (calls as) (take (works as) ts) \<and>
    proc_trace q' = concat (map proc_events (take (works as) ts)) \<and>
    (\<exists>cs \<in> shuffles (take (calls as) ts) rs. callback_trace q' = concat (map callback_events cs)) \<and>
    (\<forall>t. if pdp_procqueue_full q' then trace (add_task E t q') = trace q' @ callback_events t
         else trace (add_task E t q') = trace q' \<and> pending (add_task E t q') = pending q' @ [t])"
proof -
  have "threaded q" using assms(3,4) by (simp add: threaded_def)
  note D = drive_procqueue [OF assms(1,2) this assms(8)]
  have th: "ring_inv q'" "use_thread q'" using D by (simp_all add: threaded_def)
  have t: "\<lparr>x_owner = x_owner t, x_process = x_process t, x_callback = x_callback t, x_queue_id = x_queue_id t\<rparr> = t" for t
    by (cases t) simp
  have "if pdp_procqueue_full q' then trace (add_task E t q') = trace q' @ callback_events t
         else trace (add_task E t q') = trace q' \<and> pending (add_task E t q') = pending q' @ [t]" for t
    using add_spec [OF th _ refl, of E "x_owner t" "x_process t" "x_callback t" "x_queue_id t"]
      add_full_spec(4) [OF assms(1) th _ refl, of "x_owner t" "x_process t" "x_callback t" "x_queue_id t"]
    by (simp add: add_task_def t callback_events_def)
  moreover have "calls as \<le> works as" using D assms(5) by simp
  ultimately show ?thesis using D th assms(5-7) by (simp add: min_absorb1)
qed

theorem queue_order_exactly_once_witness:
  "case drive pending has_room (add_task again) thread_step (take_callback again)
      [Put (demo_task 5), Put (demo_task 6), Put (demo_task 7), Put (demo_task 8), Work, Call, Put (demo_task 9), Work] new_queue of
     None \<Rightarrow> False
   | Some (q', ts, rs) \<Rightarrow> length ts = 4 \<and> rs = [demo_task 8] \<and> pending q' = drop 2 ts \<and> called_back q' = drop 1 (take 2 ts) \<and>
       proc_trace q' = concat (map proc_events (take 2 ts))"
proof -
  let ?as = "[Put (demo_task 5), Put (demo_task 6), Put (demo_task 7), Put (demo_task 8), Work, Call, Put (demo_task 9), Work]"
  let ?d = "drive pending has_room (add_task again) thread_step (take_callback again) ?as new_queue"
  have e: "called_back new_queue = []" "pending new_queue = []" "trace new_queue = []" "use_thread new_queue"
    using new_queue_inv by (simp_all add: called_back_def pending_def) (simp_all add: new_queue_def)
  have "case ?d of None \<Rightarrow> False | Some (q', ts, rs) \<Rightarrow> length ts = 4 \<and> rs = [demo_task 8]" by code_simp
  then obtain q' ts where d: "?d = Some (q', ts, [demo_task 8])" "length ts = 4" by (auto split: option.splits)
  have wc: "works ?as = 2" "calls ?as = 1" by simp_all
  from queue_order_exactly_once [OF again_ok again_thread new_queue_inv e(4,1,2,3) d(1)] show ?thesis
    unfolding wc unfolding d(1) using d(2) by (simp only: option.case prod.case)
qed


text \<open>
  C16: the ring never overwrites a task in use: \<open>pdp_procqueue_full\<close> holds exactly when all slots but
  one are in use, and an added task is stored in a slot that belongs to no waiting task, whatever
  the counters' wrap-around; the owner's \<open>queue_id\<close> gets that slot, and the other tasks stay as they were.
\<close>

theorem queue_add_no_overwrite:
  assumes "ring_inv q" and "use_thread q"
  shows "(pdp_procqueue_full q \<longleftrightarrow> length (called_back q @ pending q) = unat (qmask q)) \<and>
    (\<not> pdp_procqueue_full q \<longrightarrow> (let q' = pdp_procqueue_add E ow p c i q in
       ring_inv q' \<and> called_back q' = called_back q \<and>
       pending q' = pending q @ [\<lparr>x_owner = ow, x_process = p, x_callback = c, x_queue_id = i\<rparr>] \<and>
       (\<forall>n < length (called_back q @ pending q). slot (tail q + of_nat n) q \<noteq> slot (head q) q) \<and>
       (i \<noteq> NULL \<longrightarrow> ids q' i = int (slot (head q) q))))"
proof -
  have full: "pdp_procqueue_full q \<longleftrightarrow> length (called_back q @ pending q) = unat (qmask q)"
    using full_test [OF assms(1)] ring_inv_split [OF assms(1)] by (simp add: qsize_def)
  have fresh: "slot (tail q + of_nat n) q \<noteq> slot (head q) q" if "n < length (called_back q @ pending q)" for n
    using slot_inj [OF assms(1), of n "used q" "tail q"] ring_inv_used [OF assms(1)] ring_inv_split [OF assms(1)] that by simp
  have "ids (pdp_procqueue_add E ow p c i q) i = int (slot (head q) q)" if "\<not> pdp_procqueue_full q" "i \<noteq> NULL"
    using that assms(2) by (simp add: pdp_procqueue_add_def Let_def set_id_def)
  with full fresh add_spec [OF assms _ refl, of E ow p c i] show ?thesis by (simp only: Let_def) blast
qed

theorem queue_add_no_overwrite_witness:
  "pending (add_task idle (demo_task 1) new_queue) = [demo_task 1]"
  using queue_add_no_overwrite [OF new_queue_inv, of idle 1 "Some 1" "Some 2" NULL] full_test [OF new_queue_inv]
  by (simp add: add_task_def demo_task_def) (simp add: new_queue_def pending_def qsize_def Let_def)



lemma flush_loop_once:
  assumes "callback_ok E" and "ring_inv q" and "pending q = []"
  obtains q' r where "pdp_procqueue_callback E q = Some r" "flush_loop E q = Some q'" "ring_inv q'" "pending q' = []"
    "called_back q' = pending r"
    "trace q' = trace q @ concat (map callback_events (called_back q)) @ concat (map proc_events (called_back q'))"
proof -
  obtain r where r: "pdp_procqueue_callback E q = Some r" "ring_inv r" "called_back r = []"
    "trace r = trace q @ concat (map callback_events (called_back q))"
    using callback_spec [OF assms(1,2)] by metis
  obtain q' where q': "pdp_procqueue_wait r = Some q'" "ring_inv q'" "pending q' = []"
    "called_back q' = called_back r @ pending r" "trace q' = trace r @ concat (map proc_events (pending r))"
    using wait_spec [OF r(2)] by metis
  have "flush_loop E q = Some q'"
    using pending_test [OF q'(2)] q'(3) by (simp add: flush_loop.simps [of E q] r(1) q'(1))
  then show thesis using that r q' by simp
qed



text \<open>The remaining operations on the sequences of tasks.\<close>

lemma queue_setup_empty:
  "\<exists>q. pdp_queue_setup E q0 = Some q \<and> ring_inv q \<and> qsize q = 1024 \<and> called_back q = [] \<and> pending q = [] \<and> \<not> use_thread q"
proof -
  let ?q = "q0\<lparr>ticks := 0, qmask := 1023, head := 0, tail := 0, curr := 0, slots := (\<lambda>_. empty_item), use_thread := True, clock_set := True\<rparr>"
  let ?r = "?q\<lparr>use_thread := False, clock_set := False\<rparr>"
  have e: "called_back q = []" "pending q = []" if "head q = 0" "tail q = 0" "curr q = 0" for q
    using that by (simp_all add: called_back_def pending_def)
  have off: "pdp_procqueue_use_thread E False q = Some (q\<lparr>use_thread := False, clock_set := False\<rparr>)"
    if "head q = 0" "tail q = 0" "curr q = 0" for q
    using that by (simp add: pdp_procqueue_use_thread_def pdp_procqueue_wait.simps pdp_procqueue_callback.simps)
  have "pdp_queue_setup E q0 = Some ?r"
    by (simp add: pdp_queue_setup_def pdp_procqueue_init_def PDP_QUEUE_LOGSIZE_def off push_bit_eq_mult)
  moreover have "ring_inv ?r" unfolding ring_inv_def
    by (intro conjI exI [of _ "10 :: nat"]) (simp_all add: mask_numeral qsize_def)
  ultimately show ?thesis by (simp add: e qsize_def)
qed

lemma finish_disables_callback:
  assumes "ring_inv q" and "indx \<noteq> -1"
  obtains q' where "pdp_procqueue_finish indx q = Some q'" "pending q' = []" "ring_inv q'"
    "x_callback (slots q' (slot (word_of_int indx) q')) = None" "x_queue_id (slots q' (slot (word_of_int indx) q')) = NULL"
proof -
  obtain r where r: "pdp_procqueue_wait q = Some r" "ring_inv r" "pending r = []" using wait_spec [OF assms(1)] by metis
  let ?i = "slot (word_of_int indx) r"
  let ?q = "r\<lparr>slots := (slots r)(?i := (slots r ?i)\<lparr>x_callback := None, x_queue_id := NULL\<rparr>)\<rparr>"
  show thesis
  proof (rule that [of ?q])
    show "pdp_procqueue_finish indx q = Some ?q" using assms(2) r(1) by (simp add: pdp_procqueue_finish_def Let_def)
    have "npending r = 0" using r(3) by (metis length_pending length_0_conv)
    then show "pending ?q = []" by (simp add: pending_def)
    show "ring_inv ?q" using r(2) by (simp add: ring_inv_def qsize_def)
  qed (simp_all add: slot_def)
qed

end
