(* ===== verification/Pixels.thy ===== *)
theory Pixels
  imports Prelude
begin

text \<open>
  Pixel buffers and the loops over them. A plane of an image is a list of \<open>s16\<close>; \<open>rd\<close> and \<open>wr\<close> are a read
  and a write through a pointer into it, \<open>None\<close> outside the buffer, so that a routine returning
  \<open>Some\<close> stays inside its buffers. \<open>for_loop\<close> is a counting \<open>for\<close>, \<open>step_loop\<close> one over an unsigned
  counter that advances by a stride. \<open>line_upd\<close> relates a buffer before and after an update of the
  pixels on a line \<open>p, p + stride, \<dots>\<close>.
\<close>

type_synonym plane = "s16 list"

definition rd :: "'a list \<Rightarrow> int \<Rightarrow> 'a option" where
  "rd b i = (if 0 \<le> i \<and> nat i < length b then Some (b ! nat i) else None)"

definition wr :: "'a list \<Rightarrow> int \<Rightarrow> 'a \<Rightarrow> 'a list option" where
  "wr b i v = (if 0 \<le> i \<and> nat i < length b then Some (b[nat i := v]) else None)"

text \<open>The conversion \<open>(s16)x\<close> of a C integer.\<close>

abbreviation to_s16 :: "int \<Rightarrow> s16" where
  "to_s16 x \<equiv> word_of_int x"

primrec for_loop :: "nat \<Rightarrow> nat \<Rightarrow> (nat \<Rightarrow> 's \<Rightarrow> 's option) \<Rightarrow> 's \<Rightarrow> 's option" where
  "for_loop i 0 f s = Some s"
| "for_loop i (Suc n) f s = do { s \<leftarrow> f i s; for_loop (Suc i) n f s }"

partial_function (option) step_loop ::
  "u32 \<Rightarrow> u32 \<Rightarrow> u32 \<Rightarrow> (u32 \<Rightarrow> 's \<Rightarrow> 's option) \<Rightarrow> 's \<Rightarrow> 's option" where [code]:
  "step_loop i n w f s = (if i < n then do { s \<leftarrow> f i s; step_loop (i + w) n w f s } else Some s)"

section \<open>Reads and writes\<close>

lemma rd_nat [simp]: "i < length b \<Longrightarrow> rd b (int i) = Some (b ! i)"
  by (simp add: rd_def)

lemma wr_nat [simp]: "i < length b \<Longrightarrow> wr b (int i) v = Some (b[i := v])"
  by (simp add: wr_def)

lemma rd_in: "0 \<le> i \<Longrightarrow> i < int (length b) \<Longrightarrow> rd b i = Some (b ! nat i)"
  by (simp add: rd_def nat_less_iff)

lemma wr_in: "0 \<le> i \<Longrightarrow> i < int (length b) \<Longrightarrow> wr b i v = Some (b[nat i := v])"
  by (simp add: wr_def nat_less_iff)

section \<open>Counting loops\<close>

lemma for_loop_add: "for_loop i (m + n) f s = do { s \<leftarrow> for_loop i m f s; for_loop (i + m) n f s }"
  by (induction m arbitrary: i s) (auto split: Option.bind_splits)

lemma for_loop_inv:
  assumes "I i s" and "\<And>j s. i \<le> j \<Longrightarrow> j < i + n \<Longrightarrow> I j s \<Longrightarrow> \<exists>s'. f j s = Some s' \<and> I (Suc j) s'"
  shows "\<exists>s'. for_loop i n f s = Some s' \<and> I (i + n) s'"
  using assms
proof (induction n arbitrary: i s)
  case (Suc n)
  from Suc.prems(2) [of i s] Suc.prems(1) obtain s1 where s1: "f i s = Some s1" "I (Suc i) s1" by auto
  have "\<exists>s'. for_loop (Suc i) n f s1 = Some s' \<and> I (Suc i + n) s'"
    by (rule Suc.IH [OF s1(2)]) (rule Suc.prems(2); simp)
  with s1(1) show ?case by simp
qed simp

lemma for_loop_cong:
  "(\<And>j s. i \<le> j \<Longrightarrow> j < i + n \<Longrightarrow> f j s = g j s) \<Longrightarrow> for_loop i n f s = for_loop i n g s"
proof (induction n arbitrary: i s)
  case (Suc n)
  have "for_loop (Suc i) n f s' = for_loop (Suc i) n g s'" for s' by (rule Suc.IH) (rule Suc.prems; simp)
  then show ?case using Suc.prems [of i s] by simp
qed simp

text \<open>A loop that rewrites pixel \<open>i\<close> from its own value in round \<open>i\<close>.\<close>

lemma for_pixels:
  assumes "\<And>i b. i < n \<Longrightarrow> length b = length xs \<Longrightarrow> f i b = Some (b[i := g i (b ! i)])" and "n = length xs"
  shows "for_loop 0 n f xs = Some (map (\<lambda>i. g i (xs ! i)) [0..<length xs])"
proof -
  let ?I = "\<lambda>j b. length b = length xs \<and> (\<forall>i < length xs. b ! i = (if i < j then g i (xs ! i) else xs ! i))"
  have "\<exists>b. for_loop 0 n f xs = Some b \<and> ?I (0 + n) b"
  proof (rule for_loop_inv)
    fix j b
    assume "0 \<le> j" "j < 0 + n" and I: "?I j b"
    then have "f j b = Some (b[j := g j (xs ! j)])" "j < length xs" using assms by simp_all
    then show "\<exists>b'. f j b = Some b' \<and> ?I (Suc j) b'" using I by (auto simp: nth_list_update less_Suc_eq)
  qed simp
  then obtain b where b: "for_loop 0 n f xs = Some b" "?I n b" by auto
  have "b = map (\<lambda>i. g i (xs ! i)) [0..<length xs]" by (rule nth_equalityI) (use b(2) assms(2) in auto)
  with b(1) show ?thesis by simp
qed

lemma map_nth_upt: "n = length xs \<Longrightarrow> map (\<lambda>i. g (xs ! i)) [0..<n] = map g xs"
  by (rule nth_equalityI) simp_all

lemma map2_nth_upt: "n = length xs \<Longrightarrow> n = length ys \<Longrightarrow> map (\<lambda>i. g (xs ! i) (ys ! i)) [0..<n] = map2 g xs ys"
  by (rule nth_equalityI) simp_all

section \<open>Strided loops\<close>

lemma unat_of_nat_u32: "k < 2 ^ 32 \<Longrightarrow> unat (of_nat k :: u32) = k"
  by (simp add: unsigned_of_nat take_bit_nat_eq_self_iff)

lemma unat_lt_u32: "unat (x :: u32) < 2 ^ 32"
  using unsigned_less [of x] by simp

lemma step_loop_rows:
  assumes "unat n = unat w * h" and "0 < w" and "j \<le> h" and "i = of_nat (unat w * j)"
  shows "step_loop i n w f s = for_loop j (h - j) (\<lambda>j. f (of_nat (unat w * j))) s"
  using assms(3,4)
proof (induction "h - j" arbitrary: i j s)
  case 0
  have "i = of_nat (unat n)" unfolding assms(1) using 0 by simp
  then have "i = n" by simp
  with 0 show ?case by (simp add: step_loop.simps)
next
  case (Suc k)
  have lt: "unat w * Suc j \<le> unat n" using Suc by (simp only: assms(1)) (rule mult_le_mono2, simp)
  have ui: "unat i = unat w * j"
    unfolding Suc(4) using lt unat_lt_u32 [of n] by (intro unat_of_nat_u32) simp
  have "i < n" using ui lt assms(2) by (simp add: word_less_nat_alt)
  moreover have "step_loop (i + w) n w f = for_loop (Suc j) (h - Suc j) (\<lambda>j. f (of_nat (unat w * j)))"
    by (rule ext, rule Suc(1)) (use Suc in \<open>simp_all add: algebra_simps\<close>)
  moreover have "h - j = Suc (h - Suc j)" using Suc by simp
  ultimately show ?case unfolding step_loop.simps [of i] using Suc(4) by simp
qed

section \<open>Lines of a buffer\<close>

abbreviation pos :: "int \<Rightarrow> int \<Rightarrow> nat \<Rightarrow> int" where
  "pos p stride i \<equiv> p + int i * stride"

definition line_ok :: "'a list \<Rightarrow> int \<Rightarrow> int \<Rightarrow> nat \<Rightarrow> bool" where
  "line_ok b p stride n \<longleftrightarrow> stride \<noteq> 0 \<and> (\<forall>i < n. 0 \<le> pos p stride i \<and> pos p stride i < int (length b))"

definition getline :: "'a list \<Rightarrow> int \<Rightarrow> int \<Rightarrow> nat \<Rightarrow> 'a list" where
  "getline b p stride n = map (\<lambda>i. b ! nat (pos p stride i)) [0..<n]"

definition line_upd :: "'a list \<Rightarrow> int \<Rightarrow> int \<Rightarrow> 'a list \<Rightarrow> 'a list \<Rightarrow> bool" where
  "line_upd b p stride out b' \<longleftrightarrow> length b' = length b \<and> getline b' p stride (length out) = out \<and>
     (\<forall>k < length b. (\<forall>i < length out. int k \<noteq> pos p stride i) \<longrightarrow> b' ! k = b ! k)"

lemma getline_nth [simp]: "i < n \<Longrightarrow> getline b p stride n ! i = b ! nat (pos p stride i)"
  by (simp add: getline_def)

lemma length_getline [simp]: "length (getline b p stride n) = n"
  by (simp add: getline_def)

lemma line_ok_rd: "line_ok b p stride n \<Longrightarrow> i < n \<Longrightarrow> length b' = length b \<Longrightarrow> rd b' (pos p stride i) = Some (b' ! nat (pos p stride i))"
  by (simp add: line_ok_def rd_in)

lemma line_upd_refl [simp]: "line_upd b p stride [] b"
  by (simp add: line_upd_def getline_def)

lemma line_upd_length: "line_upd b p stride out b' \<Longrightarrow> length b' = length b"
  by (simp add: line_upd_def)

lemma pos_inj: "stride \<noteq> 0 \<Longrightarrow> pos p stride i = pos p stride j \<longleftrightarrow> i = j"
  by simp

lemma line_upd_rest:
  assumes "line_upd b p stride out b'" and "line_ok b p stride n" and "length out \<le> i" and "i < n"
  shows "b' ! nat (pos p stride i) = b ! nat (pos p stride i)"
proof -
  let ?k = "nat (pos p stride i)"
  have "stride \<noteq> 0" "0 \<le> pos p stride i" "pos p stride i < int (length b)" using assms(2,4) by (auto simp: line_ok_def)
  then have "?k < length b" "\<forall>j < length out. int ?k \<noteq> pos p stride j" using assms(3) by auto
  then show ?thesis using assms(1) unfolding line_upd_def by blast
qed

lemma line_upd_snoc:
  assumes upd: "line_upd b p stride out b'" and ok: "line_ok b p stride n" and lt: "length out < n"
  shows "\<exists>b''. wr b' (pos p stride (length out)) v = Some b'' \<and> line_upd b p stride (out @ [v]) b''"
proof (intro exI conjI)
  let ?m = "length out"
  let ?b = "b'[nat (pos p stride ?m) := v]"
  have in_b: "0 \<le> pos p stride i" "pos p stride i < int (length b)" if "i < n" for i
    using ok that by (simp_all add: line_ok_def)
  have s0: "stride \<noteq> 0" using ok by (simp add: line_ok_def)
  have len: "length b' = length b" using upd by (rule line_upd_length)
  show "wr b' (pos p stride ?m) v = Some ?b" using in_b [OF lt] len by (simp add: wr_in)
  show "line_upd b p stride (out @ [v]) ?b"
    unfolding line_upd_def
  proof (intro conjI allI impI)
    show "getline ?b p stride (length (out @ [v])) = out @ [v]"
    proof (rule nth_equalityI)
      fix i
      assume "i < length (getline ?b p stride (length (out @ [v])))"
      then have i: "i < Suc ?m" by simp
      show "getline ?b p stride (length (out @ [v])) ! i = (out @ [v]) ! i"
      proof (cases "i = ?m")
        case True
        then show ?thesis using in_b [OF lt] len by (simp add: nat_less_iff)
      next
        case False
        then have "i < ?m" using i by simp
        moreover have "nat (pos p stride i) \<noteq> nat (pos p stride ?m)"
          using in_b [of i] in_b [OF lt] lt \<open>i < ?m\<close> s0 by (simp add: eq_nat_nat_iff)
        moreover have "b' ! nat (pos p stride i) = out ! i"
          using upd \<open>i < ?m\<close> unfolding line_upd_def by (metis getline_nth)
        ultimately show ?thesis by (simp add: nth_append)
      qed
    qed simp
  next
    fix k
    assume k: "k < length b" "\<forall>i < length (out @ [v]). int k \<noteq> pos p stride i"
    then have "int k \<noteq> pos p stride ?m" by simp
    then have "k \<noteq> nat (pos p stride ?m)" using in_b [OF lt] by auto
    then show "?b ! k = b ! k" using upd k by (simp add: line_upd_def)
  qed (simp add: len)
qed

end
