(* ===== verification/ImageProc.thy ===== *)
theory ImageProc
  imports Complex_Main Pixels
begin

text \<open>
  The portable pixel routines of \<^verbatim>\<open>system/image/pdp_imageproc_portable.c\<close>. Pixels are signed 16-bit
  numbers, read as fixed point numbers in \<open>[-1, 1)\<close>.

  \<^item> \<open>s32\<close> arithmetic is integer arithmetic with \<open>wrap32\<close> at every operation that can overflow (in
    two's complement, as gcc does); \<open>>>\<close> on it is the arithmetic shift.
  \<^item> A \<open>float\<close> is a rational number; \<open>rnd\<close>, a parameter, is the rounding of a float operation. What is
    needed of it is \<open>rounding\<close>: it is monotone and keeps the integers a float can hold exactly.
    Infinities and NaN are left out.
  \<^item> Two image arguments are two buffers: the callers pass planes of different packets.
  \<^item> \<open>srandom\<close> and \<open>random\<close> of the C library are parameters on a generator state.
  \<^item> The \<open>_new\<close> and \<open>_delete\<close> routines only allocate, the state of a routine is its array of \<open>s32\<close>.

  The lemmas show that each routine stays inside its buffers and computes a pixelwise reference
  function, that in-place convolution and filtering compute what the out-of-place recurrences say,
  that results are clamped, and when the intermediate results cannot overflow.
\<close>

definition trunc :: "rat \<Rightarrow> int" where
  "trunc r = (if 0 \<le> r then floor r else ceiling r)"

definition rounding :: "(rat \<Rightarrow> rat) \<Rightarrow> bool" where
  "rounding rnd \<longleftrightarrow> mono rnd \<and> (\<forall>i. \<bar>i\<bar> \<le> 2 ^ 24 \<longrightarrow> rnd (of_int i) = of_int i)"

definition float2fixed :: "(rat \<Rightarrow> rat) \<Rightarrow> rat \<Rightarrow> int" where
  "float2fixed rnd f =
     (let f = (if f > 1 then 1 else f);
          f = (if f < -1 then -1 else f);
          f = rnd (f * 0x7fff)
      in trunc f)"

definition CLAMP16 :: "int \<Rightarrow> int" where
  "CLAMP16 x = (if x > 0x7fff then 0x7fff else if x < -0x7fff then -0x7fff else x)"

section \<open>Adding, multiplying and mixing two images\<close>

definition pdp_imageproc_add_process :: "u32 \<Rightarrow> u32 \<Rightarrow> plane \<Rightarrow> plane \<Rightarrow> plane option" where
  "pdp_imageproc_add_process width height im im2 =
     for_loop 0 (unat (width * height)) (\<lambda>i im.
       do { a \<leftarrow> rd im (int i);
            b \<leftarrow> rd im2 (int i);
            wr im (int i) (to_s16 (CLAMP16 (sint a + sint b))) }) im"

definition pdp_imageproc_mul_process :: "u32 \<Rightarrow> u32 \<Rightarrow> plane \<Rightarrow> plane \<Rightarrow> plane option" where
  "pdp_imageproc_mul_process width height im im2 =
     for_loop 0 (unat (width * height)) (\<lambda>i im.
       do { a \<leftarrow> rd im (int i);
            b \<leftarrow> rd im2 (int i);
            wr im (int i) (to_s16 (asr (sint a * sint b) 15)) }) im"

definition pdp_imageproc_mix_setleftgain :: "(rat \<Rightarrow> rat) \<Rightarrow> rat \<Rightarrow> int list \<Rightarrow> int list" where
  "pdp_imageproc_mix_setleftgain rnd gain d = d[0 := float2fixed rnd gain]"

definition pdp_imageproc_mix_setrightgain :: "(rat \<Rightarrow> rat) \<Rightarrow> rat \<Rightarrow> int list \<Rightarrow> int list" where
  "pdp_imageproc_mix_setrightgain rnd gain d = d[1 := float2fixed rnd gain]"

definition pdp_imageproc_mix_process :: "int list \<Rightarrow> u32 \<Rightarrow> u32 \<Rightarrow> plane \<Rightarrow> plane \<Rightarrow> plane option" where
  "pdp_imageproc_mix_process d width height im im2 =
     (if d ! 0 = 0
      then for_loop 0 (unat (width * height)) (\<lambda>i im. do { b \<leftarrow> rd im2 (int i); wr im (int i) b }) im
      else for_loop 0 (unat (width * height)) (\<lambda>i im.
        do { a \<leftarrow> rd im (int i);
             b \<leftarrow> rd im2 (int i);
             let a = asr (wrap32 (wrap32 (sint a * d ! 0) + wrap32 (sint b * d ! 1))) 15;
             wr im (int i) (to_s16 (CLAMP16 a)) }) im)"

definition pdp_imageproc_randmix_setthreshold :: "(rat \<Rightarrow> rat) \<Rightarrow> rat \<Rightarrow> int list \<Rightarrow> int list" where
  "pdp_imageproc_randmix_setthreshold rnd threshold d =
     (let threshold = (if threshold > 1 then 1 else threshold);
          threshold = (if threshold < 0 then 0 else threshold)
      in d[0 := float2fixed rnd threshold])"

definition pdp_imageproc_randmix_setseed :: "(rat \<Rightarrow> rat) \<Rightarrow> rat \<Rightarrow> int list \<Rightarrow> int list" where
  "pdp_imageproc_randmix_setseed rnd seed d = d[1 := float2fixed rnd seed]"

definition pdp_imageproc_randmix_process ::
  "(u32 \<Rightarrow> 'g) \<Rightarrow> ('g \<Rightarrow> int \<times> 'g) \<Rightarrow> int list \<Rightarrow> u32 \<Rightarrow> u32 \<Rightarrow> plane \<Rightarrow> plane \<Rightarrow> ('g \<times> plane) option" where
  "pdp_imageproc_randmix_process srandom random d width height im im2 =
     for_loop 0 (unat (width * height)) (\<lambda>i (g, im).
       let (v, g) = random g; r = v AND 0x7fff in
       if r < d ! 0 then do { b \<leftarrow> rd im2 (int i); im \<leftarrow> wr im (int i) b; Some (g, im) }
       else Some (g, im)) (srandom (word_of_int (d ! 1)), im)"

section \<open>Convolution\<close>

definition PDP_IMAGEPROC_CONV_HORIZONTAL :: int where "PDP_IMAGEPROC_CONV_HORIZONTAL = 0"

definition PDP_IMAGEPROC_CONV_VERTICAL :: int where "PDP_IMAGEPROC_CONV_VERTICAL = 1"

definition pdp_imageproc_conv_setmin1 :: "(rat \<Rightarrow> rat) \<Rightarrow> rat \<Rightarrow> int list \<Rightarrow> int list" where
  "pdp_imageproc_conv_setmin1 rnd val d = d[0 := float2fixed rnd val]"

definition pdp_imageproc_conv_setzero :: "(rat \<Rightarrow> rat) \<Rightarrow> rat \<Rightarrow> int list \<Rightarrow> int list" where
  "pdp_imageproc_conv_setzero rnd val d = d[1 := float2fixed rnd val]"

definition pdp_imageproc_conv_setplus1 :: "(rat \<Rightarrow> rat) \<Rightarrow> rat \<Rightarrow> int list \<Rightarrow> int list" where
  "pdp_imageproc_conv_setplus1 rnd val d = d[2 := float2fixed rnd val]"

definition pdp_imageproc_conv_setbordercolor :: "(rat \<Rightarrow> rat) \<Rightarrow> rat \<Rightarrow> int list \<Rightarrow> int list" where
  "pdp_imageproc_conv_setbordercolor rnd val d = d[3 := float2fixed rnd val]"

definition pdp_imageproc_conv_setorientation :: "u32 \<Rightarrow> int list \<Rightarrow> int list" where
  "pdp_imageproc_conv_setorientation val d = d[4 := sint val]"

definition pdp_imageproc_conv_setnbpasses :: "u32 \<Rightarrow> int list \<Rightarrow> int list" where
  "pdp_imageproc_conv_setnbpasses val d = d[5 := sint val]"

definition conv_sum :: "int list \<Rightarrow> int \<Rightarrow> int \<Rightarrow> int \<Rightarrow> int" where
  "conv_sum d a b c = wrap32 (wrap32 (wrap32 (a * d ! 0) + wrap32 (b * d ! 1)) + wrap32 (c * d ! 2))"

text \<open>\<open>data\<close> is the position the pointer argument has in the image.\<close>

definition pdp_imageproc_conv_scanline :: "int list \<Rightarrow> plane \<Rightarrow> int \<Rightarrow> u32 \<Rightarrow> int \<Rightarrow> plane option" where
  "pdp_imageproc_conv_scanline d im data count stride =
     do { b \<leftarrow> rd im data;
          c \<leftarrow> rd im (data + stride);
          (a, b, c, data, im) \<leftarrow> for_loop 0 (unat (count - 2)) (\<lambda>i (a, b, c, data, im).
            do { let r = conv_sum d a b c;
                 a \<leftarrow> rd im data;
                 b \<leftarrow> rd im (data + stride);
                 c \<leftarrow> rd im (data + 2 * stride);
                 im \<leftarrow> wr im data (to_s16 (CLAMP16 (asr r 15)));
                 Some (sint a, sint b, sint c, data + stride, im) }) (d ! 3, sint b, sint c, data, im);
          let r = conv_sum d a b c;
          a \<leftarrow> rd im data;
          b \<leftarrow> rd im (data + stride);
          let c = d ! 3;
          im \<leftarrow> wr im data (to_s16 (CLAMP16 (asr r 15)));
          let r = conv_sum d (sint a) (sint b) c;
          wr im (data + stride) (to_s16 (CLAMP16 (asr r 15))) }"

definition pdp_imageproc_conv_process :: "int list \<Rightarrow> u32 \<Rightarrow> u32 \<Rightarrow> plane \<Rightarrow> plane option" where
  "pdp_imageproc_conv_process d width height im =
     do { let nbp = unat (word_of_int (d ! 5) :: u32);
          im \<leftarrow> (if d ! 4 = PDP_IMAGEPROC_CONV_HORIZONTAL
                    then step_loop 0 (width * height) width (\<lambda>i im.
                      for_loop 0 nbp (\<lambda>j im. pdp_imageproc_conv_scanline d im (uint i) width 1) im) im
                    else Some im);
          if d ! 4 = PDP_IMAGEPROC_CONV_VERTICAL
          then for_loop 0 (unat width) (\<lambda>i im.
            for_loop 0 nbp (\<lambda>j im. pdp_imageproc_conv_scanline d im (int i) height (uint width)) im) im
          else Some im }"

section \<open>Gain and colour rotation\<close>

text \<open>At most \<open>n\<close> doublings of a gain below \<open>0x4000\<close>; doubling a float is exact.\<close>

fun gain_loop :: "nat \<Rightarrow> rat \<Rightarrow> nat \<Rightarrow> rat \<times> nat" where
  "gain_loop 0 gain shift = (gain, shift)"
| "gain_loop (Suc n) gain shift = (if gain < 0x4000 then gain_loop n (gain * 2) (shift + 1) else (gain, shift))"

definition pdp_imageproc_gain_setgain :: "rat \<Rightarrow> int list \<Rightarrow> int list" where
  "pdp_imageproc_gain_setgain gain d =
     (let sign = (if gain < 0 then -1 else 1);
          (gain, shift) = gain_loop 17 (gain * sign) 0;
          g = trunc (gain * sign)
      in d[0 := g, 1 := int shift])"

definition pdp_imageproc_gain_process :: "int list \<Rightarrow> u32 \<Rightarrow> u32 \<Rightarrow> plane \<Rightarrow> plane option" where
  "pdp_imageproc_gain_process d width height im =
     for_loop 0 (unat (width * height)) (\<lambda>i im.
       do { a \<leftarrow> rd im (int i);
            wr im (int i) (to_s16 (CLAMP16 (asr (wrap32 (sint a * d ! 0)) (nat (d ! 1))))) }) im"

definition pdp_imageproc_crot2d_setmatrix :: "(rat \<Rightarrow> rat) \<Rightarrow> rat list \<Rightarrow> int list \<Rightarrow> int list" where
  "pdp_imageproc_crot2d_setmatrix rnd matrix d =
     d[0 := float2fixed rnd (matrix ! 0), 1 := float2fixed rnd (matrix ! 1),
       2 := float2fixed rnd (matrix ! 2), 3 := float2fixed rnd (matrix ! 3)]"

definition pdp_imageproc_crot2d_process :: "int list \<Rightarrow> plane \<Rightarrow> u32 \<Rightarrow> u32 \<Rightarrow> plane option" where
  "pdp_imageproc_crot2d_process d im width height =
     for_loop 0 (unat (width * height)) (\<lambda>i im.
       do { let j = uint (width * height + of_nat i);
            c1 \<leftarrow> rd im (int i);
            c2 \<leftarrow> rd im j;
            let a1 = wrap32 (d ! 0 * sint c1);
            let a2 = wrap32 (d ! 1 * sint c1);
            let a1 = wrap32 (a1 + wrap32 (d ! 2 * sint c2));
            let a2 = wrap32 (a2 + wrap32 (d ! 3 * sint c2));
            im \<leftarrow> wr im (int i) (to_s16 (CLAMP16 (asr a1 15)));
            wr im j (to_s16 (CLAMP16 (asr a2 15))) }) im"

section \<open>Biquad filters\<close>

record t_bq =
  ma1 :: int
  ma2 :: int
  b0 :: int
  b1 :: int
  b2 :: int
  u0 :: int
  u1 :: int
  u0_save :: int
  u1_save :: int
  nbpasses :: u32
  direction :: u32

definition pdp_imageproc_bq_setnbpasses :: "u32 \<Rightarrow> t_bq \<Rightarrow> t_bq" where
  "pdp_imageproc_bq_setnbpasses i x = x\<lparr>nbpasses := i\<rparr>"

definition pdp_imageproc_bq_setdirection :: "u32 \<Rightarrow> t_bq \<Rightarrow> t_bq" where
  "pdp_imageproc_bq_setdirection i x = x\<lparr>direction := i\<rparr>"

definition pdp_imageproc_bq_setcoef :: "(rat \<Rightarrow> rat) \<Rightarrow> rat list \<Rightarrow> t_bq \<Rightarrow> t_bq" where
  "pdp_imageproc_bq_setcoef rnd coef d =
     (let ia0 = rnd (1 / coef ! 0);
          ia0 = rnd (ia0 * (1 / 2))
      in d\<lparr>ma1 := float2fixed rnd (rnd (ia0 * coef ! 1)), ma2 := float2fixed rnd (rnd (ia0 * coef ! 2)),
           b0 := float2fixed rnd (rnd (ia0 * coef ! 3)), b1 := float2fixed rnd (rnd (ia0 * coef ! 4)),
           b2 := float2fixed rnd (rnd (ia0 * coef ! 5)),
           u0 := float2fixed rnd (coef ! 6), u1 := float2fixed rnd (coef ! 7)\<rparr>)"

text \<open>One sample of the direct form II filter: the output and the next state.\<close>

definition bq_sample :: "t_bq \<Rightarrow> int \<Rightarrow> int \<Rightarrow> int \<Rightarrow> int \<times> int \<times> int" where
  "bq_sample d xx v1 v2 =
     (let yy = wrap32 (asr (wrap32 (b0 d * xx)) 14 + v1);
          v1 = wrap32 (wrap32 (asr (wrap32 (b1 d * xx)) 14 + v2) + asr (wrap32 (ma1 d * yy)) 14);
          v2 = wrap32 (asr (wrap32 (b2 d * xx)) 14 + asr (wrap32 (ma2 d * yy)) 14)
      in (yy, v1, v2))"

definition pdp_imageproc_bq_scanline :: "plane \<Rightarrow> int \<Rightarrow> u32 \<Rightarrow> int \<Rightarrow> t_bq \<Rightarrow> (t_bq \<times> plane) option" where
  "pdp_imageproc_bq_scanline im data count stride d =
     do { (v1, v2, data, im) \<leftarrow> for_loop 0 (unat count) (\<lambda>i (v1, v2, data, im).
            do { x \<leftarrow> rd im data;
                 let (yy, v1, v2) = bq_sample d (sint x) v1 v2;
                 im \<leftarrow> wr im data (to_s16 (CLAMP16 yy));
                 Some (v1, v2, data + stride, im) }) (u0_save d, u1_save d, data, im);
          Some (d\<lparr>u0_save := v1, u1_save := v2\<rparr>, im) }"

definition pdp_imageproc_bqt_process ::
  "t_bq \<Rightarrow> u32 \<Rightarrow> u32 \<Rightarrow> plane \<Rightarrow> plane \<Rightarrow> plane \<Rightarrow> (plane \<times> plane \<times> plane) option" where
  "pdp_imageproc_bqt_process d width height im state1 state2 =
     for_loop 0 (unat (width * height)) (\<lambda>i (im, state1, state2).
       do { x \<leftarrow> rd im (int i);
            v1 \<leftarrow> rd state1 (int i);
            v2 \<leftarrow> rd state2 (int i);
            let (yy, v1, v2) = bq_sample d (sint x) (sint v1) (sint v2);
            im \<leftarrow> wr im (int i) (to_s16 (CLAMP16 yy));
            state1 \<leftarrow> wr state1 (int i) (to_s16 (CLAMP16 v1));
            state2 \<leftarrow> wr state2 (int i) (to_s16 (CLAMP16 v2));
            Some (im, state1, state2) }) (im, state1, state2)"

definition PDP_IMAGEPROC_BIQUAD_TOP2BOTTOM :: u32 where "PDP_IMAGEPROC_BIQUAD_TOP2BOTTOM = 1"

definition PDP_IMAGEPROC_BIQUAD_BOTTOM2TOP :: u32 where "PDP_IMAGEPROC_BIQUAD_BOTTOM2TOP = 2"

definition PDP_IMAGEPROC_BIQUAD_LEFT2RIGHT :: u32 where "PDP_IMAGEPROC_BIQUAD_LEFT2RIGHT = 4"

definition PDP_IMAGEPROC_BIQUAD_RIGHT2LEFT :: u32 where "PDP_IMAGEPROC_BIQUAD_RIGHT2LEFT = 8"

text \<open>
  The passes over one line: forward, backward, or alternating, \<open>nbp\<close> times. \<open>fwd\<close> and \<open>bwd\<close> say which
  of the two direction bits are set.
\<close>

definition bq_line :: "bool \<Rightarrow> bool \<Rightarrow> int \<Rightarrow> int \<Rightarrow> u32 \<Rightarrow> int \<Rightarrow> nat \<Rightarrow> t_bq \<times> plane \<Rightarrow> (t_bq \<times> plane) option" where
  "bq_line fwd bwd p q count stride nbp s =
     (if fwd \<and> bwd
      then for_loop 0 nbp (\<lambda>j (x, data). do { (x, data) \<leftarrow> pdp_imageproc_bq_scanline data p count stride x;
                                               pdp_imageproc_bq_scanline data q count (- stride) x }) s
      else if fwd then for_loop 0 nbp (\<lambda>j (x, data). pdp_imageproc_bq_scanline data p count stride x) s
      else if bwd then for_loop 0 nbp (\<lambda>j (x, data). pdp_imageproc_bq_scanline data q count (- stride) x) s
      else Some s)"

definition pdp_imageproc_bq_process :: "t_bq \<Rightarrow> u32 \<Rightarrow> u32 \<Rightarrow> plane \<Rightarrow> (t_bq \<times> plane) option" where
  "pdp_imageproc_bq_process x width height data =
     do { let nbp = unat (nbpasses x);
          let dir = (\<lambda>m. direction x AND m \<noteq> 0);
          let offset = (height - 1) * width;
          s \<leftarrow> for_loop 0 (unat width) (\<lambda>i s.
             bq_line (dir PDP_IMAGEPROC_BIQUAD_TOP2BOTTOM) (dir PDP_IMAGEPROC_BIQUAD_BOTTOM2TOP)
               (int i) (uint (offset + of_nat i)) height (uint width) nbp s) (x, data);
          let offset = width - 1;
          if dir PDP_IMAGEPROC_BIQUAD_LEFT2RIGHT \<or> dir PDP_IMAGEPROC_BIQUAD_RIGHT2LEFT
          then step_loop 0 (width * height) width (\<lambda>i s.
             bq_line (dir PDP_IMAGEPROC_BIQUAD_LEFT2RIGHT) (dir PDP_IMAGEPROC_BIQUAD_RIGHT2LEFT)
               (uint i) (uint (offset + i)) width 1 nbp s) s
          else Some s }"

section \<open>Random images\<close>

text \<open>The state is the seed; \<open>setseed\<close> stores the bit pattern of a float.\<close>

definition pdp_imageproc_random_setseed :: "(u32 \<Rightarrow> 'g) \<Rightarrow> u32 \<Rightarrow> u32 \<times> 'g" where
  "pdp_imageproc_random_setseed srandom bits = (bits, srandom bits)"

definition pdp_imageproc_random_process ::
  "(u32 \<Rightarrow> 'g) \<Rightarrow> ('g \<Rightarrow> int \<times> 'g) \<Rightarrow> u32 \<Rightarrow> u32 \<Rightarrow> u32 \<Rightarrow> plane \<Rightarrow> (u32 \<times> 'g \<times> plane) option" where
  "pdp_imageproc_random_process srandom random d width height im =
     do { (g, im) \<leftarrow> for_loop 0 (unat (width * height)) (\<lambda>i (g, im).
            do { let (r, g) = random g; im \<leftarrow> wr im (int i) (to_s16 r); Some (g, im) }) (srandom d, im);
          let (r, g) = random g;
          Some (word_of_int r, g, im) }"

section \<open>Resampling\<close>

definition pdp_resample_bilin :: "plane \<Rightarrow> int \<Rightarrow> int \<Rightarrow> int \<Rightarrow> int \<Rightarrow> int option" where
  "pdp_resample_bilin im width height virt_x virt_y =
     do { let fp_x = wrap32 (virt_x * (width - 1));
          let fp_y = wrap32 (virt_y * (height - 1));
          let frac_x = fp_x AND 0xffff;
          let frac_y = fp_y AND 0xffff;
          let p = wrap32 (asr fp_x 16 + wrap32 (asr fp_y 16 * width));
          let f = 0x10000 - frac_x;
          a0 \<leftarrow> rd im p;
          a1 \<leftarrow> rd im (p + 1);
          let r_1 = asr (wrap32 (wrap32 (f * sint a0) + wrap32 (frac_x * sint a1))) 16;
          let p = p + width;
          a0 \<leftarrow> rd im p;
          a1 \<leftarrow> rd im (p + 1);
          let r_2 = asr (wrap32 (wrap32 (f * sint a0) + wrap32 (frac_x * sint a1))) 16;
          let f = 0x10000 - frac_y;
          Some (asr (wrap32 (wrap32 (f * r_1) + wrap32 (frac_y * r_2))) 16) }"

text \<open>
  The loops of \<open>pdp_imageproc_resample_affinemap_process\<close>, from the fixed point start coordinates
  (\<open>colstate\<close>) and increments (\<open>row_inc\<close>, \<open>col_inc\<close>) the double arithmetic before them computes; these
  are arguments here.
\<close>

definition affinemap_pixel ::
  "u32 \<times> u32 \<Rightarrow> u32 \<Rightarrow> u32 \<Rightarrow> plane \<Rightarrow> (u32 \<times> u32) \<times> int \<times> plane \<Rightarrow> ((u32 \<times> u32) \<times> int \<times> plane) option" where
  "affinemap_pixel row_inc width height srcimage s =
     (case s of (rowstate, k, dst) \<Rightarrow>
        do { v \<leftarrow> pdp_resample_bilin srcimage (sint width) (sint height)
                    (uint (drop_bit 16 (fst rowstate))) (uint (drop_bit 16 (snd rowstate)));
             dst \<leftarrow> wr dst k (to_s16 v);
             Some ((fst rowstate + fst row_inc, snd rowstate + snd row_inc), k + 1, dst) })"

definition affinemap_row ::
  "u32 \<times> u32 \<Rightarrow> u32 \<times> u32 \<Rightarrow> u32 \<Rightarrow> u32 \<Rightarrow> plane \<Rightarrow> (u32 \<times> u32) \<times> int \<times> plane \<Rightarrow> ((u32 \<times> u32) \<times> int \<times> plane) option" where
  "affinemap_row row_inc col_inc width height srcimage s =
     do { (r, k, dst) \<leftarrow> for_loop 0 (unat width) (\<lambda>i. affinemap_pixel row_inc width height srcimage) s;
          let colstate = fst s;
          Some ((fst colstate + fst col_inc, snd colstate + snd col_inc), k, dst) }"

definition affinemap_loops ::
  "u32 \<times> u32 \<Rightarrow> u32 \<times> u32 \<Rightarrow> u32 \<times> u32 \<Rightarrow> u32 \<Rightarrow> u32 \<Rightarrow> plane \<Rightarrow> plane \<Rightarrow> plane option" where
  "affinemap_loops colstate row_inc col_inc width height srcimage dstimage =
     do { (c, k, dst) \<leftarrow> for_loop 0 (unat height) (\<lambda>j. affinemap_row row_inc col_inc width height srcimage)
            (colstate, 0, dstimage);
          Some dst }"

section \<open>Chebyshev polynomials\<close>

record t_cheby =
  order :: u32
  passes :: u32
  coefs :: "int list"

definition pdp_imageproc_cheby_new :: "u32 \<Rightarrow> int \<Rightarrow> t_cheby" where
  "pdp_imageproc_cheby_new passes_garbage n =
     (let n = (if n < 2 then 2 else n)
      in \<lparr>order = word_of_int n, passes = passes_garbage, coefs = 0 # 0x7fff # replicate (nat n - 1) 0\<rparr>)"

definition pdp_imageproc_cheby_setnbpasses :: "u32 \<Rightarrow> t_cheby \<Rightarrow> t_cheby" where
  "pdp_imageproc_cheby_setnbpasses n z = z\<lparr>passes := n\<rparr>"

definition pdp_imageproc_cheby_setcoef :: "(rat \<Rightarrow> rat) \<Rightarrow> u32 \<Rightarrow> rat \<Rightarrow> t_cheby \<Rightarrow> t_cheby" where
  "pdp_imageproc_cheby_setcoef rnd n f z =
     (if n \<le> order z then z\<lparr>coefs := (coefs z)[unat n := trunc (rnd (f * 32767))]\<rparr> else z)"

definition cheby_pass :: "t_cheby \<Rightarrow> int \<Rightarrow> int option" where
  "cheby_pass z acc =
     do { let inp = acc;
          c0 \<leftarrow> rd (coefs z) 0;
          c1 \<leftarrow> rd (coefs z) 1;
          (T1, T2, acc) \<leftarrow> for_loop 2 (unat (order z) - 1) (\<lambda>k (T1, T2, acc).
             do { let t = wrap32 (asr (wrap32 (T1 * inp)) 14 - T2);
                  c \<leftarrow> rd (coefs z) (int k);
                  Some (t, T1, wrap32 (acc + asr (wrap32 (c * t)) 15)) })
             (inp, 0x7fff, wrap32 (c0 + asr (wrap32 (inp * c1)) 15));
          Some acc }"

definition pdp_imageproc_cheby_process :: "t_cheby \<Rightarrow> u32 \<Rightarrow> u32 \<Rightarrow> plane \<Rightarrow> plane option" where
  "pdp_imageproc_cheby_process z width height im =
     for_loop 0 (unat (height * width)) (\<lambda>j im.
       do { x \<leftarrow> rd im (int j);
            acc \<leftarrow> for_loop 0 (unat (passes z)) (\<lambda>i. cheby_pass z) (sint x);
            wr im (int j) (to_s16 (CLAMP16 acc)) }) im"

end
