(* ===== verification/ImageProcOk.thy ===== *)
theory ImageProcOk
  imports ImageProc
begin

text \<open>
  Correctness of the portable pixel routines: fixed point conversion, pixelwise routines against
  reference functions, in-place convolution and filters, resampling.
\<close>

section \<open>Fixed point numbers\<close>

lemma CLAMP16_bounds: "- 0x7fff \<le> CLAMP16 x \<and> CLAMP16 x \<le> 0x7fff"
  by (simp add: CLAMP16_def)

lemma CLAMP16_id: "- 0x7fff \<le> x \<Longrightarrow> x \<le> 0x7fff \<Longrightarrow> CLAMP16 x = x"
  by (simp add: CLAMP16_def)

lemma sint_clamped [simp]: "sint (to_s16 (CLAMP16 x)) = CLAMP16 x"
  using CLAMP16_bounds [of x] by (intro sint_word_of_int_s16) (simp add: in_s16_def)

lemma sint_s16_bounds: "- (2 ^ 15) \<le> sint (x :: s16)" "sint x < 2 ^ 15"
  using sint_s16_range [of x] by (simp_all add: in_s16_def)

lemma trunc_bounds: "of_int a \<le> r \<Longrightarrow> r \<le> of_int b \<Longrightarrow> a \<le> trunc r \<and> trunc r \<le> b"
  by (simp add: trunc_def) linarith

lemma rounding_exact: "rounding rnd \<Longrightarrow> \<bar>i\<bar> \<le> 2 ^ 24 \<Longrightarrow> rnd (of_int i) = of_int i"
  by (simp add: rounding_def)

lemma float2fixed_bounds:
  assumes "rounding rnd"
  shows "\<bar>float2fixed rnd f\<bar> \<le> 0x7fff"
proof -
  define g where "g = (if (if f > 1 then 1 else f) < -1 then -1 else if f > 1 then 1 else f)"
  have g: "-1 \<le> g" "g \<le> 1" by (simp_all add: g_def)
  have m: "mono rnd" using assms by (simp add: rounding_def)
  have "rnd (of_int (- 0x7fff)) \<le> rnd (g * 0x7fff)" "rnd (g * 0x7fff) \<le> rnd (of_int 0x7fff)"
    using g by (auto intro!: monoD [OF m])
  moreover have "rnd (- 0x7fff) = - 0x7fff" "rnd 0x7fff = 0x7fff" 
    using rounding_exact [OF assms, of "- 0x7fff"] rounding_exact [OF assms, of "0x7fff"] by simp_all
  ultimately have "- 0x7fff \<le> trunc (rnd (g * 0x7fff)) \<and> trunc (rnd (g * 0x7fff)) \<le> 0x7fff"
    by (intro trunc_bounds) simp_all
  moreover have "float2fixed rnd f = trunc (rnd (g * 0x7fff))" by (simp add: float2fixed_def g_def Let_def)
  ultimately show ?thesis by linarith
qed

lemma prod_bound: "\<bar>a\<bar> \<le> A \<Longrightarrow> \<bar>b\<bar> \<le> B \<Longrightarrow> \<bar>a * b\<bar> \<le> A * (B :: int)"
  unfolding abs_mult by (rule mult_mono) auto

lemma pixel_gain_bound:
  "\<bar>g\<bar> \<le> 0x7fff \<Longrightarrow> \<bar>sint (x :: s16) * g\<bar> \<le> 0x8000 * 0x7fff"
  using sint_s16_bounds [of x] by (intro prod_bound) auto

section \<open>Pixelwise routines\<close>

lemma add_pixelwise:
  assumes "length im = unat (w * h)" "length im2 = unat (w * h)"
  shows "pdp_imageproc_add_process w h im im2 = Some (map2 (\<lambda>a b. to_s16 (CLAMP16 (sint a + sint b))) im im2)"
  unfolding pdp_imageproc_add_process_def using assms
  by (subst for_pixels [where g = "\<lambda>i a. to_s16 (CLAMP16 (sint a + sint (im2 ! i)))"]) (simp_all add: map2_nth_upt [where g = "\<lambda>a b. to_s16 (CLAMP16 (sint a + sint b))"])

lemma mul_pixelwise:
  assumes "length im = unat (w * h)" "length im2 = unat (w * h)"
  shows "pdp_imageproc_mul_process w h im im2 = Some (map2 (\<lambda>a b. to_s16 (asr (sint a * sint b) 15)) im im2)"
  unfolding pdp_imageproc_mul_process_def using assms
  by (subst for_pixels [where g = "\<lambda>i a. to_s16 (asr (sint a * sint (im2 ! i)) 15)"]) (simp_all add: map2_nth_upt [where g = "\<lambda>a b. to_s16 (asr (sint a * sint b) 15)"])

lemma mix_pixelwise:
  assumes "length im = unat (w * h)" "length im2 = unat (w * h)"
  shows "pdp_imageproc_mix_process d w h im im2 =
    Some (if d ! 0 = 0 then im2
          else map2 (\<lambda>a b. to_s16 (CLAMP16 (asr (wrap32 (wrap32 (sint a * d ! 0) + wrap32 (sint b * d ! 1))) 15))) im im2)"
proof (cases "d ! 0 = 0")
  case True
  then show ?thesis unfolding pdp_imageproc_mix_process_def using assms
    by (simp, subst for_pixels [where g = "\<lambda>i a. im2 ! i"]) (simp_all add: map_nth_upt [where g = "\<lambda>a. a"])
next
  case False
  then show ?thesis unfolding pdp_imageproc_mix_process_def using assms
    by (simp, subst for_pixels
        [where g = "\<lambda>i a. to_s16 (CLAMP16 (asr (wrap32 (wrap32 (sint a * d ! 0) + wrap32 (sint (im2 ! i) * d ! 1))) 15))"])
      (simp_all add: map2_nth_upt
         [where g = "\<lambda>a b. to_s16 (CLAMP16 (asr (wrap32 (wrap32 (sint a * d ! 0) + wrap32 (sint b * d ! Suc 0))) 15))"])
qed

lemma gain_pixelwise:
  assumes "length im = unat (w * h)"
  shows "pdp_imageproc_gain_process d w h im =
    Some (map (\<lambda>a. to_s16 (CLAMP16 (asr (wrap32 (sint a * d ! 0)) (nat (d ! 1))))) im)"
  unfolding pdp_imageproc_gain_process_def using assms
  by (subst for_pixels [where g = "\<lambda>i a. to_s16 (CLAMP16 (asr (wrap32 (sint a * d ! 0)) (nat (d ! 1))))"])
    (simp_all add: map_nth_upt [where g = "\<lambda>a. to_s16 (CLAMP16 (asr (wrap32 (sint a * d ! 0)) (nat (d ! Suc 0))))"])

lemma wrap32_small: "\<bar>x\<bar> < 2 ^ 31 \<Longrightarrow> wrap32 x = x"
  by (rule wrap32_id) (auto simp: in_s32_def)

lemma mix_no_overflow:
  assumes "\<bar>g1\<bar> \<le> 0x7fff" "\<bar>g2\<bar> \<le> 0x7fff"
  shows "wrap32 (wrap32 (sint (a :: s16) * g1) + wrap32 (sint (b :: s16) * g2)) = sint a * g1 + sint b * g2"
  using pixel_gain_bound [OF assms(1), of a] pixel_gain_bound [OF assms(2), of b] by (simp add: wrap32_small)

section \<open>Convolution\<close>

text \<open>The reference: every pixel from its two neighbours in the old line, with a border colour.\<close>

definition conv_ext :: "int list \<Rightarrow> s16 list \<Rightarrow> int list" where
  "conv_ext d ys = d ! 3 # map sint ys @ [d ! 3]"

definition conv_line :: "int list \<Rightarrow> s16 list \<Rightarrow> s16 list" where
  "conv_line d ys = map (\<lambda>i. to_s16 (CLAMP16 (asr (conv_sum d (conv_ext d ys ! i) (conv_ext d ys ! (i + 1)) (conv_ext d ys ! (i + 2))) 15)))
     [0..<length ys]"

lemma length_conv_line [simp]: "length (conv_line d ys) = length ys"
  by (simp add: conv_line_def)

lemma conv_ext_nth: "i < length ys \<Longrightarrow> conv_ext d ys ! Suc i = sint (ys ! i)"
  by (simp add: conv_ext_def nth_append)

lemma conv_ext_ends [simp]: "conv_ext d ys ! 0 = d ! 3" "conv_ext d ys ! Suc (length ys) = d ! 3"
  by (simp_all add: conv_ext_def nth_append)

lemma line_read:
  assumes "line_upd im p stride (take j out) b" "line_ok im p stride n" "j \<le> i" "i < n" "length out = n"
  shows "rd b (pos p stride i) = Some (getline im p stride n ! i)"
  using line_ok_rd [OF assms(2,4) line_upd_length [OF assms(1)]] line_upd_rest [OF assms(1,2) _ assms(4)] assms(3-5) by simp

lemma line_write:
  assumes "line_upd im p stride (take j out) b" "line_ok im p stride n" "j < n" "length out = n"
  obtains b' where "wr b (pos p stride j) (out ! j) = Some b'" "line_upd im p stride (take (Suc j) out) b'"
proof -
  have j: "length (take j out) = j" using assms(3,4) by simp
  show thesis using line_upd_snoc [OF assms(1,2), of "out ! j"] that assms(3,4)
    by (auto simp: j take_Suc_conv_app_nth)
qed

lemma conv_scanline_line:
  assumes ok: "line_ok im p stride n" and n: "n = unat count" "2 \<le> n"
  shows "\<exists>im'. pdp_imageproc_conv_scanline d im p count stride = Some im' \<and>
    line_upd im p stride (conv_line d (getline im p stride n)) im'"
proof -
  define ys where "ys = getline im p stride n"
  define out where "out = conv_line d ys"
  define e where "e = conv_ext d ys"
  have len: "length ys = n" "length out = n" by (simp_all add: ys_def out_def)
  have e_nth: "e ! Suc i = sint (ys ! i)" if "i < n" for i using conv_ext_nth that len by (simp add: e_def)
  have e_ends: "e ! 0 = d ! 3" "e ! Suc n = d ! 3" using conv_ext_ends [of d ys] len by (simp_all add: e_def)
  have out_nth: "out ! i = to_s16 (CLAMP16 (asr (conv_sum d (e ! i) (e ! Suc i) (e ! Suc (Suc i))) 15))" if "i < n" for i
    using that len by (simp add: out_def conv_line_def e_def)
  note read = line_read [OF _ ok _ _ len(2), folded ys_def]
  have cnt: "unat (count - 2) = n - 2"
    using n by (simp add: unat_sub_if_size word_le_nat_alt)
  have step: "pos p stride i + stride = pos p stride (Suc i)" "pos p stride i + 2 * stride = pos p stride (Suc (Suc i))" for i
    by (simp_all add: algebra_simps)
  let ?body = "\<lambda>i (a, b, c, data, im).
            do { let r = conv_sum d a b c;
                 a \<leftarrow> rd im data;
                 b \<leftarrow> rd im (data + stride);
                 c \<leftarrow> rd im (data + 2 * stride);
                 im \<leftarrow> wr im data (to_s16 (CLAMP16 (asr r 15)));
                 Some (sint a, sint b, sint c, data + stride, im) }"
  let ?I = "\<lambda>j (a, b, c, data, im'). a = e ! j \<and> b = e ! Suc j \<and> c = e ! Suc (Suc j) \<and> data = pos p stride j \<and>
      line_upd im p stride (take j out) im'"
  have start: "rd im (pos p stride 0) = Some (ys ! 0)" "rd im (pos p stride (Suc 0)) = Some (ys ! 1)"
    using read [of 0 im 0] read [of 0 im 1] n(2) by simp_all
  then have start': "rd im p = Some (ys ! 0)" "rd im (p + stride) = Some (ys ! Suc 0)" by simp_all
  have "\<exists>s'. for_loop 0 (n - 2) ?body (d ! 3, sint (ys ! 0), sint (ys ! 1), pos p stride 0, im) = Some s' \<and> ?I (0 + (n - 2)) s'"
  proof (rule for_loop_inv)
    show "?I 0 (d ! 3, sint (ys ! 0), sint (ys ! 1), pos p stride 0, im)"
      using e_ends e_nth [of 0] e_nth [of 1] n(2) by simp
  next
    fix j s
    assume j: "0 \<le> j" "j < 0 + (n - 2)" and I: "?I j s"
    obtain im' where s: "s = (e ! j, e ! Suc j, e ! Suc (Suc j), pos p stride j, im')"
      and u: "line_upd im p stride (take j out) im'" using I by (cases s) auto
    have jn: "j < n" "Suc j < n" "Suc (Suc j) < n" using j by simp_all
    obtain im'' where w: "wr im' (pos p stride j) (out ! j) = Some im''" "line_upd im p stride (take (Suc j) out) im''"
      using line_write [OF u ok jn(1) len(2)] .
    have "?body j s = Some (e ! Suc j, e ! Suc (Suc j), e ! Suc (Suc (Suc j)), pos p stride (Suc j), im'')"
      using read [OF u, of j] read [OF u, of "Suc j"] read [OF u, of "Suc (Suc j)"] jn w(1)
      by (simp add: s step e_nth out_nth del: of_nat_Suc)
    with w(2) show "\<exists>s'. ?body j s = Some s' \<and> ?I (Suc j) s'" by (simp del: of_nat_Suc)
  qed
  then obtain im1 where l: "for_loop 0 (n - 2) ?body (d ! 3, sint (ys ! 0), sint (ys ! 1), p, im) =
      Some (e ! (n - 2), e ! Suc (n - 2), e ! Suc (Suc (n - 2)), pos p stride (n - 2), im1)"
    and u1: "line_upd im p stride (take (n - 2) out) im1" by fastforce
  define m where "m = n - 2"
  have m: "n = Suc (Suc m)" "n - 2 = m" using n(2) by (simp_all add: m_def)
  note l = l [unfolded m(2)] and u1 = u1 [unfolded m(2)]
  obtain im2 where w2: "wr im1 (pos p stride m) (out ! m) = Some im2" "line_upd im p stride (take (Suc m) out) im2"
    using line_write [OF u1 ok _ len(2)] m(1) by auto
  obtain im3 where w3: "wr im2 (pos p stride (Suc m)) (out ! Suc m) = Some im3" "line_upd im p stride (take (Suc (Suc m)) out) im3"
    using line_write [OF w2(2) ok _ len(2)] m(1) by auto
  have r: "rd im1 (pos p stride m) = Some (ys ! m)" "rd im1 (pos p stride (Suc m)) = Some (ys ! Suc m)"
    using read [OF u1, of m] read [OF u1, of "Suc m"] m(1) by simp_all
  have o: "out ! m = to_s16 (CLAMP16 (asr (conv_sum d (e ! m) (e ! Suc m) (e ! Suc (Suc m))) 15))"
    "out ! Suc m = to_s16 (CLAMP16 (asr (conv_sum d (sint (ys ! m)) (sint (ys ! Suc m)) (d ! 3)) 15))"
    using out_nth [of m] out_nth [of "Suc m"] e_nth [of m] e_nth [of "Suc m"] e_ends(2) m(1) by simp_all
  have "pdp_imageproc_conv_scanline d im p count stride = Some im3"
    using start' w2(1) w3(1) r l unfolding pdp_imageproc_conv_scanline_def
    by (simp add: cnt m(2) step(1) o del: of_nat_Suc)
  moreover have "take (Suc (Suc m)) out = out" using len(2) m(1) by simp
  ultimately show ?thesis using w3(2) by (simp add: out_def ys_def)
qed

section \<open>Line by line\<close>

lemma line_upd_again:
  assumes "line_upd b p stride out b'" "line_upd b' p stride out' b''" "length out' = length out"
  shows "line_upd b p stride out' b''"
  using assms by (simp add: line_upd_def)

lemma line_ok_length: "line_ok b p stride n \<Longrightarrow> length b' = length b \<Longrightarrow> line_ok b' p stride n"
  by (simp add: line_ok_def)

lemma getline_other:
  assumes upd: "line_upd b p stride out b'" and ok: "line_ok b q stride n"
    and apart: "\<And>i k. i < n \<Longrightarrow> k < length out \<Longrightarrow> pos q stride i \<noteq> pos p stride k"
  shows "getline b' q stride n = getline b q stride n"
proof (rule nth_equalityI)
  fix i
  assume "i < length (getline b' q stride n)"
  then have i: "i < n" by simp
  have in_b: "0 \<le> pos q stride i" "pos q stride i < int (length b)" using ok i by (simp_all add: line_ok_def)
  then have "nat (pos q stride i) < length b" "\<forall>k < length out. int (nat (pos q stride i)) \<noteq> pos p stride k"
    using apart [OF i] by auto
  then have "b' ! nat (pos q stride i) = b ! nat (pos q stride i)" using upd unfolding line_upd_def by blast
  then show "getline b' q stride n ! i = getline b q stride n ! i" using i by simp
qed simp

lemma lines_loop:
  assumes ok: "\<And>j. j < m \<Longrightarrow> line_ok im (P j) stride n"
    and apart: "\<And>j k i i'. j < m \<Longrightarrow> k < m \<Longrightarrow> j \<noteq> k \<Longrightarrow> i < n \<Longrightarrow> i' < n \<Longrightarrow> pos (P j) stride i \<noteq> pos (P k) stride i'"
    and len: "\<And>ys. length ys = n \<Longrightarrow> length (F ys) = n"
    and body: "\<And>j b. j < m \<Longrightarrow> length b = length im \<Longrightarrow> line_ok b (P j) stride n \<Longrightarrow>
      \<exists>b'. f j b = Some b' \<and> line_upd b (P j) stride (F (getline b (P j) stride n)) b'"
  shows "\<exists>im'. for_loop 0 m f im = Some im' \<and> length im' = length im \<and>
    (\<forall>j < m. getline im' (P j) stride n = F (getline im (P j) stride n))"
proof -
  let ?I = "\<lambda>k b. length b = length im \<and>
    (\<forall>j < m. getline b (P j) stride n = (if j < k then F (getline im (P j) stride n) else getline im (P j) stride n))"
  have "\<exists>im'. for_loop 0 m f im = Some im' \<and> ?I (0 + m) im'"
  proof (rule for_loop_inv)
    fix k b
    assume k: "0 \<le> k" "k < 0 + m" and I: "?I k b"
    have okb: "line_ok b (P j) stride n" if "j < m" for j using ok [OF that] I by (simp add: line_ok_length)
    obtain b' where b': "f k b = Some b'" "line_upd b (P k) stride (F (getline im (P k) stride n)) b'"
      using body [of k b] k I okb [of k] by auto
    have ln: "length (F (getline im (P k) stride n)) = n" by (simp add: len)
    have "getline b' (P j) stride n = (if j < Suc k then F (getline im (P j) stride n) else getline im (P j) stride n)" if "j < m" for j
    proof (cases "j = k")
      case True
      then show ?thesis using b'(2) ln by (simp add: line_upd_def)
    next
      case False
      have "getline b' (P j) stride n = getline b (P j) stride n"
        by (rule getline_other [OF b'(2) okb [OF that]]) (use apart [OF that _ False] k ln in auto)
      then show ?thesis using I that False by auto
    qed
    then show "\<exists>b'. f k b = Some b' \<and> ?I (Suc k) b'" using b' I by (auto dest: line_upd_length)
  qed simp
  then show ?thesis by auto
qed

lemma passes_line:
  assumes "line_ok im p stride n" and len: "\<And>ys. length ys = n \<Longrightarrow> length (F ys) = n"
    and body: "\<And>b. length b = length im \<Longrightarrow> \<exists>b'. f b = Some b' \<and> line_upd b p stride (F (getline b p stride n)) b'"
  shows "\<exists>im'. for_loop 0 k (\<lambda>_. f) im = Some im' \<and> line_upd im p stride ((F ^^ k) (getline im p stride n)) im'"
proof -
  have pl: "length ((F ^^ j) ys) = n" if "length ys = n" for j ys by (induction j) (simp_all add: that len)
  let ?I = "\<lambda>j b. line_upd im p stride ((F ^^ j) (getline im p stride n)) b"
  have "\<exists>im'. for_loop 0 k (\<lambda>_. f) im = Some im' \<and> ?I (0 + k) im'"
  proof (rule for_loop_inv)
    show "?I 0 im" by (simp add: line_upd_def)
  next
    fix j b
    assume I: "?I j b"
    have g: "getline b p stride n = (F ^^ j) (getline im p stride n)" using I pl [of "getline im p stride n" j] by (simp add: line_upd_def)
    obtain b' where b': "f b = Some b'" "line_upd b p stride (F (getline b p stride n)) b'"
      using body [OF line_upd_length [OF I]] by blast
    have "line_upd im p stride (F (getline b p stride n)) b'"
      by (rule line_upd_again [OF I b'(2)]) (simp add: g pl len)
    with b'(1) g show "\<exists>b'. f b = Some b' \<and> ?I (Suc j) b'" by simp
  qed
  then show ?thesis by simp
qed

text \<open>Rows and columns of a plane of width \<open>w\<close> and height \<open>h\<close>.\<close>

lemma row_ok: "length im = w * h \<Longrightarrow> y < h \<Longrightarrow> line_ok im (int (w * y)) 1 w"
proof -
  assume a: "length im = w * h" "y < h"
  have "w * y + x < w * h" if "x < w" for x
  proof -
    have "w * y + x < w * Suc y" using that by simp
    also have "\<dots> \<le> w * h" using a(2) by (intro mult_le_mono2) simp
    finally show ?thesis .
  qed
  then show ?thesis using a(1) by (simp add: line_ok_def flip: of_nat_mult of_nat_add)
qed

lemma col_ok: "length im = w * h \<Longrightarrow> x < w \<Longrightarrow> line_ok im (int x) (int w) h"
proof -
  assume a: "length im = w * h" "x < w"
  have "x + y * w < w * h" if "y < h" for y
  proof -
    have "x + y * w < Suc y * w" using a(2) by simp
    also have "\<dots> \<le> h * w" using that by (intro mult_le_mono1) simp
    finally show ?thesis by (simp add: mult.commute)
  qed
  then show ?thesis using a by (simp add: line_ok_def flip: of_nat_mult of_nat_add)
qed

lemma rows_apart: "i < w \<Longrightarrow> i' < w \<Longrightarrow> w * y + i = w * y' + i' \<Longrightarrow> y = (y' :: nat)"
  by (metis add.commute add_right_cancel div_mult_self2 div_less add_0 gr_implies_not0)

lemma cols_apart: "x < w \<Longrightarrow> x' < w \<Longrightarrow> x + i * w = x' + i' * w \<Longrightarrow> x = (x' :: nat)"
  by (metis mod_less mod_mult_self1)

lemma unat_mult_u32: "unat (x :: u32) * unat y < 2 ^ 32 \<Longrightarrow> unat (x * y) = unat x * unat y"
  by (simp add: unat_word_ariths(2))

lemma uint_of_nat_u32: "k < 2 ^ 32 \<Longrightarrow> uint (of_nat k :: u32) = int k"
  by (metis unat_of_nat_u32 uint_nat)

lemma step_loop_all_rows:
  assumes "unat w * unat h < 2 ^ 32" "0 < w"
  shows "step_loop 0 (w * h) w f s = for_loop 0 (unat h) (\<lambda>j. f (of_nat (unat w * j))) s"
  using step_loop_rows [of "w * h" w "unat h" 0 0 f s] assms by (simp add: unat_mult_u32)

lemma for_rows_index:
  assumes "unat w * unat h < 2 ^ 32"
  shows "for_loop 0 (unat h) (\<lambda>j. f (uint (of_nat (unat w * j) :: u32))) s = for_loop 0 (unat h) (\<lambda>j. f (int (unat w * j))) s"
proof (rule for_loop_cong)
  fix j s
  assume "j < 0 + unat h"
  then have "unat w * j \<le> unat w * unat h" by (intro mult_le_mono2) simp
  then have "unat w * j < 2 ^ 32" using assms by (rule le_less_trans)
  then show "f (uint (of_nat (unat w * j) :: u32)) s = f (int (unat w * j)) s" by (simp only: uint_of_nat_u32)
qed

lemma conv_line_passes:
  assumes "line_ok im p stride n" "n = unat count" "2 \<le> n"
  shows "\<exists>im'. for_loop 0 k (\<lambda>j im. pdp_imageproc_conv_scanline d im p count stride) im = Some im' \<and>
    line_upd im p stride ((conv_line d ^^ k) (getline im p stride n)) im'"
proof (rule passes_line [OF assms(1), where F = "conv_line d"])
  fix b :: plane
  assume "length b = length im"
  then show "\<exists>b'. pdp_imageproc_conv_scanline d b p count stride = Some b' \<and> line_upd b p stride (conv_line d (getline b p stride n)) b'"
    using conv_scanline_line [OF line_ok_length [OF assms(1)] assms(2,3)] by blast
qed simp

lemma length_conv_passes: "length ys = n \<Longrightarrow> length ((conv_line d ^^ k) ys) = n"
  by (induction k) simp_all

lemma conv_horizontal:
  assumes "d ! 4 = PDP_IMAGEPROC_CONV_HORIZONTAL" and small: "unat w * unat h < 2 ^ 32" and w2: "2 \<le> unat w"
    and len: "length im = unat w * unat h"
  shows "\<exists>im'. pdp_imageproc_conv_process d w h im = Some im' \<and> length im' = length im \<and>
    (\<forall>y < unat h. getline im' (int (unat w * y)) 1 (unat w) =
       (conv_line d ^^ unat (word_of_int (d ! 5) :: u32)) (getline im (int (unat w * y)) 1 (unat w)))"
proof -
  let ?k = "unat (word_of_int (d ! 5) :: u32)"
  have w0: "0 < w" using w2 by (auto simp: word_less_nat_alt)
  have "\<exists>im'. for_loop 0 (unat h) (\<lambda>y im. for_loop 0 ?k (\<lambda>j im. pdp_imageproc_conv_scanline d im (int (unat w * y)) w 1) im) im = Some im' \<and>
    length im' = length im \<and> (\<forall>y < unat h. getline im' (int (unat w * y)) 1 (unat w) =
       (conv_line d ^^ ?k) (getline im (int (unat w * y)) 1 (unat w)))"
  proof (rule lines_loop)
    fix j k i i'
    assume "j < unat h" "k < unat h" and jk: "j \<noteq> k" and "i < unat w" "i' < unat w"
    then have "unat w * j + i \<noteq> unat w * k + i'" using rows_apart by blast
    then show "pos (int (unat w * j)) 1 i \<noteq> pos (int (unat w * k)) 1 i'" by (simp flip: of_nat_mult of_nat_add)
  qed (use row_ok [OF len] length_conv_passes conv_line_passes [OF _ refl w2] in auto)
  moreover have "pdp_imageproc_conv_process d w h im =
      step_loop 0 (w * h) w (\<lambda>i im. for_loop 0 ?k (\<lambda>j im. pdp_imageproc_conv_scanline d im (uint i) w 1) im) im"
    using assms(1)
    by (simp add: pdp_imageproc_conv_process_def PDP_IMAGEPROC_CONV_HORIZONTAL_def PDP_IMAGEPROC_CONV_VERTICAL_def)
  ultimately show ?thesis
    unfolding step_loop_all_rows [OF small w0]
      for_rows_index [OF small, where f = "\<lambda>y im. for_loop 0 ?k (\<lambda>j im. pdp_imageproc_conv_scanline d im y w 1) im"]
    by simp
qed

lemma conv_vertical:
  assumes "d ! 4 = PDP_IMAGEPROC_CONV_VERTICAL" and h2: "2 \<le> unat h" and len: "length im = unat w * unat h"
  shows "\<exists>im'. pdp_imageproc_conv_process d w h im = Some im' \<and> length im' = length im \<and>
    (\<forall>x < unat w. getline im' (int x) (int (unat w)) (unat h) =
       (conv_line d ^^ unat (word_of_int (d ! 5) :: u32)) (getline im (int x) (int (unat w)) (unat h)))"
proof -
  let ?k = "unat (word_of_int (d ! 5) :: u32)"
  have "\<exists>im'. for_loop 0 (unat w) (\<lambda>x im. for_loop 0 ?k (\<lambda>j im. pdp_imageproc_conv_scanline d im (int x) h (int (unat w))) im) im = Some im' \<and>
    length im' = length im \<and> (\<forall>x < unat w. getline im' (int x) (int (unat w)) (unat h) =
       (conv_line d ^^ ?k) (getline im (int x) (int (unat w)) (unat h)))"
  proof (rule lines_loop)
    fix j k i i'
    assume "j < unat w" "k < unat w" and jk: "j \<noteq> k"
    then have "j + i * unat w \<noteq> k + i' * unat w" using cols_apart by blast
    then show "pos (int j) (int (unat w)) i \<noteq> pos (int k) (int (unat w)) i'"
      by (simp only: of_nat_mult [symmetric] of_nat_add [symmetric] of_nat_eq_iff not_False_eq_True)
  qed (use col_ok [OF len] length_conv_passes conv_line_passes [OF _ refl h2] in auto)
  then show ?thesis using assms(1)
    by (simp add: pdp_imageproc_conv_process_def PDP_IMAGEPROC_CONV_HORIZONTAL_def PDP_IMAGEPROC_CONV_VERTICAL_def flip: uint_nat)
qed

section \<open>Biquad filters\<close>

text \<open>The reference: the recurrence run over the samples of a line, from a state to a state.\<close>

fun bq_run :: "t_bq \<Rightarrow> int \<Rightarrow> int \<Rightarrow> s16 list \<Rightarrow> s16 list \<times> int \<times> int" where
  "bq_run d v1 v2 [] = ([], v1, v2)"
| "bq_run d v1 v2 (x # xs) =
     (let (yy, v1, v2) = bq_sample d (sint x) v1 v2; (ys, st) = bq_run d v1 v2 xs in (to_s16 (CLAMP16 yy) # ys, st))"

lemma bq_run_append:
  "bq_run d v1 v2 (xs @ zs) =
     (let (ys, v1, v2) = bq_run d v1 v2 xs; (us, st) = bq_run d v1 v2 zs in (ys @ us, st))"
  by (induction xs arbitrary: v1 v2) (auto simp: Let_def split: prod.splits)

lemma length_bq_run: "length (fst (bq_run d v1 v2 xs)) = length xs"
  by (induction xs arbitrary: v1 v2) (auto simp: Let_def split: prod.splits, metis fst_conv)

lemma bq_run_take_Suc:
  assumes "j < length ys" "bq_run d w1 w2 (take j ys) = (os, v1, v2)" "bq_sample d (sint (ys ! j)) v1 v2 = (yy, v1', v2')"
  shows "bq_run d w1 w2 (take (Suc j) ys) = (os @ [to_s16 (CLAMP16 yy)], v1', v2')"
  using assms by (simp add: take_Suc_conv_app_nth bq_run_append)

lemma bq_scanline_line:
  assumes ok: "line_ok im p stride n" and n: "n = unat count"
    and run: "bq_run d (u0_save d) (u1_save d) (getline im p stride n) = (out, v1, v2)"
  shows "\<exists>im'. pdp_imageproc_bq_scanline im p count stride d = Some (d\<lparr>u0_save := v1, u1_save := v2\<rparr>, im') \<and>
    line_upd im p stride out im'"
proof -
  define ys where "ys = getline im p stride n"
  have len: "length ys = n" by (simp add: ys_def)
  let ?body = "\<lambda>i (v1, v2, data, im).
            do { x \<leftarrow> rd im data;
                 let (yy, v1, v2) = bq_sample d (sint x) v1 v2;
                 im \<leftarrow> wr im data (to_s16 (CLAMP16 yy));
                 Some (v1, v2, data + stride, im) }"
  let ?I = "\<lambda>j (v1, v2, data, im'). data = pos p stride j \<and>
      (\<exists>os. bq_run d (u0_save d) (u1_save d) (take j ys) = (os, v1, v2) \<and> length os = j \<and> line_upd im p stride os im')"
  have "\<exists>s'. for_loop 0 n ?body (u0_save d, u1_save d, p, im) = Some s' \<and> ?I (0 + n) s'"
  proof (rule for_loop_inv)
    fix j s
    assume j: "0 \<le> j" "j < 0 + n" and I: "?I j s"
    obtain v1 v2 im' os where s: "s = (v1, v2, pos p stride j, im')"
      and os: "bq_run d (u0_save d) (u1_save d) (take j ys) = (os, v1, v2)" "length os = j" "line_upd im p stride os im'"
      using I by (cases s) auto
    obtain yy v1' v2' where smp: "bq_sample d (sint (ys ! j)) v1 v2 = (yy, v1', v2')" by (metis prod_cases3)
    have r: "rd im' (pos p stride j) = Some (ys ! j)"
      using line_ok_rd [OF ok _ line_upd_length [OF os(3)]] line_upd_rest [OF os(3) ok] j os(2) by (simp add: ys_def)
    obtain im'' where w: "wr im' (pos p stride j) (to_s16 (CLAMP16 yy)) = Some im''"
      "line_upd im p stride (os @ [to_s16 (CLAMP16 yy)]) im''"
      using line_upd_snoc [OF os(3) ok] j os(2) by auto
    have "?body j s = Some (v1', v2', pos p stride (Suc j), im'')"
      using r w(1) by (simp add: s smp algebra_simps)
    then show "\<exists>s'. ?body j s = Some s' \<and> ?I (Suc j) s'"
      using bq_run_take_Suc [OF _ os(1) smp] j len os(2) w(2) by auto
  qed simp
  then obtain im' where "for_loop 0 n ?body (u0_save d, u1_save d, p, im) = Some (v1, v2, pos p stride n, im')"
    "line_upd im p stride out im'" using run len by (auto simp: ys_def [symmetric])
  then show ?thesis unfolding pdp_imageproc_bq_scanline_def n by auto
qed

lemma bq_scanline_total:
  assumes "line_ok im p stride (unat count)"
  shows "\<exists>d' im'. pdp_imageproc_bq_scanline im p count stride d = Some (d', im') \<and> length im' = length im \<and>
    nbpasses d' = nbpasses d \<and> direction d' = direction d"
proof -
  obtain out v1 v2 where "bq_run d (u0_save d) (u1_save d) (getline im p stride (unat count)) = (out, v1, v2)" by (metis prod_cases3)
  from bq_scanline_line [OF assms refl this] show ?thesis by (auto dest: line_upd_length)
qed

lemma bq_line_total:
  assumes "line_ok im p stride (unat count)" "line_ok im q (- stride) (unat count)" "length (snd s) = length im"
  shows "\<exists>s'. bq_line fwd bwd p q count stride nbp s = Some s' \<and> length (snd s') = length im"
proof -
  let ?ok = "\<lambda>s. length (snd s) = length im"
  have f: "\<exists>s'. pdp_imageproc_bq_scanline (snd s) p count stride (fst s) = Some s' \<and> ?ok s'" if "?ok s" for s
    using bq_scanline_total [OF line_ok_length [OF assms(1) that], of "fst s"] that by auto
  have b: "\<exists>s'. pdp_imageproc_bq_scanline (snd s) q count (- stride) (fst s) = Some s' \<and> ?ok s'" if "?ok s" for s
    using bq_scanline_total [OF line_ok_length [OF assms(2) that], of "fst s"] that by auto
  have loop: "\<exists>s'. for_loop 0 nbp (\<lambda>j. g) s = Some s' \<and> ?ok s'" if "\<And>s. ?ok s \<Longrightarrow> \<exists>s'. g s = Some s' \<and> ?ok s'" for g
    using for_loop_inv [where I = "\<lambda>_. ?ok" and i = 0 and n = nbp and f = "\<lambda>j. g" and s = s] assms(3) that by blast
  have fb: "\<exists>s'. (case s of (x, data) \<Rightarrow> do { (x, data) \<leftarrow> pdp_imageproc_bq_scanline data p count stride x;
      pdp_imageproc_bq_scanline data q count (- stride) x }) = Some s' \<and> ?ok s'" if "?ok s" for s
    using f [OF that] b by (fastforce simp: split_beta)
  have L1: "\<exists>s'. for_loop 0 nbp (\<lambda>j (x, data). do { (x, data) \<leftarrow> pdp_imageproc_bq_scanline data p count stride x;
      pdp_imageproc_bq_scanline data q count (- stride) x }) s = Some s' \<and> ?ok s'" by (rule loop) (rule fb)
  have L2: "\<exists>s'. for_loop 0 nbp (\<lambda>j (x, data). pdp_imageproc_bq_scanline data p count stride x) s = Some s' \<and> ?ok s'"
    by (rule loop) (use f in \<open>simp add: split_beta\<close>)
  have L3: "\<exists>s'. for_loop 0 nbp (\<lambda>j (x, data). pdp_imageproc_bq_scanline data q count (- stride) x) s = Some s' \<and> ?ok s'"
    by (rule loop) (use b in \<open>simp add: split_beta\<close>)
  show ?thesis unfolding bq_line_def using L1 L2 L3 assms(3) by (simp del: split_paired_Ex)
qed

text \<open>The whole filter stays inside the plane, whatever directions and passes are set.\<close>

lemma row_back_ok:
  assumes "length im = w * h" "y < h"
  shows "line_ok im (int (w - 1 + w * y)) (- 1) w"
  unfolding line_ok_def
proof (intro conjI allI impI)
  fix i
  assume i: "i < w"
  have "w * Suc y \<le> w * h" using assms(2) by (intro mult_le_mono2) simp
  then have "w * y + w \<le> w * h" by simp
  then show "0 \<le> pos (int (w - 1 + w * y)) (- 1) i" "pos (int (w - 1 + w * y)) (- 1) i < int (length im)"
    using i assms(1) by (simp_all add: of_nat_diff flip: of_nat_mult of_nat_add)
qed simp

lemma col_back_ok:
  assumes "length im = w * h" "x < w"
  shows "line_ok im (int ((h - 1) * w + x)) (- int w) h"
  unfolding line_ok_def
proof (intro conjI allI impI)
  fix i
  assume i: "i < h"
  have e: "pos (int ((h - 1) * w + x)) (- int w) i = int (x + (h - 1 - i) * w)"
  proof -
    obtain k where "h = Suc (i + k)" using i less_imp_Suc_add by blast
    then show ?thesis by (simp add: algebra_simps)
  qed
  have "x + (h - 1 - i) * w < Suc (h - 1 - i) * w" using assms(2) by simp
  also have "\<dots> \<le> h * w" using i by (intro mult_le_mono1) simp
  finally have "x + (h - 1 - i) * w < length im" using assms(1) by (simp only: mult.commute)
  then show "0 \<le> pos (int ((h - 1) * w + x)) (- int w) i" "pos (int ((h - 1) * w + x)) (- int w) i < int (length im)"
    unfolding e by (simp_all only: of_nat_less_iff of_nat_0_le_iff)
qed (use assms in auto)

lemma bq_process_total:
  assumes small: "unat w * unat h < 2 ^ 32" and pos: "0 < w" "0 < h" and len: "length im = unat w * unat h"
  shows "\<exists>d' im'. pdp_imageproc_bq_process d w h im = Some (d', im') \<and> length im' = length im"
proof -
  have uw: "0 < unat w" "0 < unat h" using pos by (simp_all add: word_less_nat_alt)
  let ?nbp = "unat (nbpasses d)"
  have h1: "unat (h - 1) = unat h - 1" "unat (w - 1) = unat w - 1" 
    using unat_minus_one [of h] unat_minus_one [of w] pos by auto
  have "of_nat (unat h - 1) = h - 1" "of_nat (unat w - 1) = w - 1" unfolding h1 [symmetric] by simp_all
  then have hw: "of_nat (unat h - Suc 0) = h - 1" "of_nat (unat w - Suc 0) = w - 1" by simp_all
  have ge: "(unat h - 1) * unat w + x < unat w * unat h" if "x < unat w" for x
  proof -
    have "(unat h - 1) * unat w + x < Suc (unat h - 1) * unat w" using that by simp
    then show ?thesis using uw by (simp add: mult.commute)
  qed
  have off: "uint ((h - 1) * w + of_nat x) = int ((unat h - 1) * unat w + x)" if "x < unat w" for x
  proof -
    have "(h - 1) * w + of_nat x = of_nat ((unat h - 1) * unat w + x)" by (simp add: hw(1))
    then show ?thesis using ge [OF that] small by (simp only: uint_of_nat_u32)
  qed
  have V: "\<exists>s'. for_loop 0 (unat w) (\<lambda>i s. bq_line f b (int i) (uint ((h - 1) * w + of_nat i)) h (uint w) ?nbp s) (d, im) = Some s' \<and>
      length (snd s') = length im" for f b
  proof (rule for_loop_inv [where I = "\<lambda>_ s. length (snd s) = length im"])
    fix i and s :: "t_bq \<times> plane"
    assume "i < 0 + unat w" "length (snd s) = length im"
    then show "\<exists>s'. bq_line f b (int i) (uint ((h - 1) * w + of_nat i)) h (uint w) ?nbp s = Some s' \<and> length (snd s') = length im"
      using bq_line_total [OF col_ok [OF len, of i, unfolded uint_nat [symmetric]] _ _, of "int ((unat h - 1) * unat w + i)" s f b ?nbp]
        col_back_ok [OF len, of i, unfolded uint_nat [symmetric]] off [of i] by simp
  qed simp
  have H: "\<exists>s'. step_loop 0 (w * h) w (\<lambda>i s. bq_line f b (uint i) (uint (w - 1 + i)) w 1 ?nbp s) s = Some s' \<and>
      length (snd s') = length im" if s: "length (snd s) = length im" for f b s
    unfolding step_loop_all_rows [OF small pos(1)] 
  proof (rule for_loop_inv [where I = "\<lambda>_ s. length (snd s) = length im"])
    fix y and s :: "t_bq \<times> plane"
    assume y: "y < 0 + unat h" and s: "length (snd s) = length im"
    have r: "unat w * y + unat w \<le> unat w * unat h"
      using y mult_le_mono2 [of "Suc y" "unat h" "unat w"] by simp
    then have i: "uint (of_nat (unat w * y) :: u32) = int (unat w * y)"
      using small by (intro uint_of_nat_u32) linarith
    have "w - 1 + of_nat (unat w * y) = of_nat (unat w - 1 + unat w * y)" by (simp add: hw(2))
    moreover have "unat w - 1 + unat w * y < 2 ^ 32" using r small uw(1) by linarith
    ultimately have j: "uint (w - 1 + of_nat (unat w * y)) = int (unat w - 1 + unat w * y)"
      by (simp only: uint_of_nat_u32)
    show "\<exists>s'. bq_line f b (uint (of_nat (unat w * y) :: u32)) (uint (w - 1 + of_nat (unat w * y))) w 1 ?nbp s = Some s' \<and>
        length (snd s') = length im"
      unfolding i j using bq_line_total [OF row_ok [OF len, of y] row_back_ok [OF len, of y] s] y by simp
  qed (use s in simp)
  let ?dir = "\<lambda>m. direction d AND m \<noteq> 0"
  obtain s1 where s1: "for_loop 0 (unat w) (\<lambda>i s. bq_line (?dir PDP_IMAGEPROC_BIQUAD_TOP2BOTTOM) (?dir PDP_IMAGEPROC_BIQUAD_BOTTOM2TOP)
      (int i) (uint ((h - 1) * w + of_nat i)) h (uint w) ?nbp s) (d, im) = Some s1" "length (snd s1) = length im"
    using V by blast
  show ?thesis using H [OF s1(2)] s1 unfolding pdp_imageproc_bq_process_def
    by (cases s1) (simp add: Let_def split: if_splits)
qed

section \<open>Resampling\<close>

lemma and_ffff: "x AND 0xffff = x mod (65536 :: int)"
  using take_bit_eq_mask [of 16 x] by (simp add: take_bit_eq_mod mask_numeral)

text \<open>Linear interpolation in 16-bit fractions neither overflows nor leaves the range of its ends.\<close>

lemma lerp_bounds:
  assumes f: "0 \<le> f" "f < 65536" and a: "lo \<le> a" "a \<le> hi" and b: "lo \<le> b" "b \<le> hi" and "-32768 \<le> lo" "hi \<le> 32767"
  shows "lo \<le> asr (wrap32 (wrap32 ((65536 - f) * a) + wrap32 (f * b))) 16 \<and>
    asr (wrap32 (wrap32 ((65536 - f) * a) + wrap32 (f * b))) 16 \<le> hi"
proof -
  let ?s = "(65536 - f) * a + f * b"
  have lo: "(65536 - f) * lo \<le> (65536 - f) * a" "f * lo \<le> f * b"
    and hi: "(65536 - f) * a \<le> (65536 - f) * hi" "f * b \<le> f * hi"
    using f a b by (simp_all add: mult_left_mono)
  have s: "65536 * lo \<le> ?s" "?s \<le> 65536 * hi" using lo hi by (simp_all add: algebra_simps)
  have m: "65536 * (- 32768) \<le> (65536 - f) * (- 32768)" "(65536 - f) * (- 32768) \<le> (65536 - f) * a"
    "(65536 - f) * a \<le> (65536 - f) * 32767" "f * (- 32768) \<le> f * b" "f * b \<le> f * 32767"
    using mult_left_mono [of "- 32768" a "65536 - f"] mult_left_mono [of a 32767 "65536 - f"]
      mult_left_mono [of "- 32768" b f] mult_left_mono [of b 32767 f] f a b assms(7,8) by simp_all
  have w: "wrap32 ((65536 - f) * a) = (65536 - f) * a" "wrap32 (f * b) = f * b" "wrap32 ?s = ?s"
    by (rule wrap32_id; insert f m s assms(7,8); simp add: in_s32_def)+
  have "65536 * lo div 65536 \<le> ?s div 65536" "?s div 65536 \<le> 65536 * hi div 65536"
    using s by (simp_all add: zdiv_mono1)
  then show ?thesis unfolding w by (simp add: asr_def)
qed

lemma virt_bounds:
  assumes "2 \<le> n" "n \<le> 32768" "0 \<le> v" "v \<le> 0xffff"
  shows "wrap32 (v * (n - 1)) = v * (n - 1)" "0 \<le> asr (v * (n - 1)) 16" "asr (v * (n - 1)) 16 \<le> n - 2"
proof -
  have le: "v * (n - 1) \<le> 65535 * (n - 1)" and ge: "0 \<le> v * (n - 1)" 
    using assms mult_right_mono [of v 65535 "n - 1"] by simp_all
  then show "wrap32 (v * (n - 1)) = v * (n - 1)" using assms(2) by (intro wrap32_id) (simp add: in_s32_def)
  show "0 \<le> asr (v * (n - 1)) 16" using ge by (simp add: asr_def)
  show "asr (v * (n - 1)) 16 \<le> n - 2" using le assms(1) unfolding asr_def by (simp add: field_simps)
qed

lemma bilin_safe:
  assumes w: "2 \<le> w" "w \<le> 32768" and h: "2 \<le> h" "h \<le> 32768" and wh: "w * h < 2 ^ 31" and len: "w * h \<le> int (length im)"
    and v: "0 \<le> vx" "vx \<le> 0xffff" "0 \<le> vy" "vy \<le> 0xffff"
    and range: "\<And>p. p \<in> set im \<Longrightarrow> lo \<le> sint p \<and> sint p \<le> hi" and "-32768 \<le> lo" "hi \<le> 32767"
  shows "\<exists>r. pdp_resample_bilin im w h vx vy = Some r \<and> lo \<le> r \<and> r \<le> hi"
proof -
  define x y where "x = asr (vx * (w - 1)) 16" and "y = asr (vy * (h - 1)) 16"
  note X = virt_bounds [OF w v(1,2), folded x_def] and Y = virt_bounds [OF h v(3,4), folded y_def]
  have yw: "y * w \<le> (h - 2) * w" "0 \<le> y * w" using Y w by (simp_all add: mult_right_mono)
  have top: "0 \<le> x + y * w" "x + y * w + w + 1 < w * h" using X Y yw by (simp_all add: algebra_simps)
  have off: "wrap32 (y * w) = y * w" "wrap32 (x + y * w) = x + y * w"
    using top yw X(2) wh w by (auto intro!: wrap32_id simp: in_s32_def)
  have pix: "\<exists>a. rd im i = Some a \<and> lo \<le> sint a \<and> sint a \<le> hi" if "0 \<le> i" "i < w * h" for i
  proof -
    have "i < int (length im)" using that len by simp
    then show ?thesis using that(1) range [of "im ! nat i"] by (simp add: rd_in nat_less_iff)
  qed
  obtain a where a: "rd im (x + y * w) = Some a" "lo \<le> sint a" "sint a \<le> hi" using pix [of "x + y * w"] top w by auto
  obtain b where b: "rd im (x + y * w + 1) = Some b" "lo \<le> sint b" "sint b \<le> hi" using pix [of "x + y * w + 1"] top w by auto
  obtain c where c: "rd im (x + y * w + w) = Some c" "lo \<le> sint c" "sint c \<le> hi" using pix [of "x + y * w + w"] top w by auto
  obtain d where d: "rd im (x + y * w + w + 1) = Some d" "lo \<le> sint d" "sint d \<le> hi" using pix [of "x + y * w + w + 1"] top w by auto
  define fx fy where "fx = vx * (w - 1) mod 65536" and "fy = vy * (h - 1) mod 65536"
  have f: "0 \<le> fx" "fx < 65536" "0 \<le> fy" "fy < 65536" by (simp_all add: fx_def fy_def)
  note r1 = lerp_bounds [OF f(1,2) a(2,3) b(2,3) assms(12,13)] and r2 = lerp_bounds [OF f(1,2) c(2,3) d(2,3) assms(12,13)]
  note r = lerp_bounds [OF f(3,4) conjunct1 [OF r1] conjunct2 [OF r1] conjunct1 [OF r2] conjunct2 [OF r2] assms(12,13)]
  show ?thesis using r a(1) b(1) c(1) d(1)
    by (simp add: pdp_resample_bilin_def X(1) Y(1) and_ffff off Let_def flip: x_def y_def fx_def fy_def)
qed

text \<open>A plane size on which the fixed point coordinates cannot overflow.\<close>

definition plane_size_ok :: "u32 \<Rightarrow> u32 \<Rightarrow> bool" where
  "plane_size_ok w h \<longleftrightarrow> 2 \<le> unat w \<and> unat w \<le> 32768 \<and> 2 \<le> unat h \<and> unat h \<le> 32768 \<and> unat w * unat h < 2 ^ 31"

lemma drop16_le: "uint (drop_bit 16 (c :: u32)) \<le> 0xffff"
proof -
  have "unat (drop_bit 16 c) \<le> 0xffff" unfolding unat_drop_bit_eq using unat_lt_u32 [of c] by (simp add: drop_bit_eq_div)
  then have "int (unat (drop_bit 16 c)) \<le> int 0xffff" by (simp only: of_nat_le_iff)
  then show ?thesis by (simp only: uint_nat)
qed

lemma affinemap_bilin:
  assumes "plane_size_ok w h" and "length src = unat w * unat h"
  shows "\<exists>r. pdp_resample_bilin src (sint w) (sint h) (uint (drop_bit 16 (a :: u32))) (uint (drop_bit 16 (b :: u32))) = Some r"
proof -
  define W H where "W = unat w" and "H = unat h"
  have W: "2 \<le> W" "W \<le> 32768" "2 \<le> H" "H \<le> 32768" "W * H < 2 ^ 31" "length src = W * H"
    using assms by (simp_all add: plane_size_ok_def W_def H_def)
  have sw: "sint w = int W" "sint h = int H" using W(2,4) unfolding W_def H_def by (intro sint_u32; simp)+
  have pixel: "-32768 \<le> sint p \<and> sint p \<le> 32767" for p :: s16 using sint_s16_bounds [of p] by simp
  have "\<exists>r. pdp_resample_bilin src (int W) (int H) (uint (drop_bit 16 a)) (uint (drop_bit 16 b)) = Some r \<and> -32768 \<le> r \<and> r \<le> 32767"
    by (rule bilin_safe) (use W drop16_le pixel in \<open>simp_all flip: of_nat_mult\<close>)
  then show ?thesis unfolding sw by blast
qed

lemma affinemap_pixel_ok:
  assumes "plane_size_ok w h" and "length src = unat w * unat h" and "k < length d"
  shows "\<exists>r' d'. affinemap_pixel ri w h src (r, int k, d) = Some (r', int (Suc k), d') \<and> length d' = length d"
proof -
  obtain v where "pdp_resample_bilin src (sint w) (sint h) (uint (drop_bit 16 (fst r))) (uint (drop_bit 16 (snd r))) = Some v"
    using affinemap_bilin [OF assms(1,2)] by blast
  with assms(3) show ?thesis by (simp add: affinemap_pixel_def)
qed

lemma affinemap_row_ok:
  assumes "plane_size_ok w h" "length src = unat w * unat h" "length d = unat w * unat h" "j < unat h"
  shows "\<exists>c' d'. affinemap_row ri ci w h src (c, int (unat w * j), d) = Some (c', int (unat w * Suc j), d') \<and> length d' = length d"
proof -
  let ?I = "\<lambda>i (s :: (u32 \<times> u32) \<times> int \<times> plane). fst (snd s) = int (unat w * j + i) \<and> length (snd (snd s)) = length d"
  have fit: "unat w * j + unat w \<le> unat w * unat h" using assms(4) mult_le_mono2 [of "Suc j" "unat h" "unat w"] by simp
  have "\<exists>s'. for_loop 0 (unat w) (\<lambda>i. affinemap_pixel ri w h src) (c, int (unat w * j), d) = Some s' \<and> ?I (0 + unat w) s'"
  proof (rule for_loop_inv)
    fix i s
    assume i: "i < 0 + unat w" and I: "?I i s"
    obtain r e where s: "s = (r, int (unat w * j + i), e)" "length e = length d" using I by (cases s) auto
    have "unat w * j + i < length e" using s(2) fit i assms(3) by simp
    from affinemap_pixel_ok [OF assms(1,2) this, of ri r] s
    show "\<exists>s'. affinemap_pixel ri w h src s = Some s' \<and> ?I (Suc i) s'" by auto
  qed simp
  then obtain r' d' where l: "for_loop 0 (unat w) (\<lambda>i. affinemap_pixel ri w h src) (c, int (unat w * j), d) =
      Some (r', int (unat w * j + unat w), d')" "length d' = length d" by auto
  have "unat w * j + unat w = unat w * Suc j" by simp
  with l show ?thesis by (simp only: affinemap_row_def) simp
qed

lemma affinemap_safe:
  assumes "plane_size_ok w h" "length src = unat w * unat h" "length dst = unat w * unat h"
  shows "\<exists>dst'. affinemap_loops cs ri ci w h src dst = Some dst' \<and> length dst' = length dst"
proof -
  let ?J = "\<lambda>j (s :: (u32 \<times> u32) \<times> int \<times> plane). fst (snd s) = int (unat w * j) \<and> length (snd (snd s)) = length dst"
  have "\<exists>s'. for_loop 0 (unat h) (\<lambda>j. affinemap_row ri ci w h src) (cs, 0, dst) = Some s' \<and> ?J (0 + unat h) s'"
  proof (rule for_loop_inv)
    fix j s
    assume j: "j < 0 + unat h" and J: "?J j s"
    obtain c d where s: "s = (c, int (unat w * j), d)" "length d = length dst" using J by (cases s) auto
    from affinemap_row_ok [OF assms(1,2), of d j ri ci c] s j assms(3)
    show "\<exists>s'. affinemap_row ri ci w h src s = Some s' \<and> ?J (Suc j) s'" by auto
  qed simp
  then show ?thesis by (auto simp: affinemap_loops_def)
qed

section \<open>Random mixing\<close>

fun randmix_ref :: "('g \<Rightarrow> int \<times> 'g) \<Rightarrow> int \<Rightarrow> 'g \<Rightarrow> s16 list \<Rightarrow> s16 list \<Rightarrow> 'g \<times> s16 list" where
  "randmix_ref random t g (x # xs) (y # ys) =
     (let (v, g) = random g; (g', zs) = randmix_ref random t g xs ys in (g', (if v AND 0x7fff < t then y else x) # zs))"
| "randmix_ref random t g xs ys = (g, [])"

lemma randmix_loop:
  assumes "length xs = length ys" "length us = i" "length vs = i"
  shows "for_loop i (length xs) (\<lambda>i (g, im).
       let (v, g) = random g; r = v AND 0x7fff in
       if r < t then do { b \<leftarrow> rd (vs @ ys) (int i); im \<leftarrow> wr im (int i) b; Some (g, im) }
       else Some (g, im)) (g, us @ xs) =
    (let (g', zs) = randmix_ref random t g xs ys in Some (g', us @ zs))"
  using assms
proof (induction xs ys arbitrary: g us vs i rule: list_induct2)
  case (Cons x xs y ys)
  obtain v g1 where g: "random g = (v, g1)" by (cases "random g") auto
  have split: "us @ z # xs = (us @ [z]) @ xs" "vs @ y # ys = (vs @ [y]) @ ys" for z by simp_all
  have upd: "(us @ x # xs)[i := z] = us @ z # xs" for z using Cons.prems by (auto simp: list_update_append)
  show ?case
    using Cons.IH [of "us @ [if v AND 0x7fff < t then y else x]" "Suc i" "vs @ [y]" g1, unfolded append_assoc append_Cons append_Nil] Cons.prems g
    by (auto simp: Let_def upd nth_append split: prod.splits)
qed simp

lemma randmix_pixelwise:
  assumes "length im = unat (w * h)" "length im2 = unat (w * h)"
  shows "pdp_imageproc_randmix_process srandom random d w h im im2 =
    Some (randmix_ref random (d ! 0) (srandom (word_of_int (d ! 1))) im im2)"
  using randmix_loop [of im im2 "[]" 0 "[]" random "d ! 0" "srandom (word_of_int (d ! 1))", unfolded append_Nil] assms
  by (simp add: pdp_imageproc_randmix_process_def Let_def split_beta)

lemma randmix_none: "length xs = length ys \<Longrightarrow> snd (randmix_ref random 0 g xs ys) = xs"
  by (induction xs ys arbitrary: g rule: list_induct2) (simp_all add: split_beta Let_def not_less)

section \<open>Gain\<close>

lemma gain_loop_spec:
  assumes "gain_loop n g s = (g', s')" "0 \<le> g"
  shows "g' = g * 2 ^ (s' - s) \<and> s \<le> s' \<and> s' \<le> s + n \<and> (g' < 0x4000 \<or> g' < 0x8000 \<or> g' = g)"
  using assms
proof (induction n g s rule: gain_loop.induct)
  case (2 n g s)
  show ?case
  proof (cases "g < 0x4000")
    case True
    then have g': "g' = g * 2 * 2 ^ (s' - Suc s)" "Suc s \<le> s'" "s' \<le> Suc s + n" "g' < 0x8000 \<or> g' = g * 2"
      using 2 by auto
    moreover have "s' - s = Suc (s' - Suc s)" using g'(2) by simp
    ultimately show ?thesis using True by auto
  qed (use 2 in auto)
qed auto

lemma setgain_fixed:
  assumes "\<bar>gain\<bar> < 0x8000" "d = pdp_imageproc_gain_setgain gain [a, b]"
  shows "\<bar>d ! 0\<bar> \<le> 0x7fff \<and> 0 \<le> d ! 1 \<and> d ! 1 \<le> 17 \<and> \<bar>gain * 2 ^ nat (d ! 1) - of_int (d ! 0)\<bar> < 1"
proof -
  define sign :: rat where "sign = (if gain < 0 then -1 else 1)"
  obtain g s where gs: "gain_loop 17 (gain * sign) 0 = (g, s)" by (cases "gain_loop 17 (gain * sign) 0")
  have nn: "0 \<le> gain * sign" "gain * sign = \<bar>gain\<bar>" by (auto simp: sign_def)
  note sp = gain_loop_spec [OF gs nn(1)]
  have g: "g = \<bar>gain\<bar> * 2 ^ s" "s \<le> 17" "g < 0x8000" "0 \<le> g" using sp assms(1) nn by auto
  have d: "d = [trunc (g * sign), int s]"
    using gs by (simp add: assms(2) pdp_imageproc_gain_setgain_def sign_def [symmetric] Let_def)
  have v: "g * sign = gain * 2 ^ s" using g(1) by (auto simp: sign_def)
  have "\<bar>g * sign\<bar> = g" using g(4) by (simp add: sign_def)
  then have "\<bar>g * sign\<bar> < 0x8000" using g(3) by simp
  then have "\<bar>trunc (g * sign)\<bar> \<le> 0x7fff" unfolding trunc_def by (auto; linarith)
  moreover have "\<bar>g * sign - of_int (trunc (g * sign))\<bar> < 1" unfolding trunc_def by (auto; linarith)
  ultimately show ?thesis using g(2) by (simp add: d v)
qed

section \<open>Colour rotation\<close>

lemma for_loop_pairs:
  assumes "length xs = 2 * n"
    and "\<And>i b. i < n \<Longrightarrow> length b = length xs \<Longrightarrow> f i b = Some (b[i := p (b ! i) (b ! (n + i)), n + i := q (b ! i) (b ! (n + i))])"
  shows "\<exists>b. for_loop 0 n f xs = Some b \<and> length b = length xs \<and>
    (\<forall>i < n. b ! i = p (xs ! i) (xs ! (n + i)) \<and> b ! (n + i) = q (xs ! i) (xs ! (n + i)))"
proof -
  let ?I = "\<lambda>j b. length b = length xs \<and> (\<forall>i < n. b ! i = (if i < j then p (xs ! i) (xs ! (n + i)) else xs ! i) \<and>
    b ! (n + i) = (if i < j then q (xs ! i) (xs ! (n + i)) else xs ! (n + i)))"
  have "\<exists>b. for_loop 0 n f xs = Some b \<and> ?I (0 + n) b"
  proof (rule for_loop_inv)
    fix j b
    assume j: "j < 0 + n" and I: "?I j b"
    then have f: "f j b = Some (b[j := p (xs ! j) (xs ! (n + j)), n + j := q (xs ! j) (xs ! (n + j))])"
      using assms(2) [of j b] by auto
    show "\<exists>b'. f j b = Some b' \<and> ?I (Suc j) b'"
      unfolding f using I j assms(1) by (auto simp: nth_list_update less_Suc_eq)
  qed simp
  then show ?thesis by auto
qed

lemma crot2d_pixels:
  assumes "length im = 2 * unat (w * h)" "unat (w * h) < 2 ^ 31" and d: "\<forall>i < 4. \<bar>d ! i\<bar> \<le> 0x7fff"
  shows "\<exists>im'. pdp_imageproc_crot2d_process d im w h = Some im' \<and> length im' = length im \<and>
    (\<forall>i < unat (w * h). sint (im' ! i) = CLAMP16 (asr (d ! 0 * sint (im ! i) + d ! 2 * sint (im ! (unat (w * h) + i))) 15) \<and>
       sint (im' ! (unat (w * h) + i)) = CLAMP16 (asr (d ! 1 * sint (im ! i) + d ! 3 * sint (im ! (unat (w * h) + i))) 15))"
proof -
  define n where "n = unat (w * h)"
  have j: "uint (w * h + of_nat i) = int (n + i)" if "i < n" for i
  proof -
    have "w * h + of_nat i = of_nat (n + i)" by (simp add: n_def)
    moreover have "n + i < 2 ^ 32" using that assms(2) by (simp add: n_def)
    ultimately show ?thesis by (simp only: uint_of_nat_u32)
  qed
  have b: "wrap32 (wrap32 (d ! k * sint x) + wrap32 (d ! l * sint y)) = d ! k * sint x + d ! l * sint y"
    if "k < 4" "l < 4" for k l and x y :: s16
    using mix_no_overflow [of "d ! k" "d ! l" x y] d that by (simp add: mult.commute)
  define p where "p x y = to_s16 (CLAMP16 (asr (d ! 0 * sint x + d ! 2 * sint y) 15))" for x y :: s16
  define q where "q x y = to_s16 (CLAMP16 (asr (d ! 1 * sint x + d ! 3 * sint y) 15))" for x y :: s16
  have "\<exists>im'. pdp_imageproc_crot2d_process d im w h = Some im' \<and> length im' = length im \<and>
    (\<forall>i < n. im' ! i = p (im ! i) (im ! (n + i)) \<and> im' ! (n + i) = q (im ! i) (im ! (n + i)))"
    unfolding pdp_imageproc_crot2d_process_def n_def [symmetric]
    by (rule for_loop_pairs [where p = p and q = q])
      (use assms(1) in \<open>simp_all add: n_def [symmetric] j b p_def q_def del: of_nat_add\<close>)
  then show ?thesis by (auto simp: p_def q_def n_def)
qed

section \<open>Chebyshev polynomials\<close>

definition cheby_wf :: "t_cheby \<Rightarrow> bool" where
  "cheby_wf z \<longleftrightarrow> 2 \<le> unat (order z) \<and> length (coefs z) = unat (order z) + 1"

lemma cheby_wf_ops:
  assumes "n < 2 ^ 31"
  shows "cheby_wf (pdp_imageproc_cheby_new g n)"
    and "cheby_wf z \<Longrightarrow> cheby_wf (pdp_imageproc_cheby_setnbpasses k z)"
    and "cheby_wf z \<Longrightarrow> cheby_wf (pdp_imageproc_cheby_setcoef rnd i f z)"
proof -
  have u: "unat (word_of_int m :: u32) = nat m" if "0 \<le> m" "m < 2 ^ 31" for m
    using that by (simp add: unsigned_of_int take_bit_int_eq_self)
  show "cheby_wf (pdp_imageproc_cheby_new g n)"
    using u [of n] u [of 2] assms by (auto simp: cheby_wf_def pdp_imageproc_cheby_new_def Let_def)
qed (simp_all add: cheby_wf_def pdp_imageproc_cheby_setnbpasses_def pdp_imageproc_cheby_setcoef_def)

lemma cheby_pass_total:
  assumes "cheby_wf z"
  shows "\<exists>acc'. cheby_pass z acc = Some acc'"
proof -
  let ?body = "\<lambda>k (T1, T2, acc').
             do { let t = wrap32 (asr (wrap32 (T1 * acc)) 14 - T2);
                  c \<leftarrow> rd (coefs z) (int k);
                  Some (t, T1, wrap32 (acc' + asr (wrap32 (c * t)) 15)) }"
  have c: "rd (coefs z) 0 = Some (coefs z ! 0)" "rd (coefs z) 1 = Some (coefs z ! 1)"
    using assms rd_nat [of 0 "coefs z"] rd_nat [of 1 "coefs z"] by (simp_all add: cheby_wf_def)
  have "\<exists>s'. for_loop 2 (unat (order z) - 1) ?body s = Some s' \<and> True" for s
    by (rule for_loop_inv [where I = "\<lambda>_ _. True"]) (use assms in \<open>auto simp: cheby_wf_def Let_def\<close>)
  then obtain T1 T2 acc' where "for_loop 2 (unat (order z) - 1) ?body
      (acc, 0x7fff, wrap32 (coefs z ! 0 + asr (wrap32 (acc * coefs z ! 1)) 15)) = Some (T1, T2, acc')" by (metis prod_cases3)
  then have "cheby_pass z acc = Some acc'" unfolding cheby_pass_def Let_def c bind.bind_lunit by simp
  then show ?thesis ..
qed

lemma cheby_total:
  assumes "cheby_wf z" "length im = unat (w * h)"
  shows "\<exists>f. pdp_imageproc_cheby_process z w h im = Some (map (\<lambda>x. to_s16 (CLAMP16 (f (sint x)))) im)"
proof -
  have "\<exists>acc. for_loop 0 (unat (passes z)) (\<lambda>i. cheby_pass z) x = Some acc \<and> True" for x
    by (rule for_loop_inv [where I = "\<lambda>_ _. True"]) (use cheby_pass_total [OF assms(1)] in auto)
  then obtain f where f: "\<And>x. for_loop 0 (unat (passes z)) (\<lambda>i. cheby_pass z) x = Some (f x)" by metis
  have "pdp_imageproc_cheby_process z w h im = Some (map (\<lambda>i. to_s16 (CLAMP16 (f (sint (im ! i))))) [0..<length im])"
    unfolding pdp_imageproc_cheby_process_def mult.commute [of h w] using assms(2)
    by (subst for_pixels [where g = "\<lambda>i x. to_s16 (CLAMP16 (f (sint x)))"]) (simp_all add: f)
  then show ?thesis using map_nth_upt [of "length im" im "\<lambda>x. to_s16 (CLAMP16 (f (sint x)))"] by auto
qed

section \<open>Properties\<close>

text \<open>
  C14: the in-place convolution of \<open>pdp_imageproc_conv_process\<close> is the convolution: in a plane of at
  least two by two pixels it returns, and every row (or column, for the vertical orientation) is the
  old row put \<open>nbpasses\<close> times through the reference \<open>conv_line\<close>, in which each new pixel is computed
  from the three old ones around it, with the border colour at both ends, although the routine
  overwrites the line while it reads it.
\<close>

theorem conv_in_place_correct:
  assumes "unat w * unat h < 2 ^ 32" and "2 \<le> unat w" and "2 \<le> unat h" and "length im = unat w * unat h"
    and "d ! 4 \<in> {PDP_IMAGEPROC_CONV_HORIZONTAL, PDP_IMAGEPROC_CONV_VERTICAL}"
  shows "\<exists>im'. pdp_imageproc_conv_process d w h im = Some im' \<and> length im' = length im \<and>
    (d ! 4 = PDP_IMAGEPROC_CONV_HORIZONTAL \<longrightarrow> (\<forall>y < unat h. getline im' (int (unat w * y)) 1 (unat w) =
       (conv_line d ^^ unat (word_of_int (d ! 5) :: u32)) (getline im (int (unat w * y)) 1 (unat w)))) \<and>
    (d ! 4 = PDP_IMAGEPROC_CONV_VERTICAL \<longrightarrow> (\<forall>x < unat w. getline im' (int x) (int (unat w)) (unat h) =
       (conv_line d ^^ unat (word_of_int (d ! 5) :: u32)) (getline im (int x) (int (unat w)) (unat h))))"
proof (cases "d ! 4 = PDP_IMAGEPROC_CONV_HORIZONTAL")
  case True
  then have "d ! 4 \<noteq> PDP_IMAGEPROC_CONV_VERTICAL" by (simp add: PDP_IMAGEPROC_CONV_HORIZONTAL_def PDP_IMAGEPROC_CONV_VERTICAL_def)
  with conv_horizontal [OF True assms(1,2,4)] True show ?thesis by blast
next
  case False
  then have "d ! 4 = PDP_IMAGEPROC_CONV_VERTICAL" using assms(5) by simp
  with conv_vertical [OF this assms(3,4)] False show ?thesis by blast
qed

theorem conv_in_place_correct_witness:
  "\<exists>im'. pdp_imageproc_conv_process [0x4000, 0, 0x4000, 0, 0, 2] 4 2 [100, 200, 300, 400, -100, -200, -300, -400] = Some im' \<and>
     getline im' 4 1 4 = (conv_line [0x4000, 0, 0x4000, 0, 0, 2] ^^ 2) [-100, -200, -300, -400]"
proof -
  let ?d = "[0x4000, 0, 0x4000, 0, 0, 2] :: int list" and ?im = "[100, 200, 300, 400, -100, -200, -300, -400] :: plane"
  have g: "getline ?im (int (4 * 1)) 1 4 = [-100, -200, -300, -400]" by (simp add: getline_def upt_rec numeral_nat)
  from conv_in_place_correct [of 4 2 ?im ?d]
  obtain im' where "pdp_imageproc_conv_process ?d 4 2 ?im = Some im'"
    "\<forall>y < 2. getline im' (int (4 * y)) 1 4 = (conv_line ?d ^^ 2) (getline ?im (int (4 * y)) 1 4)"
    by (auto simp: PDP_IMAGEPROC_CONV_HORIZONTAL_def)
  moreover from this(2) [rule_format, of 1] have "getline im' 4 1 4 = (conv_line ?d ^^ 2) [-100, -200, -300, -400]"
    unfolding g by simp
  ultimately show ?thesis by blast
qed

text \<open>
  mixing with gains set from any two numbers never overflows the 32-bit accumulator and gives,
  for every pixel pair, the clamped exact sum of the products of pixels and gains in fixed point;
  except that with a left gain that is zero in fixed point the result is the right image itself,
  whatever the right gain.
\<close>

theorem mix_fixed_point:
  assumes "rounding rnd" and "length im = unat (w * h)" and "length im2 = unat (w * h)"
    and "d = pdp_imageproc_mix_setrightgain rnd gr (pdp_imageproc_mix_setleftgain rnd gl [a, b])"
  shows "pdp_imageproc_mix_process d w h im im2 = Some (if float2fixed rnd gl = 0 then im2
    else map2 (\<lambda>x y. to_s16 (CLAMP16 ((sint x * float2fixed rnd gl + sint y * float2fixed rnd gr) div 2 ^ 15))) im im2)"
proof -
  have d: "d = [float2fixed rnd gl, float2fixed rnd gr]"
    by (simp add: assms(4) pdp_imageproc_mix_setrightgain_def pdp_imageproc_mix_setleftgain_def)
  show ?thesis unfolding mix_pixelwise [OF assms(2,3)]
    by (simp add: d mix_no_overflow [OF float2fixed_bounds [OF assms(1)] float2fixed_bounds [OF assms(1)]] asr_def)
qed

lemma rounding_id: "rounding (\<lambda>x. x)"
  by (simp add: rounding_def mono_def)

theorem mix_fixed_point_witness:
  "pdp_imageproc_mix_process (pdp_imageproc_mix_setrightgain (\<lambda>x. x) (1/2) (pdp_imageproc_mix_setleftgain (\<lambda>x. x) 0 [0, 0])) 2 1 [7, 8] [100, 200]
     = Some [100, 200]"
  by (subst mix_fixed_point [OF rounding_id _ _ refl]) (simp_all add: float2fixed_def trunc_def)

text \<open>
  a gain below \<open>0x8000\<close> in magnitude becomes a 16-bit mantissa and a shift of at most 17 with an
  error of less than one unit of the mantissa, and applying it never overflows: each pixel is the
  clamped, shifted product.
\<close>

theorem gain_fixed_point:
  assumes "\<bar>gain\<bar> < 0x8000" and "d = pdp_imageproc_gain_setgain gain [a, b]" and "length im = unat (w * h)"
  shows "d ! 1 \<le> 17 \<and> \<bar>gain * 2 ^ nat (d ! 1) - of_int (d ! 0)\<bar> < 1 \<and>
    pdp_imageproc_gain_process d w h im = Some (map (\<lambda>x. to_s16 (CLAMP16 ((sint x * d ! 0) div 2 ^ nat (d ! 1)))) im)"
proof -
  note s = setgain_fixed [OF assms(1,2)]
  have "wrap32 (sint x * d ! 0) = sint x * d ! 0" for x :: s16
    using pixel_gain_bound [OF conjunct1 [OF s], of x] by (intro wrap32_small) simp
  then show ?thesis using s by (simp add: gain_pixelwise [OF assms(3)] asr_def)
qed

theorem gain_fixed_point_witness:
  "\<bar>(3 / 2) * 2 ^ nat (pdp_imageproc_gain_setgain (3 / 2) [0, 0] ! 1) - of_int (pdp_imageproc_gain_setgain (3 / 2) [0, 0] ! 0)\<bar> < (1 :: rat)"
  using gain_fixed_point [OF _ refl, of "3 / 2" "[5]" 1 1 0 0] by simp

text \<open>
  C28: a biquad scanline in either direction writes the outputs of the filter recurrence run over the
  old pixels of its line, and carries the recurrence's state into the next scanline; the whole filter
  returns and stays inside its plane for all direction bits and numbers of passes.
\<close>

theorem biquad_filters_lines:
  assumes "length im = unat w * unat h" and "unat w * unat h < 2 ^ 32" and "0 < w" and "0 < h"
  shows "(\<forall>p stride count out v1 v2. line_ok im p stride (unat count) \<and>
      bq_run d (u0_save d) (u1_save d) (getline im p stride (unat count)) = (out, v1, v2) \<longrightarrow>
      (\<exists>im'. pdp_imageproc_bq_scanline im p count stride d = Some (d\<lparr>u0_save := v1, u1_save := v2\<rparr>, im') \<and>
        line_upd im p stride out im')) \<and>
    (\<exists>d' im'. pdp_imageproc_bq_process d w h im = Some (d', im') \<and> length im' = length im)"
  using bq_scanline_line [of im _ _ _ _ d] bq_process_total [OF assms(2,3,4,1), of d] by blast

definition demo_bq :: t_bq where
  "demo_bq = \<lparr>ma1 = 0x1000, ma2 = 0, b0 = 0x2000, b1 = 0, b2 = 0, u0 = 0, u1 = 0, u0_save = 0, u1_save = 0,
     nbpasses = 1, direction = 12\<rparr>"

theorem biquad_filters_lines_witness:
  "\<exists>d' im'. pdp_imageproc_bq_process demo_bq 2 2 [100, 200, 300, 400] = Some (d', im') \<and> length im' = 4"
  using biquad_filters_lines [of "[100, 200, 300, 400]" 2 2 demo_bq] by auto

text \<open>
  bilinear resampling reads only inside its source plane and the result lies between the smallest
  and the largest source pixel, for all 16-bit virtual coordinates; so the affine map, which lets its
  coordinates wrap around, fills the destination plane and neither reads nor writes outside, whatever
  start coordinates and increments it is given.
\<close>

theorem resample_stays_inside:
  assumes "plane_size_ok w h" and "length src = unat w * unat h" and "length dst = unat w * unat h"
    and "\<forall>p \<in> set src. lo \<le> sint p \<and> sint p \<le> hi"
  shows "(\<forall>vx vy. 0 \<le> vx \<and> vx \<le> 0xffff \<and> 0 \<le> vy \<and> vy \<le> 0xffff \<longrightarrow>
      (\<exists>r. pdp_resample_bilin src (int (unat w)) (int (unat h)) vx vy = Some r \<and> max lo (-32768) \<le> r \<and> r \<le> min hi 32767)) \<and>
    (\<exists>dst'. affinemap_loops colstate row_inc col_inc w h src dst = Some dst' \<and> length dst' = length dst)"
proof (intro conjI allI impI)
  define W H where "W = unat w" and "H = unat h"
  have W: "2 \<le> W" "W \<le> 32768" "2 \<le> H" "H \<le> 32768" "W * H < 2 ^ 31" "length src = W * H"
    using assms(1,2) by (simp_all add: plane_size_ok_def W_def H_def)
  fix vx vy :: int
  assume v: "0 \<le> vx \<and> vx \<le> 0xffff \<and> 0 \<le> vy \<and> vy \<le> 0xffff"
  have "max lo (-32768) \<le> sint p \<and> sint p \<le> min hi 32767" if "p \<in> set src" for p
    using assms(4) that sint_s16_bounds [of p] by auto
  then have "\<exists>r. pdp_resample_bilin src (int W) (int H) vx vy = Some r \<and> max lo (-32768) \<le> r \<and> r \<le> min hi 32767"
    by (intro bilin_safe) (use W v in \<open>simp_all flip: of_nat_mult\<close>)
  then show "\<exists>r. pdp_resample_bilin src (int (unat w)) (int (unat h)) vx vy = Some r \<and> max lo (-32768) \<le> r \<and> r \<le> min hi 32767"
    unfolding W_def H_def .
qed (rule affinemap_safe [OF assms(1-3)])

theorem resample_stays_inside_witness:
  "\<exists>r. pdp_resample_bilin [10, 20, 30, 40] 2 2 0x8000 0x8000 = Some r \<and> 10 \<le> r \<and> r \<le> 40"
proof -
  have "plane_size_ok 2 2" by (simp add: plane_size_ok_def)
  from resample_stays_inside [OF this, of "[10, 20, 30, 40]" "[0, 0, 0, 0]" 10 40]
  show ?thesis by simp
qed

text \<open>A threshold of one does not give the right image where the random number is \<open>0x7fff\<close>.\<close>

lemma randmix_threshold_one:
  "pdp_imageproc_randmix_process (\<lambda>s. ()) (\<lambda>g. (0x7fff, ())) (pdp_imageproc_randmix_setthreshold (\<lambda>x. x) 1 [0, 0]) 1 1 [5] [6]
     = Some ((), [5])"
  by (simp add: randmix_pixelwise pdp_imageproc_randmix_setthreshold_def float2fixed_def trunc_def)

end
