(* ===== verification/Resample.thy ===== *)
theory Resample
  imports ImageProcOk "HOL-Library.Signed_Division"
begin

text \<open>
  The scalers of \<^verbatim>\<open>system/image/pdp_resample.c\<close>: bilinear and nearest neighbour scaling, halving and
  doubling of a plane. Sizes are C \<open>int\<close>s; a pointer into a packet is the part of the buffer behind it.
  The properties: scaling is total on legal sizes, never reads outside the source, and every pixel
  is the interpolated (nearest) source pixel; halving undoes doubling.
\<close>

section \<open>The scalers\<close>

text \<open>\<open>for (i = i0; i < n; i += w)\<close> over a signed counter.\<close>

partial_function (option) int_loop ::
  "int \<Rightarrow> int \<Rightarrow> int \<Rightarrow> (int \<Rightarrow> 's \<Rightarrow> 's option) \<Rightarrow> 's \<Rightarrow> 's option" where [code]:
  "int_loop i n w f s = (if i < n then do { s \<leftarrow> f i s; int_loop (wrap32 (i + w)) n w f s } else Some s)"

definition resample_bilin :: "plane \<Rightarrow> int \<Rightarrow> int \<Rightarrow> int \<Rightarrow> int \<Rightarrow> int option" where
  "resample_bilin im width height virt_x virt_y =
     do { let virt_x = virt_x AND 0xffff;
          let virt_y = virt_y AND 0xffff;
          let fp_x = wrap32 (virt_x * (width - 1));
          let fp_y = wrap32 (virt_y * (height - 1));
          let frac_x = fp_x AND 0xffff;
          let frac_y = fp_y AND 0xffff;
          let p = wrap32 (asr fp_x 16 + wrap32 (asr fp_y 16 * width));
          let f = 0x10000 - frac_x;
          a0 \<leftarrow> rd im p;
          a1 \<leftarrow> rd im (p + 1);
          let r_1 = asr (wrap32 (wrap32 (f * sint a0) + wrap32 (frac_x * sint a1))) 16;
          let p = p + width;
          a0 \<leftarrow> rd im p;
          a1 \<leftarrow> rd im (p + 1);
          let r_2 = asr (wrap32 (wrap32 (f * sint a0) + wrap32 (frac_x * sint a1))) 16;
          let f = 0x10000 - frac_y;
          Some (asr (wrap32 (wrap32 (f * r_1) + wrap32 (frac_y * r_2))) 16) }"

definition bilin_pixel :: "plane \<Rightarrow> int \<Rightarrow> int \<Rightarrow> int \<Rightarrow> int \<Rightarrow> int \<times> int \<times> plane \<Rightarrow> (int \<times> int \<times> plane) option" where
  "bilin_pixel src_image src_w src_h scale_x virt_y s =
     (case s of (virt_x, k, dst) \<Rightarrow>
        do { v \<leftarrow> resample_bilin src_image src_w src_h (asr virt_x 14) (asr virt_y 14);
             dst \<leftarrow> wr dst k (to_s16 v);
             Some (wrap32 (virt_x + scale_x), k + 1, dst) })"

definition bilin_row ::
  "plane \<Rightarrow> int \<Rightarrow> int \<Rightarrow> int \<Rightarrow> int \<Rightarrow> int \<Rightarrow> int \<times> int \<times> plane \<Rightarrow> (int \<times> int \<times> plane) option" where
  "bilin_row src_image src_w src_h dst_w scale_x scale_y s =
     (case s of (virt_y, k, dst) \<Rightarrow>
        do { (virt_x, k, dst) \<leftarrow>
               for_loop 0 (nat dst_w) (\<lambda>i. bilin_pixel src_image src_w src_h scale_x virt_y) (0, k, dst);
             Some (wrap32 (virt_y + scale_y), k, dst) })"

text \<open>A zero size makes the division trap.\<close>

definition pdp_resample_scale_bilin :: "plane \<Rightarrow> plane \<Rightarrow> int \<Rightarrow> int \<Rightarrow> int \<Rightarrow> int \<Rightarrow> plane option" where
  "pdp_resample_scale_bilin src_image dst_image src_w src_h dst_w dst_h =
     (if dst_w = 0 \<or> dst_h = 0 then None
      else do { let scale_x = 0x40000000 sdiv dst_w;
                let scale_y = 0x40000000 sdiv dst_h;
                (virt_y, k, dst) \<leftarrow>
                  for_loop 0 (nat dst_h) (\<lambda>j. bilin_row src_image src_w src_h dst_w scale_x scale_y) (0, 0, dst_image);
                Some dst })"

definition nn_pixel :: "plane \<Rightarrow> int \<Rightarrow> int \<Rightarrow> (int \<times> int) \<times> int \<times> plane \<Rightarrow> ((int \<times> int) \<times> int \<times> plane) option" where
  "nn_pixel src_image scale_x y s =
     (case s of ((x, frac_x), k, dst) \<Rightarrow>
        do { v \<leftarrow> rd src_image (x + y);
             dst \<leftarrow> wr dst k v;
             let frac_x = wrap32 (frac_x + scale_x);
             Some ((asr frac_x 20, frac_x), k + 1, dst) })"

definition nn_row ::
  "plane \<Rightarrow> int \<Rightarrow> int \<Rightarrow> int \<Rightarrow> int \<Rightarrow> (int \<times> int) \<times> int \<times> plane \<Rightarrow> ((int \<times> int) \<times> int \<times> plane) option" where
  "nn_row src_image src_w dst_w scale_x scale_y s =
     (case s of ((y, frac_y), k, dst) \<Rightarrow>
        do { (xf, k, dst) \<leftarrow> for_loop 0 (nat dst_w) (\<lambda>i. nn_pixel src_image scale_x y) ((0, 0), k, dst);
             let frac_y = wrap32 (frac_y + scale_y);
             Some ((wrap32 (asr frac_y 20 * src_w), frac_y), k, dst) })"

definition pdp_resample_scale_nn :: "plane \<Rightarrow> plane \<Rightarrow> int \<Rightarrow> int \<Rightarrow> int \<Rightarrow> int \<Rightarrow> plane option" where
  "pdp_resample_scale_nn src_image dst_image src_w src_h dst_w dst_h =
     (if dst_w = 0 \<or> dst_h = 0 then None
      else do { let scale_x = wrap32 (src_w * 2 ^ 20) sdiv dst_w;
                let scale_y = wrap32 (src_h * 2 ^ 20) sdiv dst_h;
                (yf, k, dst) \<leftarrow>
                  for_loop 0 (nat dst_h) (\<lambda>j. nn_row src_image src_w dst_w scale_x scale_y) ((0, 0), 0, dst_image);
                Some dst })"

definition halve_pixel :: "plane \<Rightarrow> int \<Rightarrow> int \<Rightarrow> int \<Rightarrow> nat \<Rightarrow> int \<times> plane \<Rightarrow> (int \<times> plane) option" where
  "halve_pixel src_image src_w src_y dst_y dst_x s =
     (case s of (src_x, dst) \<Rightarrow>
        do { tmp1 \<leftarrow> rd src_image (src_y + src_x);
             tmp2 \<leftarrow> rd src_image (src_y + src_x + 1);
             tmp3 \<leftarrow> rd src_image (src_y + src_x + src_w);
             tmp4 \<leftarrow> rd src_image (src_y + src_x + src_w + 1);
             dst \<leftarrow> wr dst (int dst_x + dst_y) (to_s16 (asr (sint tmp1 + sint tmp2 + (sint tmp3 + sint tmp4)) 2));
             Some (src_x + 2, dst) })"

definition halve_row :: "plane \<Rightarrow> int \<Rightarrow> int \<Rightarrow> int \<Rightarrow> int \<times> plane \<Rightarrow> (int \<times> plane) option" where
  "halve_row src_image src_w dst_w dst_y s =
     (case s of (src_y, dst) \<Rightarrow>
        do { (src_x, dst) \<leftarrow> for_loop 0 (nat dst_w) (halve_pixel src_image src_w src_y dst_y) (0, dst);
             Some (src_y + wrap32 (src_w * 2), dst) })"

definition pdp_resample_halve :: "plane \<Rightarrow> plane \<Rightarrow> int \<Rightarrow> int \<Rightarrow> plane option" where
  "pdp_resample_halve src_image dst_image src_w src_h =
     do { let dst_w = asr src_w 1;
          let dst_h = asr src_h 1;
          (src_y, dst) \<leftarrow> int_loop 0 (wrap32 (dst_h * dst_w)) dst_w (halve_row src_image src_w dst_w) (0, dst_image);
          Some dst }"

definition double_pixel :: "plane \<Rightarrow> int \<Rightarrow> int \<Rightarrow> nat \<Rightarrow> int \<times> plane \<Rightarrow> (int \<times> plane) option" where
  "double_pixel src_image dst_w src_y src_x s =
     (case s of (k, dst_image) \<Rightarrow>
        do { tmp \<leftarrow> rd src_image k;
             let dst = wrap32 (wrap32 (src_y * 4) + int src_x * 2);
             dst_image \<leftarrow> wr dst_image dst tmp;
             dst_image \<leftarrow> wr dst_image (dst + 1) tmp;
             let dst = dst + dst_w;
             dst_image \<leftarrow> wr dst_image dst tmp;
             dst_image \<leftarrow> wr dst_image (dst + 1) tmp;
             Some (k + 1, dst_image) })"

definition pdp_resample_double :: "plane \<Rightarrow> plane \<Rightarrow> int \<Rightarrow> int \<Rightarrow> plane option" where
  "pdp_resample_double src_image dst_image src_w src_h =
     do { let dst_w = wrap32 (src_w * 2);
          (k, dst) \<leftarrow>
            int_loop 0 (wrap32 (src_h * src_w)) src_w
              (\<lambda>src_y. for_loop 0 (nat src_w) (double_pixel src_image dst_w src_y)) (0, dst_image);
          Some dst }"

section \<open>Raster loops\<close>

lemma wrap32_nat: "int n < 2 ^ 31 \<Longrightarrow> wrap32 (int n) = int n"
  by (rule wrap32_id) (simp add: in_s32_def)

lemma for_loop_seq:
  "(\<And>k. k < n \<Longrightarrow> f (i + k) (s k) = Some (s (Suc k))) \<Longrightarrow> for_loop i n f (s 0) = Some (s n)"
proof (induction n)
  case (Suc n)
  then have "for_loop i n f (s 0) = Some (s n)" "f (i + n) (s n) = Some (s (Suc n))" by simp_all
  then show ?case using for_loop_add [of i n 1 f "s 0"] by simp
qed simp

text \<open>A buffer whose first \<open>n\<close> pixels have been written.\<close>

definition filled :: "(nat \<Rightarrow> 'a) \<Rightarrow> 'a list \<Rightarrow> nat \<Rightarrow> 'a list" where
  "filled px d n = map px [0..<n] @ drop n d"

lemma filled_0 [simp]: "filled px d 0 = d"
  by (simp add: filled_def)

lemma filled_all [simp]: "length d = n \<Longrightarrow> filled px d n = map px [0..<n]"
  by (simp add: filled_def)

lemma length_filled [simp]: "n \<le> length d \<Longrightarrow> length (filled px d n) = length d"
  by (simp add: filled_def)

lemma filled_Suc: "k < length d \<Longrightarrow> (filled px d k)[k := px k] = filled px d (Suc k)"
  by (simp add: filled_def list_update_append flip: Cons_nth_drop_Suc)

lemma wr_filled: "k < length d \<Longrightarrow> v = px k \<Longrightarrow> wr (filled px d k) (int k) v = Some (filled px d (Suc k))"
  by (simp add: filled_Suc)

lemma raster_lt: "i < w \<Longrightarrow> j < h \<Longrightarrow> w * j + i < w * (h :: nat)"
proof -
  assume a: "i < w" "j < h"
  then have "w * j + i < w * Suc j" by simp
  also have "\<dots> \<le> w * h" using a by (intro mult_le_mono2) simp
  finally show ?thesis .
qed

text \<open>Two nested loops that write pixel \<open>px j i\<close> at the running pointer.\<close>

lemma raster:
  assumes pix: "\<And>i j k d. i < w \<Longrightarrow> j < h \<Longrightarrow> k < length d \<Longrightarrow>
      pixel j (sx i, int k, d) = Some (sx (Suc i), int k + 1, d[k := px j i])"
    and row: "\<And>j k d. j < h \<Longrightarrow>
      row j (sy j, k, d) = do { (x, k, d) \<leftarrow> for_loop 0 w (\<lambda>i. pixel j) (sx 0, k, d); Some (sy (Suc j), k, d) }"
    and len: "w * h \<le> length d0"
  shows "for_loop 0 h row (sy 0, 0, d0) = Some (sy h, int (w * h), filled (\<lambda>k. px (k div w) (k mod w)) d0 (w * h))"
proof -
  let ?img = "filled (\<lambda>k. px (k div w) (k mod w)) d0"
  have inner: "for_loop 0 w (\<lambda>i. pixel j) (sx 0, int (w * j), ?img (w * j)) = Some (sx w, int (w * j + w), ?img (w * j + w))"
    if j: "j < h" for j
  proof -
    have "pixel j (sx i, int (w * j + i), ?img (w * j + i)) = Some (sx (Suc i), int (w * j + Suc i), ?img (w * j + Suc i))"
      if i: "i < w" for i
    proof -
      have k: "w * j + i < length d0" using raster_lt [OF i j] len by simp
      have px: "px j i = px ((w * j + i) div w) ((w * j + i) mod w)" using i by simp
      show ?thesis using pix [OF i j, of "w * j + i" "?img (w * j + i)"] k filled_Suc [OF k, of "\<lambda>k. px (k div w) (k mod w)"]
        unfolding px by simp
    qed
    from for_loop_seq [where s = "\<lambda>i. (sx i, int (w * j + i), ?img (w * j + i))" and i = 0 and n = w and f = "\<lambda>i. pixel j", OF this]
    show ?thesis by simp
  qed
  have "row j (sy j, int (w * j), ?img (w * j)) = Some (sy (Suc j), int (w * Suc j), ?img (w * Suc j))" if "j < h" for j
    using inner [OF that] by (simp add: row [OF that] algebra_simps)
  from for_loop_seq [where s = "\<lambda>j. (sy j, int (w * j), ?img (w * j))" and i = 0 and n = h and f = row] this
  show ?thesis by simp
qed

lemma int_loop_rows:
  assumes "0 < w" "int (w * h) < 2 ^ 31" "j \<le> h"
  shows "int_loop (int (w * j)) (int (w * h)) (int w) f s = for_loop j (h - j) (\<lambda>j. f (int (w * j))) s"
  using assms(3)
proof (induction "h - j" arbitrary: j s)
  case 0
  then show ?case by (simp add: int_loop.simps)
next
  case (Suc k)
  then have j: "j < h" by simp
  then have "w * Suc j \<le> w * h" by (intro mult_le_mono2) simp
  then have lt: "w * j < w * h" "wrap32 (int (w * j) + int w) = int (w * Suc j)"
    using assms(1,2) j by (auto intro!: wrap32_id simp: in_s32_def algebra_simps simp flip: of_nat_mult of_nat_add)
  have "int_loop (int (w * Suc j)) (int (w * h)) (int w) f = for_loop (Suc j) (h - Suc j) (\<lambda>j. f (int (w * j)))"
    by (rule ext, rule Suc(1)) (use Suc j in simp_all)
  moreover have "h - j = Suc (h - Suc j)" using j by simp
  moreover have "int (w * j) < int (w * h)" using lt(1) by (simp only: of_nat_less_iff)
  ultimately show ?case unfolding int_loop.simps [of "int (w * j)"] lt(2) by simp
qed

section \<open>Scaling\<close>

lemma resample_bilin_masked:
  "resample_bilin im w h vx vy = pdp_resample_bilin im w h (vx AND 0xffff) (vy AND 0xffff)"
  by (simp add: resample_bilin_def pdp_resample_bilin_def Let_def)

lemma sdiv_pos: "0 \<le> a \<Longrightarrow> 0 < b \<Longrightarrow> a sdiv b = (a div b :: int)"
  by (cases "a = 0") (simp_all add: signed_divide_int_def)

lemma div_mult_ge: "0 < b \<Longrightarrow> b * (a div b) \<le> (a :: int)"
proof -
  assume "0 < b"
  then have "0 \<le> a mod b" by simp
  with minus_mod_eq_mult_div [of a b] show ?thesis by linarith
qed

text \<open>The fixed point coordinate of column \<open>i\<close> out of \<open>n\<close>, in units of one \<open>m\<close>th of the source.\<close>

lemma coord_lt:
  assumes "i < n" "0 \<le> (m :: int)"
  shows "0 \<le> int i * (m div int n)" "int i * (m div int n) \<le> m"
proof -
  show "0 \<le> int i * (m div int n)" using assms by (simp add: pos_imp_zdiv_nonneg_iff)
  have "int i * (m div int n) \<le> int n * (m div int n)"
    using assms by (intro mult_right_mono) (simp_all add: pos_imp_zdiv_nonneg_iff)
  also have "\<dots> \<le> m" using assms(1) by (intro div_mult_ge) simp
  finally show "int i * (m div int n) \<le> m" .
qed

text \<open>The pixel that scaling to \<open>dw \<times> dh\<close> puts at column \<open>i\<close> of row \<open>j\<close>.\<close>

definition bilin_at :: "plane \<Rightarrow> int \<Rightarrow> int \<Rightarrow> nat \<Rightarrow> nat \<Rightarrow> nat \<Rightarrow> nat \<Rightarrow> s16" where
  "bilin_at src w h dw dh j i =
     to_s16 (the (pdp_resample_bilin src w h (int i * (0x40000000 div int dw) div 2 ^ 14) (int j * (0x40000000 div int dh) div 2 ^ 14)))"

lemma coord_virt:
  assumes "i < n" "v = int i * (0x40000000 div int n)"
  shows "asr v 14 AND 0xffff = v div 2 ^ 14" "0 \<le> v div 2 ^ 14" "v div 2 ^ 14 \<le> 0xffff" "wrap32 (v + 0x40000000 div int n) = int (Suc i) * (0x40000000 div int n)"
proof -
  let ?s = "0x40000000 div int n"
  have s: "0 \<le> ?s" using assms(1) by (simp add: pos_imp_zdiv_nonneg_iff)
  have n: "0 < int n" using assms(1) by simp
  have up: "int (Suc i) * ?s \<le> int n * ?s" using assms(1) s by (intro mult_right_mono) simp_all
  have top: "int n * ?s \<le> 0x40000000" using n by (rule div_mult_ge)
  have lo: "0 \<le> v" using assms s by simp
  show "0 \<le> v div 2 ^ 14" using lo by simp
  have suc: "v + ?s = int (Suc i) * ?s" using assms(2) by (simp add: algebra_simps)
  show "wrap32 (v + ?s) = int (Suc i) * ?s" unfolding suc using up top lo suc s by (intro wrap32_id) (simp add: in_s32_def)
  have "v < 0x40000000"
  proof (cases "?s = 0")
    case False
    then have "0 < ?s" using s by linarith
    with suc up top show ?thesis by linarith
  qed (simp add: assms(2))
  then show "v div 2 ^ 14 \<le> 0xffff" by simp
  then show "asr v 14 AND 0xffff = v div 2 ^ 14" using lo by (simp add: asr_def and_ffff)
qed

lemma bilin_defined:
  assumes "2 \<le> w" "w \<le> 32768" "2 \<le> h" "h \<le> 32768" "w * h < 2 ^ 31" "w * h \<le> int (length im)"
    and "0 \<le> vx" "vx \<le> 0xffff" "0 \<le> vy" "vy \<le> 0xffff"
  shows "\<exists>r. pdp_resample_bilin im w h vx vy = Some r"
proof -
  have "-32768 \<le> sint p \<and> sint p \<le> 32767" for p :: s16 using sint_s16_bounds [of p] by simp
  then have "\<exists>r. pdp_resample_bilin im w h vx vy = Some r \<and> -32768 \<le> r \<and> r \<le> 32767" by (intro bilin_safe assms) simp_all
  then show ?thesis by blast
qed

lemma scale_bilin_filled:
  assumes w: "2 \<le> w" "w \<le> 32768" and h: "2 \<le> h" "h \<le> 32768" and wh: "w * h < 2 ^ 31" and len: "w * h \<le> int (length src)"
    and d: "0 < dw" "0 < dh" "dw * dh \<le> length dst"
  shows "pdp_resample_scale_bilin src dst w h (int dw) (int dh) =
    Some (filled (\<lambda>k. bilin_at src w h dw dh (k div dw) (k mod dw)) dst (dw * dh))"
proof -
  let ?sx = "\<lambda>i. int i * (0x40000000 div int dw)" and ?sy = "\<lambda>j. int j * (0x40000000 div int dh)"
  have sd: "0x40000000 sdiv int dw = 0x40000000 div int dw" "0x40000000 sdiv int dh = 0x40000000 div int dh"
    using d by (simp_all add: sdiv_pos)
  let ?f = "filled (\<lambda>k. bilin_at src w h dw dh (k div dw) (k mod dw)) dst (dw * dh)"
  have "for_loop 0 dh (\<lambda>j. bilin_row src w h (int dw) (0x40000000 div int dw) (0x40000000 div int dh)) (?sy 0, 0, dst)
    = Some (?sy dh, int (dw * dh), ?f)"
  proof (rule raster [where sx = ?sx and pixel = "\<lambda>j. bilin_pixel src w h (0x40000000 div int dw) (?sy j)"])
    fix i j k and b :: plane
    assume a: "i < dw" "j < dh" "k < length b"
    note X = coord_virt [OF a(1) refl] and Y = coord_virt [OF a(2) refl]
    from bilin_defined [OF w h wh len X(2,3) Y(2,3)]
    show "bilin_pixel src w h (0x40000000 div int dw) (?sy j) (?sx i, int k, b) =
        Some (?sx (Suc i), int k + 1, b[k := bilin_at src w h dw dh j i])"
      using a(3) unfolding bilin_pixel_def resample_bilin_masked X(1,4) Y(1) prod.case bilin_at_def by auto
  next
    fix j k and b :: plane
    assume "j < dh"
    then show "bilin_row src w h (int dw) (0x40000000 div int dw) (0x40000000 div int dh) (?sy j, k, b) =
      do { (x, k, d) \<leftarrow> for_loop 0 dw (\<lambda>i. bilin_pixel src w h (0x40000000 div int dw) (?sy j)) (?sx 0, k, b);
           Some (?sy (Suc j), k, d) }"
      using coord_virt(4) [of j dh] by (simp add: bilin_row_def)
  qed (use d in simp)
  then show ?thesis using d unfolding pdp_resample_scale_bilin_def sd Let_def by simp
qed

text \<open>Nearest neighbour scaling; source columns below 2048 keep the fixed point coordinates in range.\<close>

definition nn_at :: "plane \<Rightarrow> int \<Rightarrow> int \<Rightarrow> nat \<Rightarrow> nat \<Rightarrow> nat \<Rightarrow> nat \<Rightarrow> s16" where
  "nn_at src w h dw dh j i =
     src ! nat (int i * (w * 2 ^ 20 div int dw) div 2 ^ 20 + int j * (h * 2 ^ 20 div int dh) div 2 ^ 20 * w)"

lemma coord_nn:
  assumes i: "i < n" and w: "0 < w" "w < 2048" and v: "v = int i * (w * 2 ^ 20 div int n)"
  shows "wrap32 (v + w * 2 ^ 20 div int n) = int (Suc i) * (w * 2 ^ 20 div int n)" "0 \<le> v div 2 ^ 20" "v div 2 ^ 20 \<le> w - 1"
proof -
  let ?s = "w * 2 ^ 20 div int n"
  have s: "0 \<le> ?s" using i w by (simp add: pos_imp_zdiv_nonneg_iff)
  have up: "int (Suc i) * ?s \<le> int n * ?s" using i s by (intro mult_right_mono) simp_all
  have top: "int n * ?s \<le> w * 2 ^ 20" using i by (intro div_mult_ge) simp
  have lo: "0 \<le> v" using v s by simp
  have suc: "v + ?s = int (Suc i) * ?s" using v by (simp add: algebra_simps)
  show "wrap32 (v + ?s) = int (Suc i) * ?s" unfolding suc using up top lo suc s w by (intro wrap32_id) (simp add: in_s32_def)
  show "0 \<le> v div 2 ^ 20" using lo by simp
  have "v < w * 2 ^ 20"
  proof (cases "?s = 0")
    case False
    then have "0 < ?s" using s by linarith
    with suc up top show ?thesis by linarith
  qed (simp add: v w)
  then show "v div 2 ^ 20 \<le> w - 1" by simp
qed

lemma scale_nn_filled:
  assumes w: "0 < w" "w < 2048" and h: "0 < h" "h < 2048" and len: "w * h \<le> int (length src)"
    and d: "0 < dw" "0 < dh" "dw * dh \<le> length dst"
  shows "pdp_resample_scale_nn src dst w h (int dw) (int dh) =
    Some (filled (\<lambda>k. nn_at src w h dw dh (k div dw) (k mod dw)) dst (dw * dh))"
proof -
  define sx sy where "sx = w * 2 ^ 20 div int dw" and "sy = h * 2 ^ 20 div int dh"
  have sd: "wrap32 (w * 2 ^ 20) sdiv int dw = sx" "wrap32 (h * 2 ^ 20) sdiv int dh = sy"
    using d w h by (simp_all add: sdiv_pos sx_def sy_def wrap32_id in_s32_def)
  let ?X = "\<lambda>i. (int i * sx div 2 ^ 20, int i * sx)" and ?Y = "\<lambda>j. (int j * sy div 2 ^ 20 * w, int j * sy)"
  let ?f = "filled (\<lambda>k. nn_at src w h dw dh (k div dw) (k mod dw)) dst (dw * dh)"
  have "for_loop 0 dh (\<lambda>j. nn_row src w (int dw) sx sy) (?Y 0, 0, dst) = Some (?Y dh, int (dw * dh), ?f)"
  proof (rule raster [where sx = ?X and pixel = "\<lambda>j. nn_pixel src sx (fst (?Y j))"])
    fix i j k and b :: plane
    assume a: "i < dw" "j < dh" "k < length b"
    note X = coord_nn [OF a(1) w refl, folded sx_def] and Y = coord_nn [OF a(2) h refl, folded sy_def]
    let ?x = "int i * sx div 2 ^ 20" and ?y = "int j * sy div 2 ^ 20"
    have "?y * w \<le> (h - 1) * w" "0 \<le> ?y * w" using Y w by (simp_all add: mult_right_mono del: of_nat_Suc)
    then have "0 \<le> ?x + ?y * w" "?x + ?y * w < int (length src)" using X len by (simp_all add: algebra_simps)
    then have "rd src (?x + ?y * w) = Some (nn_at src w h dw dh j i)" by (simp add: rd_in nn_at_def sx_def sy_def)
    then show "nn_pixel src sx (fst (?Y j)) (?X i, int k, b) = Some (?X (Suc i), int k + 1, b[k := nn_at src w h dw dh j i])"
      using a(3) unfolding nn_pixel_def prod.case X(1) fst_conv Let_def by (simp add: asr_def)
  next
    fix j k and b :: plane
    assume j: "j < dh"
    let ?y = "int (Suc j) * sy div 2 ^ 20"
    note Y = coord_nn [OF j h refl, folded sy_def]
    have "0 \<le> sy" using h d by (simp add: sy_def pos_imp_zdiv_nonneg_iff)
    then have l: "0 \<le> int (Suc j) * sy" by simp
    have "int (Suc j) * sy \<le> int dh * sy" using j \<open>0 \<le> sy\<close> by (intro mult_right_mono) simp_all
    also have "\<dots> \<le> h * 2 ^ 20" unfolding sy_def using d by (intro div_mult_ge) simp
    finally have "?y \<le> h" by simp
    then have "?y * w \<le> h * w" "0 \<le> ?y * w" using l w by (simp_all add: mult_right_mono del: of_nat_Suc)
    moreover have "h * w \<le> 2047 * 2047" using h w by (intro mult_mono) simp_all
    ultimately have "wrap32 (?y * w) = ?y * w" by (intro wrap32_id) (simp add: in_s32_def)
    then show "nn_row src w (int dw) sx sy (?Y j, k, b) =
      do { (x, k, d) \<leftarrow> for_loop 0 dw (\<lambda>i. nn_pixel src sx (fst (?Y j))) (?X 0, k, b); Some (?Y (Suc j), k, d) }"
      unfolding nn_row_def prod.case Let_def Y(1) fst_conv asr_def by simp
  qed (use d in simp)
  then show ?thesis using d unfolding pdp_resample_scale_nn_def sd Let_def by simp
qed

section \<open>Halving and doubling\<close>

definition mean4 :: "s16 \<Rightarrow> s16 \<Rightarrow> s16 \<Rightarrow> s16 \<Rightarrow> s16" where
  "mean4 a b c d = to_s16 (asr (sint a + sint b + (sint c + sint d)) 2)"

definition halve_at :: "plane \<Rightarrow> nat \<Rightarrow> nat \<Rightarrow> nat \<Rightarrow> s16" where
  "halve_at src w j i =
     (let p = w * (2 * j) + 2 * i; q = w * (2 * j + 1) + 2 * i in mean4 (src ! p) (src ! (p + 1)) (src ! q) (src ! (q + 1)))"

lemma mean4_same [simp]: "mean4 a a a a = a"
  by (simp add: mean4_def asr_def)

lemma halve_filled:
  assumes d: "0 < dw" "0 < dh" "dw * dh \<le> length dst" and w: "w = 2 * dw \<or> w = 2 * dw + 1" and h: "h = 2 * dh \<or> h = 2 * dh + 1"
    and len: "w * h \<le> length src" and sz: "int (w * h) < 2 ^ 31"
  shows "pdp_resample_halve src dst (int w) (int h) = Some (filled (\<lambda>k. halve_at src w (k div dw) (k mod dw)) dst (dw * dh))"
proof -
  let ?img = "filled (\<lambda>k. halve_at src w (k div dw) (k mod dw)) dst"
  have le: "dw * dh \<le> w * h" "w * 1 \<le> w * h" using w h d by (intro mult_le_mono, auto)+
  from le(1) have "int (dw * dh) \<le> int (w * h)" by (simp only: of_nat_le_iff)
  with sz have sz': "int (dw * dh) < 2 ^ 31" by (rule order_le_less_trans [rotated])
  have pix: "halve_pixel src (int w) (int (w * (2 * j))) (int (dw * j)) i (int (2 * i), ?img (dw * j + i))
      = Some (int (2 * Suc i), ?img (dw * j + Suc i))" if i: "i < dw" and j: "j < dh" for i j
  proof -
    let ?p = "w * (2 * j) + 2 * i"
    have k: "dw * j + i < length dst" using raster_lt [OF i j] d by simp
    have "2 * i + 1 < w" "2 * j + 1 < h" using i j w h by auto
    then have in_src: "?p + w + 1 < length src" using raster_lt [of "2 * i + 1" w "2 * j + 1" h] len by (simp add: algebra_simps)
    have e: "int (w * (2 * j)) + int (2 * i) = int ?p" "int ?p + 1 = int (?p + 1)" "int ?p + int w = int (?p + w)"
      "int (?p + w) + 1 = int (?p + w + 1)" "int i + int (dw * j) = int (dw * j + i)" "int (2 * i) + 2 = int (2 * Suc i)"
      by simp_all
    have r: "rd src (int ?p) = Some (src ! ?p)" "rd src (int (?p + 1)) = Some (src ! (?p + 1))"
      "rd src (int (?p + w)) = Some (src ! (?p + w))" "rd src (int (?p + w + 1)) = Some (src ! (?p + w + 1))"
      by (rule rd_nat, use in_src in linarith)+
    have dm: "(dw * j + i) div dw = j" "(dw * j + i) mod dw = i" "w * (2 * j + 1) + 2 * i = ?p + w" using i by simp_all
    have px: "halve_at src w ((dw * j + i) div dw) ((dw * j + i) mod dw)
        = to_s16 (asr (sint (src ! ?p) + sint (src ! (?p + 1)) + (sint (src ! (?p + w)) + sint (src ! (?p + w + 1)))) 2)"
      unfolding dm halve_at_def mean4_def Let_def ..
    note wr_filled [where px = "\<lambda>k. halve_at src w (k div dw) (k mod dw)", OF k px [symmetric]]
    then show ?thesis unfolding halve_pixel_def prod.case e r bind.bind_lunit by simp
  qed
  have row: "halve_row src (int w) (int dw) (int (dw * j)) (int (w * (2 * j)), ?img (dw * j))
      = Some (int (w * (2 * Suc j)), ?img (dw * Suc j))" if j: "j < dh" for j
  proof -
    have "for_loop 0 dw (halve_pixel src (int w) (int (w * (2 * j))) (int (dw * j))) (int (2 * 0), ?img (dw * j + 0))
        = Some (int (2 * dw), ?img (dw * j + dw))"
      by (rule for_loop_seq [where s = "\<lambda>i. (int (2 * i), ?img (dw * j + i))"]) (use pix [OF _ j] in simp)
    moreover have "wrap32 (int w * 2) = int w * 2"
    proof -
      have "w * 2 \<le> w * h" using h d by (intro mult_le_mono2) auto
      then have "int (w * 2) \<le> int (w * h)" by (simp only: of_nat_le_iff)
      then show ?thesis using sz by (intro wrap32_id) (simp add: in_s32_def)
    qed
    moreover have "int (w * (2 * j)) + int w * 2 = int (w * (2 * Suc j))" "dw * j + dw = dw * Suc j" by simp_all
    ultimately show ?thesis unfolding halve_row_def prod.case by simp
  qed
  have "for_loop 0 dh (\<lambda>j. halve_row src (int w) (int dw) (int (dw * j))) (int (w * (2 * 0)), ?img (dw * 0))
      = Some (int (w * (2 * dh)), ?img (dw * dh))"
    by (rule for_loop_seq [where s = "\<lambda>j. (int (w * (2 * j)), ?img (dw * j))"]) (use row in simp)
  moreover have "int_loop (int (dw * 0)) (int (dw * dh)) (int dw) (halve_row src (int w) (int dw)) (0, dst)
      = for_loop 0 (dh - 0) (\<lambda>j. halve_row src (int w) (int dw) (int (dw * j))) (0, dst)"
    by (rule int_loop_rows) (use d sz' in simp_all)
  moreover have "asr (int w) 1 = int dw" "asr (int h) 1 = int dh" using w h by (auto simp: asr_def)
  moreover have "wrap32 (int dh * int dw) = int (dw * dh)" using wrap32_nat [OF sz'] by (simp add: mult.commute)
  ultimately show ?thesis by (simp add: pdp_resample_halve_def Let_def)
qed

text \<open>The source pixel of pixel \<open>k\<close> of the doubled plane.\<close>

definition doubled :: "nat \<Rightarrow> nat \<Rightarrow> nat" where
  "doubled w k = k div (2 * w) div 2 * w + k mod (2 * w) div 2"

lemma doubled_at: "x < w \<Longrightarrow> a < 2 \<Longrightarrow> b < 2 \<Longrightarrow> doubled w (2 * w * (2 * y + a) + (2 * x + b)) = w * y + x"
proof -
  assume a: "x < w" "a < 2" "b < 2"
  then have "2 * x + b < 2 * w" by simp
  then have "(2 * w * (2 * y + a) + (2 * x + b)) div (2 * w) = 2 * y + a" "(2 * w * (2 * y + a) + (2 * x + b)) mod (2 * w) = 2 * x + b"
    by simp_all
  then show ?thesis using a by (simp add: doubled_def)
qed

lemma doubled_inv:
  assumes x: "x < w" and eq: "doubled w k = w * y + x"
  shows "\<exists>a < 2. \<exists>b < 2. k = 2 * w * (2 * y + a) + (2 * x + b)"
proof -
  let ?r = "k div (2 * w)" and ?c = "k mod (2 * w)"
  have c: "?c div 2 < w" using x by (simp add: div_less_iff_less_mult mult.commute)
  have "w * (?r div 2) + ?c div 2 = w * y + x" using eq by (simp add: doubled_def mult.commute)
  then have "(w * (?r div 2) + ?c div 2) div w = (w * y + x) div w" "(w * (?r div 2) + ?c div 2) mod w = (w * y + x) mod w" by simp_all
  then have q: "?r div 2 = y" "?c div 2 = x" using c x by simp_all
  have "k = 2 * w * ?r + ?c" "?r = 2 * (?r div 2) + ?r mod 2" "?c = 2 * (?c div 2) + ?c mod 2" by simp_all
  then have "k = 2 * w * (2 * y + ?r mod 2) + (2 * x + ?c mod 2)" unfolding q by metis
  moreover have "?r mod 2 < 2" "?c mod 2 < 2" by simp_all
  ultimately show ?thesis by blast
qed

definition doubling :: "plane \<Rightarrow> nat \<Rightarrow> plane \<Rightarrow> nat \<Rightarrow> plane" where
  "doubling src w d n = map (\<lambda>k. if doubled w k < n then src ! doubled w k else d ! k) [0..<length d]"

lemma doubling_0 [simp]: "doubling src w d 0 = d"
  by (simp add: doubling_def map_nth)

text \<open>The four writes of a round are the writes of all pixels that come from source pixel \<open>w * y + x\<close>.\<close>

lemma doubling_Suc:
  assumes x: "x < w" and k: "k = 2 * w * (2 * y) + 2 * x" and top: "k + 2 * w + 1 < length d" and n: "n = w * y + x"
  shows "((((doubling src w d n)[k := src ! n])[k + 1 := src ! n])[k + 2 * w := src ! n])[k + 2 * w + 1 := src ! n]
    = doubling src w d (Suc n)" (is "?l = ?r")
proof (rule nth_equalityI)
  have eq: "doubled w q = n \<longleftrightarrow> q = k \<or> q = k + 1 \<or> q = k + 2 * w \<or> q = k + 2 * w + 1" for q
  proof
    assume "doubled w q = n"
    from doubled_inv [OF x this [unfolded n]] obtain a b where ab: "a < 2" "b < 2" "q = 2 * w * (2 * y + a) + (2 * x + b)" by blast
    then have "a = 0 \<or> a = 1" "b = 0 \<or> b = 1" by auto
    then show "q = k \<or> q = k + 1 \<or> q = k + 2 * w \<or> q = k + 2 * w + 1" unfolding ab(3) k by (auto simp: distrib_left)
  next
    assume "q = k \<or> q = k + 1 \<or> q = k + 2 * w \<or> q = k + 2 * w + 1"
    then have "\<exists>a < 2. \<exists>b < 2. q = 2 * w * (2 * y + a) + (2 * x + b)"
    proof (elim disjE)
      assume "q = k" then show ?thesis unfolding k by (intro exI [of _ 0]) simp
    next
      assume "q = k + 1" then show ?thesis unfolding k by (intro exI [of _ 0] exI [of _ 1] conjI) simp_all
    next
      assume "q = k + 2 * w" then show ?thesis unfolding k by (intro exI [of _ 1] exI [of _ 0] conjI) (simp_all add: distrib_left)
    next
      assume "q = k + 2 * w + 1" then show ?thesis unfolding k by (intro exI [of _ 1] conjI) (simp_all add: distrib_left)
    qed
    then show "doubled w q = n" using doubled_at [OF x] n by auto
  qed
  show "length ?l = length ?r" by (simp add: doubling_def)
  fix q
  assume "q < length ?l"
  then have q: "q < length d" by (simp add: doubling_def)
  show "?l ! q = ?r ! q"
  proof (cases "doubled w q = n")
    case True
    then have "?l ! q = src ! n" using q top eq [of q] by (auto simp: nth_list_update doubling_def)
    then show ?thesis using True q by (simp add: doubling_def)
  next
    case False
    then have "?l ! q = doubling src w d n ! q" using eq [of q] by simp
    then show ?thesis using False q by (auto simp: doubling_def less_Suc_eq)
  qed
qed

lemma double_filled:
  assumes w: "0 < w" and h: "0 < h" and len: "w * h \<le> length src" and dlen: "4 * w * h \<le> length dst" and sz: "int (4 * w * h) < 2 ^ 31"
  shows "pdp_resample_double src dst (int w) (int h) = Some (doubling src w dst (w * h))"
proof -
  have pix: "double_pixel src (int (2 * w)) (int (w * y)) x (int (w * y + x), doubling src w dst (w * y + x))
      = Some (int (w * y + Suc x), doubling src w dst (w * y + Suc x))" if x: "x < w" and y: "y < h" for x y
  proof -
    let ?n = "w * y + x" and ?k = "2 * w * (2 * y) + 2 * x"
    have n: "?n < length src" using raster_lt [OF x y] len by simp
    have top: "?k + 2 * w + 1 < 4 * w * h"
    proof -
      have "2 * x + 1 < 2 * w" "2 * y + 1 < 2 * h" using x y by simp_all
      from raster_lt [OF this] show ?thesis by (simp add: distrib_left)
    qed
    then have "int (?k + 2 * w + 1) < int (4 * w * h)" by (simp only: of_nat_less_iff)
    then have "int (2 * w * (2 * y) + 2 * x + 2 * w + 1) < 2 ^ 31" using sz by linarith
    then have i: "int (4 * (w * y)) < 2 ^ 31" "int ?k < 2 ^ 31" by (simp_all add: algebra_simps)
    have e: "int (w * y) * 4 = int (4 * (w * y))" "int (4 * (w * y)) + int x * 2 = int ?k" "int ?k + 1 = int (?k + 1)"
      "int ?k + int (2 * w) = int (?k + 2 * w)" "int (?k + 2 * w) + 1 = int (?k + 2 * w + 1)" "int ?n + 1 = int (w * y + Suc x)"
      by simp_all
    have wr: "wr b (int ?k) v = Some (b[?k := v])" "wr b (int (?k + 1)) v = Some (b[?k + 1 := v])"
      "wr b (int (?k + 2 * w)) v = Some (b[?k + 2 * w := v])" "wr b (int (?k + 2 * w + 1)) v = Some (b[?k + 2 * w + 1 := v])"
      if "length b = length dst" for b and v :: s16
      by (rule wr_nat, use that top dlen in linarith)+
    have l: "length (doubling src w dst m) = length dst" for m by (simp add: doubling_def)
    have Suc: "((((doubling src w dst ?n)[?k := src ! ?n])[?k + 1 := src ! ?n])[?k + 2 * w := src ! ?n])[?k + 2 * w + 1 := src ! ?n]
        = doubling src w dst (w * y + Suc x)"
      using doubling_Suc [OF x refl _ refl, of y dst src] top dlen by simp
    show ?thesis unfolding double_pixel_def prod.case rd_nat [OF n] e wrap32_nat [OF i(1)] wrap32_nat [OF i(2)] Let_def
      by (simp only: wr l length_list_update bind.bind_lunit Suc)
  qed
  have row: "for_loop 0 w (double_pixel src (int (2 * w)) (int (w * y))) (int (w * y), doubling src w dst (w * y))
      = Some (int (w * Suc y), doubling src w dst (w * Suc y))" if y: "y < h" for y
  proof -
    have "for_loop 0 w (double_pixel src (int (2 * w)) (int (w * y))) (int (w * y + 0), doubling src w dst (w * y + 0))
        = Some (int (w * y + w), doubling src w dst (w * y + w))"
      by (rule for_loop_seq [where s = "\<lambda>x. (int (w * y + x), doubling src w dst (w * y + x))"]) (use pix [OF _ y] in simp)
    moreover have "w * y + w = w * Suc y" by simp
    ultimately show ?thesis by simp
  qed
  have "for_loop 0 h (\<lambda>y. for_loop 0 w (double_pixel src (int (2 * w)) (int (w * y)))) (int (w * 0), doubling src w dst (w * 0))
      = Some (int (w * h), doubling src w dst (w * h))"
    by (rule for_loop_seq [where s = "\<lambda>y. (int (w * y), doubling src w dst (w * y))"]) (use row in simp)
  moreover have i: "int (w * h) < 2 ^ 31" "int (2 * w) < 2 ^ 31"
  proof -
    have "w * h \<le> 4 * w * h" "2 * w \<le> 4 * w * h" using h w by simp_all
    then have "int (w * h) \<le> int (4 * w * h)" "int (2 * w) \<le> int (4 * w * h)" by (simp_all only: of_nat_le_iff)
    then show "int (w * h) < 2 ^ 31" "int (2 * w) < 2 ^ 31" using sz by linarith+
  qed
  moreover have "int_loop (int (w * 0)) (int (w * h)) (int w) (\<lambda>src_y. for_loop 0 w (double_pixel src (int (2 * w)) src_y)) (0, dst)
      = for_loop 0 (h - 0) (\<lambda>y. for_loop 0 w (double_pixel src (int (2 * w)) (int (w * y)))) (0, dst)"
    by (rule int_loop_rows) (use w i in simp_all)
  moreover have "wrap32 (int h * int w) = int (w * h)" "wrap32 (int w * 2) = int (2 * w)"
    using wrap32_nat [OF i(1)] wrap32_nat [OF i(2)] by (simp_all add: mult.commute)
  ultimately show ?thesis by (simp add: pdp_resample_double_def Let_def)
qed

section \<open>Properties\<close>



text \<open>
  C30: halving undoes doubling: both return on any plane whose doubled size is below \<open>2^31\<close> pixels, write
  only inside their destination, and the halved double of a plane is the plane itself.
\<close>

theorem halve_double_round_trip:
  assumes "0 < w" "0 < h" "length src = w * h" "length d = 4 * w * h" "length b = w * h" "int (4 * w * h) < 2 ^ 31"
  shows "\<exists>d2. pdp_resample_double src d (int w) (int h) = Some d2 \<and> length d2 = length d \<and>
    pdp_resample_halve d2 b (int (2 * w)) (int (2 * h)) = Some src"
proof (intro exI conjI)
  let ?d = "doubling src w d (w * h)"
  show "pdp_resample_double src d (int w) (int h) = Some (doubling src w d (w * h))" using assms by (intro double_filled) simp_all
  show l: "length ?d = length d" by (simp add: doubling_def)
  have "pdp_resample_halve ?d b (int (2 * w)) (int (2 * h))
      = Some (filled (\<lambda>k. halve_at ?d (2 * w) (k div w) (k mod w)) b (w * h))"
    using assms l by (intro halve_filled) simp_all
  also have "filled (\<lambda>k. halve_at ?d (2 * w) (k div w) (k mod w)) b (w * h) = src"
  proof (rule nth_equalityI)
    fix k
    assume "k < length (filled (\<lambda>k. halve_at ?d (2 * w) (k div w) (k mod w)) b (w * h))"
    then have k: "k < w * h" using assms by simp
    define x y where "x = k mod w" and "y = k div w"
    have xy: "x < w" "w * y + x = k" using assms(1) by (simp_all add: x_def y_def)
    have y: "y < h" using k by (simp add: y_def div_less_iff_less_mult mult.commute assms(1))
    have px: "?d ! (2 * w * (2 * y + a) + (2 * x + b)) = src ! k" if "a < 2" "b < 2" for a b
    proof -
      have "2 * x + b < 2 * w" "2 * y + a < 2 * h" using xy y that by simp_all
      from raster_lt [OF this] have "2 * w * (2 * y + a) + (2 * x + b) < length d" using assms by simp
      then show ?thesis using doubled_at [OF xy(1) that, of y] k xy(2) by (simp add: doubling_def)
    qed
    have "halve_at ?d (2 * w) y x = src ! k"
      using px [of 0 0] px [of 0 1] px [of 1 0] px [of 1 1] by (simp add: halve_at_def Let_def)
    then show "filled (\<lambda>k. halve_at ?d (2 * w) (k div w) (k mod w)) b (w * h) ! k = src ! k"
      using assms k by (simp add: x_def y_def)
  qed (use assms in simp)
  finally show "pdp_resample_halve ?d b (int (2 * w)) (int (2 * h)) = Some src" .
qed

theorem halve_double_round_trip_witness:
  "\<exists>d2. pdp_resample_double [1, 2, 3, 4, 5, 6] (replicate 24 0) 3 2 = Some d2 \<and> pdp_resample_halve d2 (replicate 6 0) 6 4 = Some [1, 2, 3, 4, 5, 6]"
  using halve_double_round_trip [of 3 2 "[1, 2, 3, 4, 5, 6]" "replicate 24 0" "replicate 6 0"] by auto

end
