(* ===== verification/TypeDesc.thy ===== *)
theory TypeDesc
  imports Prelude
begin

text \<open>
  Type descriptions of \<^verbatim>\<open>system/kernel/pdp_type.c\<close>: hierarchical names such as \<open>image/grey/320x240\<close>
  with wildcards.

  A symbol is its name (theory \<open>Symbol\<close>: symbol pointers are equal exactly when their names are).
  The field \<open>s_type\<close> of the symbols, the cache of parsed descriptions, is the map \<open>tcache\<close>. The
  lemmas show that parsing and printing of descriptions are inverse to each other, and that
  \<open>pdp_type_description_match\<close> computes a fixed symmetric relation whatever the cache holds.
\<close>

type_synonym symbol = string
type_synonym tcache = "symbol \<rightharpoonup> symbol list"

section \<open>Parsing\<close>

text \<open>
  The loop of \<open>pdp_type_to_list\<close>: \<open>c\<close> is the rest of the name, \<open>lastname\<close> the rest from the start of
  the current component, \<open>n\<close> the number of characters of the component seen so far.
\<close>

fun type_to_list_loop :: "string \<Rightarrow> string \<Rightarrow> nat \<Rightarrow> symbol list \<Rightarrow> symbol list" where
  "type_to_list_loop [] lastname n l = l @ [lastname]"
| "type_to_list_loop (ch # c) lastname n l =
     (if ch = CHR ''/''
      then type_to_list_loop c c 0 (l @ [take n lastname])
      else type_to_list_loop c lastname (n + 1) l)"

definition pdp_type_to_list :: "symbol \<Rightarrow> symbol list" where
  "pdp_type_to_list type = type_to_list_loop type type 0 []"

section \<open>Matching\<close>

definition PDP_SYM_WILDCARD :: symbol where
  "PDP_SYM_WILDCARD = ''*''"

definition setup_type_cache :: "symbol \<Rightarrow> tcache \<Rightarrow> tcache" where
  "setup_type_cache s c = (if c s = None then c(s \<mapsto> pdp_type_to_list s) else c)"

text \<open>
  The comparison loop; \<open>None\<close> is its \<open>goto done\<close> on a difference, otherwise the two rests \<open>ad\<close> and
  \<open>ap\<close> when it ends.
\<close>

fun match_loop :: "symbol list \<Rightarrow> symbol list \<Rightarrow> (symbol list \<times> symbol list) option" where
  "match_loop (d # ad) (p # ap) =
     (if d = PDP_SYM_WILDCARD then match_loop ad ap
      else if p = PDP_SYM_WILDCARD then match_loop ad ap
      else if d \<noteq> p then None
      else match_loop ad ap)"
| "match_loop ad ap = Some (ad, ap)"

definition match_lists :: "symbol list \<Rightarrow> symbol list \<Rightarrow> bool" where
  "match_lists ds ps =
     (case match_loop ds ps of
        None \<Rightarrow> False
      | Some (ad, ap) \<Rightarrow>
          if ad = [] \<and> ap = [] then True
          else if ap \<noteq> [] \<and> last ds \<noteq> PDP_SYM_WILDCARD then False
          else if ad \<noteq> [] \<and> last ps \<noteq> PDP_SYM_WILDCARD then False
          else True)"

definition type_list :: "symbol \<Rightarrow> tcache \<Rightarrow> symbol list" where
  "type_list s c = (case c s of Some l \<Rightarrow> l | None \<Rightarrow> [])"

definition pdp_type_description_match :: "symbol \<Rightarrow> symbol \<Rightarrow> tcache \<Rightarrow> bool \<times> tcache" where
  "pdp_type_description_match description pattern c =
     (if description = pattern then (True, c)
      else let c = (if c description = None then setup_type_cache description c else c);
               c = (if c pattern = None then setup_type_cache pattern c else c)
           in (match_lists (type_list description c) (type_list pattern c), c))"

section \<open>Round trips\<close>

fun join_types :: "symbol list \<Rightarrow> symbol" where
  "join_types [] = []"
| "join_types [s] = s"
| "join_types (s # ss) = s @ CHR ''/'' # join_types ss"

abbreviation no_slash :: "string \<Rightarrow> bool" where
  "no_slash s \<equiv> CHR ''/'' \<notin> set s"

text \<open>The reference parser: split at every slash.\<close>

fun split_slash :: "string \<Rightarrow> string list" where
  "split_slash [] = [[]]"
| "split_slash (ch # c) =
     (if ch = CHR ''/'' then [] # split_slash c
      else case split_slash c of [] \<Rightarrow> [[ch]] | s # ss \<Rightarrow> (ch # s) # ss)"

lemma split_slash_nonempty [simp]: "split_slash s \<noteq> []"
  by (cases s) (auto split: list.splits)

lemma type_to_list_loop_split:
  "type_to_list_loop c (u @ c) (length u) l = l @ (u @ hd (split_slash c)) # tl (split_slash c)"
proof (induction c arbitrary: u l)
  case (Cons ch c)
  show ?case
  proof (cases "ch = CHR ''/''")
    case True
    then show ?thesis using Cons.IH [of "[]" "l @ [u]"] by simp
  next
    case False
    then show ?thesis using Cons.IH [of "u @ [ch]" l] by (cases "split_slash c") auto
  qed
qed simp

lemma pdp_type_to_list_split: "pdp_type_to_list s = split_slash s"
  using type_to_list_loop_split [of s "[]" "[]"] by (simp add: pdp_type_to_list_def)

lemma join_types_Cons: "ss \<noteq> [] \<Longrightarrow> join_types (s # ss) = s @ CHR ''/'' # join_types ss"
  by (cases ss) auto

lemma join_split: "join_types (split_slash s) = s"
proof (induction s)
  case (Cons ch c)
  obtain d ds where d: "split_slash c = d # ds" by (cases "split_slash c") auto
  show ?case
  proof (cases "ch = CHR ''/''")
    case True
    with Cons show ?thesis by (simp add: join_types_Cons)
  next
    case False
    with Cons d show ?thesis by (cases ds) (auto simp: d)
  qed
qed simp

lemma split_append: "no_slash u \<Longrightarrow> split_slash (u @ c) = (u @ hd (split_slash c)) # tl (split_slash c)"
proof (induction u)
  case (Cons ch u)
  then show ?case by (auto split: list.splits)
qed simp

lemma split_join: "ss \<noteq> [] \<Longrightarrow> \<forall>s\<in>set ss. no_slash s \<Longrightarrow> split_slash (join_types ss) = ss"
proof (induction ss rule: join_types.induct)
  case (2 s)
  then show ?case using split_append [of s "[]"] by simp
next
  case (3 s t ss)
  then show ?case using split_append [of s "CHR ''/'' # join_types (t # ss)"] by simp
qed simp

lemma split_no_slash: "s \<in> set (split_slash t) \<Longrightarrow> no_slash s"
proof (induction t arbitrary: s)
  case (Cons ch c)
  then show ?case by (cases "split_slash c") (auto split: if_splits)
qed simp

section \<open>The match relation\<close>

text \<open>
  The reference: the descriptions agree on their common prefix, component by component, up to
  wildcards, and the shorter one, if any, ends with a wildcard.
\<close>

definition wild_eq :: "symbol \<Rightarrow> symbol \<Rightarrow> bool" where
  "wild_eq a b \<longleftrightarrow> a = PDP_SYM_WILDCARD \<or> b = PDP_SYM_WILDCARD \<or> a = b"

definition types_match :: "symbol \<Rightarrow> symbol \<Rightarrow> bool" where
  "types_match d p \<longleftrightarrow>
     (let ds = pdp_type_to_list d; ps = pdp_type_to_list p in
      d = p \<or>
      (list_all2 wild_eq (take (length ps) ds) (take (length ds) ps) \<and>
       (length ds < length ps \<longrightarrow> last ds = PDP_SYM_WILDCARD) \<and>
       (length ps < length ds \<longrightarrow> last ps = PDP_SYM_WILDCARD)))"

lemma match_loop_eq:
  "match_loop ds ps =
     (if list_all2 wild_eq (take (length ps) ds) (take (length ds) ps)
      then Some (drop (length ps) ds, drop (length ds) ps) else None)"
  by (induction ds ps rule: match_loop.induct) (auto simp: wild_eq_def)

lemma match_lists_eq:
  "match_lists ds ps \<longleftrightarrow>
     list_all2 wild_eq (take (length ps) ds) (take (length ds) ps) \<and>
     (length ds < length ps \<longrightarrow> last ds = PDP_SYM_WILDCARD) \<and>
     (length ps < length ds \<longrightarrow> last ps = PDP_SYM_WILDCARD)"
  by (auto simp: match_lists_def match_loop_eq)

text \<open>The cache never lies: every entry is the parsed name.\<close>

definition cache_ok :: "tcache \<Rightarrow> bool" where
  "cache_ok c \<longleftrightarrow> (\<forall>s l. c s = Some l \<longrightarrow> l = pdp_type_to_list s)"

lemma cache_ok_empty [simp]: "cache_ok Map.empty"
  by (simp add: cache_ok_def)

lemma setup_cache_ok: "cache_ok c \<Longrightarrow> cache_ok (setup_type_cache s c)"
  by (auto simp: cache_ok_def setup_type_cache_def)

lemma setup_cache_le: "c \<subseteq>\<^sub>m setup_type_cache s c"
  by (auto simp: setup_type_cache_def map_le_def)

lemma setup_type_list: "cache_ok c \<Longrightarrow> type_list s (setup_type_cache s c) = pdp_type_to_list s"
  by (auto simp: cache_ok_def setup_type_cache_def type_list_def split: option.splits)

lemma type_list_ok: "cache_ok c \<Longrightarrow> c s \<noteq> None \<Longrightarrow> type_list s c = pdp_type_to_list s"
  by (auto simp: cache_ok_def type_list_def)

lemma match_cached:
  assumes "cache_ok c" "pdp_type_description_match d p c = (b, c')"
  shows "b = types_match d p" "cache_ok c'" "c \<subseteq>\<^sub>m c'"
proof -
  define c1 where "c1 = setup_type_cache d c"
  define c2 where "c2 = setup_type_cache p c1"
  have ok: "cache_ok c1" "cache_ok c2" unfolding c1_def c2_def by (simp_all add: setup_cache_ok assms(1))
  have le: "c \<subseteq>\<^sub>m c2" unfolding c1_def c2_def using setup_cache_le map_le_trans by blast
  have dom: "c2 d \<noteq> None" "c2 p \<noteq> None" by (auto simp: c1_def c2_def setup_type_cache_def)
  show "b = types_match d p"
  proof (cases "d = p")
    case False
    have "(if c d = None then setup_type_cache d c else c) = c1"
      "(if c1 p = None then setup_type_cache p c1 else c1) = c2"
      by (simp_all add: c1_def c2_def setup_type_cache_def)
    with False assms(2) have "b = match_lists (type_list d c2) (type_list p c2)"
      by (auto simp: pdp_type_description_match_def Let_def)
    with False show ?thesis
      by (simp add: type_list_ok [OF ok(2) dom(1)] type_list_ok [OF ok(2) dom(2)] match_lists_eq types_match_def Let_def)
  qed (use assms(2) in \<open>simp add: pdp_type_description_match_def types_match_def\<close>)
  have "c' = c \<or> c' = c2"
    using assms(2) by (auto simp: pdp_type_description_match_def Let_def c1_def c2_def setup_type_cache_def split: if_splits)
  with assms(1) ok le show "cache_ok c'" "c \<subseteq>\<^sub>m c'" by auto
qed

lemma wild_eq_sym: "wild_eq a b = wild_eq b a"
  by (auto simp: wild_eq_def)

lemma types_match_sym: "types_match d p = types_match p d"
proof -
  have "list_all2 wild_eq xs ys = list_all2 wild_eq ys xs" for xs ys
    by (auto simp: list_all2_conv_all_nth wild_eq_sym)
  then show ?thesis by (auto simp: types_match_def Let_def)
qed

lemma types_match_refl [simp]: "types_match d d"
  by (simp add: types_match_def)

lemma no_wild_eq:
  "PDP_SYM_WILDCARD \<notin> set xs \<Longrightarrow> PDP_SYM_WILDCARD \<notin> set ys \<Longrightarrow> list_all2 wild_eq xs ys \<Longrightarrow> xs = ys"
  by (induction xs ys rule: list_induct2') (auto simp: wild_eq_def)

abbreviation concrete :: "symbol \<Rightarrow> bool" where
  "concrete d \<equiv> PDP_SYM_WILDCARD \<notin> set (pdp_type_to_list d)"

lemma last_concrete: "concrete d \<Longrightarrow> last (pdp_type_to_list d) \<noteq> PDP_SYM_WILDCARD"
  by (metis last_in_set pdp_type_to_list_split split_slash_nonempty)

lemma types_match_concrete:
  assumes "concrete d" "concrete p"
  shows "types_match d p \<longleftrightarrow> d = p"
proof
  assume m: "types_match d p"
  let ?ds = "pdp_type_to_list d" and ?ps = "pdp_type_to_list p"
  show "d = p"
  proof (rule ccontr)
    assume "d \<noteq> p"
    with m last_concrete [OF assms(1)] last_concrete [OF assms(2)]
    have l: "length ?ds = length ?ps" and a: "list_all2 wild_eq (take (length ?ps) ?ds) (take (length ?ds) ?ps)"
      by (auto simp: types_match_def Let_def linorder_neq_iff)
    from l a have "list_all2 wild_eq ?ds ?ps" by simp
    with assms have "?ds = ?ps" by (intro no_wild_eq)
    then have "join_types ?ds = join_types ?ps" by simp
    with \<open>d \<noteq> p\<close> show False by (simp add: pdp_type_to_list_split join_split)
  qed
qed simp

section \<open>Properties\<close>

text \<open>
  C25: parsing and printing of type descriptions are inverse: joining the components that
  \<open>pdp_type_to_list\<close> finds gives the name back, and the components of a name built from slash-free
  parts are these parts.
\<close>

theorem type_list_round_trip:
  "join_types (pdp_type_to_list s) = s \<and>
   (ss \<noteq> [] \<longrightarrow> (\<forall>t\<in>set ss. no_slash t) \<longrightarrow> pdp_type_to_list (join_types ss) = ss)"
  by (simp add: pdp_type_to_list_split join_split split_join)

theorem type_list_round_trip_witness:
  "pdp_type_to_list (join_types [''image'', ''*'', ''320x240'']) = [''image'', ''*'', ''320x240'']"
  using type_list_round_trip [of "[]" "[''image'', ''*'', ''320x240'']"] by simp

text \<open>
  C8: whatever the type cache holds, as long as its entries are right, \<open>pdp_type_description_match\<close>
  answers the reference relation, the same with its arguments swapped, and only adds right entries
  to the cache.
\<close>

theorem type_match_independent_of_cache:
  assumes "cache_ok c" "pdp_type_description_match d p c = (b, c')"
  shows "b = types_match d p \<and> b = fst (pdp_type_description_match p d c) \<and> cache_ok c' \<and> c \<subseteq>\<^sub>m c'"
proof -
  obtain b2 c2 where "pdp_type_description_match p d c = (b2, c2)" by fastforce
  from match_cached(1) [OF assms(1) this] this match_cached [OF assms] types_match_sym [of d p]
  show ?thesis by simp
qed

theorem type_match_independent_of_cache_witness:
  "fst (pdp_type_description_match ''image/grey/320x240'' ''image/*'' Map.empty)
     = types_match ''image/grey/320x240'' ''image/*''"
  using type_match_independent_of_cache [of Map.empty "''image/grey/320x240''" "''image/*''"
      "fst (pdp_type_description_match ''image/grey/320x240'' ''image/*'' Map.empty)"
      "snd (pdp_type_description_match ''image/grey/320x240'' ''image/*'' Map.empty)"] by simp

text \<open>
  two descriptions without wildcards match only when they are equal, so a packet found by its
  exact description has exactly that description.
\<close>

theorem concrete_types_match_iff_equal:
  assumes "cache_ok c" "concrete d" "concrete p"
  shows "fst (pdp_type_description_match d p c) \<longleftrightarrow> d = p"
  using match_cached(1) [OF assms(1) prod.collapse [symmetric]] types_match_concrete [OF assms(2,3)] by metis

theorem concrete_types_match_iff_equal_witness:
  "\<not> fst (pdp_type_description_match ''image/grey'' ''image/YCrCb'' Map.empty)"
proof -
  have "concrete ''image/grey''" "concrete ''image/YCrCb''"
    by (simp_all add: pdp_type_to_list_def PDP_SYM_WILDCARD_def)
  from concrete_types_match_iff_equal [OF cache_ok_empty this] show ?thesis by simp
qed

end
