(* ===== verification/Packet.thy ===== *)
theory Packet
  imports TypeDesc "HOL-Library.Multiset"
begin

text \<open>
  The packet pool of \<^verbatim>\<open>system/kernel/pdp_packet.c\<close>: reference-counted packets addressed by handles,
  reuse lists attached to type descriptions, packet classes.

  The pool is a list of slots, \<open>pdp_pool_size\<close> its length, a handle an index into it. The reuse
  lists \<open>s_reusefifo\<close> of the symbols are the map \<open>reusefifo\<close>; theory \<open>PdpListOps\<close> shows that the
  heap lists behind them are such sequences. Each public operation runs under the pool lock and
  is one step here.

  Class methods are code the pool only calls through pointers: they are the fields of the record
  \<open>methods\<close>, a parameter of the operations that call them, as is \<open>malloc\<close>, which returns the content of
  the fresh block or fails. \<open>None\<close> is a dereference of a \<open>NULL\<close> pointer or an access outside a block; a
  constructor may end that way too. Growing the table of the pool is assumed to succeed: its size is
  8 bytes for each packet.
\<close>

section \<open>Packets, classes, the pool\<close>

record t_image =
  i_encoding :: u32
  i_width :: u32
  i_height :: u32
  i_depth :: u32
  i_chanmask :: u32

record t_bitmap =
  b_encoding :: u32
  b_width :: u32
  b_height :: u32
  b_bpp :: u32

text \<open>The union of subheaders; \<open>NoInfo\<close> is the union filled with zeros.\<close>

datatype t_info = NoInfo | Image t_image | Bitmap t_bitmap

record t_pdp =
  ptype :: u32
  desc :: "symbol option"
  psize :: u32
  flags :: u32
  users :: u32
  theclass :: "nat option"
  info :: t_info
  pdata :: "u8 list"

record t_pdp_class =
  c_wakeup :: bool
  c_copy :: bool
  c_cleanup :: bool
  c_sleep :: bool
  c_type :: "symbol option"
  c_create :: bool

record pool =
  pdp_pool :: "t_pdp option list"
  class_list :: "nat list"
  classes :: "nat \<Rightarrow> t_pdp_class"
  reusefifo :: "symbol \<Rightarrow> int list option"
  tcache :: tcache

record methods =
  m_wakeup :: "nat \<Rightarrow> t_pdp \<Rightarrow> t_pdp"
  m_copy :: "nat \<Rightarrow> t_pdp \<Rightarrow> t_pdp \<Rightarrow> t_pdp"
  m_cleanup :: "nat \<Rightarrow> t_pdp \<Rightarrow> t_pdp"
  m_sleep :: "nat \<Rightarrow> t_pdp \<Rightarrow> t_pdp"
  m_create :: "nat \<Rightarrow> symbol \<Rightarrow> pool \<Rightarrow> (int \<times> pool) option"
  m_malloc :: "nat \<Rightarrow> u8 list option"

definition PDP_HEADER_SIZE :: nat where
  "PDP_HEADER_SIZE = 256"

definition PDP_INITIAL_POOL_SIZE :: nat where
  "PDP_INITIAL_POOL_SIZE = 64"

definition PDP_FLAG_DONOTCOPY :: u32 where
  "PDP_FLAG_DONOTCOPY = 1"

abbreviation pdp_pool_size :: "pool \<Rightarrow> nat" where
  "pdp_pool_size P \<equiv> length (pdp_pool P)"

definition pdp_packet_header :: "int \<Rightarrow> pool \<Rightarrow> t_pdp option" where
  "pdp_packet_header handle P =
     (if 0 \<le> handle \<and> handle < int (pdp_pool_size P) then pdp_pool P ! nat handle else None)"

text \<open>A write through a header pointer.\<close>

definition set_packet :: "int \<Rightarrow> t_pdp option \<Rightarrow> pool \<Rightarrow> pool" where
  "set_packet handle h P = P\<lparr>pdp_pool := (pdp_pool P)[nat handle := h]\<rparr>"

abbreviation class_has :: "(t_pdp_class \<Rightarrow> bool) \<Rightarrow> t_pdp \<Rightarrow> pool \<Rightarrow> bool" where
  "class_has m h P \<equiv> (case theclass h of None \<Rightarrow> False | Some c \<Rightarrow> m (classes P c))"

section \<open>Set-up and classes\<close>

definition pdp_packet_setup :: "pool \<Rightarrow> pool" where
  "pdp_packet_setup P = P\<lparr>pdp_pool := replicate PDP_INITIAL_POOL_SIZE None, class_list := []\<rparr>"

text \<open>\<open>c\<close> is the address of the new class; a factory may be \<open>NULL\<close>.\<close>

definition pdp_class_new :: "nat \<Rightarrow> symbol option \<Rightarrow> bool \<Rightarrow> pool \<Rightarrow> pool" where
  "pdp_class_new c type create P =
     P\<lparr>classes := (classes P)(c := \<lparr>c_wakeup = False, c_copy = False, c_cleanup = False, c_sleep = False,
                                  c_type = type, c_create = create\<rparr>),
       class_list := c # class_list P\<rparr>"

section \<open>Allocation\<close>

text \<open>
  \<open>pdp_alloc\<close> takes an \<open>int\<close> and hands it to \<open>malloc\<close> as a \<open>size_t\<close>: a negative size is larger than any
  object, so \<open>malloc\<close> returns \<open>NULL\<close>.
\<close>

definition pdp_alloc_bytes :: "methods \<Rightarrow> int \<Rightarrow> u8 list option" where
  "pdp_alloc_bytes E n = (if n < 0 then None else m_malloc E (nat n))"

text \<open>
  The result is \<open>Some None\<close> when there is no memory. The sum \<open>totalsize\<close> wraps; a block shorter than the
  header is overrun by \<open>memset\<close>.
\<close>

definition pdp_packet_alloc_nolock :: "methods \<Rightarrow> u32 \<Rightarrow> u32 \<Rightarrow> t_pdp option option" where
  "pdp_packet_alloc_nolock E datatype datasize =
     (let totalsize = datasize + of_nat PDP_HEADER_SIZE in
      case pdp_alloc_bytes E (sint totalsize) of
        None \<Rightarrow> Some None
      | Some b \<Rightarrow>
          if length b < PDP_HEADER_SIZE then None
          else Some (Some \<lparr>ptype = datatype, desc = None, psize = totalsize, flags = 0, users = 1, theclass = None,
                           info = NoInfo, pdata = drop PDP_HEADER_SIZE b\<rparr>))"

definition pdp_pool_expand_nolock :: "pool \<Rightarrow> pool" where
  "pdp_pool_expand_nolock P = P\<lparr>pdp_pool := pdp_pool P @ replicate (pdp_pool_size P) None\<rparr>"

fun find_slot :: "nat \<Rightarrow> t_pdp option list \<Rightarrow> nat option" where
  "find_slot p [] = None"
| "find_slot p (h # hs) = (if h = None then Some p else find_slot (p + 1) hs)"

text \<open>The loop of \<open>_pdp_packet_create_nolock\<close>: search from slot \<open>p\<close> on, expand, search on.\<close>

partial_function (option) create_loop :: "methods \<Rightarrow> u32 \<Rightarrow> u32 \<Rightarrow> nat \<Rightarrow> pool \<Rightarrow> (int \<times> pool) option" where [code]:
  "create_loop E datatype datasize p P =
     (case find_slot p (drop p (pdp_pool P)) of
        Some q \<Rightarrow>
          (case pdp_packet_alloc_nolock E datatype datasize of
             None \<Rightarrow> None
           | Some None \<Rightarrow> Some (-1, P)
           | Some (Some header) \<Rightarrow> Some (int q, set_packet (int q) (Some header) P))
      | None \<Rightarrow> create_loop E datatype datasize (pdp_pool_size P) (pdp_pool_expand_nolock P))"

definition pdp_packet_create :: "methods \<Rightarrow> u32 \<Rightarrow> u32 \<Rightarrow> pool \<Rightarrow> (int \<times> pool) option" where
  "pdp_packet_create E datatype datasize P = create_loop E datatype datasize 0 P"

text \<open>\<open>pdp_packet_destroy\<close>: the packets it frees, counted from slot 0.\<close>

definition pdp_packet_destroy :: "pool \<Rightarrow> t_pdp option list" where
  "pdp_packet_destroy P = takeWhile (\<lambda>h. h \<noteq> None) (pdp_pool P)"

definition reusable :: "u32 \<Rightarrow> pool \<Rightarrow> t_pdp option \<Rightarrow> bool" where
  "reusable datasize P s =
     (case s of
        None \<Rightarrow> False
      | Some h \<Rightarrow> users h = 0 \<and> psize h = datasize + of_nat PDP_HEADER_SIZE \<and> \<not> class_has c_cleanup h P)"

fun find_reusable :: "u32 \<Rightarrow> pool \<Rightarrow> nat \<Rightarrow> t_pdp option list \<Rightarrow> nat option" where
  "find_reusable datasize P p [] = None"
| "find_reusable datasize P p (h # hs) = (if reusable datasize P h then Some p else find_reusable datasize P (p + 1) hs)"

definition pdp_packet_new :: "methods \<Rightarrow> u32 \<Rightarrow> u32 \<Rightarrow> pool \<Rightarrow> (int \<times> pool) option" where
  "pdp_packet_new E datatype datasize P =
     (case find_reusable datasize P 0 (pdp_pool P) of
        Some p \<Rightarrow>
          do { h \<leftarrow> pdp_pool P ! p;
               let h = \<lparr>ptype = datatype, desc = None, psize = datasize + of_nat PDP_HEADER_SIZE, flags = 0,
                        users = 1, theclass = None, info = NoInfo, pdata = pdata h\<rparr>;
               Some (int p, set_packet (int p) (Some h) P) }
      | None \<Rightarrow> pdp_packet_create E datatype datasize P)"

section \<open>Reuse\<close>

definition pdp_packet_save_nolock :: "int \<Rightarrow> pool \<Rightarrow> pool option" where
  "pdp_packet_save_nolock packet P =
     do { header \<leftarrow> pdp_packet_header packet P;
          s \<leftarrow> desc header;
          let fifo = (case reusefifo P s of None \<Rightarrow> [] | Some l \<Rightarrow> l);
          Some (P\<lparr>reusefifo := (reusefifo P)(s \<mapsto> if packet \<in> set fifo then fifo else packet # fifo)\<rparr>) }"

abbreviation fifo_length :: "symbol \<Rightarrow> pool \<Rightarrow> nat" where
  "fifo_length s P \<equiv> (case reusefifo P s of None \<Rightarrow> 0 | Some l \<Rightarrow> length l)"

lemma save_other_fifo:
  assumes "pdp_packet_save_nolock p P = Some P'" "pdp_packet_header p P = Some h" "desc h \<noteq> Some s"
  shows "reusefifo P' s = reusefifo P s"
  using assms by (auto simp: pdp_packet_save_nolock_def Let_def bind_eq_Some_conv)

lemma match_self: "pdp_type_description_match d d c = (True, c)"
  by (simp add: pdp_type_description_match_def)

text \<open>
  The loop of \<open>pdp_packet_reuse\<close> on the list of \<open>td\<close>; the handle is \<open>-1\<close> when the list runs empty. Each
  round pops one packet and pushes at most to the list of another description.
\<close>

function reuse_loop :: "symbol \<Rightarrow> pool \<Rightarrow> (int \<times> pool) option" where
  "reuse_loop td P =
     (case reusefifo P td of
        None \<Rightarrow> Some (-1, P)
      | Some [] \<Rightarrow> Some (-1, P)
      | Some (packet # l) \<Rightarrow>
          (let P = P\<lparr>reusefifo := (reusefifo P)(td \<mapsto> l)\<rparr> in
           case pdp_packet_header packet P of
             None \<Rightarrow> None
           | Some header \<Rightarrow>
               if users header = 0
               then (case desc header of
                       None \<Rightarrow> None
                     | Some d \<Rightarrow>
                         (let (m, c) = pdp_type_description_match d td (tcache P); P = P\<lparr>tcache := c\<rparr> in
                          if m
                          then Some (packet, set_packet packet (Some (header\<lparr>users := users header + 1\<rparr>)) P)
                          else (case pdp_packet_save_nolock packet P of
                                  None \<Rightarrow> None
                                | Some P \<Rightarrow> reuse_loop td P)))
               else reuse_loop td P))"
  by pat_completeness auto

termination reuse_loop
proof (relation "measure (\<lambda>(td, P). fifo_length td P)", goal_cases)
  case (2 td P fs packet l Q header d mc m c R S)
  then have "d \<noteq> td" using match_self by (metis prod.inject)
  have "pdp_packet_header packet R = Some header" using 2 by (simp add: pdp_packet_header_def split: if_splits)
  with \<open>d \<noteq> td\<close> have "reusefifo S td = reusefifo R td"
    using save_other_fifo [of packet R S header td] 2 by simp
  with 2 show ?case by simp
qed simp_all

definition wake :: "methods \<Rightarrow> int \<Rightarrow> pool \<Rightarrow> pool" where
  "wake E packet P =
     (case pdp_packet_header packet P of
        None \<Rightarrow> P
      | Some header \<Rightarrow>
          (case theclass header of
             None \<Rightarrow> P
           | Some c \<Rightarrow> if c_wakeup (classes P c) then set_packet packet (Some (m_wakeup E c header)) P else P))"

definition pdp_packet_reuse :: "methods \<Rightarrow> symbol option \<Rightarrow> pool \<Rightarrow> (int \<times> pool) option" where
  "pdp_packet_reuse E type_description P =
     (case type_description of
        None \<Rightarrow> Some (-1, P)
      | Some td \<Rightarrow> do { (packet, P) \<leftarrow> reuse_loop td P; Some (packet, wake E packet P) })"

section \<open>The factory\<close>

text \<open>
  The loop over the classes. A class without template is skipped; a missing description is
  dereferenced by the first match.
\<close>

fun factory_loop :: "methods \<Rightarrow> symbol option \<Rightarrow> nat list \<Rightarrow> pool \<Rightarrow> (int \<times> pool) option" where
  "factory_loop E type [] P = Some (-1, P)"
| "factory_loop E type (c # cs) P =
     (case c_type (classes P c) of
        None \<Rightarrow> factory_loop E type cs P
      | Some t \<Rightarrow>
          (case type of
             None \<Rightarrow> None
           | Some ty \<Rightarrow>
               (let (m, tc) = pdp_type_description_match ty t (tcache P); P = P\<lparr>tcache := tc\<rparr> in
                if m then (if c_create (classes P c) then m_create E c ty P else Some (-1, P))
                else factory_loop E type cs P)))"

definition pdp_factory_newpacket :: "methods \<Rightarrow> symbol option \<Rightarrow> pool \<Rightarrow> (int \<times> pool) option" where
  "pdp_factory_newpacket E type P =
     do { (p, P) \<leftarrow> pdp_packet_reuse E type P;
          if p \<noteq> -1 then Some (p, P) else factory_loop E type (class_list P) P }"

section \<open>Copies and release\<close>

definition pdp_packet_copy_ro :: "int \<Rightarrow> pool \<Rightarrow> int \<times> pool" where
  "pdp_packet_copy_ro handle P =
     (case pdp_packet_header handle P of
        None \<Rightarrow> (-1, P)
      | Some header \<Rightarrow> (handle, set_packet handle (Some (header\<lparr>users := users header + 1\<rparr>)) P))"

text \<open>\<open>memcpy(new_header, header, PDP_HEADER_SIZE)\<close>: the whole header, not the data.\<close>

definition copy_header :: "t_pdp \<Rightarrow> t_pdp \<Rightarrow> t_pdp" where
  "copy_header new_header header = header\<lparr>pdata := pdata new_header\<rparr>"

definition pdp_packet_clone_rw :: "methods \<Rightarrow> int \<Rightarrow> pool \<Rightarrow> (int \<times> pool) option" where
  "pdp_packet_clone_rw E handle P =
     (case pdp_packet_header handle P of
        None \<Rightarrow> Some (-1, P)
      | Some header \<Rightarrow>
          do { (new_handle, P) \<leftarrow> pdp_packet_reuse E (desc header) P;
               (new_handle, P) \<leftarrow>
                 (if new_handle = -1 then pdp_factory_newpacket E (desc header) P else Some (new_handle, P));
               if new_handle = -1
               then do { (new_handle, P) \<leftarrow>
                           pdp_packet_new E (ptype header) (psize header - of_nat PDP_HEADER_SIZE) P;
                         Some (new_handle,
                           case pdp_packet_header new_handle P of
                             None \<Rightarrow> P
                           | Some new_header \<Rightarrow> set_packet new_handle (Some (copy_header new_header header)) P) }
               else Some (new_handle, P) })"

text \<open>
  \<open>memcpy\<close> of \<open>pdp_packet_data_size(handle)\<close> bytes into the target's buffer; \<open>None\<close> when it would
  overrun one of the buffers.
\<close>

definition copy_data :: "t_pdp \<Rightarrow> t_pdp \<Rightarrow> t_pdp option" where
  "copy_data header new_header =
     (let n = unat (psize header - of_nat PDP_HEADER_SIZE) in
      if n \<le> length (pdata header) \<and> n \<le> length (pdata new_header)
      then Some (new_header\<lparr>pdata := take n (pdata header) @ drop n (pdata new_header)\<rparr>)
      else None)"

definition pdp_packet_copy_rw :: "methods \<Rightarrow> int \<Rightarrow> pool \<Rightarrow> (int \<times> pool) option" where
  "pdp_packet_copy_rw E handle P =
     (case pdp_packet_header handle P of
        None \<Rightarrow> Some (-1, P)
      | Some header \<Rightarrow>
          if flags header AND PDP_FLAG_DONOTCOPY \<noteq> 0 then Some (-1, P)
          else do { (new_handle, P) \<leftarrow> pdp_packet_clone_rw E handle P;
                    if new_handle = -1 then Some (-1, P)
                    else do { header \<leftarrow> pdp_packet_header handle P;
                              new_header \<leftarrow> pdp_packet_header new_handle P;
                              new_header \<leftarrow>
                                (case theclass header of
                                   Some c \<Rightarrow> if c_copy (classes P c) then Some (m_copy E c header new_header)
                                             else copy_data header new_header
                                 | None \<Rightarrow> copy_data header new_header);
                              Some (new_handle, set_packet new_handle (Some new_header) P) } })"

definition pdp_packet_mark_unused :: "methods \<Rightarrow> int \<Rightarrow> pool \<Rightarrow> pool option" where
  "pdp_packet_mark_unused E handle P =
     (case pdp_packet_header handle P of
        None \<Rightarrow> Some P
      | Some header \<Rightarrow>
          if users header > 1 then Some (set_packet handle (Some (header\<lparr>users := users header - 1\<rparr>)) P)
          else (let header = (case theclass header of
                                Some c \<Rightarrow> if c_sleep (classes P c) then m_sleep E c header else header
                              | None \<Rightarrow> header);
                    header = header\<lparr>users := 0\<rparr>;
                    P = set_packet handle (Some header) P
                in if desc header \<noteq> None then pdp_packet_save_nolock handle P else Some P))"

text \<open>
  \<open>pdp_packet_delete\<close>: the destructor only works on resources outside the pool, since the packet
  itself is freed right after it.
\<close>

definition pdp_packet_delete :: "int \<Rightarrow> pool \<Rightarrow> pool option" where
  "pdp_packet_delete handle P =
     do { header \<leftarrow> pdp_packet_header handle P; Some (set_packet handle None P) }"

section \<open>Access\<close>

definition pdp_packet_subheader :: "int \<Rightarrow> pool \<Rightarrow> t_info option" where
  "pdp_packet_subheader handle P = map_option info (pdp_packet_header handle P)"

definition pdp_packet_data :: "int \<Rightarrow> pool \<Rightarrow> u8 list option" where
  "pdp_packet_data handle P = map_option pdata (pdp_packet_header handle P)"

definition pdp_packet_data_size :: "int \<Rightarrow> pool \<Rightarrow> u32" where
  "pdp_packet_data_size handle P =
     (case pdp_packet_header handle P of None \<Rightarrow> 0 | Some h \<Rightarrow> psize h - of_nat PDP_HEADER_SIZE)"

definition pdp_packet_writable :: "int \<Rightarrow> pool \<Rightarrow> bool" where
  "pdp_packet_writable packet P =
     (case pdp_packet_header packet P of None \<Rightarrow> False | Some h \<Rightarrow> users h = 1)"

definition pdp_packet_replace_with_writable :: "methods \<Rightarrow> int \<Rightarrow> pool \<Rightarrow> (int \<times> pool) option" where
  "pdp_packet_replace_with_writable E packet P =
     (if pdp_packet_writable packet P then Some (packet, P)
      else do { (new_p, P) \<leftarrow> pdp_packet_copy_rw E packet P;
                P \<leftarrow> pdp_packet_mark_unused E packet P;
                Some (new_p, P) })"

definition pdp_packet_get_description :: "int \<Rightarrow> pool \<Rightarrow> symbol" where
  "pdp_packet_get_description packet P =
     (case pdp_packet_header packet P of
        None \<Rightarrow> ''invalid''
      | Some header \<Rightarrow> (case desc header of None \<Rightarrow> ''unknown'' | Some d \<Rightarrow> d))"

end
