(* ===== verification/PacketPool.thy ===== *)
theory PacketPool
  imports Packet
begin

text \<open>
  Reference counting and reuse in the packet pool.

  \<open>pool_inv P R\<close> relates a pool to the multiset \<open>R\<close> of references its clients hold: every held packet is
  alive and its \<open>users\<close> field is the number of its holders. The step relation \<open>pstep\<close> has one rule
  for each operation a client may perform; the invariant holds in every state it reaches. The hooks of
  classes enter through the contract \<open>methods_ok\<close>, what \<^verbatim>\<open>include/pdp_packet.h\<close> documents for them, their
  constructors through \<open>creates_ok\<close>, stated for one description at a time.
\<close>

section \<open>The invariant\<close>

definition refs_ok :: "pool \<Rightarrow> int multiset \<Rightarrow> bool" where
  "refs_ok P R \<longleftrightarrow> (\<forall>p \<in># R. pdp_packet_header p P \<noteq> None) \<and>
     (\<forall>p h. pdp_packet_header p P = Some h \<longrightarrow> unat (users h) = count R p)"

definition fifos_ok :: "pool \<Rightarrow> bool" where
  "fifos_ok P \<longleftrightarrow> (\<forall>s l. reusefifo P s = Some l \<longrightarrow> (\<forall>p\<in>set l. pdp_packet_header p P \<noteq> None))"

definition descs_ok :: "pool \<Rightarrow> bool" where
  "descs_ok P \<longleftrightarrow> (\<forall>p h. pdp_packet_header p P = Some h \<longrightarrow> users h = 0 \<longrightarrow> desc h \<noteq> None)"

definition pool_inv :: "pool \<Rightarrow> int multiset \<Rightarrow> bool" where
  "pool_inv P R \<longleftrightarrow> pdp_pool P \<noteq> [] \<and> cache_ok (tcache P) \<and> refs_ok P R \<and> fifos_ok P \<and> descs_ok P \<and>
     size R < 2 ^ 32"

lemma invI:
  assumes "pdp_pool P \<noteq> []" "cache_ok (tcache P)" "size R < 2 ^ 32"
    and "\<And>p. p \<in># R \<Longrightarrow> pdp_packet_header p P \<noteq> None"
    and "\<And>p h. pdp_packet_header p P = Some h \<Longrightarrow> unat (users h) = count R p"
    and "\<And>s l p. reusefifo P s = Some l \<Longrightarrow> p \<in> set l \<Longrightarrow> pdp_packet_header p P \<noteq> None"
    and "\<And>p h. pdp_packet_header p P = Some h \<Longrightarrow> users h = 0 \<Longrightarrow> desc h \<noteq> None"
  shows "pool_inv P R"
  unfolding pool_inv_def refs_ok_def fifos_ok_def descs_ok_def using assms by simp

lemma invD:
  assumes "pool_inv P R"
  shows "pdp_pool P \<noteq> []" "cache_ok (tcache P)" "size R < 2 ^ 32"
    and "\<And>p. p \<in># R \<Longrightarrow> pdp_packet_header p P \<noteq> None"
    and "\<And>p h. pdp_packet_header p P = Some h \<Longrightarrow> unat (users h) = count R p"
    and "\<And>s l p. reusefifo P s = Some l \<Longrightarrow> p \<in> set l \<Longrightarrow> pdp_packet_header p P \<noteq> None"
    and "\<And>p h. pdp_packet_header p P = Some h \<Longrightarrow> users h = 0 \<Longrightarrow> desc h \<noteq> None"
  using assms unfolding pool_inv_def refs_ok_def fifos_ok_def descs_ok_def by simp_all

section \<open>Slots\<close>

lemma header_valid: "pdp_packet_header p P = Some h \<Longrightarrow> 0 \<le> p \<and> p < int (pdp_pool_size P)"
  by (simp add: pdp_packet_header_def split: if_splits)

lemma header_set_packet:
  "0 \<le> q \<Longrightarrow> q < int (pdp_pool_size P) \<Longrightarrow>
    pdp_packet_header p (set_packet q h P) = (if p = q then h else pdp_packet_header p P)"
  by (auto simp: pdp_packet_header_def set_packet_def nth_list_update nat_eq_iff2)

lemma set_packet_fields [simp]:
  "reusefifo (set_packet q h P) = reusefifo P" "tcache (set_packet q h P) = tcache P"
  "classes (set_packet q h P) = classes P" "class_list (set_packet q h P) = class_list P"
  "length (pdp_pool (set_packet q h P)) = length (pdp_pool P)"
  "pdp_pool (set_packet q h P) = [] \<longleftrightarrow> pdp_pool P = []"
  by (simp_all add: set_packet_def)

lemma header_fields [simp]:
  "pdp_packet_header p (P\<lparr>reusefifo := f\<rparr>) = pdp_packet_header p P"
  "pdp_packet_header p (P\<lparr>tcache := c\<rparr>) = pdp_packet_header p P"
  by (simp_all add: pdp_packet_header_def)

lemma users_zero: "pool_inv P R \<Longrightarrow> pdp_packet_header p P = Some h \<Longrightarrow> users h = 0 \<longleftrightarrow> p \<notin># R"
  using invD(5) [of P R p h] by (metis count_eq_zero_iff unat_eq_zero)

lemma count_lt: "pool_inv P R \<Longrightarrow> count R p < 2 ^ 32"
  using invD(3) [of P R] count_le_size [of R p] by linarith

text \<open>The rule for a write through one header pointer.\<close>

lemma set_packet_inv:
  assumes inv: "pool_inv P R" and q: "0 \<le> q" "q < int (pdp_pool_size P)"
    and R': "\<And>p. p \<noteq> q \<Longrightarrow> count R' p = count R p" "size R' < 2 ^ 32" "unat (users h) = count R' q"
    and d: "users h = 0 \<Longrightarrow> desc h \<noteq> None"
  shows "pool_inv (set_packet q (Some h) P) R'"
proof (rule invI)
  note H = header_set_packet [OF q]
  show "pdp_packet_header p (set_packet q (Some h) P) \<noteq> None" if "p \<in># R'" for p
  proof (cases "p = q")
    case False
    with R'(1) that have "p \<in># R" by (metis count_inI count_eq_zero_iff)
    with False invD(4) [OF inv] show ?thesis by (simp add: H)
  qed (simp add: H)
  show "unat (users g) = count R' p" if "pdp_packet_header p (set_packet q (Some h) P) = Some g" for p g
    using that R'(1) [of p] R'(3) invD(5) [OF inv, of p g] by (auto simp: H split: if_splits)
  show "pdp_packet_header p (set_packet q (Some h) P) \<noteq> None"
    if "reusefifo (set_packet q (Some h) P) s = Some l" "p \<in> set l" for s l p
    using invD(6) [OF inv, of s l p] that by (simp add: H)
  show "desc g \<noteq> None" if "pdp_packet_header p (set_packet q (Some h) P) = Some g" "users g = 0" for p g
    using that d invD(7) [OF inv, of p g] by (auto simp: H split: if_splits)
qed (use invD [OF inv] R'(2) in simp_all)

lemma fifo_inv:
  assumes inv: "pool_inv P R" and "\<And>s l. f s = Some l \<Longrightarrow> \<forall>p\<in>set l. pdp_packet_header p P \<noteq> None"
  shows "pool_inv (P\<lparr>reusefifo := f\<rparr>) R"
proof (rule invI)
  show "pdp_packet_header p (P\<lparr>reusefifo := f\<rparr>) \<noteq> None"
    if "reusefifo (P\<lparr>reusefifo := f\<rparr>) s = Some l" "p \<in> set l" for s l p
    using assms(2) [of s l] that by simp
qed (use invD [OF inv] in simp_all)

lemma cache_inv: "pool_inv P R \<Longrightarrow> cache_ok c \<Longrightarrow> pool_inv (P\<lparr>tcache := c\<rparr>) R"
  by (simp add: pool_inv_def refs_ok_def fifos_ok_def descs_ok_def)

section \<open>Creation\<close>

lemma find_slot_Some: "find_slot p hs = Some q \<Longrightarrow> p \<le> q \<and> q < p + length hs \<and> hs ! (q - p) = None"
proof (induction hs arbitrary: p)
  case (Cons h hs)
  then show ?case by (fastforce simp: nth_Cons' Suc_diff_Suc split: if_splits)
qed simp

lemma find_slot_None: "find_slot p hs = None \<Longrightarrow> None \<notin> set hs"
  by (induction hs arbitrary: p) (auto split: if_splits)

lemma find_slot_replicate: "0 < n \<Longrightarrow> find_slot p (replicate n None) = Some p"
  by (cases n) auto

text \<open>What a client may rely on when a packet was made for it.\<close>

definition made :: "pool \<Rightarrow> int multiset \<Rightarrow> int \<Rightarrow> pool \<Rightarrow> bool" where
  "made P R q P' \<longleftrightarrow> pool_inv P' (add_mset q R) \<and> q \<notin># R \<and> 0 \<le> q \<and> pdp_packet_writable q P' \<and>
     (\<forall>p \<in># R. pdp_packet_header p P' = pdp_packet_header p P)"

text \<open>What it may rely on when no packet could be made.\<close>

definition kept :: "pool \<Rightarrow> int multiset \<Rightarrow> pool \<Rightarrow> bool" where
  "kept P R P' \<longleftrightarrow> pool_inv P' R \<and> (\<forall>p \<in># R. pdp_packet_header p P' = pdp_packet_header p P)"

text \<open>The result of an operation that may fail.\<close>

abbreviation delivered :: "pool \<Rightarrow> int multiset \<Rightarrow> int \<Rightarrow> pool \<Rightarrow> bool" where
  "delivered P R q P' \<equiv> (if q = -1 then kept P R P' else made P R q P')"

lemma make_packet:
  assumes inv: "pool_inv P R" and q: "0 \<le> q" "q < int (pdp_pool_size P)" and free: "q \<notin># R"
    and sz: "size R < 2 ^ 32 - 1" and h: "users h = 1"
  shows "made P R q (set_packet q (Some h) P)"
proof -
  have "pool_inv (set_packet q (Some h) P) (add_mset q R)"
    using free h sz by (intro set_packet_inv [OF inv q]) (simp_all add: count_eq_zero_iff)
  then show ?thesis
    using free q h by (auto simp: made_def header_set_packet [OF q] pdp_packet_writable_def)
qed

lemma expand_header: "pdp_packet_header p (pdp_pool_expand_nolock P) = pdp_packet_header p P"
proof -
  have "(pdp_pool P @ replicate (pdp_pool_size P) None) ! nat p = None"
    if "\<not> p < int (pdp_pool_size P)" "p < int (pdp_pool_size P + pdp_pool_size P)"
    using that by (simp add: nth_append nat_less_iff)
  then show ?thesis
    by (auto simp: pdp_packet_header_def pdp_pool_expand_nolock_def nth_append nat_less_iff)
qed

lemma expand_inv: "pool_inv P R \<Longrightarrow> pool_inv (pdp_pool_expand_nolock P) R"
  using invD(1) [of P R]
  by (auto simp: pool_inv_def refs_ok_def fifos_ok_def descs_ok_def expand_header) (simp_all add: pdp_pool_expand_nolock_def)

lemma expand_find:
  assumes "pdp_pool P \<noteq> []"
  shows "find_slot (pdp_pool_size P) (drop (pdp_pool_size P) (pdp_pool (pdp_pool_expand_nolock P))) = Some (pdp_pool_size P)"
  using assms find_slot_replicate [of "pdp_pool_size P" "pdp_pool_size P"] by (simp add: pdp_pool_expand_nolock_def)

text \<open>The loop finds a free slot, at the latest after it has expanded the pool once.\<close>

lemma create_cases:
  assumes "pdp_pool P \<noteq> []"
  obtains n P0 where "P0 = P \<or> P0 = pdp_pool_expand_nolock P" "n < pdp_pool_size P0" "pdp_packet_header (int n) P0 = None"
    "pdp_packet_create E ty ds P =
       (case pdp_packet_alloc_nolock E ty ds of
          None \<Rightarrow> None
        | Some None \<Rightarrow> Some (-1, P0)
        | Some (Some h) \<Rightarrow> Some (int n, set_packet (int n) (Some h) P0))"
proof (cases "find_slot 0 (pdp_pool P)")
  case (Some n)
  from find_slot_Some [OF Some] show ?thesis
    by (intro that [of P n]) (simp_all add: pdp_packet_header_def pdp_packet_create_def create_loop.simps Some)
next
  case None
  let ?P = "pdp_pool_expand_nolock P" and ?n = "pdp_pool_size P"
  note f = expand_find [OF assms]
  have c: "pdp_packet_create E ty ds P = create_loop E ty ds ?n ?P"
    unfolding pdp_packet_create_def by (subst create_loop.simps) (simp add: None)
  show ?thesis
  proof (rule that [of ?P ?n])
    show "?n < pdp_pool_size ?P" using assms by (simp add: pdp_pool_expand_nolock_def)
    show "pdp_packet_header (int ?n) ?P = None" using assms
      by (simp add: pdp_packet_header_def pdp_pool_expand_nolock_def nth_append)
  qed (simp, unfold c, subst create_loop.simps, simp add: f)
qed

lemma alloc_users: "pdp_packet_alloc_nolock E ty ds = Some (Some h) \<Longrightarrow> users h = 1"
  by (auto simp: pdp_packet_alloc_nolock_def Let_def split: option.splits if_splits)

lemma expand_kept: "pool_inv P R \<Longrightarrow> kept P R (pdp_pool_expand_nolock P)"
  by (simp add: kept_def expand_inv expand_header)

lemma create_ok:
  assumes inv: "pool_inv P R" and sz: "size R < 2 ^ 32 - 1" and r: "pdp_packet_create E ty ds P = Some (q, P')"
  shows "delivered P R q P'"
proof (cases rule: create_cases [OF invD(1) [OF inv], of E ty ds, case_names slot])
  case (slot n P0)
  have k: "kept P R P0" using slot(1) inv expand_kept by (auto simp: kept_def)
  then have i: "pool_inv P0 R" by (simp add: kept_def)
  show ?thesis
  proof (cases "pdp_packet_alloc_nolock E ty ds")
    case (Some a)
    show ?thesis
    proof (cases a)
      case None
      then show ?thesis using r k slot(4) Some by simp
    next
      case (Some h)
      then have a: "pdp_packet_alloc_nolock E ty ds = Some (Some h)" using \<open>pdp_packet_alloc_nolock E ty ds = Some a\<close> by simp
      have "int n \<notin># R" using invD(4) [OF i, of "int n"] slot(3) by blast
      then have "made P0 R (int n) (set_packet (int n) (Some h) P0)"
        by (intro make_packet [OF i _ _ _ sz alloc_users [OF a]]) (simp_all add: slot(2))
      then show ?thesis using r k slot(4) a by (auto simp: made_def kept_def)
    qed
  qed (use r slot(4) in simp)
qed

text \<open>\<open>malloc\<close> returns blocks of the size asked for; where it always does, creation succeeds.\<close>

definition malloc_fits :: "methods \<Rightarrow> bool" where
  "malloc_fits E \<longleftrightarrow> (\<forall>n b. m_malloc E n = Some b \<longrightarrow> length b = n)"

definition malloc_ok :: "methods \<Rightarrow> bool" where
  "malloc_ok E \<longleftrightarrow> malloc_fits E \<and> (\<forall>n < 2 ^ 31. m_malloc E n \<noteq> None)"

lemma totalsize: "unat ds + 256 < 2 ^ 32 \<Longrightarrow> unat (ds + of_nat PDP_HEADER_SIZE :: u32) = unat ds + 256"
  by (simp add: PDP_HEADER_SIZE_def unat_word_ariths)

lemma alloc_defined:
  assumes "malloc_fits E" "unat ds + 256 < 2 ^ 32"
  shows "pdp_packet_alloc_nolock E ty ds \<noteq> None"
proof -
  have "\<not> length b < PDP_HEADER_SIZE" if b: "pdp_alloc_bytes E (sint (ds + of_nat PDP_HEADER_SIZE)) = Some b" for b
  proof -
    from b have "0 \<le> sint (ds + of_nat PDP_HEADER_SIZE)" by (simp add: pdp_alloc_bytes_def split: if_splits)
    note s = sint_nonneg [OF this, unfolded totalsize [OF assms(2)]]
    from b have "m_malloc E (unat ds + 256) = Some b" unfolding s pdp_alloc_bytes_def nat_int by (simp only: split: if_splits)
    with assms(1) have "length b = unat ds + 256" by (simp add: malloc_fits_def)
    then show ?thesis by (simp add: PDP_HEADER_SIZE_def)
  qed
  then show ?thesis by (auto simp: pdp_packet_alloc_nolock_def Let_def split: option.splits)
qed

definition blank :: "u32 \<Rightarrow> u32 \<Rightarrow> t_pdp \<Rightarrow> bool" where
  "blank ty ds h \<longleftrightarrow> ptype h = ty \<and> desc h = None \<and> psize h = ds + of_nat PDP_HEADER_SIZE \<and> flags h = 0 \<and> users h = 1 \<and>
     theclass h = None \<and> info h = NoInfo"

lemma alloc_blank:
  assumes "pdp_packet_alloc_nolock E ty ds = Some (Some h)"
  shows "blank ty ds h" "malloc_fits E \<Longrightarrow> unat ds + 256 < 2 ^ 32 \<Longrightarrow> length (pdata h) = unat ds"
proof -
  from assms obtain b where b: "pdp_alloc_bytes E (sint (ds + of_nat PDP_HEADER_SIZE)) = Some b" "pdata h = drop PDP_HEADER_SIZE b"
    "blank ty ds h" by (auto simp: pdp_packet_alloc_nolock_def Let_def blank_def split: option.splits if_splits)
  then show "blank ty ds h" by simp
  assume fits: "malloc_fits E" and u: "unat ds + 256 < 2 ^ 32"
  from b(1) have "0 \<le> sint (ds + of_nat PDP_HEADER_SIZE)" by (simp add: pdp_alloc_bytes_def split: if_splits)
  note s = sint_nonneg [OF this, unfolded totalsize [OF u]]
  from b(1) have "m_malloc E (unat ds + 256) = Some b" unfolding s pdp_alloc_bytes_def nat_int by (simp only: split: if_splits)
  with fits b(2) show "length (pdata h) = unat ds" by (simp add: malloc_fits_def PDP_HEADER_SIZE_def)
qed

lemma alloc_succeeds:
  assumes "malloc_ok E" "unat ds + 256 < 2 ^ 31"
  shows "\<exists>h. pdp_packet_alloc_nolock E ty ds = Some (Some h) \<and> blank ty ds h \<and> length (pdata h) = unat ds"
proof -
  have u: "unat (ds + of_nat PDP_HEADER_SIZE :: u32) = unat ds + 256" using assms(2) by (intro totalsize) simp
  then have s: "sint (ds + of_nat PDP_HEADER_SIZE :: u32) = int (unat ds + 256)" using sint_u32 [of "ds + of_nat PDP_HEADER_SIZE"] assms(2) by (simp only:)
  from assms obtain b where b: "m_malloc E (unat ds + 256) = Some b" "length b = unat ds + 256"
    unfolding malloc_ok_def malloc_fits_def by blast
  have "pdp_alloc_bytes E (sint (ds + of_nat PDP_HEADER_SIZE)) = Some b" unfolding s pdp_alloc_bytes_def nat_int using b(1) by (simp only: of_nat_less_0_iff if_False)
  then show ?thesis using b(2) by (simp add: pdp_packet_alloc_nolock_def Let_def blank_def PDP_HEADER_SIZE_def)
qed

lemma create_defined:
  assumes "pdp_pool P \<noteq> []" "malloc_fits E" "unat ds + 256 < 2 ^ 32"
  shows "\<exists>q P'. pdp_packet_create E ty ds P = Some (q, P')"
proof (cases rule: create_cases [OF assms(1), of E ty ds, case_names slot])
  case (slot n P0)
  with alloc_defined [OF assms(2,3), of ty] show ?thesis by (auto split: option.splits)
qed

lemma create_succeeds:
  assumes inv: "pool_inv P R" "size R < 2 ^ 32 - 1" and E: "malloc_ok E" "unat ds + 256 < 2 ^ 31"
  shows "\<exists>q P' h. pdp_packet_create E ty ds P = Some (q, P') \<and> made P R q P' \<and> pdp_packet_header q P' = Some h \<and>
    blank ty ds h \<and> length (pdata h) = unat ds \<and> (\<forall>x. x \<noteq> q \<longrightarrow> pdp_packet_header x P' = pdp_packet_header x P)"
proof (cases rule: create_cases [OF invD(1) [OF inv(1)], of E ty ds, case_names slot])
  case (slot n P0)
  from alloc_succeeds [OF E, of ty] obtain h where
    h: "pdp_packet_alloc_nolock E ty ds = Some (Some h)" "blank ty ds h" "length (pdata h) = unat ds" by blast
  then have c: "pdp_packet_create E ty ds P = Some (int n, set_packet (int n) (Some h) P0)" using slot(4) by simp
  have "pdp_packet_header x P0 = pdp_packet_header x P" for x using slot(1) expand_header by auto
  with create_ok [OF inv c] c h slot(2) show ?thesis by (auto simp: header_set_packet)
qed

lemma find_reusable_Some:
  "find_reusable ds P p hs = Some q \<Longrightarrow> p \<le> q \<and> q < p + length hs \<and> reusable ds P (hs ! (q - p))"
proof (induction hs arbitrary: p)
  case (Cons h hs)
  then show ?case by (fastforce simp: nth_Cons' Suc_diff_Suc split: if_splits)
qed simp

lemma new_reuses:
  assumes inv: "pool_inv P R" and sz: "size R < 2 ^ 32 - 1" and f: "find_reusable ds P 0 (pdp_pool P) = Some q"
  shows "\<exists>h g. pdp_packet_header (int q) P = Some h \<and> psize h = ds + of_nat PDP_HEADER_SIZE \<and> blank ty ds g \<and> pdata g = pdata h \<and>
    pdp_packet_new E ty ds P = Some (int q, set_packet (int q) (Some g) P) \<and> made P R (int q) (set_packet (int q) (Some g) P)"
proof -
  from find_reusable_Some [OF f] obtain h where
    q: "q < pdp_pool_size P" "pdp_pool P ! q = Some h" "users h = 0" "psize h = ds + of_nat PDP_HEADER_SIZE"
    by (auto simp: reusable_def split: option.splits)
  let ?g = "\<lparr>ptype = ty, desc = None, psize = ds + of_nat PDP_HEADER_SIZE, flags = 0, users = 1, theclass = None,
    info = NoInfo, pdata = pdata h\<rparr>"
  have H: "pdp_packet_header (int q) P = Some h" using q by (simp add: pdp_packet_header_def)
  then have "int q \<notin># R" using users_zero [OF inv] q(3) by blast
  then have "made P R (int q) (set_packet (int q) (Some ?g) P)" using q(1) by (intro make_packet [OF inv _ _ _ sz]) simp_all
  then show ?thesis using H q f
    by (intro exI [of _ h] exI [of _ ?g]) (simp add: pdp_packet_new_def Let_def blank_def)
qed

lemma new_ok:
  assumes inv: "pool_inv P R" and sz: "size R < 2 ^ 32 - 1" and r: "pdp_packet_new E ty ds P = Some (q, P')"
  shows "delivered P R q P'"
proof (cases "find_reusable ds P 0 (pdp_pool P)")
  case None
  with r create_ok [OF inv sz] show ?thesis by (simp add: pdp_packet_new_def)
next
  case (Some n)
  from new_reuses [OF inv sz Some, of ty E] r show ?thesis by auto
qed

lemma new_defined:
  assumes "pool_inv P R" "size R < 2 ^ 32 - 1" "malloc_fits E" "unat ds + 256 < 2 ^ 32"
  shows "\<exists>q P'. pdp_packet_new E ty ds P = Some (q, P')"
proof (cases "find_reusable ds P 0 (pdp_pool P)")
  case None
  with create_defined [OF invD(1) [OF assms(1)] assms(3,4)] show ?thesis by (simp add: pdp_packet_new_def)
next
  case (Some n)
  from new_reuses [OF assms(1,2) Some, of ty E] show ?thesis by blast
qed

lemma new_succeeds:
  assumes "pool_inv P R" "size R < 2 ^ 32 - 1" "malloc_ok E" "unat ds + 256 < 2 ^ 31"
  shows "\<exists>q P'. pdp_packet_new E ty ds P = Some (q, P') \<and> made P R q P'"
proof (cases "find_reusable ds P 0 (pdp_pool P)")
  case None
  with create_succeeds [OF assms, of ty] show ?thesis by (auto simp: pdp_packet_new_def)
next
  case (Some n)
  from new_reuses [OF assms(1,2) Some, of ty E] show ?thesis by blast
qed

text \<open>Every packet has the buffer its size field announces.\<close>

definition data_ok :: "pool \<Rightarrow> bool" where
  "data_ok P \<longleftrightarrow> (\<forall>p h. pdp_packet_header p P = Some h \<longrightarrow> length (pdata h) = unat (psize h - of_nat PDP_HEADER_SIZE))"

text \<open>What \<open>pdp_packet_new\<close> delivers when it does: a blank packet.\<close>

lemma new_blank:
  assumes inv: "pool_inv P R" "size R < 2 ^ 32 - 1" and r: "pdp_packet_new E ty ds P = Some (q, P')" "q \<noteq> -1"
  shows "\<exists>h. pdp_packet_header q P' = Some h \<and> blank ty ds h \<and> (\<forall>x. x \<noteq> q \<longrightarrow> pdp_packet_header x P' = pdp_packet_header x P) \<and>
    (data_ok P \<longrightarrow> malloc_fits E \<longrightarrow> unat ds + 256 < 2 ^ 32 \<longrightarrow> length (pdata h) = unat ds)"
proof (cases "find_reusable ds P 0 (pdp_pool P)")
  case (Some n)
  from new_reuses [OF inv Some, of ty E] obtain h g where
    h: "pdp_packet_header (int n) P = Some h" "psize h = ds + of_nat PDP_HEADER_SIZE" "blank ty ds g" "pdata g = pdata h"
      "pdp_packet_new E ty ds P = Some (int n, set_packet (int n) (Some g) P)" by blast
  then have q: "q = int n" "P' = set_packet (int n) (Some g) P" using r(1) by simp_all
  have "data_ok P \<Longrightarrow> length (pdata h) = unat ds" using h(1,2) by (simp add: data_ok_def)
  with h(3,4) header_valid [OF h(1)] show ?thesis unfolding q by (auto simp: header_set_packet)
next
  case None
  then have c: "pdp_packet_create E ty ds P = Some (q, P')" using r(1) by (simp add: pdp_packet_new_def)
  show ?thesis
  proof (cases rule: create_cases [OF invD(1) [OF inv(1)], of E ty ds, case_names slot])
    case (slot n P0)
    from slot(4) c r(2) obtain h where
      h: "pdp_packet_alloc_nolock E ty ds = Some (Some h)" "q = int n" "P' = set_packet (int n) (Some h) P0"
      by (auto split: option.splits)
    have "pdp_packet_header x P0 = pdp_packet_header x P" for x using slot(1) expand_header by auto
    with alloc_blank [OF h(1)] slot(2) show ?thesis unfolding h(2,3) by (auto simp: header_set_packet)
  qed
qed

section \<open>Reuse\<close>

lemma kept_refl: "pool_inv P R \<Longrightarrow> kept P R P"
  by (simp add: kept_def)

lemma kept_trans: "kept P R P1 \<Longrightarrow> kept P1 R P2 \<Longrightarrow> kept P R P2"
  by (simp add: kept_def)

lemma kept_made: "kept P R P1 \<Longrightarrow> made P1 R q P2 \<Longrightarrow> made P R q P2"
  by (simp add: kept_def made_def)

lemma made_inv: "made P R q P' \<Longrightarrow> pool_inv P' (add_mset q R)"
  by (simp add: made_def)

lemma kept_inv: "kept P R P' \<Longrightarrow> pool_inv P' R"
  by (simp add: kept_def)

lemma save_ok:
  assumes inv: "pool_inv P R" and h: "pdp_packet_header p P = Some h" "desc h = Some d"
  shows "\<exists>P'. pdp_packet_save_nolock p P = Some P' \<and> pool_inv P' R \<and>
    (\<forall>q. pdp_packet_header q P' = pdp_packet_header q P) \<and>
    (\<exists>l. reusefifo P' d = Some l \<and> p \<in> set l) \<and> (\<forall>s. s \<noteq> d \<longrightarrow> reusefifo P' s = reusefifo P s)"
proof -
  define f where "f = (case reusefifo P d of None \<Rightarrow> [] | Some l \<Rightarrow> l)"
  define g where "g = (if p \<in> set f then f else p # f)"
  have s: "pdp_packet_save_nolock p P = Some (P\<lparr>reusefifo := (reusefifo P)(d \<mapsto> g)\<rparr>)"
    using h by (cases "reusefifo P d") (simp_all add: pdp_packet_save_nolock_def Let_def f_def g_def)
  have "\<forall>q\<in>set f. pdp_packet_header q P \<noteq> None"
    using invD(6) [OF inv, of d] by (cases "reusefifo P d") (simp_all add: f_def)
  then have g: "\<forall>q\<in>set g. pdp_packet_header q P \<noteq> None" "p \<in> set g" using h(1) by (simp_all add: g_def)
  have "pool_inv (P\<lparr>reusefifo := (reusefifo P)(d \<mapsto> g)\<rparr>) R"
  proof (rule fifo_inv [OF inv])
    fix s l assume "((reusefifo P)(d \<mapsto> g)) s = Some l"
    then show "\<forall>q\<in>set l. pdp_packet_header q P \<noteq> None"
      using g(1) invD(6) [OF inv, of s l] by (cases "s = d") simp_all
  qed
  with s g(2) show ?thesis by simp
qed

definition reused :: "symbol \<Rightarrow> pool \<Rightarrow> int multiset \<Rightarrow> int \<Rightarrow> pool \<Rightarrow> bool" where
  "reused td P R q P' \<longleftrightarrow>
     (if q = -1 then kept P R P'
      else made P R q P' \<and> (\<exists>h d. pdp_packet_header q P' = Some h \<and> desc h = Some d \<and> types_match d td))"

lemma pop_inv:
  assumes inv: "pool_inv P R" and f: "reusefifo P td = Some (p # l)"
  shows "pool_inv (P\<lparr>reusefifo := (reusefifo P)(td \<mapsto> l)\<rparr>) R" "pdp_packet_header p P \<noteq> None"
proof -
  show "pdp_packet_header p P \<noteq> None" using invD(6) [OF inv f, of p] by simp
  show "pool_inv (P\<lparr>reusefifo := (reusefifo P)(td \<mapsto> l)\<rparr>) R"
    using invD(6) [OF inv f] invD(6) [OF inv] by (intro fifo_inv [OF inv]) (auto split: if_splits)
qed

lemma reuse_loop_ok:
  assumes "pool_inv P R" "size R < 2 ^ 32 - 1"
  shows "\<exists>q P'. reuse_loop td P = Some (q, P') \<and> reused td P R q P'"
  using assms(1)
proof (induction "fifo_length td P" arbitrary: P rule: less_induct)
  case less
  note inv = less.prems
  show ?case
  proof (cases "\<exists>p l. reusefifo P td = Some (p # l)")
    case False
    then have "reuse_loop td P = Some (-1, P)"
      by (subst reuse_loop.simps) (auto split: option.splits list.splits)
    with inv show ?thesis by (simp add: reused_def kept_refl)
  next
    case True
    then obtain p l where f: "reusefifo P td = Some (p # l)" by blast
    let ?P = "P\<lparr>reusefifo := (reusefifo P)(td \<mapsto> l)\<rparr>"
    note I = pop_inv [OF inv f]
    from I(2) obtain h where h: "pdp_packet_header p P = Some h" by blast
    have recur: "\<exists>q P'. reuse_loop td Q = Some (q, P') \<and> reused td P R q P'"
      if "pool_inv Q R" "reusefifo Q td = Some l" "\<forall>q. pdp_packet_header q Q = pdp_packet_header q P" for Q
    proof -
      have "kept P R Q" using that by (simp add: kept_def)
      moreover have "fifo_length td Q < fifo_length td P" using that(2) f by simp
      ultimately show ?thesis using less.hyps [of Q] that(1)
        by (auto simp: reused_def intro: kept_trans kept_made split: if_splits)
    qed
    show ?thesis
    proof (cases "users h = 0")
      case False
      then have "reuse_loop td P = reuse_loop td ?P" using f h by (subst reuse_loop.simps) (simp add: Let_def)
      with recur [of ?P] I(1) show ?thesis by simp
    next
      case True
      with invD(7) [OF inv h] obtain d where d: "desc h = Some d" by blast
      obtain m c where mc: "pdp_type_description_match d td (tcache P) = (m, c)" by fastforce
      note M = match_cached [OF invD(2) [OF inv] mc]
      let ?Q = "?P\<lparr>tcache := c\<rparr>"
      have iQ: "pool_inv ?Q R" by (rule cache_inv [OF I(1) M(2)])
      show ?thesis
      proof (cases m)
        case m: True
        let ?h = "h\<lparr>users := users h + 1\<rparr>"
        have r: "reuse_loop td P = Some (p, set_packet p (Some ?h) ?Q)"
          using f h True d mc m by (subst reuse_loop.simps) (simp add: Let_def)
        have v: "0 \<le> p" "p < int (pdp_pool_size ?Q)" using header_valid [OF h] by simp_all
        have "p \<notin># R" using users_zero [OF inv h] True by simp
        from make_packet [OF iQ v this assms(2), of ?h] True
        have "made ?Q R p (set_packet p (Some ?h) ?Q)" by simp
        moreover have "kept P R ?Q" using iQ by (simp add: kept_def)
        ultimately have "made P R p (set_packet p (Some ?h) ?Q)" by (rule kept_made [rotated])
        then show ?thesis using r v d m M(1) by (simp add: reused_def header_set_packet [OF v])
      next
        case m: False
        have "pdp_packet_header p ?Q = Some h" using h by simp
        from save_ok [OF iQ this d] obtain S where
          S: "pdp_packet_save_nolock p ?Q = Some S" "pool_inv S R" "\<forall>q. pdp_packet_header q S = pdp_packet_header q ?Q"
            "\<forall>s. s \<noteq> d \<longrightarrow> reusefifo S s = reusefifo ?Q s" by blast
        have "td \<noteq> d" using m M(1) by auto
        then have "reusefifo S td = Some l" using S(4) by simp
        moreover have "reuse_loop td P = reuse_loop td S"
          using f h True d mc m S(1) by (subst reuse_loop.simps) (simp add: Let_def)
        ultimately show ?thesis using recur [of S] S(2,3) by simp
      qed
    qed
  qed
qed

section \<open>Class methods\<close>

text \<open>
  The contract of the hooks of classes: they leave the reference count to the pool and the
  description in place.
\<close>

definition methods_ok :: "methods \<Rightarrow> bool" where
  "methods_ok E \<longleftrightarrow>
     (\<forall>c h. users (m_wakeup E c h) = users h \<and> desc (m_wakeup E c h) = desc h) \<and>
     (\<forall>c h g. users (m_copy E c h g) = users g \<and> desc (m_copy E c h g) = desc g) \<and>
     (\<forall>c h. desc (m_sleep E c h) = desc h)"

text \<open>
  The contract of the constructors that a request for packets of type \<open>ty\<close> can reach, those of the
  registered classes whose template fits: they return, with \<open>-1\<close> or with a packet that nobody holds.
\<close>

definition creates_ok :: "methods \<Rightarrow> pool \<Rightarrow> symbol \<Rightarrow> bool" where
  "creates_ok E P ty \<longleftrightarrow>
     (\<forall>c \<in> set (class_list P). \<forall>t. c_type (classes P c) = Some t \<longrightarrow> c_create (classes P c) \<longrightarrow> types_match ty t \<longrightarrow>
        (\<forall>Q R. pool_inv Q R \<longrightarrow> size R < 2 ^ 32 - 1 \<longrightarrow> (\<exists>q Q'. m_create E c ty Q = Some (q, Q') \<and> delivered Q R q Q')))"

lemma wake_ok:
  assumes E: "methods_ok E" and r: "reused td P R q P'"
  shows "reused td P R q (wake E q P')"
proof (cases "pdp_packet_header q P'")
  case None
  with r show ?thesis by (simp add: wake_def)
next
  case (Some h)
  note v = header_valid [OF Some]
  then have m: "made P R q P'" "q \<noteq> -1" using r by (auto simp: reused_def split: if_splits)
  have "pool_inv (set_packet q (Some (m_wakeup E c h)) P') (add_mset q R)" for c
    using E invD(5,7) [OF made_inv [OF m(1)] Some] invD(3) [OF made_inv [OF m(1)]] v
    by (intro set_packet_inv [OF made_inv [OF m(1)]]) (simp_all add: methods_ok_def)
  then have "reused td P R q (set_packet q (Some (m_wakeup E c h)) P')" for c
    using r m E Some v by (auto simp: reused_def made_def header_set_packet methods_ok_def pdp_packet_writable_def)
  with r Some show ?thesis by (simp add: wake_def split: option.splits)
qed

lemma reuse_ok:
  assumes "methods_ok E" "pool_inv P R" "size R < 2 ^ 32 - 1"
  shows "\<exists>q P'. pdp_packet_reuse E (Some td) P = Some (q, P') \<and> reused td P R q P'"
proof -
  from reuse_loop_ok [OF assms(2,3), of td] obtain q P' where "reuse_loop td P = Some (q, P')" "reused td P R q P'"
    by blast
  with wake_ok [OF assms(1)] show ?thesis by (auto simp: pdp_packet_reuse_def)
qed

text \<open>Reuse does not register classes.\<close>

abbreviation same_classes :: "pool \<Rightarrow> pool \<Rightarrow> bool" where
  "same_classes P P' \<equiv> classes P' = classes P \<and> class_list P' = class_list P"

lemma save_classes: "pdp_packet_save_nolock p P = Some P' \<Longrightarrow> same_classes P P'"
  by (auto simp: pdp_packet_save_nolock_def Let_def bind_eq_Some_conv)

lemma reuse_loop_classes: "reuse_loop td P = Some (q, P') \<Longrightarrow> same_classes P P'"
proof (induction td P arbitrary: q P' rule: reuse_loop.induct)
  case (1 td P)
  show ?case
  proof (cases "\<exists>p l. reusefifo P td = Some (p # l)")
    case False
    then have "reuse_loop td P = Some (-1, P)"
      by (subst reuse_loop.simps) (auto split: option.splits list.splits)
    with 1(3) show ?thesis by (simp del: reuse_loop.simps)
  next
    case True
    then obtain p l where f: "reusefifo P td = Some (p # l)" by blast
    let ?P = "P\<lparr>reusefifo := (reusefifo P)(td \<mapsto> l)\<rparr>"
    note IH = 1(1,2) [OF f refl refl]
    have eq: "reuse_loop td P = Some (q, P')" by (rule 1(3))
    obtain h where h: "pdp_packet_header p P = Some h"
      using eq f by (subst (asm) reuse_loop.simps) (auto simp: Let_def simp del: reuse_loop.simps split: option.splits)
    then have h': "pdp_packet_header p ?P = Some h" by simp
    show ?thesis
    proof (cases "users h = 0")
      case False
      then have "reuse_loop td ?P = Some (q, P')"
        using eq f h by (subst (asm) reuse_loop.simps) (simp add: Let_def del: reuse_loop.simps)
      with IH(2) [OF h' False] show ?thesis by (simp del: reuse_loop.simps)
    next
      case True
      obtain d where d: "desc h = Some d"
        using eq f h True by (subst (asm) reuse_loop.simps) (auto simp: Let_def simp del: reuse_loop.simps split: option.splits)
      obtain m c where mc: "pdp_type_description_match d td (tcache P) = (m, c)" by fastforce
      have mc': "pdp_type_description_match d td (tcache ?P) = (m, c)" using mc by simp
      let ?Q = "?P\<lparr>tcache := c\<rparr>"
      show ?thesis
      proof (cases m)
        case m: True
        with eq f h True d mc show ?thesis by (subst (asm) reuse_loop.simps) (auto simp: Let_def simp del: reuse_loop.simps)
      next
        case m: False
        obtain S where S: "pdp_packet_save_nolock p ?Q = Some S" "reuse_loop td S = Some (q, P')"
          using eq f h True d mc m
          by (subst (asm) reuse_loop.simps) (auto simp: Let_def simp del: reuse_loop.simps split: option.splits)
        from IH(1) [OF h' True d mc' [symmetric] refl refl m S] save_classes [OF S(1)] show ?thesis by simp
      qed
    qed
  qed
qed

lemma reuse_classes:
  assumes "pdp_packet_reuse E td P = Some (q, P')"
  shows "same_classes P P'"
proof (cases td)
  case None
  with assms show ?thesis by (simp add: pdp_packet_reuse_def)
next
  case (Some t)
  with assms obtain Q where Q: "reuse_loop t P = Some (q, Q)" "P' = wake E q Q"
    by (auto simp: pdp_packet_reuse_def bind_eq_Some_conv simp del: reuse_loop.simps)
  have "same_classes Q (wake E q Q)" by (simp add: wake_def split: option.splits)
  with reuse_loop_classes [OF Q(1)] Q(2) show ?thesis by simp
qed

lemma factory_loop_ok:
  assumes E: "creates_ok E P0 ty" and sz: "size R < 2 ^ 32 - 1"
    and inv: "pool_inv P R" "classes P = classes P0" "set cs \<subseteq> set (class_list P0)"
  shows "\<exists>q P'. factory_loop E (Some ty) cs P = Some (q, P') \<and> delivered P R q P'"
  using inv
proof (induction cs arbitrary: P)
  case Nil
  then show ?case by (simp add: kept_refl)
next
  case (Cons c cs)
  show ?case
  proof (cases "c_type (classes P c)")
    case None
    with Cons show ?thesis by simp
  next
    case (Some t)
    obtain m tc where mt: "pdp_type_description_match ty t (tcache P) = (m, tc)" by fastforce
    note M = match_cached [OF invD(2) [OF Cons.prems(1)] mt]
    let ?P = "P\<lparr>tcache := tc\<rparr>"
    have i: "pool_inv ?P R" by (rule cache_inv [OF Cons.prems(1) M(2)])
    then have k: "kept P R ?P" by (simp add: kept_def)
    show ?thesis
    proof (cases "m \<and> c_create (classes P c)")
      case True
      then have "\<exists>q P'. m_create E c ty ?P = Some (q, P') \<and> delivered ?P R q P'"
        using E Cons.prems(2,3) Some M(1) i sz by (auto simp: creates_ok_def)
      then obtain q P' where m: "m_create E c ty ?P = Some (q, P')" "delivered ?P R q P'" by blast
      then have "delivered P R q P'" using kept_trans [OF k] kept_made [OF k] by (simp split: if_splits)
      note m(1) this
      then show ?thesis using Some mt True by (intro exI [of _ q] exI [of _ P']) (simp add: Let_def)
    next
      case False
      have "\<exists>q P'. factory_loop E (Some ty) cs ?P = Some (q, P') \<and> delivered P R q P'"
        using Cons.IH [OF i] Cons.prems(2,3) k by (auto intro: kept_trans kept_made split: if_splits)
      then show ?thesis using Some mt False k by (auto simp: Let_def)
    qed
  qed
qed

lemma factory_ok:
  assumes E: "methods_ok E" "creates_ok E P ty" and inv: "pool_inv P R" and sz: "size R < 2 ^ 32 - 1"
  shows "\<exists>q P'. pdp_factory_newpacket E (Some ty) P = Some (q, P') \<and> delivered P R q P'"
proof -
  from reuse_ok [OF E(1) inv sz, of ty] obtain q P1 where
    r: "pdp_packet_reuse E (Some ty) P = Some (q, P1)" "reused ty P R q P1" by blast
  show ?thesis
  proof (cases "q = -1")
    case True
    with r have k: "kept P R P1" by (simp add: reused_def)
    note c = reuse_classes [OF r(1)]
    from factory_loop_ok [OF E(2) sz kept_inv [OF k], of "class_list P1"] c k r True show ?thesis
      by (auto simp: pdp_factory_newpacket_def intro: kept_trans kept_made split: if_splits)
  next
    case False
    with r show ?thesis by (simp add: pdp_factory_newpacket_def reused_def)
  qed
qed

lemma creates_ok_cong: "creates_ok E P ty \<Longrightarrow> classes P' = classes P \<Longrightarrow> class_list P' = class_list P \<Longrightarrow> creates_ok E P' ty"
  by (simp add: creates_ok_def)

section \<open>Copies and release\<close>

lemma unat_plus_one: "unat (x :: u32) < 2 ^ 32 - 1 \<Longrightarrow> unat (x + 1) = unat x + 1"
  by (subst unat_plus_if_size) (simp add: word_size)

lemma copy_ro_ok:
  assumes inv: "pool_inv P R" and p: "p \<in># R" and sz: "size R < 2 ^ 32 - 1"
  shows "\<exists>h. pdp_packet_header p P = Some h \<and>
    pdp_packet_copy_ro p P = (p, set_packet p (Some (h\<lparr>users := users h + 1\<rparr>)) P) \<and>
    pool_inv (snd (pdp_packet_copy_ro p P)) (add_mset p R)"
proof -
  from invD(4) [OF inv p] obtain h where h: "pdp_packet_header p P = Some h" by blast
  note v = header_valid [OF h]
  have u: "unat (users h) < 2 ^ 32 - 1"
    using invD(5) [OF inv h] count_le_size [of R p] sz by linarith
  have "users h + 1 \<noteq> 0" using unat_plus_one [OF u] by (metis add_gr_0 less_one unat_0 neq0_conv)
  then have "pool_inv (set_packet p (Some (h\<lparr>users := users h + 1\<rparr>)) P) (add_mset p R)"
    using unat_plus_one [OF u] invD(5) [OF inv h] v sz by (intro set_packet_inv [OF inv]) simp_all
  with h show ?thesis by (simp add: pdp_packet_copy_ro_def)
qed

lemma mark_unused_ok:
  assumes E: "methods_ok E" and inv: "pool_inv P R" and p: "p \<in># R"
    and d: "pdp_packet_header p P = Some h" "desc h \<noteq> None"
  shows "\<exists>P'. pdp_packet_mark_unused E p P = Some P' \<and> pool_inv P' (R - {#p#}) \<and>
    (\<forall>q. q \<noteq> p \<longrightarrow> pdp_packet_header q P' = pdp_packet_header q P)"
proof -
  note v = header_valid [OF d(1)] and H = header_set_packet
  have c: "unat (users h) = count R p" by (rule invD(5) [OF inv d(1)])
  have cnt: "count (R - {#p#}) q = count R q" if "q \<noteq> p" for q using that by simp
  have szR: "size (R - {#p#}) < 2 ^ 32" using invD(3) [OF inv] size_mset_mono [OF diff_subset_eq_self, of R "{#p#}"] by linarith
  have c1: "0 < count R p" using p by simp
  show ?thesis
  proof (cases "users h > 1")
    case True
    then have "1 < unat (users h)" by (simp add: word_less_nat_alt)
    moreover have "unat (users h - 1) = unat (users h) - 1" using True by (intro unat_minus_one) auto
    ultimately have "pool_inv (set_packet p (Some (h\<lparr>users := users h - 1\<rparr>)) P) (R - {#p#})"
      using c v szR d(2) by (intro set_packet_inv [OF inv]) simp_all
    then show ?thesis using d(1) True v by (simp add: pdp_packet_mark_unused_def H)
  next
    case False
    then have "unat (users h) \<le> 1" by (simp add: word_less_nat_alt)
    with c c1 have one: "count R p = 1" by linarith
    define g where "g = (case theclass h of Some c \<Rightarrow> if c_sleep (classes P c) then m_sleep E c h else h | None \<Rightarrow> h)\<lparr>users := 0\<rparr>"
    have gd: "desc g = desc h" "users g = 0" using E by (auto simp: g_def methods_ok_def split: option.splits)
    let ?P = "set_packet p (Some g) P"
    have i: "pool_inv ?P (R - {#p#})"
      using one v szR d(2) gd by (intro set_packet_inv [OF inv]) simp_all
    from d(2) gd(1) obtain s where s: "desc g = Some s" by auto
    have hp: "pdp_packet_header p ?P = Some g" using v by (simp add: H)
    from save_ok [OF i hp s] obtain P' where
      P': "pdp_packet_save_nolock p ?P = Some P'" "pool_inv P' (R - {#p#})"
        "\<forall>q. pdp_packet_header q P' = pdp_packet_header q ?P" by blast
    have "pdp_packet_mark_unused E p P = pdp_packet_save_nolock p ?P"
      using d(1) False s by (simp add: pdp_packet_mark_unused_def Let_def g_def)
    with P' v show ?thesis by (simp add: H)
  qed
qed

lemma delete_ok:
  assumes inv: "pool_inv P R" and p: "count R p = 1"
    and free: "\<And>s l. reusefifo P s = Some l \<Longrightarrow> p \<notin> set l"
  shows "\<exists>P'. pdp_packet_delete p P = Some P' \<and> pool_inv P' (R - {#p#}) \<and> pdp_packet_header p P' = None"
proof -
  have "p \<in># R" using p by (metis count_inI zero_neq_one)
  from invD(4) [OF inv this] obtain h where h: "pdp_packet_header p P = Some h" by blast
  note v = header_valid [OF h]
  let ?P = "set_packet p None P"
  have H: "pdp_packet_header q ?P = (if q = p then None else pdp_packet_header q P)" for q
    using v by (simp add: header_set_packet)
  have "pool_inv ?P (R - {#p#})"
  proof (rule invI)
    show "size (R - {#p#}) < 2 ^ 32" using invD(3) [OF inv] size_mset_mono [OF diff_subset_eq_self, of R "{#p#}"] by linarith
    show "pdp_packet_header q ?P \<noteq> None" if "q \<in># R - {#p#}" for q
      using that p invD(4) [OF inv, of q] by (auto simp: H in_diff_count dest: in_diffD)
    show "unat (users g) = count (R - {#p#}) q" if "pdp_packet_header q ?P = Some g" for q g
      using that invD(5) [OF inv, of q g] by (auto simp: H split: if_splits)
    show "pdp_packet_header q ?P \<noteq> None" if "reusefifo ?P s = Some l" "q \<in> set l" for s l q
      using that free [of s l] invD(6) [OF inv, of s l q] by (auto simp: H)
    show "desc g \<noteq> None" if "pdp_packet_header q ?P = Some g" "users g = 0" for q g
      using that invD(7) [OF inv, of q g] by (auto simp: H split: if_splits)
  qed (use invD(1,2) [OF inv] in simp_all)
  then show ?thesis using h by (simp add: pdp_packet_delete_def H)
qed

text \<open>The holder of a writable packet may change everything in it but the reference count.\<close>

lemma write_ok:
  assumes inv: "pool_inv P R" and p: "p \<in># R" and h: "pdp_packet_header p P = Some h" and g: "users g = users h"
  shows "pool_inv (set_packet p (Some g) P) R"
proof -
  have "users h \<noteq> 0" using users_zero [OF inv h] p by simp
  then show ?thesis
    using header_valid [OF h] invD(3) [OF inv] invD(5) [OF inv h] g by (intro set_packet_inv [OF inv]) simp_all
qed

lemma clone_rw_ok:
  assumes E: "methods_ok E" "creates_ok E P d" and inv: "pool_inv P R" and sz: "size R < 2 ^ 32 - 1"
    and p: "pdp_packet_header p P = Some h" "users h = 1" "desc h = Some d"
    and res: "pdp_packet_clone_rw E p P = Some (q, P')"
  shows "delivered P R q P'"
proof -
  from reuse_ok [OF E(1) inv sz, of d] obtain q1 P1 where
    r1: "pdp_packet_reuse E (Some d) P = Some (q1, P1)" "reused d P R q1 P1" by blast
  show ?thesis
  proof (cases "q1 = -1")
    case False
    with r1 p res show ?thesis by (simp add: pdp_packet_clone_rw_def reused_def)
  next
    case True
    with r1 have k1: "kept P R P1" by (simp add: reused_def)
    have c1: "creates_ok E P1 d" using reuse_classes [OF r1(1)] by (intro creates_ok_cong [OF E(2)]) simp_all
    from factory_ok [OF E(1) c1 kept_inv [OF k1] sz] obtain q2 P2 where
      r2: "pdp_factory_newpacket E (Some d) P1 = Some (q2, P2)" "delivered P1 R q2 P2" by blast
    show ?thesis
    proof (cases "q2 = -1")
      case False
      with r1 r2 True p k1 res show ?thesis by (auto simp: pdp_packet_clone_rw_def intro: kept_made)
    next
      case q2: True
      with r2 k1 have k2: "kept P R P2" by (auto intro: kept_trans)
      from res r1 r2 True q2 p obtain q3 P3 where
        r3: "pdp_packet_new E (ptype h) (psize h - of_nat PDP_HEADER_SIZE) P2 = Some (q3, P3)" and
        q: "q = q3" "P' = (case pdp_packet_header q3 P3 of None \<Rightarrow> P3
          | Some g \<Rightarrow> set_packet q3 (Some (copy_header g h)) P3)"
        by (auto simp: pdp_packet_clone_rw_def bind_eq_Some_conv)
      note n = new_ok [OF kept_inv [OF k2] sz r3]
      show ?thesis
      proof (cases "q3 = -1")
        case True
        then have "P' = P3" using q(2) by (simp add: pdp_packet_header_def)
        with True n q(1) kept_trans [OF k2] show ?thesis by simp
      next
        case False
        with n have m3: "made P R q3 P3" using kept_made [OF k2] by simp
        then obtain g where g: "pdp_packet_header q3 P3 = Some g" "users g = 1"
          by (auto simp: made_def pdp_packet_writable_def split: option.splits)
        let ?P = "set_packet q3 (Some (copy_header g h)) P3"
        have "pool_inv ?P (add_mset q3 R)"
          using g p(2) by (intro write_ok [OF made_inv [OF m3]]) (simp_all add: copy_header_def)
        moreover have "pdp_packet_header x ?P = (if x = q3 then Some (copy_header g h) else pdp_packet_header x P3)" for x
          using header_valid [OF g(1)] by (simp add: header_set_packet)
        ultimately have "made P R q3 ?P"
          using m3 p(2) by (auto simp: made_def pdp_packet_writable_def copy_header_def)
        then show ?thesis using False g(1) q by simp
      qed
    qed
  qed
qed

lemma copy_rw_ok:
  assumes E: "methods_ok E" "creates_ok E P d" and inv: "pool_inv P R" and sz: "size R < 2 ^ 32 - 1"
    and p: "p \<in># R" "pdp_packet_header p P = Some h" "users h = 1" "desc h = Some d"
    and r: "pdp_packet_copy_rw E p P = Some (q, P')"
  shows "if q = -1 then kept P R P'
    else made P R q P' \<and> (theclass h = None \<longrightarrow> (\<exists>g. pdp_packet_header q P' = Some g \<and>
      (let n = unat (psize h - of_nat PDP_HEADER_SIZE) in take n (pdata g) = take n (pdata h))))"
proof (cases "flags h AND PDP_FLAG_DONOTCOPY \<noteq> 0")
  case True
  with p r inv show ?thesis by (auto simp: pdp_packet_copy_rw_def kept_refl)
next
  case False
  with r p obtain q1 P1 where c: "pdp_packet_clone_rw E p P = Some (q1, P1)"
    by (auto simp: pdp_packet_copy_rw_def bind_eq_Some_conv)
  note d = clone_rw_ok [OF E inv sz p(2-4) c]
  show ?thesis
  proof (cases "q1 = -1")
    case True
    with c d p r False show ?thesis by (auto simp: pdp_packet_copy_rw_def)
  next
    case q1: False
    with d have m: "made P R q1 P1" by simp
    then have hp: "pdp_packet_header p P1 = Some h" using p by (simp add: made_def)
    from m obtain g where g: "pdp_packet_header q1 P1 = Some g" "users g = 1"
      by (auto simp: made_def pdp_packet_writable_def split: option.splits)
    define ng where "ng = (case theclass h of Some c \<Rightarrow> if c_copy (classes P1 c) then Some (m_copy E c h g)
        else copy_data h g | None \<Rightarrow> copy_data h g)"
    from r p False c q1 hp g obtain n where n: "ng = Some n" "q = q1" "P' = set_packet q1 (Some n) P1"
      by (auto simp: pdp_packet_copy_rw_def ng_def bind_eq_Some_conv)
    have un: "users n = users g"
      using n(1) E(1) by (auto simp: ng_def copy_data_def Let_def methods_ok_def split: option.splits if_splits)
    have "pool_inv P' (add_mset q1 R)" unfolding n(3)
      by (rule write_ok [OF made_inv [OF m] _ g(1) un]) simp
    moreover have H: "pdp_packet_header x P' = (if x = q1 then Some n else pdp_packet_header x P1)" for x
      using header_valid [OF g(1)] by (simp add: n(3) header_set_packet)
    ultimately have "made P R q1 P'" using m un g(2) by (auto simp: made_def pdp_packet_writable_def)
    moreover have "take k (pdata n) = take k (pdata h)"
      if "theclass h = None" "k = unat (psize h - of_nat PDP_HEADER_SIZE)" for k
      using n(1) that by (auto simp: ng_def copy_data_def Let_def split: if_splits)
    ultimately show ?thesis using n(2) q1 by (simp add: H Let_def)
  qed
qed

section \<open>Clients of the pool\<close>

text \<open>
  What a well-behaved client does: it releases what it holds, describes a packet before it releases
  it, changes and copies packets it holds alone, deletes only packets that no reuse list names, and asks the
  factory only for types whose constructors keep their contract.
  A state is the pool with the references held by all clients together, fewer than \<open>2^32 - 1\<close>.
\<close>

inductive pstep :: "methods \<Rightarrow> pool \<Rightarrow> int multiset \<Rightarrow> pool \<Rightarrow> int multiset \<Rightarrow> bool" for E where
  create: "pdp_packet_create E ty ds P = Some (q, P') \<Longrightarrow> size R < 2 ^ 32 - 1 \<Longrightarrow>
    pstep E P R P' (if q = -1 then R else add_mset q R)"
| new: "pdp_packet_new E ty ds P = Some (q, P') \<Longrightarrow> size R < 2 ^ 32 - 1 \<Longrightarrow>
    pstep E P R P' (if q = -1 then R else add_mset q R)"
| reuse: "pdp_packet_reuse E (Some td) P = Some (q, P') \<Longrightarrow> size R < 2 ^ 32 - 1 \<Longrightarrow>
    pstep E P R P' (if q = -1 then R else add_mset q R)"
| factory: "creates_ok E P ty \<Longrightarrow> pdp_factory_newpacket E (Some ty) P = Some (q, P') \<Longrightarrow> size R < 2 ^ 32 - 1 \<Longrightarrow>
    pstep E P R P' (if q = -1 then R else add_mset q R)"
| copy_ro: "p \<in># R \<Longrightarrow> pdp_packet_copy_ro p P = (q, P') \<Longrightarrow> size R < 2 ^ 32 - 1 \<Longrightarrow> pstep E P R P' (add_mset q R)"
| copy_rw: "count R p = 1 \<Longrightarrow> pdp_packet_header p P = Some h \<Longrightarrow> desc h = Some d \<Longrightarrow> creates_ok E P d \<Longrightarrow>
    pdp_packet_copy_rw E p P = Some (q, P') \<Longrightarrow> size R < 2 ^ 32 - 1 \<Longrightarrow>
    pstep E P R P' (if q = -1 then R else add_mset q R)"
| mark_unused: "p \<in># R \<Longrightarrow> pdp_packet_header p P = Some h \<Longrightarrow> desc h \<noteq> None \<Longrightarrow>
    pdp_packet_mark_unused E p P = Some P' \<Longrightarrow> pstep E P R P' (R - {#p#})"
| delete: "count R p = 1 \<Longrightarrow> (\<forall>s l. reusefifo P s = Some l \<longrightarrow> p \<notin> set l) \<Longrightarrow>
    pdp_packet_delete p P = Some P' \<Longrightarrow> pstep E P R P' (R - {#p#})"
| writep: "count R p = 1 \<Longrightarrow> pdp_packet_header p P = Some h \<Longrightarrow> users g = users h \<Longrightarrow>
    pstep E P R (set_packet p (Some g) P) R"
| class_new: "pstep E P R (pdp_class_new c t cr P) R"

inductive_cases pstepE: "pstep E P R P' R'"

lemma class_new_inv: "pool_inv P R \<Longrightarrow> pool_inv (pdp_class_new c t cr P) R"
proof -
  have "pdp_packet_header p (pdp_class_new c t cr P) = pdp_packet_header p P" for p
    by (simp add: pdp_class_new_def pdp_packet_header_def)
  then show "pool_inv P R \<Longrightarrow> pool_inv (pdp_class_new c t cr P) R"
    by (simp add: pool_inv_def refs_ok_def fifos_ok_def descs_ok_def pdp_class_new_def)
qed

lemma pstep_inv:
  assumes "pstep E P R P' R'" "methods_ok E" "pool_inv P R"
  shows "pool_inv P' R'"
  using assms
proof (induction rule: pstep.induct)
  case (create ty ds P q P' R)
  then show ?case using create_ok [of P R E ty ds q P'] by (auto intro: made_inv kept_inv split: if_splits)
next
  case (new ty ds P q P' R)
  then show ?case using new_ok [of P R E ty ds q P'] by (auto intro: made_inv kept_inv split: if_splits)
next
  case (reuse td P q P' R)
  then show ?case using reuse_ok [of E P R td] by (auto simp: reused_def intro: made_inv kept_inv)
next
  case (factory P ty q P' R)
  then show ?case using factory_ok [of E P ty R] by (auto intro: made_inv kept_inv)
next
  case (copy_ro p R P q P')
  then show ?case using copy_ro_ok [of P R p] by auto
next
  case (copy_rw R p P h d q P')
  then have "p \<in># R" by (metis count_inI zero_neq_one)
  moreover have "users h = 1" using invD(5) [of P R p h] copy_rw by (simp add: word_unat_eq_iff)
  ultimately show ?case using copy_rw_ok [of E P d R p h q P'] copy_rw by (auto intro: made_inv kept_inv split: if_splits)
next
  case (mark_unused p R P h P')
  then show ?case using mark_unused_ok [of E P R p h] by auto
next
  case (delete R p P P')
  then show ?case using delete_ok [of P R p] by auto
next
  case (writep R p P h g)
  then have "p \<in># R" by (metis count_inI zero_neq_one)
  with writep show ?case by (intro write_ok)
next
  case (class_new P R c t cr)
  then show ?case by (intro class_new_inv)
qed

inductive preach :: "methods \<Rightarrow> pool \<Rightarrow> int multiset \<Rightarrow> bool" for E where
  start: "reusefifo P = Map.empty \<Longrightarrow> tcache P = Map.empty \<Longrightarrow> preach E (pdp_packet_setup P) {#}"
| step: "preach E P R \<Longrightarrow> pstep E P R P' R' \<Longrightarrow> preach E P' R'"

lemma setup_inv:
  assumes "reusefifo P = Map.empty" "tcache P = Map.empty"
  shows "pool_inv (pdp_packet_setup P) {#}"
proof -
  have "pdp_packet_header p (pdp_packet_setup P) = None" for p
    by (auto simp: pdp_packet_header_def pdp_packet_setup_def nat_less_iff)
  then show ?thesis
    using assms by (intro invI) (simp_all add: pdp_packet_setup_def PDP_INITIAL_POOL_SIZE_def)
qed

lemma preach_inv: "preach E P R \<Longrightarrow> methods_ok E \<Longrightarrow> pool_inv P R"
proof (induction rule: preach.induct)
  case (start P)
  then show ?case by (intro setup_inv)
next
  case (step P R P' R')
  then show ?case by (auto intro: pstep_inv)
qed

section \<open>Properties\<close>

text \<open>Methods of pure packets: no hooks, no constructor.\<close>

definition plain_methods :: methods where
  "plain_methods = \<lparr>m_wakeup = (\<lambda>c h. h), m_copy = (\<lambda>c h g. g), m_cleanup = (\<lambda>c h. h), m_sleep = (\<lambda>c h. h),
     m_create = (\<lambda>c ty P. Some (-1, P)), m_malloc = (\<lambda>n. Some (replicate n 0))\<rparr>"

lemma plain_methods_ok: "methods_ok plain_methods"
  by (simp add: methods_ok_def plain_methods_def)

lemma plain_creates_ok: "creates_ok plain_methods P ty"
  by (simp add: creates_ok_def plain_methods_def kept_refl)

lemma plain_malloc_ok: "malloc_ok plain_methods" "malloc_fits plain_methods"
  by (auto simp: malloc_ok_def malloc_fits_def plain_methods_def)

definition empty_pool :: pool where
  "empty_pool = \<lparr>pdp_pool = [], class_list = [],
     classes = (\<lambda>_. \<lparr>c_wakeup = False, c_copy = False, c_cleanup = False, c_sleep = False, c_type = None, c_create = False\<rparr>),
     reusefifo = Map.empty, tcache = Map.empty\<rparr>"

lemma preach_empty: "preach E (pdp_packet_setup empty_pool) {#}"
  by (rule preach.start) (simp_all add: empty_pool_def)

lemma preach_one:
  assumes E: "methods_ok E" "malloc_ok E"
  shows "\<exists>P q h. preach E P {#q#} \<and> pdp_packet_header q P = Some h \<and> users h = 1 \<and> desc h = Some d \<and> theclass h = None"
proof -
  have sz: "unat (16 :: u32) + 256 < 2 ^ 31" by simp
  from create_succeeds [OF preach_inv [OF preach_empty E(1)] _ E(2) sz, of 1] obtain q P h where
    c: "pdp_packet_create E 1 16 (pdp_packet_setup empty_pool) = Some (q, P)" "made (pdp_packet_setup empty_pool) {#} q P"
    and h: "pdp_packet_header q P = Some h" "blank 1 16 h" by auto
  have "q \<noteq> -1" using c(2) by (simp add: made_def)
  then have r: "preach E P {#q#}"
    using preach.step [OF preach_empty pstep.create [OF c(1), of "{#}"]] by simp
  let ?g = "h\<lparr>desc := Some d, theclass := None\<rparr>"
  have "preach E (set_packet q (Some ?g) P) {#q#}"
    by (rule preach.step [OF r pstep.writep [OF _ h(1)]]) simp_all
  then show ?thesis using h header_valid [OF h(1)]
    by (intro exI [of _ "set_packet q (Some ?g) P"] exI [of _ q] exI [of _ ?g]) (simp add: header_set_packet blank_def)
qed

text \<open>
  C2: whatever the clients did, every packet somebody holds is alive and its \<open>users\<close> field is the exact
  number of references held; a packet nobody holds has \<open>users\<close> 0 and keeps a description, so that it
  can be found for reuse.
\<close>

theorem packet_refcount_exact:
  assumes "preach E P R" "methods_ok E"
  shows "(\<forall>p \<in># R. \<exists>h. pdp_packet_header p P = Some h \<and> unat (users h) = count R p) \<and>
    (\<forall>p h. pdp_packet_header p P = Some h \<longrightarrow> p \<notin># R \<longrightarrow> users h = 0 \<and> desc h \<noteq> None)"
proof -
  note inv = preach_inv [OF assms]
  have "\<exists>h. pdp_packet_header p P = Some h \<and> unat (users h) = count R p" if "p \<in># R" for p
    using invD(4,5) [OF inv] that by blast
  moreover have "users h = 0 \<and> desc h \<noteq> None" if "pdp_packet_header p P = Some h" "p \<notin># R" for p h
    using that users_zero [OF inv that(1)] invD(7) [OF inv that(1)] by simp
  ultimately show ?thesis by blast
qed

theorem packet_refcount_exact_witness:
  "\<exists>P q h. preach plain_methods P {#q#} \<and> pdp_packet_header q P = Some h \<and> unat (users h) = 1"
proof -
  from preach_one [OF plain_methods_ok plain_malloc_ok(1)] obtain P q where r: "preach plain_methods P {#q#}" by blast
  from packet_refcount_exact [OF r plain_methods_ok] have
    "\<exists>h. pdp_packet_header q P = Some h \<and> unat (users h) = 1" by simp
  with r show ?thesis by blast
qed

text \<open>
  C10: a new packet is exclusive: in every reachable state, \<open>pdp_packet_new\<close>, \<open>pdp_packet_create\<close>,
  \<open>pdp_packet_reuse\<close> and \<open>pdp_factory_newpacket\<close> return \<open>-1\<close>, with every held packet as it was, or a packet that
  nobody held, which is writable, and no held packet was touched. The first two return whenever the
  size with the header does not wrap, whether or not there is memory, and deliver the packet when
  \<open>malloc\<close> does and the size is an \<open>int\<close>; reuse always returns; the factory returns when the
  constructors its request can reach keep their contract.
\<close>

theorem new_packet_exclusive:
  assumes "preach E P R" "methods_ok E" "malloc_fits E" "size R < 2 ^ 32 - 1"
  shows "(\<forall>q P'. pdp_packet_new E ty ds P = Some (q, P') \<or> pdp_packet_create E ty ds P = Some (q, P') \<longrightarrow>
      (if q = -1 then kept P R P' else made P R q P')) \<and>
    (unat ds + 256 < 2 ^ 32 \<longrightarrow> pdp_packet_new E ty ds P \<noteq> None \<and> pdp_packet_create E ty ds P \<noteq> None) \<and>
    (malloc_ok E \<longrightarrow> unat ds + 256 < 2 ^ 31 \<longrightarrow>
      (\<exists>q P'. pdp_packet_new E ty ds P = Some (q, P') \<and> made P R q P') \<and>
      (\<exists>q P'. pdp_packet_create E ty ds P = Some (q, P') \<and> made P R q P')) \<and>
    (\<exists>q P'. pdp_packet_reuse E (Some td) P = Some (q, P') \<and> (if q = -1 then kept P R P' else made P R q P')) \<and>
    (creates_ok E P td \<longrightarrow>
      (\<exists>q P'. pdp_factory_newpacket E (Some td) P = Some (q, P') \<and> (if q = -1 then kept P R P' else made P R q P')))"
proof (intro conjI)
  note inv = preach_inv [OF assms(1,2)]
  show "\<exists>q P'. pdp_packet_reuse E (Some td) P = Some (q, P') \<and> (if q = -1 then kept P R P' else made P R q P')"
    using reuse_ok [OF assms(2) inv assms(4), of td] unfolding reused_def by metis
  show "unat ds + 256 < 2 ^ 32 \<longrightarrow> pdp_packet_new E ty ds P \<noteq> None \<and> pdp_packet_create E ty ds P \<noteq> None"
    using new_defined [OF inv assms(4,3)] create_defined [OF invD(1) [OF inv] assms(3)] by fast
  show "malloc_ok E \<longrightarrow> unat ds + 256 < 2 ^ 31 \<longrightarrow>
      (\<exists>q P'. pdp_packet_new E ty ds P = Some (q, P') \<and> made P R q P') \<and>
      (\<exists>q P'. pdp_packet_create E ty ds P = Some (q, P') \<and> made P R q P')"
    using new_succeeds [OF inv assms(4)] create_succeeds [OF inv assms(4)] by blast
qed (use new_ok create_ok factory_ok assms(2,4) preach_inv [OF assms(1,2)] in metis)+

text \<open>The methods of a machine without memory.\<close>

definition starved_methods :: methods where
  "starved_methods = plain_methods\<lparr>m_malloc := (\<lambda>n. None)\<rparr>"

theorem new_packet_exclusive_witness:
  "(\<exists>P q. preach plain_methods P {#q#} \<and>
      (\<exists>p P'. pdp_packet_create plain_methods 1 64 P = Some (p, P') \<and> made P {#q#} p P')) \<and>
   (\<exists>P'. pdp_packet_create starved_methods 1 64 (pdp_packet_setup empty_pool) = Some (-1, P') \<and>
      kept (pdp_packet_setup empty_pool) {#} P')"
proof (intro conjI)
  from preach_one [OF plain_methods_ok plain_malloc_ok(1)] obtain P q where r: "preach plain_methods P {#q#}" by blast
  from new_packet_exclusive [OF r plain_methods_ok plain_malloc_ok(2), of 1 64 "[]"] plain_malloc_ok(1) r show
    "\<exists>P q. preach plain_methods P {#q#} \<and> (\<exists>p P'. pdp_packet_create plain_methods 1 64 P = Some (p, P') \<and> made P {#q#} p P')"
    by auto
  have E: "methods_ok starved_methods" "malloc_fits starved_methods"
    using plain_methods_ok by (simp_all add: starved_methods_def methods_ok_def malloc_fits_def)
  have "map_option fst (pdp_packet_create starved_methods 1 64 (pdp_packet_setup empty_pool)) = Some (-1)" by code_simp
  then obtain P' where c: "pdp_packet_create starved_methods 1 64 (pdp_packet_setup empty_pool) = Some (-1, P')" by auto
  with new_packet_exclusive [OF preach_empty E, of 1 64 "[]"] show
    "\<exists>P'. pdp_packet_create starved_methods 1 64 (pdp_packet_setup empty_pool) = Some (-1, P') \<and>
      kept (pdp_packet_setup empty_pool) {#} P'" by auto
qed

text \<open>
  \<open>pdp_packet_reuse\<close> returns \<open>-1\<close> or a packet whose description matches the requested one, and the
  search always ends, whatever stale entries the reuse lists hold.
\<close>

theorem reuse_matches_description:
  assumes "preach E P R" "methods_ok E" "size R < 2 ^ 32 - 1"
  shows "\<exists>q P'. pdp_packet_reuse E (Some td) P = Some (q, P') \<and>
    (q \<noteq> -1 \<longrightarrow> pdp_packet_writable q P' \<and> types_match (pdp_packet_get_description q P') td)"
proof -
  from reuse_ok [OF assms(2) preach_inv [OF assms(1,2)] assms(3), of td] obtain q P' where
    r: "pdp_packet_reuse E (Some td) P = Some (q, P')" "reused td P R q P'" by blast
  then have "q \<noteq> -1 \<longrightarrow> pdp_packet_writable q P' \<and> types_match (pdp_packet_get_description q P') td"
    by (auto simp: reused_def made_def pdp_packet_get_description_def)
  with r show ?thesis by blast
qed

theorem reuse_matches_description_witness:
  "\<exists>q P'. pdp_packet_reuse plain_methods (Some ''image/grey/8x8'') (pdp_packet_setup empty_pool) = Some (q, P') \<and>
    (q \<noteq> -1 \<longrightarrow> pdp_packet_writable q P' \<and> types_match (pdp_packet_get_description q P') ''image/grey/8x8'')"
  by (rule reuse_matches_description [OF preach_empty plain_methods_ok]) simp

text \<open>
  copying a packet held by one client gives that client a second, different, writable packet; for
  a pure packet its data is the data of the source, and the source is unchanged.
\<close>

theorem copy_rw_of_writable:
  assumes "preach E P R" "methods_ok E" "size R < 2 ^ 32 - 1"
    and "p \<in># R" "pdp_packet_header p P = Some h" "users h = 1" "desc h = Some d" "creates_ok E P d" "theclass h = None"
    and "pdp_packet_copy_rw E p P = Some (q, P')" "q \<noteq> -1"
  shows "q \<noteq> p \<and> pdp_packet_writable q P' \<and> pdp_packet_header p P' = Some h \<and>
    (\<exists>g. pdp_packet_header q P' = Some g \<and>
      (let n = unat (pdp_packet_data_size p P) in take n (pdata g) = take n (pdata h)))"
  using copy_rw_ok [OF assms(2,8) preach_inv [OF assms(1,2)] assms(3-7,10)] assms(4,5,9,11)
  by (auto simp: made_def pdp_packet_data_size_def)

definition grey_packet :: t_pdp where
  "grey_packet = \<lparr>ptype = 1, desc = Some ''image/grey/8x8'', psize = 258, flags = 0, users = 1, theclass = None,
     info = NoInfo, pdata = [7, 9]\<rparr>"

definition one_packet_pool :: pool where
  "one_packet_pool = set_packet 0 (Some grey_packet) (pdp_packet_setup empty_pool)"

abbreviation raw_packet :: t_pdp where
  "raw_packet \<equiv> grey_packet\<lparr>desc := None, pdata := [0, 0]\<rparr>"

lemma alloc_two: "pdp_packet_alloc_nolock plain_methods 1 2 = Some (Some raw_packet)"
  by code_simp

lemma setup_create:
  "pdp_packet_create plain_methods 1 2 (pdp_packet_setup empty_pool) =
     Some (0, set_packet 0 (Some raw_packet) (pdp_packet_setup empty_pool))"
  by (simp add: pdp_packet_create_def create_loop.simps pdp_packet_setup_def PDP_INITIAL_POOL_SIZE_def
      find_slot_replicate alloc_two)

lemma one_packet_header: "pdp_packet_header 0 one_packet_pool = Some grey_packet"
  by (simp add: one_packet_pool_def header_set_packet pdp_packet_setup_def PDP_INITIAL_POOL_SIZE_def)

lemma one_packet_reach: "preach plain_methods one_packet_pool {#0#}"
proof -
  let ?h = raw_packet
  have r: "preach plain_methods (set_packet 0 (Some ?h) (pdp_packet_setup empty_pool)) {#0#}"
    using preach.step [OF preach_empty pstep.create [OF setup_create, of "{#}"]] by simp
  have "preach plain_methods (set_packet 0 (Some grey_packet) (set_packet 0 (Some ?h) (pdp_packet_setup empty_pool))) {#0#}"
    by (rule preach.step [OF r pstep.writep [of _ _ _ ?h]])
      (simp_all add: header_set_packet pdp_packet_setup_def PDP_INITIAL_POOL_SIZE_def grey_packet_def)
  then show ?thesis by (simp add: one_packet_pool_def set_packet_def)
qed

lemma one_packet_copy: "map_option fst (pdp_packet_copy_rw plain_methods 0 one_packet_pool) = Some 1"
  by code_simp

theorem copy_rw_of_writable_witness:
  "\<exists>P'. pdp_packet_copy_rw plain_methods 0 one_packet_pool = Some (1, P') \<and> pdp_packet_writable 1 P' \<and>
     pdp_packet_header 0 P' = Some grey_packet"
proof -
  from one_packet_copy obtain P' where P': "pdp_packet_copy_rw plain_methods 0 one_packet_pool = Some (1, P')" by auto
  have h: "users grey_packet = 1" "desc grey_packet = Some ''image/grey/8x8''" "theclass grey_packet = None"
    by (simp_all add: grey_packet_def)
  from copy_rw_of_writable [OF one_packet_reach plain_methods_ok _ _ one_packet_header h(1,2) plain_creates_ok h(3) P'] P'
  show ?thesis by simp
qed

text \<open>
  C26: a copy of a shared packet made by the manual path of \<open>pdp_packet_clone_rw\<close> (no packet to reuse, no
  factory) inherits the reference count of its source with the rest of the header, so the copy, held
  by one client, is not writable, and \<open>pdp_packet_replace_with_writable\<close> does not do what its name says.
\<close>

theorem clone_of_shared_not_writable:
  assumes "pdp_packet_header p P = Some h" "users h \<noteq> 1"
    and "pdp_packet_reuse E (desc h) P = Some (-1, P1)" "pdp_factory_newpacket E (desc h) P1 = Some (-1, P2)"
    and "pdp_packet_new E (ptype h) (psize h - of_nat PDP_HEADER_SIZE) P2 = Some (q, P3)"
    and "pdp_packet_clone_rw E p P = Some (q', P')"
  shows "q' = q \<and> \<not> pdp_packet_writable q' P'"
proof -
  have c: "(q', P') = (q, case pdp_packet_header q P3 of None \<Rightarrow> P3
      | Some g \<Rightarrow> set_packet q (Some (copy_header g h)) P3)"
    using assms by (auto simp: pdp_packet_clone_rw_def)
  show ?thesis
  proof (cases "pdp_packet_header q P3")
    case None
    with c show ?thesis by (simp add: pdp_packet_writable_def)
  next
    case (Some g)
    with c assms(2) header_valid [OF Some] show ?thesis
      by (simp add: pdp_packet_writable_def header_set_packet copy_header_def)
  qed
qed

definition shared_pool :: pool where
  "shared_pool = set_packet 0 (Some (grey_packet\<lparr>users := 2\<rparr>)) (pdp_packet_setup empty_pool)"

lemma shared_header: "pdp_packet_header 0 shared_pool = Some (grey_packet\<lparr>users := 2\<rparr>)"
  by (simp add: shared_pool_def header_set_packet pdp_packet_setup_def PDP_INITIAL_POOL_SIZE_def)

lemma shared_reuse:
  "pdp_packet_reuse plain_methods (desc (grey_packet\<lparr>users := 2\<rparr>)) shared_pool = Some (-1, shared_pool)"
  "pdp_factory_newpacket plain_methods (desc (grey_packet\<lparr>users := 2\<rparr>)) shared_pool = Some (-1, shared_pool)"
proof -
  have w: "wake plain_methods (-1) P = P" for P by (simp add: wake_def pdp_packet_header_def)
  have "reuse_loop td shared_pool = Some (-1, shared_pool)" for td
    by (subst reuse_loop.simps) (simp add: shared_pool_def pdp_packet_setup_def empty_pool_def set_packet_def)
  with w show "pdp_packet_reuse plain_methods (desc (grey_packet\<lparr>users := 2\<rparr>)) shared_pool = Some (-1, shared_pool)"
    by (simp add: pdp_packet_reuse_def grey_packet_def)
  then show "pdp_factory_newpacket plain_methods (desc (grey_packet\<lparr>users := 2\<rparr>)) shared_pool = Some (-1, shared_pool)"
    by (simp add: pdp_factory_newpacket_def) (simp add: shared_pool_def pdp_packet_setup_def)
qed

lemma shared_new:
  "map_option fst (pdp_packet_new plain_methods (ptype (grey_packet\<lparr>users := 2\<rparr>))
     (psize (grey_packet\<lparr>users := 2\<rparr>) - of_nat PDP_HEADER_SIZE) shared_pool) = Some 1"
  "map_option fst (pdp_packet_clone_rw plain_methods 0 shared_pool) = Some 1"
  by code_simp+

theorem clone_of_shared_not_writable_witness:
  "\<exists>P'. pdp_packet_clone_rw plain_methods 0 shared_pool = Some (1, P') \<and> \<not> pdp_packet_writable 1 P'"
proof -
  from shared_new obtain P3 P' where
    "pdp_packet_new plain_methods (ptype (grey_packet\<lparr>users := 2\<rparr>))
       (psize (grey_packet\<lparr>users := 2\<rparr>) - of_nat PDP_HEADER_SIZE) shared_pool = Some (1, P3)"
    "pdp_packet_clone_rw plain_methods 0 shared_pool = Some (1, P')" by auto
  from clone_of_shared_not_writable [OF shared_header _ shared_reuse this] this(2) show ?thesis by simp
qed

text \<open>
  the reuse list of a description can name a packet that \<open>pdp_packet_new\<close> took over in the meantime.
  When that packet is then released without a description, or deleted, the next \<open>pdp_packet_reuse\<close> of
  the first description dereferences a null pointer.
\<close>

definition described :: "int \<Rightarrow> symbol \<Rightarrow> pool \<Rightarrow> pool" where
  "described p d P = (case pdp_packet_header p P of None \<Rightarrow> P | Some h \<Rightarrow> set_packet p (Some (h\<lparr>desc := Some d\<rparr>)) P)"

definition taken_over :: "pool option" where
  "taken_over =
     do { (p, P) \<leftarrow> pdp_packet_create plain_methods 1 2 (pdp_packet_setup empty_pool);
          P \<leftarrow> pdp_packet_mark_unused plain_methods p (described p ''image/grey/8x8'' P);
          (q, P) \<leftarrow> pdp_packet_new plain_methods 1 2 P;
          Some P }"

theorem stale_reuse_entry_crashes:
  "(\<exists>P P1. taken_over = Some P \<and> pdp_packet_mark_unused plain_methods 0 P = Some P1 \<and>
      pdp_packet_reuse plain_methods (Some ''image/grey/8x8'') P1 = None) \<and>
   (\<exists>P P1. taken_over = Some P \<and> pdp_packet_delete 0 P = Some P1 \<and>
      pdp_packet_reuse plain_methods (Some ''image/grey/8x8'') P1 = None)"
proof -
  have 1: "map_option (\<lambda>P. map_option (\<lambda>P1. pdp_packet_reuse plain_methods (Some ''image/grey/8x8'') P1 = None)
     (pdp_packet_mark_unused plain_methods 0 P)) taken_over = Some (Some True)" by code_simp
  have 2: "map_option (\<lambda>P. map_option (\<lambda>P1. pdp_packet_reuse plain_methods (Some ''image/grey/8x8'') P1 = None)
     (pdp_packet_delete 0 P)) taken_over = Some (Some True)" by code_simp
  from 1 2 show ?thesis by (cases taken_over) auto
qed

end
