(* ===== verification/TypeConv.thy ===== *)
theory TypeConv
  imports PacketPool
begin

text \<open>
  Type conversion of \<^verbatim>\<open>system/kernel/pdp_type.c\<close>: registered conversion programs, the cache of
  programs found for a pair of types, and the search that chains programs until the packet fits.

  A conversion method is a pointer the registry only calls: methods are numbers, \<open>cm\<close> gives their
  behaviour and is a parameter. A program is the list of its methods. \<open>None\<close> stands for a null
  dereference, also inside a method, or a conversion that goes on for ever.
\<close>

type_synonym conv_method = "nat \<Rightarrow> int \<Rightarrow> symbol \<Rightarrow> pool \<Rightarrow> (int \<times> pool) option"

record t_pdp_conversion =
  src_pattern :: symbol
  dst_pattern :: symbol
  program :: "nat list"

record tstate =
  tpool :: pool
  conversion_list :: "t_pdp_conversion list"
  cached_conversion_list :: "t_pdp_conversion list"
  max_cache_size :: nat

definition INIT_MAX_CACHE_SIZE :: nat where
  "INIT_MAX_CACHE_SIZE = 32"

definition pdp_type_setup :: "tstate \<Rightarrow> tstate" where
  "pdp_type_setup T = T\<lparr>cached_conversion_list := [], conversion_list := [], max_cache_size := INIT_MAX_CACHE_SIZE\<rparr>"

text \<open>A match on the state: only the type cache of the symbols can change.\<close>

definition tmatch :: "symbol \<Rightarrow> symbol \<Rightarrow> tstate \<Rightarrow> bool \<times> tstate" where
  "tmatch d p T =
     (let (m, c) = pdp_type_description_match d p (tcache (tpool T))
      in (m, T\<lparr>tpool := (tpool T)\<lparr>tcache := c\<rparr>\<rparr>))"

section \<open>Programs\<close>

fun run_rest :: "methods \<Rightarrow> conv_method \<Rightarrow> nat list \<Rightarrow> int \<Rightarrow> symbol \<Rightarrow> pool \<Rightarrow> (int \<times> pool) option" where
  "run_rest E cm [] p dest_template P = Some (p, P)"
| "run_rest E cm (m # ms) p dest_template P =
     do { (tmp, P) \<leftarrow> cm m p dest_template P;
          P \<leftarrow> pdp_packet_mark_unused E p P;
          run_rest E cm ms tmp dest_template P }"

definition pdp_type_run_conversion_program ::
  "methods \<Rightarrow> conv_method \<Rightarrow> nat list \<Rightarrow> int \<Rightarrow> symbol \<Rightarrow> pool \<Rightarrow> (int \<times> pool) option" where
  "pdp_type_run_conversion_program E cm prog packet dest_template P =
     (case prog of
        [] \<Rightarrow> None
      | m # ms \<Rightarrow> do { (p, P) \<leftarrow> cm m packet dest_template P; run_rest E cm ms p dest_template P })"

fun find_program_loop :: "symbol \<Rightarrow> symbol \<Rightarrow> t_pdp_conversion list \<Rightarrow> tstate \<Rightarrow> nat list option \<times> tstate" where
  "find_program_loop src dst [] T = (None, T)"
| "find_program_loop src dst (c # cs) T =
     (let (m1, T) = tmatch src (src_pattern c) T in
      if m1 then (let (m2, T) = tmatch dst (dst_pattern c) T in
                  if m2 then (Some (program c), T) else find_program_loop src dst cs T)
      else find_program_loop src dst cs T)"

definition pdp_type_find_conversion_program :: "symbol \<Rightarrow> symbol \<Rightarrow> tstate \<Rightarrow> nat list option \<times> tstate" where
  "pdp_type_find_conversion_program src dst T = find_program_loop src dst (conversion_list T) T"

definition conv_key :: "t_pdp_conversion \<Rightarrow> symbol \<times> symbol" where
  "conv_key c = (src_pattern c, dst_pattern c)"

fun find_key :: "symbol \<times> symbol \<Rightarrow> nat \<Rightarrow> t_pdp_conversion list \<Rightarrow> nat option" where
  "find_key k i [] = None"
| "find_key k i (c # cs) = (if k = conv_key c then Some i else find_key k (i + 1) cs)"

text \<open>On a hit the entry found and the last entry change places.\<close>

definition pdp_type_find_cached_conversion_program :: "symbol \<Rightarrow> symbol \<Rightarrow> tstate \<Rightarrow> nat list option \<times> tstate" where
  "pdp_type_find_cached_conversion_program src dst T =
     (let l = cached_conversion_list T in
      case find_key (src, dst) 0 l of
        None \<Rightarrow> (None, T)
      | Some i \<Rightarrow>
          (let c = l ! i; c_tmp = last l; l = l[length l - 1 := c]; l = l[i := c_tmp]
           in (Some (program c), T\<lparr>cached_conversion_list := l\<rparr>)))"

definition pdp_conversion_program_new :: "nat list \<Rightarrow> nat list" where
  "pdp_conversion_program_new ms = ms"

definition pdp_conversion_program_add :: "nat list \<Rightarrow> nat list \<Rightarrow> nat list" where
  "pdp_conversion_program_add prog tail = prog @ tail"

definition pdp_type_register_conversion :: "symbol \<Rightarrow> symbol \<Rightarrow> nat list \<Rightarrow> tstate \<Rightarrow> tstate" where
  "pdp_type_register_conversion src dst prog T =
     T\<lparr>conversion_list := conversion_list T @ [\<lparr>src_pattern = src, dst_pattern = dst, program = prog\<rparr>]\<rparr>"

text \<open>The loop that makes room; an empty list with \<open>max_cache_size\<close> 0 would pop from nothing.\<close>

fun make_room :: "nat \<Rightarrow> t_pdp_conversion list \<Rightarrow> t_pdp_conversion list option" where
  "make_room mx [] = (if 0 \<ge> mx then None else Some [])"
| "make_room mx (c # cs) = (if length (c # cs) \<ge> mx then make_room mx cs else Some (c # cs))"

definition pdp_type_register_cached_conversion :: "symbol \<Rightarrow> symbol \<Rightarrow> nat list \<Rightarrow> tstate \<Rightarrow> tstate option" where
  "pdp_type_register_cached_conversion src dst prog T =
     do { l \<leftarrow> make_room (max_cache_size T) (cached_conversion_list T);
          Some (T\<lparr>cached_conversion_list := l @ [\<lparr>src_pattern = src, dst_pattern = dst, program = prog\<rparr>]\<rparr>) }"

section \<open>Conversion\<close>

definition on_pool :: "(pool \<Rightarrow> ('a \<times> pool) option) \<Rightarrow> tstate \<Rightarrow> ('a \<times> tstate) option" where
  "on_pool f T = do { (x, P) \<leftarrow> f (tpool T); Some (x, T\<lparr>tpool := P\<rparr>) }"

text \<open>The loop of \<open>_pdp_packet_convert\<close> after the first program has run.\<close>

partial_function (option) convert_loop ::
  "methods \<Rightarrow> conv_method \<Rightarrow> symbol \<Rightarrow> symbol \<Rightarrow> nat list \<Rightarrow> int \<Rightarrow> tstate \<Rightarrow> (int \<times> tstate) option" where [code]:
  "convert_loop E cm type dest_template prog tmp_packet T =
     (let tmp_type = pdp_packet_get_description tmp_packet (tpool T);
          (m, T) = tmatch tmp_type dest_template T
      in if m
         then do { T \<leftarrow> pdp_type_register_cached_conversion type dest_template prog T; Some (tmp_packet, T) }
         else (let (tail, T) = pdp_type_find_conversion_program tmp_type dest_template T in
               case tail of
                 None \<Rightarrow> do { P \<leftarrow> pdp_packet_mark_unused E tmp_packet (tpool T); Some (-1, T\<lparr>tpool := P\<rparr>) }
               | Some program_tail \<Rightarrow>
                   do { (new_packet, T) \<leftarrow> on_pool (pdp_type_run_conversion_program E cm program_tail tmp_packet dest_template) T;
                        P \<leftarrow> pdp_packet_mark_unused E tmp_packet (tpool T);
                        convert_loop E cm type dest_template (pdp_conversion_program_add prog program_tail) new_packet
                          (T\<lparr>tpool := P\<rparr>) }))"

definition pdp_packet_convert ::
  "methods \<Rightarrow> conv_method \<Rightarrow> int \<Rightarrow> symbol \<Rightarrow> tstate \<Rightarrow> (int \<times> tstate) option" where
  "pdp_packet_convert E cm packet dest_template T =
     (let type = pdp_packet_get_description packet (tpool T);
          (cached, T) = pdp_type_find_cached_conversion_program type dest_template T
      in case cached of
           Some prog \<Rightarrow> on_pool (pdp_type_run_conversion_program E cm prog packet dest_template) T
         | None \<Rightarrow>
             (let (found, T) = pdp_type_find_conversion_program type dest_template T in
              case found of
                None \<Rightarrow> Some (-1, T)
              | Some prog \<Rightarrow>
                  do { (tmp_packet, T) \<leftarrow> on_pool (pdp_type_run_conversion_program E cm prog packet dest_template) T;
                       convert_loop E cm type dest_template prog tmp_packet T }))"

definition pdp_packet_convert_ro ::
  "methods \<Rightarrow> conv_method \<Rightarrow> int \<Rightarrow> symbol \<Rightarrow> tstate \<Rightarrow> (int \<times> tstate) option" where
  "pdp_packet_convert_ro E cm packet dest_template T =
     (let type = pdp_packet_get_description packet (tpool T); (m, T) = tmatch type dest_template T
      in if m then on_pool (\<lambda>P. Some (pdp_packet_copy_ro packet P)) T
         else pdp_packet_convert E cm packet dest_template T)"

definition pdp_packet_convert_rw ::
  "methods \<Rightarrow> conv_method \<Rightarrow> int \<Rightarrow> symbol \<Rightarrow> tstate \<Rightarrow> (int \<times> tstate) option" where
  "pdp_packet_convert_rw E cm packet dest_template T =
     (let type = pdp_packet_get_description packet (tpool T); (m, T) = tmatch type dest_template T
      in if m then on_pool (pdp_packet_copy_rw E packet) T
         else pdp_packet_convert E cm packet dest_template T)"

section \<open>The program cache\<close>

lemma find_key_Some:
  "find_key k i l = Some j \<Longrightarrow> i \<le> j \<and> j < i + length l \<and> conv_key (l ! (j - i)) = k"
proof (induction l arbitrary: i)
  case (Cons c l)
  then show ?case by (fastforce simp: nth_Cons' split: if_splits)
qed simp

lemma find_key_None: "find_key k i l = None \<longleftrightarrow> k \<notin> conv_key ` set l"
  by (induction l arbitrary: i) auto

lemma swap_last_mset: "i < length l \<Longrightarrow> mset ((l[length l - 1 := l ! i])[i := last l]) = mset l"
proof -
  assume i: "i < length l"
  then have l: "l \<noteq> []" by auto
  have "(l[length l - 1 := l ! i])[i := last l] = l[length l - 1 := l ! i, i := l ! (length l - 1)]"
    using l by (simp add: last_conv_nth)
  then show ?thesis using mset_swap [of i l "length l - 1"] i l by simp
qed

lemma make_room_suffix: "make_room mx l = Some l' \<Longrightarrow> \<exists>us. l = us @ l' \<and> length l' < mx \<and> (us \<noteq> [] \<longrightarrow> Suc (length l') = mx)"
proof (induction l)
  case Nil
  then show ?case by (simp split: if_splits)
next
  case (Cons c l)
  show ?case
  proof (cases "length (c # l) \<ge> mx")
    case True
    with Cons obtain us where us: "l = us @ l'" "length l' < mx" "us \<noteq> [] \<longrightarrow> Suc (length l') = mx" by auto
    then show ?thesis using True by (intro exI [of _ "c # us"]) auto
  next
    case False
    with Cons.prems show ?thesis by (intro exI [of _ "[]"]) auto
  qed
qed

lemma make_room_total: "0 < mx \<Longrightarrow> \<exists>l'. make_room mx l = Some l'"
  by (induction l) auto

text \<open>No pair of types is cached twice, and the cache is never over its limit.\<close>

definition ccache_inv :: "tstate \<Rightarrow> bool" where
  "ccache_inv T \<longleftrightarrow> 0 < max_cache_size T \<and> length (cached_conversion_list T) \<le> max_cache_size T \<and>
     distinct (map conv_key (cached_conversion_list T))"

lemma find_cached_inv:
  assumes "pdp_type_find_cached_conversion_program src dst T = (r, T')"
  shows "mset (cached_conversion_list T') = mset (cached_conversion_list T)"
    "tpool T' = tpool T" "conversion_list T' = conversion_list T" "max_cache_size T' = max_cache_size T"
    "r = None \<longleftrightarrow> (src, dst) \<notin> conv_key ` set (cached_conversion_list T)"
    "\<And>p. r = Some p \<Longrightarrow> \<exists>c \<in> set (cached_conversion_list T). conv_key c = (src, dst) \<and> program c = p"
proof -
  let ?l = "cached_conversion_list T"
  show "mset (cached_conversion_list T') = mset ?l" "tpool T' = tpool T"
    "conversion_list T' = conversion_list T" "max_cache_size T' = max_cache_size T"
    using assms swap_last_mset [of _ ?l] find_key_Some [of "(src, dst)" 0 ?l]
    by (auto simp: pdp_type_find_cached_conversion_program_def Let_def split: option.splits)
  show "r = None \<longleftrightarrow> (src, dst) \<notin> conv_key ` set ?l"
    using assms find_key_None [of "(src, dst)" 0 ?l]
    by (auto simp: pdp_type_find_cached_conversion_program_def Let_def split: option.splits)
  fix p assume "r = Some p"
  with assms obtain i where i: "find_key (src, dst) 0 ?l = Some i" "program (?l ! i) = p"
    by (auto simp: pdp_type_find_cached_conversion_program_def Let_def split: option.splits)
  from find_key_Some [OF i(1)] i(2) show "\<exists>c \<in> set ?l. conv_key c = (src, dst) \<and> program c = p"
    by (intro bexI [of _ "?l ! i"]) auto
qed

lemma ccache_inv_mset:
  assumes "ccache_inv T" "mset (cached_conversion_list T') = mset (cached_conversion_list T)" "max_cache_size T' = max_cache_size T"
  shows "ccache_inv T'"
proof -
  have "mset (map conv_key (cached_conversion_list T')) = mset (map conv_key (cached_conversion_list T))"
    using assms(2) by simp
  then have "distinct (map conv_key (cached_conversion_list T'))"
    using assms(1) mset_eq_imp_distinct_iff unfolding ccache_inv_def by blast
  with assms mset_eq_length [OF assms(2)] show ?thesis by (simp add: ccache_inv_def)
qed

lemma register_cached_inv:
  assumes inv: "ccache_inv T" and new: "(src, dst) \<notin> conv_key ` set (cached_conversion_list T)"
  shows "\<exists>T'. pdp_type_register_cached_conversion src dst prog T = Some T' \<and> ccache_inv T' \<and> tpool T' = tpool T"
proof -
  from make_room_total [of "max_cache_size T" "cached_conversion_list T"] inv obtain l where
    l: "make_room (max_cache_size T) (cached_conversion_list T) = Some l" by (auto simp: ccache_inv_def)
  from make_room_suffix [OF l] obtain us where us: "cached_conversion_list T = us @ l" "length l < max_cache_size T"
    by blast
  have "ccache_inv (T\<lparr>cached_conversion_list := l @ [\<lparr>src_pattern = src, dst_pattern = dst, program = prog\<rparr>]\<rparr>)"
    using inv new us by (auto simp: ccache_inv_def conv_key_def)
  with l show ?thesis by (simp add: pdp_type_register_cached_conversion_def)
qed

section \<open>References during a conversion\<close>

text \<open>
  The contract of a conversion method: it keeps its hands off the packets that are held, its source
  among them, and returns \<open>-1\<close> or a new packet with a description.
\<close>

definition converted :: "pool \<Rightarrow> int multiset \<Rightarrow> int \<Rightarrow> pool \<Rightarrow> bool" where
  "converted P R q P' \<longleftrightarrow>
     (if q = -1 then kept P R P' else made P R q P' \<and> (\<exists>h. pdp_packet_header q P' = Some h \<and> desc h \<noteq> None))"

definition conv_ok :: "conv_method \<Rightarrow> bool" where
  "conv_ok cm \<longleftrightarrow> (\<forall>m p d P R q P'. pool_inv P R \<longrightarrow> size R < 2 ^ 32 - 1 \<longrightarrow> cm m p d P = Some (q, P') \<longrightarrow> converted P R q P')"

abbreviation with_ref :: "int \<Rightarrow> int multiset \<Rightarrow> int multiset" where
  "with_ref p R \<equiv> (if p = -1 then R else add_mset p R)"

lemma converted_inv: "converted P R q P' \<Longrightarrow> pool_inv P' (with_ref q R)"
  by (auto simp: converted_def kept_def made_def split: if_splits)

lemma kept_converted: "kept P R P1 \<Longrightarrow> converted P1 R q P2 \<Longrightarrow> converted P R q P2"
  by (auto simp: converted_def intro: kept_trans kept_made split: if_splits)

text \<open>Releasing an intermediate packet after the next one has been made from it.\<close>

lemma release_intermediate:
  assumes E: "methods_ok E" and p: "converted P R p P1" and t: "converted P1 (with_ref p R) t P2"
  shows "\<exists>P3. pdp_packet_mark_unused E p P2 = Some P3 \<and> converted P R t P3 \<and>
    pdp_packet_get_description t P3 = pdp_packet_get_description t P2"
proof (cases "p = -1")
  case True
  then have "pdp_packet_mark_unused E p P2 = Some P2"
    by (simp add: pdp_packet_mark_unused_def pdp_packet_header_def)
  moreover have "kept P R P1" using p True by (simp add: converted_def)
  moreover have "converted P1 R t P2" using t True by simp
  moreover note kept_converted [of P R P1 t P2]
  ultimately show ?thesis by blast
next
  case False
  let ?R = "add_mset p R"
  from p False obtain h where m: "made P R p P1" and h: "pdp_packet_header p P1 = Some h" "desc h \<noteq> None"
    by (auto simp: converted_def)
  have fr: "pdp_packet_header x P2 = pdp_packet_header x P1" if "x \<in># ?R" for x
    using t False that by (auto simp: converted_def kept_def made_def split: if_splits)
  have inv2: "pool_inv P2 (with_ref t ?R)" using converted_inv [OF t] unfolding if_not_P [OF False] .
  have "p \<in># with_ref t ?R" by simp
  from mark_unused_ok [OF E inv2 this] fr [of p] h obtain P3 where
    P3: "pdp_packet_mark_unused E p P2 = Some P3" "pool_inv P3 (with_ref t ?R - {#p#})"
      "\<forall>q. q \<noteq> p \<longrightarrow> pdp_packet_header q P3 = pdp_packet_header q P2" by auto
  have tp: "t \<noteq> -1 \<Longrightarrow> t \<noteq> p \<and> t \<notin># R" using t False by (auto simp: converted_def made_def)
  have "with_ref t ?R - {#p#} = with_ref t R" by (simp add: add_mset_commute)
  with P3(2) have i3: "pool_inv P3 (with_ref t R)" by simp
  have pR: "p \<notin># R" using m by (simp add: made_def)
  have fr3: "pdp_packet_header x P3 = pdp_packet_header x P" if "x \<in># R" for x
    using P3(3) fr [of x] m that pR by (auto simp: made_def)
  have "converted P R t P3"
  proof (cases "t = -1")
    case True
    with i3 fr3 show ?thesis by (simp add: converted_def kept_def)
  next
    case False
    with t have "pdp_packet_writable t P2" "0 \<le> t" "\<exists>h. pdp_packet_header t P2 = Some h \<and> desc h \<noteq> None"
      by (auto simp: converted_def made_def)
    with False i3 fr3 tp P3(3) show ?thesis by (simp add: converted_def made_def pdp_packet_writable_def)
  qed
  moreover have "pdp_packet_header t P3 = pdp_packet_header t P2"
    using P3(3) tp False by (cases "t = -1") (auto simp: pdp_packet_header_def)
  ultimately show ?thesis using P3(1) by (auto simp: pdp_packet_get_description_def)
qed

lemma conv_ok_apply:
  assumes "conv_ok cm" "pool_inv P R" "size R < 2 ^ 32 - 1" "cm m p d P = Some (q, P')"
  shows "converted P R q P'"
  using assms unfolding conv_ok_def by blast

lemma size_with_ref: "size (with_ref p R) \<le> size R + 1"
  by simp

lemma run_rest_ok:
  assumes E: "methods_ok E" and cm: "conv_ok cm" and sz: "size R < 2 ^ 32 - 2"
  shows "converted P R p P1 \<Longrightarrow> run_rest E cm ms p d P1 = Some (q, P') \<Longrightarrow> converted P R q P'"
proof (induction ms arbitrary: p P1)
  case Nil
  then show ?case by simp
next
  case (Cons m ms)
  from Cons.prems(2) obtain t P2 P3 where c: "cm m p d P1 = Some (t, P2)" "pdp_packet_mark_unused E p P2 = Some P3"
    "run_rest E cm ms t d P3 = Some (q, P')" by (auto simp: bind_eq_Some_conv)
  have "size (with_ref p R) < 2 ^ 32 - 1" using sz size_with_ref [of p R] by linarith
  from conv_ok_apply [OF cm converted_inv [OF Cons.prems(1)] this c(1)] have "converted P1 (with_ref p R) t P2" .
  from release_intermediate [OF E Cons.prems(1) this] c(2) have "converted P R t P3" by auto
  with Cons.IH c(3) show ?case by blast
qed

lemma run_program_ok:
  assumes E: "methods_ok E" and cm: "conv_ok cm" and sz: "size R < 2 ^ 32 - 2"
    and "pool_inv P R" "pdp_type_run_conversion_program E cm prog p d P = Some (q, P')"
  shows "converted P R q P'"
proof -
  from assms(5) obtain m ms t P1 where c: "cm m p d P = Some (t, P1)" "run_rest E cm ms t d P1 = Some (q, P')"
    by (auto simp: pdp_type_run_conversion_program_def bind_eq_Some_conv split: list.splits)
  have "converted P R t P1" using conv_ok_apply [OF cm assms(4) _ c(1)] sz by simp
  from run_rest_ok [OF E cm sz this c(2)] show ?thesis .
qed

section \<open>Searching and converting\<close>

text \<open>\<open>tframe T T'\<close>: only the type cache of the symbols may have grown.\<close>

definition tframe :: "tstate \<Rightarrow> tstate \<Rightarrow> bool" where
  "tframe T T' \<longleftrightarrow> (\<exists>c. T' = T\<lparr>tpool := (tpool T)\<lparr>tcache := c\<rparr>\<rparr> \<and> (cache_ok (tcache (tpool T)) \<longrightarrow> cache_ok c))"

lemma tframe_refl: "tframe T T"
  unfolding tframe_def by (intro exI [of _ "tcache (tpool T)"]) simp

lemma tframe_trans: "tframe T1 T2 \<Longrightarrow> tframe T2 T3 \<Longrightarrow> tframe T1 T3"
  by (auto simp: tframe_def)

lemma tframe_fields:
  assumes "tframe T T'"
  shows "conversion_list T' = conversion_list T" "cached_conversion_list T' = cached_conversion_list T"
    "max_cache_size T' = max_cache_size T" "pdp_packet_header p (tpool T') = pdp_packet_header p (tpool T)"
    "cache_ok (tcache (tpool T)) \<Longrightarrow> cache_ok (tcache (tpool T'))"
    "pdp_packet_get_description p (tpool T') = pdp_packet_get_description p (tpool T)"
  using assms by (auto simp: tframe_def pdp_packet_get_description_def)

lemma tframe_inv: "tframe T T' \<Longrightarrow> pool_inv (tpool T) R \<Longrightarrow> pool_inv (tpool T') R"
  using invD(2) [of "tpool T" R] by (auto simp: tframe_def intro: cache_inv)

lemma tframe_kept: "tframe T T' \<Longrightarrow> pool_inv (tpool T) R \<Longrightarrow> kept (tpool T) R (tpool T')"
  by (simp add: kept_def tframe_inv tframe_fields)

lemma tmatch_ok:
  assumes "tmatch d p T = (m, T')"
  shows "tframe T T'" "cache_ok (tcache (tpool T)) \<Longrightarrow> m = types_match d p"
proof -
  obtain b c where bc: "pdp_type_description_match d p (tcache (tpool T)) = (b, c)" by fastforce
  with assms match_cached(1,2) [OF _ bc] show "tframe T T'" "cache_ok (tcache (tpool T)) \<Longrightarrow> m = types_match d p"
    by (auto simp: tmatch_def tframe_def)
qed

lemma find_program_loop_ok:
  "find_program_loop src dst cs T = (r, T') \<Longrightarrow>
     tframe T T' \<and> (\<forall>prog. r = Some prog \<longrightarrow> (\<exists>c \<in> set cs. program c = prog))"
proof (induction cs arbitrary: T)
  case Nil
  then show ?case by (simp add: tframe_refl)
next
  case (Cons c cs)
  obtain m1 T1 where t1: "tmatch src (src_pattern c) T = (m1, T1)" by fastforce
  obtain m2 T2 where t2: "tmatch dst (dst_pattern c) T1 = (m2, T2)" by fastforce
  note f1 = tmatch_ok(1) [OF t1] and f2 = tmatch_ok(1) [OF t2]
  have step: "find_program_loop src dst (c # cs) T =
      (if m1 then if m2 then (Some (program c), T2) else find_program_loop src dst cs T2
       else find_program_loop src dst cs T1)" by (simp add: t1 t2 Let_def)
  show ?case
  proof (cases "m1 \<and> m2")
    case True
    with Cons.prems step have "r = Some (program c)" "T' = T2" by simp_all
    with f1 f2 show ?thesis by (auto intro: tframe_trans)
  next
    case False
    define T3 where "T3 = (if m1 then T2 else T1)"
    have "find_program_loop src dst cs T3 = (r, T')" using Cons.prems step False by (simp add: T3_def split: if_splits)
    moreover have "tframe T T3" using f1 f2 by (auto simp: T3_def intro: tframe_trans)
    ultimately show ?thesis using Cons.IH [of T3] by (auto intro: tframe_trans)
  qed
qed

lemma find_conversion_ok:
  assumes "pdp_type_find_conversion_program src dst T = (r, T')"
  shows "tframe T T'" "\<And>prog. r = Some prog \<Longrightarrow> \<exists>c \<in> set (conversion_list T). program c = prog"
  using find_program_loop_ok [of src dst "conversion_list T" T r T'] assms
  by (auto simp: pdp_type_find_conversion_program_def)

text \<open>The state a conversion works on: a sound pool, a sound cache, no empty programs.\<close>

definition tstate_ok :: "tstate \<Rightarrow> int multiset \<Rightarrow> bool" where
  "tstate_ok T R \<longleftrightarrow> pool_inv (tpool T) R \<and> ccache_inv T \<and>
     (\<forall>c \<in> set (conversion_list T) \<union> set (cached_conversion_list T). program c \<noteq> [])"

text \<open>What a conversion has done: the reference counts fit the result, the registry is unchanged.\<close>

definition conversion :: "tstate \<Rightarrow> int multiset \<Rightarrow> int \<Rightarrow> tstate \<Rightarrow> bool" where
  "conversion T R q T' \<longleftrightarrow> converted (tpool T) R q (tpool T') \<and> tstate_ok T' (with_ref q R) \<and>
     conversion_list T' = conversion_list T"

lemma run_on_pool:
  assumes E: "methods_ok E" and cm: "conv_ok cm" and "size R < 2 ^ 32 - 2" "pool_inv (tpool T) R"
    and "on_pool (pdp_type_run_conversion_program E cm prog p d) T = Some (q, T')"
  shows "\<exists>P. T' = T\<lparr>tpool := P\<rparr> \<and> converted (tpool T) R q P"
  using assms(5) run_program_ok [OF assms(1-4)] by (auto simp: on_pool_def bind_eq_Some_conv)

text \<open>One round of the conversion loop, with \<open>F\<close> for the rounds after it.\<close>

definition convert_body ::
  "(methods \<Rightarrow> conv_method \<Rightarrow> symbol \<Rightarrow> symbol \<Rightarrow> nat list \<Rightarrow> int \<Rightarrow> tstate \<Rightarrow> (int \<times> tstate) option) \<Rightarrow>
   methods \<Rightarrow> conv_method \<Rightarrow> symbol \<Rightarrow> symbol \<Rightarrow> nat list \<Rightarrow> int \<Rightarrow> tstate \<Rightarrow> (int \<times> tstate) option" where
  "convert_body F E cm type dest_template prog tmp_packet T =
     (let tmp_type = pdp_packet_get_description tmp_packet (tpool T);
          (m, T) = tmatch tmp_type dest_template T
      in if m
         then do { T \<leftarrow> pdp_type_register_cached_conversion type dest_template prog T; Some (tmp_packet, T) }
         else (let (tail, T) = pdp_type_find_conversion_program tmp_type dest_template T in
               case tail of
                 None \<Rightarrow> do { P \<leftarrow> pdp_packet_mark_unused E tmp_packet (tpool T); Some (-1, T\<lparr>tpool := P\<rparr>) }
               | Some program_tail \<Rightarrow>
                   do { (new_packet, T) \<leftarrow> on_pool (pdp_type_run_conversion_program E cm program_tail tmp_packet dest_template) T;
                        P \<leftarrow> pdp_packet_mark_unused E tmp_packet (tpool T);
                        F E cm type dest_template (pdp_conversion_program_add prog program_tail) new_packet
                          (T\<lparr>tpool := P\<rparr>) }))"

lemma convert_loop_body: "convert_loop E cm type d prog p T = convert_body convert_loop E cm type d prog p T"
  by (subst convert_loop.simps) (simp add: convert_body_def)

text \<open>A round ends the loop, goes on with the next packet or is undefined because a method was.\<close>

lemma convert_round:
  assumes E: "methods_ok E" and cm: "conv_ok cm" and sz: "size R < 2 ^ 32 - 3"
    and prev: "converted P0 R p (tpool T)" and reg: "\<forall>c \<in> set (conversion_list T). program c \<noteq> []"
  obtains (finish) T1 where "types_match (pdp_packet_get_description p (tpool T)) d" "tframe T T1"
      "convert_body F E cm type d prog p T =
         do { T \<leftarrow> pdp_type_register_cached_conversion type d prog T1; Some (p, T) }"
    | (fail) T1 P where "tframe T T1" "converted P0 R (-1) P" "convert_body F E cm type d prog p T = Some (-1, T1\<lparr>tpool := P\<rparr>)"
    | (go) T1 tl q P where "tframe T T1" "tl \<noteq> []" "converted P0 R q P"
      "convert_body F E cm type d prog p T = F E cm type d (prog @ tl) q (T1\<lparr>tpool := P\<rparr>)"
    | (stuck) "convert_body F E cm type d prog p T = None"
proof -
  let ?t = "pdp_packet_get_description p (tpool T)" and ?R = "with_ref p R"
  have inv: "pool_inv (tpool T) ?R" by (rule converted_inv [OF prev])
  obtain m T1 where m: "tmatch ?t d T = (m, T1)" by fastforce
  obtain r T2 where r: "pdp_type_find_conversion_program ?t d T1 = (r, T2)" by fastforce
  note f1 = tmatch_ok [OF m] and f2 = find_conversion_ok [OF r]
  have f: "tframe T T2" using f1(1) f2(1) by (rule tframe_trans)
  have szp: "size ?R < 2 ^ 32 - 2" using sz size_with_ref [of p R] by linarith
  show thesis
  proof (cases m)
    case True
    then have tm: "types_match ?t d" using f1(2) invD(2) [OF inv] by simp
    have "convert_body F E cm type d prog p T =
        do { T \<leftarrow> pdp_type_register_cached_conversion type d prog T1; Some (p, T) }"
      using True m by (simp add: convert_body_def Let_def)
    with tm f1(1) show thesis by (rule finish)
  next
    case False
    show thesis
    proof (cases r)
      case None
      have "converted (tpool T) ?R (-1) (tpool T2)" using tframe_kept [OF f inv] by (simp add: converted_def)
      from release_intermediate [OF E prev this] obtain P where
        P: "pdp_packet_mark_unused E p (tpool T2) = Some P" "converted P0 R (-1) P" by auto
      have "convert_body F E cm type d prog p T = Some (-1, T2\<lparr>tpool := P\<rparr>)"
        using False None m r P(1) by (simp add: convert_body_def Let_def)
      with f P(2) show thesis by (rule fail)
    next
      case (Some tl)
      with f2(2) reg tframe_fields(1) [OF f1(1)] have tl: "tl \<noteq> []" by auto
      show thesis
      proof (cases "on_pool (pdp_type_run_conversion_program E cm tl p d) T2")
        case None
        then have "convert_body F E cm type d prog p T = None" using False Some m r by (simp add: convert_body_def Let_def)
        then show thesis by (rule stuck)
      next
        case (Some qT)
        then obtain q T3 where o: "on_pool (pdp_type_run_conversion_program E cm tl p d) T2 = Some (q, T3)" by (cases qT) simp
        from run_on_pool [OF E cm szp tframe_inv [OF f inv] o] obtain P where
          q: "T3 = T2\<lparr>tpool := P\<rparr>" "converted (tpool T2) ?R q P" by blast
        have "converted (tpool T) ?R q P" by (rule kept_converted [OF tframe_kept [OF f inv] q(2)])
        from release_intermediate [OF E prev this] obtain P' where
          P': "pdp_packet_mark_unused E p P = Some P'" "converted P0 R q P'" by blast
        have "convert_body F E cm type d prog p T = F E cm type d (prog @ tl) q (T2\<lparr>tpool := P'\<rparr>)"
          using False \<open>r = Some tl\<close> m r o q(1) P'(1)
          by (simp add: convert_body_def Let_def pdp_conversion_program_add_def)
        with f tl P'(2) show thesis by (rule go)
      qed
    qed
  qed
qed

lemma register_cached_ok:
  assumes "tstate_ok T R" "prog \<noteq> []" "(src, dst) \<notin> conv_key ` set (cached_conversion_list T)"
    "pdp_type_register_cached_conversion src dst prog T = Some T'"
  shows "tstate_ok T' R" "tpool T' = tpool T" "conversion_list T' = conversion_list T"
proof -
  from register_cached_inv [of T src dst prog] assms have i: "ccache_inv T'" "tpool T' = tpool T"
    by (auto simp: tstate_ok_def)
  from assms(4) obtain l where l: "make_room (max_cache_size T) (cached_conversion_list T) = Some l"
    "T' = T\<lparr>cached_conversion_list := l @ [\<lparr>src_pattern = src, dst_pattern = dst, program = prog\<rparr>]\<rparr>"
    by (auto simp: pdp_type_register_cached_conversion_def bind_eq_Some_conv)
  from make_room_suffix [OF l(1)] have "set l \<subseteq> set (cached_conversion_list T)" by auto
  with assms(1,2) i l(2) show "tstate_ok T' R" by (auto simp: tstate_ok_def)
  show "tpool T' = tpool T" "conversion_list T' = conversion_list T" using l(2) by simp_all
qed

lemma tframe_ok: "tframe T T' \<Longrightarrow> tstate_ok T R \<Longrightarrow> tstate_ok T' R"
  by (auto simp: tstate_ok_def tframe_inv tframe_fields ccache_inv_def)

lemma tstate_ok_pool: "tstate_ok T R \<Longrightarrow> pool_inv P R' \<Longrightarrow> tstate_ok (T\<lparr>tpool := P\<rparr>) R'"
  by (simp add: tstate_ok_def ccache_inv_def)

lemma convert_loop_ok:
  assumes E: "methods_ok E" and cm: "conv_ok cm" and sz: "size R < 2 ^ 32 - 3"
    and res: "convert_loop E cm type d prog p T = Some (q, T')"
    and st: "tstate_ok T (with_ref p R)" "prog \<noteq> []" "(type, d) \<notin> conv_key ` set (cached_conversion_list T)"
    and prev: "converted P0 R p (tpool T)"
  shows "converted P0 R q (tpool T') \<and> tstate_ok T' (with_ref q R) \<and> conversion_list T' = conversion_list T \<and>
    (q = -1 \<or> types_match (pdp_packet_get_description q (tpool T')) d)"
  using res st prev E cm
proof (induction E cm type d prog p T "(q, T')" arbitrary: q T'
    rule: convert_loop.raw_induct [rotated 1, consumes 1, case_names step])
  case (step F E cm type d prog p T)
  have body: "convert_body F E cm type d prog p T = Some (q, T')"
    using step.hyps(2) by (simp only: convert_body_def)
  have reg: "\<forall>c \<in> set (conversion_list T). program c \<noteq> []" using step by (simp add: tstate_ok_def)
  note fields = tframe_fields
  have P3: "tstate_ok T (with_ref p R)" and P4: "prog \<noteq> []" and P6: "converted P0 R p (tpool T)"
    and P5: "(type, d) \<notin> conv_key ` set (cached_conversion_list T)"
    and E': "methods_ok E" and cm': "conv_ok cm" using step by blast+
  show ?case
  proof (cases rule: convert_round [OF E' cm' sz P6 reg, of d F type prog, case_names finish fail go stuck])
    case (finish T1)
    with body have q: "q = p" and r: "pdp_type_register_cached_conversion type d prog T1 = Some T'"
      by (auto simp: bind_eq_Some_conv)
    note f = fields [OF finish(2)] and R = register_cached_ok [OF tframe_ok [OF finish(2) P3] P4 _ r]
    have k: "(type, d) \<notin> conv_key ` set (cached_conversion_list T1)" using P5 f(2) by simp
    have "converted P0 R p (tpool T1)" using P6 tframe_inv [OF finish(2) converted_inv [OF P6]] f(4)
      by (auto simp: converted_def kept_def made_def pdp_packet_writable_def split: if_splits)
    with R [OF k] q f(1,6) finish(1) show ?thesis by (simp split: if_splits)
  next
    case (fail T1 P)
    with body have q: "q = -1" and T': "T' = T1\<lparr>tpool := P\<rparr>" by auto
    have "tstate_ok T' R"
      using tstate_ok_pool [OF tframe_ok [OF fail(1) P3] converted_inv [OF fail(2)]] by (simp add: T')
    with q T' fail(2) fields(1) [OF fail(1)] show ?thesis by simp
  next
    case (go T1 tl q' P)
    have F: "F E cm type d (prog @ tl) q' (T1\<lparr>tpool := P\<rparr>) = Some (q, T')" using body go(4) by simp
    have "tstate_ok (T1\<lparr>tpool := P\<rparr>) (with_ref q' R)"
      by (rule tstate_ok_pool [OF tframe_ok [OF go(1) P3] converted_inv [OF go(3)]])
    moreover have "(type, d) \<notin> conv_key ` set (cached_conversion_list (T1\<lparr>tpool := P\<rparr>))"
      using P5 fields(2) [OF go(1)] by simp
    moreover have "converted P0 R q' (tpool (T1\<lparr>tpool := P\<rparr>))" using go(3) by simp
    ultimately have "converted P0 R q (tpool T') \<and> tstate_ok T' (with_ref q R) \<and>
        conversion_list T' = conversion_list (T1\<lparr>tpool := P\<rparr>) \<and>
        (q = -1 \<or> types_match (pdp_packet_get_description q (tpool T')) d)"
      by (intro step.hyps(1) [OF F]) (use go(2) E' cm' in simp_all)
    then show ?thesis using fields(1) [OF go(1)] by simp
  qed (use body in simp)
qed

lemma convert_ok:
  assumes E: "methods_ok E" and cm: "conv_ok cm" and sz: "size R < 2 ^ 32 - 3" and st: "tstate_ok T R"
    and res: "pdp_packet_convert E cm p d T = Some (q, T')"
  shows "conversion T R q T'"
    and "(pdp_packet_get_description p (tpool T), d) \<notin> conv_key ` set (cached_conversion_list T) \<Longrightarrow>
      q = -1 \<or> types_match (pdp_packet_get_description q (tpool T')) d"
proof -
  let ?t = "pdp_packet_get_description p (tpool T)"
  obtain r1 T1 where c: "pdp_type_find_cached_conversion_program ?t d T = (r1, T1)" by fastforce
  note C = find_cached_inv [OF c]
  have inv: "pool_inv (tpool T) R" using st by (simp add: tstate_ok_def)
  have st1: "tstate_ok T1 R"
    using st ccache_inv_mset [of T T1] C(1-4) mset_eq_setD [OF C(1)] by (simp add: tstate_ok_def)
  obtain r2 T2 where f: "pdp_type_find_conversion_program ?t d T1 = (r2, T2)" by fastforce
  note F = find_conversion_ok [OF f] and fr = tframe_fields [OF find_conversion_ok(1) [OF f]]
  have st2: "tstate_ok T2 R" by (rule tframe_ok [OF F(1) st1])
  have inv1: "pool_inv (tpool T1) R" and inv2: "pool_inv (tpool T2) R"
    using st1 st2 by (simp_all add: tstate_ok_def)
  have sz2: "size R < 2 ^ 32 - 2" using sz by linarith
  have k2: "kept (tpool T) R (tpool T2)" using tframe_kept [OF F(1)] st1 C(2) by (simp add: tstate_ok_def)
  have hit: "conversion T R q T'" if "r1 = Some prog" for prog
  proof -
    have o: "on_pool (pdp_type_run_conversion_program E cm prog p d) T1 = Some (q, T')"
      using res that c by (simp add: pdp_packet_convert_def)
    from run_on_pool [OF E cm sz2 inv1 this] obtain P where P: "T' = T1\<lparr>tpool := P\<rparr>" "converted (tpool T1) R q P" by blast
    with C(2,3) tstate_ok_pool [OF st1 converted_inv [OF P(2)]] show ?thesis by (simp add: conversion_def)
  qed
  have miss: "conversion T R q T' \<and> (q = -1 \<or> types_match (pdp_packet_get_description q (tpool T')) d)"
    if r1: "r1 = None"
  proof (cases r2)
    case None
    with r1 res c f have "q = -1" "T' = T2" by (simp_all add: pdp_packet_convert_def)
    with k2 st2 fr(1) C(3) show ?thesis by (simp add: conversion_def converted_def)
  next
    case (Some prog)
    from F(2) [OF Some] st1 have ne: "prog \<noteq> []" by (auto simp: tstate_ok_def)
    from r1 res c f Some obtain q1 T3 where o3: "on_pool (pdp_type_run_conversion_program E cm prog p d) T2 = Some (q1, T3)"
      by (auto simp: pdp_packet_convert_def bind_eq_Some_conv)
    from run_on_pool [OF E cm sz2 inv2 o3] obtain P where
      o: "on_pool (pdp_type_run_conversion_program E cm prog p d) T2 = Some (q1, T2\<lparr>tpool := P\<rparr>)"
        "converted (tpool T2) R q1 P" using o3 by blast
    with r1 res c f Some have l: "convert_loop E cm ?t d prog q1 (T2\<lparr>tpool := P\<rparr>) = Some (q, T')"
      by (simp add: pdp_packet_convert_def)
    have key: "(?t, d) \<notin> conv_key ` set (cached_conversion_list (T2\<lparr>tpool := P\<rparr>))"
      using C(5) r1 fr(2) mset_eq_setD [OF C(1)] by simp
    have "converted (tpool T) R q1 (tpool (T2\<lparr>tpool := P\<rparr>))" using kept_converted [OF k2 o(2)] by simp
    from convert_loop_ok [OF E cm sz l tstate_ok_pool [OF st2 converted_inv [OF o(2)]] ne key this] fr(1) C(3)
    show ?thesis by (simp add: conversion_def)
  qed
  show "conversion T R q T'" using hit miss by (cases r1) auto
  show "q = -1 \<or> types_match (pdp_packet_get_description q (tpool T')) d"
    if "(?t, d) \<notin> conv_key ` set (cached_conversion_list T)" using miss C(5) that by simp
qed

section \<open>Properties\<close>

text \<open>A conversion method that makes a packet of the requested type, for the witnesses.\<close>

definition make_conv :: conv_method where
  "make_conv m p d P =
     do { (q, P) \<leftarrow> pdp_packet_new plain_methods 1 16 P; Some (q, described q d P) }"

lemma described_made:
  assumes "made P R q P1"
  shows "made P R q (described q d P1)" "\<exists>h. pdp_packet_header q (described q d P1) = Some h \<and> desc h = Some d"
proof -
  from assms obtain h where h: "pdp_packet_header q P1 = Some h" "users h = 1"
    by (auto simp: made_def pdp_packet_writable_def split: option.splits)
  let ?g = "h\<lparr>desc := Some d\<rparr>"
  have e: "described q d P1 = set_packet q (Some ?g) P1" using h by (simp add: described_def)
  have "pool_inv (set_packet q (Some ?g) P1) (add_mset q R)"
    by (rule write_ok [OF made_inv [OF assms] _ h(1)]) simp_all
  moreover have H: "pdp_packet_header x (set_packet q (Some ?g) P1) = (if x = q then Some ?g else pdp_packet_header x P1)" for x
    using header_valid [OF h(1)] by (simp add: header_set_packet)
  ultimately show "made P R q (described q d P1)"
    using assms h(2) unfolding e by (auto simp: made_def pdp_packet_writable_def)
  show "\<exists>h. pdp_packet_header q (described q d P1) = Some h \<and> desc h = Some d" unfolding e by (simp add: H)
qed

lemma make_conv_ok: "conv_ok make_conv"
  unfolding conv_ok_def
proof (intro allI impI)
  fix m p d P R q P' assume a: "pool_inv P R" "size R < 2 ^ 32 - 1" "make_conv m p d P = Some (q, P')"
  then obtain P1 where n: "pdp_packet_new plain_methods 1 16 P = Some (q, P1)" "P' = described q d P1"
    by (auto simp: make_conv_def bind_eq_Some_conv)
  note ok = new_ok [OF a(1,2) n(1)]
  show "converted P R q P'"
  proof (cases "q = -1")
    case True
    then have "P' = P1" using n(2) by (simp add: described_def pdp_packet_header_def)
    with True ok show ?thesis by (simp add: converted_def)
  next
    case False
    with ok have "made P R q P1" by simp
    from described_made [OF this, of d] n(2) False show ?thesis by (auto simp: converted_def)
  qed
qed

definition conv_state :: tstate where
  "conv_state = \<lparr>tpool = one_packet_pool,
     conversion_list = [\<lparr>src_pattern = ''image/*/*'', dst_pattern = ''bitmap/*/*'', program = [0]\<rparr>],
     cached_conversion_list = [], max_cache_size = INIT_MAX_CACHE_SIZE\<rparr>"

lemma conv_state_ok: "tstate_ok conv_state {#0#}"
  using preach_inv [OF one_packet_reach plain_methods_ok]
  by (simp add: tstate_ok_def conv_state_def ccache_inv_def INIT_MAX_CACHE_SIZE_def)

text \<open>
  C4: a conversion that returns leaves the references right: the source packet and everything else
  that is held is untouched, all intermediate packets have been released, the result, if any, is a
  new writable packet with one reference; the program cache stays within its limit, without
  duplicates. When the pair of types was not cached, the result is \<open>-1\<close> or fits the template.
\<close>

theorem convert_keeps_references:
  assumes "methods_ok E" "conv_ok cm" "size R < 2 ^ 32 - 3" "tstate_ok T R"
    and "pdp_packet_convert E cm p d T = Some (q, T')"
  shows "conversion T R q T' \<and>
    ((pdp_packet_get_description p (tpool T), d) \<notin> conv_key ` set (cached_conversion_list T) \<longrightarrow>
      q = -1 \<or> types_match (pdp_packet_get_description q (tpool T')) d)"
  using convert_ok [OF assms] by blast

theorem convert_keeps_references_witness:
  "\<exists>q T'. pdp_packet_convert plain_methods make_conv 0 ''bitmap/grey/8x8'' conv_state = Some (q, T') \<and>
     conversion conv_state {#0#} q T' \<and> q \<noteq> -1 \<and> types_match (pdp_packet_get_description q (tpool T')) ''bitmap/grey/8x8''"
proof -
  have sz: "size {#0 :: int#} < 2 ^ 32 - 3" by simp
  have "map_option fst (pdp_packet_convert plain_methods make_conv 0 ''bitmap/grey/8x8'' conv_state) = Some 1" by code_simp
  then obtain T' where r: "pdp_packet_convert plain_methods make_conv 0 ''bitmap/grey/8x8'' conv_state = Some (1, T')" by auto
  have "cached_conversion_list conv_state = []" by (simp add: conv_state_def)
  with convert_keeps_references [OF plain_methods_ok make_conv_ok sz conv_state_ok r] r show ?thesis by auto
qed

text \<open>
  a program registered in the cache is found again under its pair of types, and registering keeps
  the cache within its limit and without duplicates by dropping entries from the front only.
\<close>

theorem cached_program_found:
  assumes "ccache_inv T" "(src, dst) \<notin> conv_key ` set (cached_conversion_list T)"
  shows "\<exists>T'. pdp_type_register_cached_conversion src dst prog T = Some T' \<and> ccache_inv T' \<and>
    fst (pdp_type_find_cached_conversion_program src dst T') = Some prog \<and>
    (\<exists>k. butlast (cached_conversion_list T') = drop k (cached_conversion_list T))"
proof -
  from register_cached_inv [OF assms, of prog] obtain T' where
    T': "pdp_type_register_cached_conversion src dst prog T = Some T'" "ccache_inv T'" by blast
  from T'(1) obtain l where l: "make_room (max_cache_size T) (cached_conversion_list T) = Some l"
    "cached_conversion_list T' = l @ [\<lparr>src_pattern = src, dst_pattern = dst, program = prog\<rparr>]"
    by (auto simp: pdp_type_register_cached_conversion_def bind_eq_Some_conv)
  from make_room_suffix [OF l(1)] obtain us where us: "cached_conversion_list T = us @ l" by blast
  then have dr: "butlast (cached_conversion_list T') = drop (length us) (cached_conversion_list T)" by (simp add: l(2))
  obtain r T2 where c: "pdp_type_find_cached_conversion_program src dst T' = (r, T2)" by fastforce
  note C = find_cached_inv [OF c]
  have "r \<noteq> None" using C(5) l(2) by (auto simp: conv_key_def)
  then obtain p where p: "r = Some p" by blast
  from C(6) [OF p] obtain c' where c': "c' \<in> set (cached_conversion_list T')" "conv_key c' = (src, dst)" "program c' = p" by blast
  have "c' \<notin> set l" using c'(2) assms(2) us by (force simp: image_iff)
  then have "p = prog" using c'(1,3) l(2) by auto
  with T' dr c p show ?thesis by auto
qed

theorem cached_program_found_witness:
  "\<exists>T'. pdp_type_register_cached_conversion ''image/grey/8x8'' ''bitmap/*/*'' [0] conv_state = Some T' \<and>
     fst (pdp_type_find_cached_conversion_program ''image/grey/8x8'' ''bitmap/*/*'' T') = Some [0]"
proof -
  have "ccache_inv conv_state" using conv_state_ok by (simp add: tstate_ok_def)
  from cached_program_found [OF this, of "''image/grey/8x8''" "''bitmap/*/*''" "[0]"] show ?thesis
    by (auto simp: conv_state_def)
qed

text \<open>
  a hit in the cache exchanges the entry with the last one instead of moving it to the back: the
  entry used just before is then the first in line to be dropped, although older ones are there.
\<close>

theorem cache_hit_demotes_most_recent:
  assumes "cached_conversion_list T = c # cs @ [z]" "conv_key c = (src, dst)"
  shows "pdp_type_find_cached_conversion_program src dst T =
    (Some (program c), T\<lparr>cached_conversion_list := z # cs @ [c]\<rparr>)"
  using assms by (simp add: pdp_type_find_cached_conversion_program_def Let_def)

theorem cache_hit_demotes_most_recent_witness:
  "cached_conversion_list (snd (pdp_type_find_cached_conversion_program ''a'' ''x''
     (conv_state\<lparr>cached_conversion_list :=
        [\<lparr>src_pattern = ''a'', dst_pattern = ''x'', program = [1]\<rparr>,
         \<lparr>src_pattern = ''b'', dst_pattern = ''x'', program = [2]\<rparr>,
         \<lparr>src_pattern = ''c'', dst_pattern = ''x'', program = [3]\<rparr>]\<rparr>))) =
   [\<lparr>src_pattern = ''c'', dst_pattern = ''x'', program = [3]\<rparr>,
    \<lparr>src_pattern = ''b'', dst_pattern = ''x'', program = [2]\<rparr>,
    \<lparr>src_pattern = ''a'', dst_pattern = ''x'', program = [1]\<rparr>]"
  by (subst cache_hit_demotes_most_recent [of _ "\<lparr>src_pattern = ''a'', dst_pattern = ''x'', program = [1]\<rparr>"
        "[\<lparr>src_pattern = ''b'', dst_pattern = ''x'', program = [2]\<rparr>]"
        "\<lparr>src_pattern = ''c'', dst_pattern = ''x'', program = [3]\<rparr>"])
    (simp_all add: conv_key_def)

end
