(* ===== verification/CText.thy ===== *)
theory CText
  imports Prelude
begin

text \<open>
  The text forms of numbers the program uses: \<open>%d\<close> and \<open>%f\<close> of the printing functions, \<open>strtol\<close> with base 0
  and \<open>strtod\<close>. Strings are character lists without the terminating zero; the scanning functions return the
  value and what is left of the string. A \<open>float\<close> is a sign, a mantissa and a binary exponent.
\<close>

section \<open>Decimal numbers\<close>

fun nat_str :: "nat \<Rightarrow> string" where
  "nat_str n = (if n < 10 then [char_of (48 + n)] else nat_str (n div 10) @ [char_of (48 + n mod 10)])"

declare nat_str.simps [simp del]

text \<open>\<open>%d\<close> of \<open>sprintf\<close> on an \<open>unsigned int\<close> argument.\<close>

definition fmt_d :: "u32 \<Rightarrow> string" where
  "fmt_d w = (if sint w < 0 then CHR ''-'' # nat_str (nat (- sint w)) else nat_str (nat (sint w)))"

definition is_digit :: "char \<Rightarrow> bool" where
  "is_digit c \<longleftrightarrow> 48 \<le> (of_char c :: nat) \<and> (of_char c :: nat) \<le> 57"

definition is_space :: "char \<Rightarrow> bool" where
  "is_space c \<longleftrightarrow> (of_char c :: nat) \<in> {32, 9, 10, 11, 12, 13}"

definition digits_value :: "string \<Rightarrow> nat" where
  "digits_value ds = foldl (\<lambda>v c. 10 * v + (of_char c - 48)) 0 ds"

lemma nat_str_digits: "\<forall>c \<in> set (nat_str n). is_digit c"
proof (induction n rule: nat_str.induct)
  case (1 n)
  have "n mod 10 \<le> 9" by linarith
  with 1 show ?case by (subst nat_str.simps) (simp add: is_digit_def of_char_of)
qed

lemma nat_str_nonempty [simp]: "nat_str n \<noteq> []"
  by (subst nat_str.simps) simp

lemma digits_value_snoc: "digits_value (ds @ [c]) = 10 * digits_value ds + (of_char c - 48)"
  by (simp add: digits_value_def)

lemma digits_value_nat_str: "digits_value (nat_str n) = n"
proof (induction n rule: nat_str.induct)
  case (1 n)
  show ?case
  proof (cases "n < 10")
    case True
    then show ?thesis by (subst nat_str.simps) (simp add: digits_value_def of_char_of)
  next
    case False
    then show ?thesis using 1 by (subst nat_str.simps) (simp add: digits_value_snoc of_char_of)
  qed
qed

lemma digit_kinds: "is_digit c \<Longrightarrow> \<not> is_space c \<and> c \<noteq> CHR ''-'' \<and> c \<noteq> CHR ''+'' \<and> c \<noteq> CHR ''/'' \<and> c \<noteq> CHR ''x''"
  by (auto simp: is_digit_def is_space_def)

section \<open>strtol\<close>

definition digit_val :: "char \<Rightarrow> nat option" where
  "digit_val c =
     (let n = of_char c
      in if 48 \<le> n \<and> n \<le> 57 then Some (n - 48)
         else if 97 \<le> n \<and> n \<le> 122 then Some (n - 87)
         else if 65 \<le> n \<and> n \<le> 90 then Some (n - 55)
         else None)"

definition base_digit :: "nat \<Rightarrow> char \<Rightarrow> bool" where
  "base_digit b c = (case digit_val c of Some d \<Rightarrow> d < b | None \<Rightarrow> False)"

definition base_value :: "nat \<Rightarrow> string \<Rightarrow> int" where
  "base_value b ds = foldl (\<lambda>v c. int b * v + int (the (digit_val c))) 0 ds"

definition signed_rest :: "string \<Rightarrow> bool \<times> string" where
  "signed_rest s =
     (let s = dropWhile is_space s
      in case s of c # r \<Rightarrow> if c = CHR ''-'' then (True, r) else if c = CHR ''+'' then (False, r) else (False, s)
                 | [] \<Rightarrow> (False, s))"

text \<open>Whether a string starts with \<open>0x\<close>.\<close>

definition hex_prefix :: "string \<Rightarrow> bool" where
  "hex_prefix s = (case s of a # b # r \<Rightarrow> a = CHR ''0'' \<and> (b = CHR ''x'' \<or> b = CHR ''X'') | _ \<Rightarrow> False)"

definition starts :: "(char \<Rightarrow> bool) \<Rightarrow> string \<Rightarrow> bool" where
  "starts p s = (case s of c # r \<Rightarrow> p c | [] \<Rightarrow> False)"

text \<open>The value saturates as a \<open>long\<close>; without digits nothing is consumed.\<close>

definition strtol0 :: "string \<Rightarrow> int \<times> string" where
  "strtol0 s =
     (let (neg, s2) = signed_rest s;
          hex = hex_prefix s2 \<and> starts (base_digit 16) (drop 2 s2);
          b = (if hex then 16 else if starts (\<lambda>c. c = CHR ''0'') s2 then 8 else 10);
          s3 = (if hex then drop 2 s2 else s2);
          ds = takeWhile (base_digit b) s3;
          v = (if neg then - base_value b ds else base_value b ds)
      in if ds = [] then (0, s)
         else (max (- (2 ^ 63)) (min (2 ^ 63 - 1) v), dropWhile (base_digit b) s3))"

section \<open>float\<close>

datatype c_float = Finite bool int int | Infinite bool

function bit_len :: "int \<Rightarrow> int" where
  "bit_len n = (if n \<le> 0 then 0 else 1 + bit_len (n div 2))"
  by pat_completeness auto

termination bit_len
  by (relation "measure nat") auto

declare bit_len.simps [simp del]

text \<open>\<open>m * 2^q\<close> as a quotient, the exponent of the leading bit of \<open>a / b\<close>, and rounding half to even.\<close>

definition scaled :: "int \<Rightarrow> int \<Rightarrow> int \<Rightarrow> int \<times> int" where
  "scaled a b q = (if 0 \<le> q then (a * 2 ^ nat q, b) else (a, b * 2 ^ nat (- q)))"

definition lead :: "int \<Rightarrow> int \<Rightarrow> int" where
  "lead a b =
     (let e = bit_len a - bit_len b; (x, y) = scaled a b (- e)
      in if y \<le> x then e else e - 1)"

definition round_even :: "int \<Rightarrow> int \<Rightarrow> int" where
  "round_even a b =
     (let f = a div b; r = a mod b
      in if 2 * r < b then f else if b < 2 * r then f + 1 else if even f then f else f + 1)"

text \<open>Rounding of the quotient \<open>a / b\<close> to \<open>p\<close> bits, least exponent \<open>qmin\<close>, values below \<open>2^emax\<close>.\<close>

definition round_float :: "nat \<Rightarrow> int \<Rightarrow> int \<Rightarrow> bool \<Rightarrow> int \<Rightarrow> int \<Rightarrow> c_float" where
  "round_float p qmin emax neg a b =
     (if a = 0 then Finite neg 0 0
      else let q = max (lead a b - int p + 1) qmin;
               (x, y) = scaled a b (- q);
               m = round_even x y;
               (m, q) = (if m = 2 ^ p then (m div 2, q + 1) else (m, q))
           in if emax < q + int p then Infinite neg else Finite neg m q)"

text \<open>A \<open>double\<close>, and its conversion to \<open>float\<close>.\<close>

definition to_double :: "bool \<Rightarrow> int \<Rightarrow> int \<Rightarrow> c_float" where
  "to_double neg a b = round_float 53 (-1074) 1024 neg a b"

definition double_to_float :: "c_float \<Rightarrow> c_float" where
  "double_to_float d =
     (case d of Infinite neg \<Rightarrow> Infinite neg
              | Finite neg m q \<Rightarrow> (let (x, y) = scaled m 1 q in round_float 24 (-149) 128 neg x y))"

text \<open>
  \<open>strtod\<close> on a string that contains a decimal point: decimal and hexadecimal numbers. The names of infinities
  and of values that are no number have no point and are left out: they are never the whole of such a string.
\<close>

definition strtod :: "string \<Rightarrow> c_float \<times> string" where
  "strtod s =
     (let (neg, s2) = signed_rest s;
          hex = hex_prefix s2 \<and> (starts (base_digit 16) (drop 2 s2) \<or>
                  starts (\<lambda>c. c = CHR ''.'') (drop 2 s2) \<and> starts (base_digit 16) (drop 3 s2));
          b = (if hex then 16 else 10);
          s3 = (if hex then drop 2 s2 else s2);
          ip = takeWhile (base_digit b) s3;
          s4 = dropWhile (base_digit b) s3;
          pt = starts (\<lambda>c. c = CHR ''.'') s4;
          fp = (if pt then takeWhile (base_digit b) (drop 1 s4) else []);
          s5 = (if pt then dropWhile (base_digit b) (drop 1 s4) else s4);
          ex = starts (\<lambda>c. if hex then c = CHR ''p'' \<or> c = CHR ''P'' else c = CHR ''e'' \<or> c = CHR ''E'') s5;
          eneg = starts (\<lambda>c. c = CHR ''-'') (drop 1 s5);
          s6 = (if eneg \<or> starts (\<lambda>c. c = CHR ''+'') (drop 1 s5) then drop 2 s5 else drop 1 s5);
          es = (if ex then takeWhile is_digit s6 else []);
          e = (if eneg then - int (digits_value es) else int (digits_value es));
          m = base_value b (ip @ fp);
          d = int b ^ length fp;
          x = (if hex then 2 else 10)
      in if ip @ fp = [] then (Finite False 0 0, s)
         else (if 0 \<le> e then to_double neg (m * x ^ nat e) d else to_double neg m (d * x ^ nat (- e)),
               if es = [] then s5 else dropWhile is_digit s6))"

text \<open>\<open>%f\<close>: six digits behind the point.\<close>

definition fmt_f :: "c_float \<Rightarrow> string" where
  "fmt_f x =
     (case x of
        Infinite neg \<Rightarrow> (if neg then ''-inf'' else ''inf'')
      | Finite neg m q \<Rightarrow>
          (let (a, b) = scaled m 1 q; k = round_even (a * 10 ^ 6) b; ds = nat_str (nat (k mod 10 ^ 6))
           in (if neg then ''-'' else []) @ nat_str (nat (k div 10 ^ 6)) @ ''.'' @ replicate (6 - length ds) (CHR ''0'') @ ds))"

end
