(* ===== verification/Image.thy ===== *)
theory Image
  imports Resample TypeConv CText
begin

text \<open>
  Image packets (\<^verbatim>\<open>system/type/pdp_image.c\<close>): constructors, checks, descriptions, conversions between the
  encodings, the factory and the set-up that registers them; the packet check of
  \<^verbatim>\<open>system/image/pdp_imageproc_common.c\<close>.

  The data of a packet are bytes; \<open>pixels\<close> reads them as little endian 16-bit pixels. The static
  \<open>image_class\<close> is the argument \<open>ic\<close>, the address of the class, and the methods \<open>E\<close> give the content of fresh
  memory. The number of a conversion method is its position in \<open>pdp_image_setup\<close>. \<open>None\<close> is an access
  outside a buffer, a \<open>NULL\<close> dereference or a division by zero.
\<close>

section \<open>Pixels of packets\<close>

definition PDP_IMAGE :: u32 where
  "PDP_IMAGE = 1"

definition PDP_IMAGE_YV12 :: u32 where
  "PDP_IMAGE_YV12 = 1"

definition PDP_IMAGE_GREY :: u32 where
  "PDP_IMAGE_GREY = 2"

definition PDP_IMAGE_MCHP :: u32 where
  "PDP_IMAGE_MCHP = 4"

fun pixels :: "u8 list \<Rightarrow> plane" where
  "pixels (lo # hi # bs) = (ucast lo OR push_bit 8 (ucast hi)) # pixels bs"
| "pixels bs = []"

fun pixel_bytes :: "plane \<Rightarrow> u8 list" where
  "pixel_bytes [] = []"
| "pixel_bytes (p # ps) = ucast p # ucast (drop_bit 8 p) # pixel_bytes ps"

definition set_pixels :: "plane \<Rightarrow> u8 list \<Rightarrow> u8 list" where
  "set_pixels ps bs = pixel_bytes ps @ drop (2 * length ps) bs"

text \<open>The subheader seen as an image; the fields of a bitmap are laid out in the same order.\<close>

fun image_of :: "t_info \<Rightarrow> t_image" where
  "image_of NoInfo = \<lparr>i_encoding = 0, i_width = 0, i_height = 0, i_depth = 0, i_chanmask = 0\<rparr>"
| "image_of (Image im) = im"
| "image_of (Bitmap b) =
     \<lparr>i_encoding = b_encoding b, i_width = b_width b, i_height = b_height b, i_depth = b_bpp b, i_chanmask = 0\<rparr>"

definition pdp_packet_image_info :: "int \<Rightarrow> pool \<Rightarrow> t_image option" where
  "pdp_packet_image_info packet P = map_option image_of (pdp_packet_subheader packet P)"

text \<open>A routine that works on the bytes or the pixels of a packet from the position \<open>off\<close> on.\<close>

definition on_bytes :: "int \<Rightarrow> int \<Rightarrow> (u8 list \<Rightarrow> u8 list option) \<Rightarrow> pool \<Rightarrow> pool option" where
  "on_bytes packet off f P =
     do { header \<leftarrow> pdp_packet_header packet P;
          if off < 0 then None
          else do { b \<leftarrow> f (drop (nat off) (pdata header));
                    Some (set_packet packet (Some (header\<lparr>pdata := take (nat off) (pdata header) @ b\<rparr>)) P) } }"

definition on_pixels :: "int \<Rightarrow> int \<Rightarrow> (plane \<Rightarrow> plane option) \<Rightarrow> pool \<Rightarrow> pool option" where
  "on_pixels packet off f P =
     do { header \<leftarrow> pdp_packet_header packet P;
          let px = pixels (pdata header);
          if off < 0 then None
          else do { b \<leftarrow> f (drop (nat off) px);
                    Some (set_packet packet (Some (header\<lparr>pdata := set_pixels (take (nat off) px @ b) (pdata header)\<rparr>)) P) } }"

definition pixels_at :: "int \<Rightarrow> int \<Rightarrow> pool \<Rightarrow> plane option" where
  "pixels_at packet off P =
     do { bs \<leftarrow> pdp_packet_data packet P; if off < 0 then None else Some (drop (nat off) (pixels bs)) }"

text \<open>\<open>memcpy\<close> and \<open>memset\<close> of \<open>n\<close> bytes.\<close>

definition memcpy :: "int \<Rightarrow> u8 list \<Rightarrow> u8 list \<Rightarrow> u8 list option" where
  "memcpy n src dst =
     (if 0 \<le> n \<and> nat n \<le> length src \<and> nat n \<le> length dst then Some (take (nat n) src @ drop (nat n) dst) else None)"

definition memset :: "int \<Rightarrow> u8 \<Rightarrow> u8 list \<Rightarrow> u8 list option" where
  "memset n v dst = (if 0 \<le> n \<and> nat n \<le> length dst then Some (replicate (nat n) v @ drop (nat n) dst) else None)"

section \<open>Numbers in descriptions\<close>

text \<open>\<open>%d\<close> of \<open>sscanf\<close>: white space, a sign, digits; the value saturates as a \<open>long\<close> and is cut to an \<open>int\<close>.\<close>

definition scan_d :: "string \<Rightarrow> (int \<times> string) option" where
  "scan_d s =
     (let s = dropWhile is_space s;
          neg = (case s of c # r \<Rightarrow> c = CHR ''-'' | [] \<Rightarrow> False);
          s = (case s of c # r \<Rightarrow> if c = CHR ''-'' \<or> c = CHR ''+'' then r else s | [] \<Rightarrow> s);
          ds = takeWhile is_digit s;
          v = (if neg then - int (digits_value ds) else int (digits_value ds))
      in if ds = [] then None
         else Some (wrap32 (max (- (2 ^ 63)) (min (2 ^ 63 - 1) v)), dropWhile is_digit s))"

text \<open>\<open>sscanf\<close> with the format \<open>%dx%dx \<dots> %d\<close> of \<open>n\<close> numbers: the values that are assigned.\<close>

fun scan_dims :: "nat \<Rightarrow> string \<Rightarrow> int list" where
  "scan_dims 0 s = []"
| "scan_dims (Suc n) s =
     (case scan_d s of
        None \<Rightarrow> []
      | Some (v, r) \<Rightarrow> v # (case r of c # r \<Rightarrow> if c = CHR ''x'' then scan_dims n r else [] | [] \<Rightarrow> []))"

definition dim :: "nat \<Rightarrow> int list \<Rightarrow> int" where
  "dim i vs = (if i < length vs then vs ! i else 0)"

section \<open>Checks and descriptions\<close>

definition pdp_packet_image_isvalid :: "int \<Rightarrow> pool \<Rightarrow> bool" where
  "pdp_packet_image_isvalid packet P =
     (case pdp_packet_header packet P of
        None \<Rightarrow> False
      | Some header \<Rightarrow>
          PDP_IMAGE = ptype header \<and>
          (let im = image_of (info header)
           in PDP_IMAGE_YV12 = i_encoding im \<or> PDP_IMAGE_GREY = i_encoding im \<or> PDP_IMAGE_MCHP = i_encoding im))"

definition pdp_packet_compat :: "int \<Rightarrow> int \<Rightarrow> pool \<Rightarrow> bool" where
  "pdp_packet_compat packet0 packet1 P =
     (case (pdp_packet_header packet0 P, pdp_packet_header packet1 P) of
        (Some header0, Some header1) \<Rightarrow> ptype header0 = ptype header1
      | _ \<Rightarrow> False)"

definition pdp_packet_image_compat :: "int \<Rightarrow> int \<Rightarrow> pool \<Rightarrow> bool" where
  "pdp_packet_image_compat packet0 packet1 P =
     (pdp_packet_compat packet0 packet1 P \<and>
      (case (pdp_packet_header packet0 P, pdp_packet_header packet1 P) of
         (Some header0, Some header1) \<Rightarrow>
           ptype header0 = PDP_IMAGE \<and>
           i_encoding (image_of (info header0)) = i_encoding (image_of (info header1)) \<and>
           i_width (image_of (info header0)) = i_width (image_of (info header1)) \<and>
           i_height (image_of (info header0)) = i_height (image_of (info header1))
       | _ \<Rightarrow> False))"

text \<open>A write to a field of the image subheader.\<close>

definition set_image :: "int \<Rightarrow> (t_image \<Rightarrow> t_image) \<Rightarrow> pool \<Rightarrow> pool" where
  "set_image packet f P =
     (case pdp_packet_header packet P of
        None \<Rightarrow> P
      | Some header \<Rightarrow> set_packet packet (Some (header\<lparr>info := Image (f (image_of (info header)))\<rparr>)) P)"

definition pdp_packet_image_set_chanmask :: "int \<Rightarrow> u32 \<Rightarrow> pool \<Rightarrow> pool" where
  "pdp_packet_image_set_chanmask packet chanmask P =
     (if pdp_packet_image_isvalid packet P then set_image packet (\<lambda>im. im\<lparr>i_chanmask := chanmask\<rparr>) P else P)"

definition pdp_packet_image_get_description :: "int \<Rightarrow> pool \<Rightarrow> symbol" where
  "pdp_packet_image_get_description packet P =
     (case pdp_packet_header packet P of
        None \<Rightarrow> ''invalid''
      | Some header \<Rightarrow>
          (case desc header of
             Some d \<Rightarrow> d
           | None \<Rightarrow>
               if ptype header = PDP_IMAGE
               then (let im = image_of (info header); c = ''image''; encoding = i_encoding im in
                     if encoding = PDP_IMAGE_YV12
                     then c @ ''/YCrCb'' @ ''/'' @ fmt_d (i_width im) @ ''x'' @ fmt_d (i_height im)
                     else if encoding = PDP_IMAGE_GREY
                     then c @ ''/grey'' @ ''/'' @ fmt_d (i_width im) @ ''x'' @ fmt_d (i_height im)
                     else if encoding = PDP_IMAGE_MCHP
                     then c @ ''/multi'' @ ''/'' @ fmt_d (i_width im) @ ''x'' @ fmt_d (i_height im) @ ''x'' @ fmt_d (i_depth im)
                     else c @ ''/unknown'')
               else ''unknown''))"

section \<open>Constructors\<close>

text \<open>The part the constructors share: a new packet, its subheader, description and class.\<close>

definition new_image_packet :: "methods \<Rightarrow> nat option \<Rightarrow> u32 \<Rightarrow> (t_image \<Rightarrow> t_image) \<Rightarrow> pool \<Rightarrow> (int \<times> pool) option" where
  "new_image_packet E ic packet_size setinfo P =
     do { (packet, P) \<leftarrow> pdp_packet_new E PDP_IMAGE packet_size P;
          case pdp_packet_header packet P of
            None \<Rightarrow> Some (-1, P)
          | Some header \<Rightarrow>
              (let P = set_image packet setinfo P;
                   d = pdp_packet_image_get_description packet P
               in do { header \<leftarrow> pdp_packet_header packet P;
                       Some (packet, set_packet packet (Some (header\<lparr>desc := Some d, theclass := ic\<rparr>)) P) }) }"

definition pdp_packet_new_image_YCrCb :: "methods \<Rightarrow> nat option \<Rightarrow> u32 \<Rightarrow> u32 \<Rightarrow> pool \<Rightarrow> (int \<times> pool) option" where
  "pdp_packet_new_image_YCrCb E ic w h P =
     (let size = w * h;
          totalnbpixels = size + drop_bit 1 size;
          packet_size = push_bit 1 totalnbpixels
      in new_image_packet E ic packet_size
           (\<lambda>im. im\<lparr>i_encoding := PDP_IMAGE_YV12, i_width := w, i_height := h\<rparr>) P)"

definition pdp_packet_new_image_grey :: "methods \<Rightarrow> nat option \<Rightarrow> u32 \<Rightarrow> u32 \<Rightarrow> pool \<Rightarrow> (int \<times> pool) option" where
  "pdp_packet_new_image_grey E ic w h P =
     (let size = w * h;
          totalnbpixels = size;
          packet_size = push_bit 1 totalnbpixels
      in new_image_packet E ic packet_size
           (\<lambda>im. im\<lparr>i_encoding := PDP_IMAGE_GREY, i_width := w, i_height := h\<rparr>) P)"

definition pdp_packet_new_image_mchp :: "methods \<Rightarrow> nat option \<Rightarrow> u32 \<Rightarrow> u32 \<Rightarrow> u32 \<Rightarrow> pool \<Rightarrow> (int \<times> pool) option" where
  "pdp_packet_new_image_mchp E ic w h d P =
     (let size = w * h * d;
          totalnbpixels = size;
          packet_size = push_bit 1 totalnbpixels
      in new_image_packet E ic packet_size
           (\<lambda>im. im\<lparr>i_encoding := PDP_IMAGE_MCHP, i_width := w, i_height := h, i_depth := d\<rparr>) P)"

definition pdp_packet_new_image :: "methods \<Rightarrow> nat option \<Rightarrow> u32 \<Rightarrow> u32 \<Rightarrow> u32 \<Rightarrow> pool \<Rightarrow> (int \<times> pool) option" where
  "pdp_packet_new_image E ic type w h P =
     (if type = PDP_IMAGE_YV12 then pdp_packet_new_image_YCrCb E ic w h P
      else if type = PDP_IMAGE_GREY then pdp_packet_new_image_grey E ic w h P
      else Some (-1, P))"

section \<open>Conversions\<close>

text \<open>A conversion of \<open>packet\<close>; \<open>dest_template\<close> is only used by the resampling ones.\<close>

definition image_convert_YCrCb_to_grey :: "methods \<Rightarrow> nat option \<Rightarrow> int \<Rightarrow> symbol \<Rightarrow> pool \<Rightarrow> (int \<times> pool) option" where
  "image_convert_YCrCb_to_grey E ic packet dest_template P =
     do { im \<leftarrow> pdp_packet_image_info packet P;
          let w = sint (i_width im);
          let h = sint (i_height im);
          (p, P) \<leftarrow> pdp_packet_new_image_grey E ic (word_of_int w) (word_of_int h) P;
          if p = -1 then Some (p, P)
          else do { src \<leftarrow> pdp_packet_data packet P;
                    P \<leftarrow> on_bytes p 0 (memcpy (wrap32 (wrap32 (2 * w) * h)) src) P;
                    Some (p, P) } }"

definition image_convert_grey_to_YCrCb :: "methods \<Rightarrow> nat option \<Rightarrow> int \<Rightarrow> symbol \<Rightarrow> pool \<Rightarrow> (int \<times> pool) option" where
  "image_convert_grey_to_YCrCb E ic packet dest_template P =
     do { im \<leftarrow> pdp_packet_image_info packet P;
          let w = sint (i_width im);
          let h = sint (i_height im);
          (p, P) \<leftarrow> pdp_packet_new_image_YCrCb E ic (word_of_int w) (word_of_int h) P;
          let y_bytes = wrap32 (wrap32 (2 * w) * h);
          if p = -1 then Some (p, P)
          else do { src \<leftarrow> pdp_packet_data packet P;
                    P \<leftarrow> on_bytes p 0 (memcpy y_bytes src) P;
                    P \<leftarrow> on_bytes p y_bytes (memset (asr y_bytes 1) 0) P;
                    Some (p, P) } }"

definition image_convert_grey_to_multi :: "methods \<Rightarrow> nat option \<Rightarrow> int \<Rightarrow> symbol \<Rightarrow> pool \<Rightarrow> (int \<times> pool) option" where
  "image_convert_grey_to_multi E ic packet dest_template P =
     do { im \<leftarrow> pdp_packet_image_info packet P;
          let w = sint (i_width im);
          let h = sint (i_height im);
          (p, P) \<leftarrow> pdp_packet_new_image_mchp E ic (word_of_int w) (word_of_int h) 1 P;
          let y_bytes = wrap32 (wrap32 (2 * w) * h);
          if p = -1 then Some (p, P)
          else do { src \<leftarrow> pdp_packet_data packet P;
                    P \<leftarrow> on_bytes p 0 (memcpy y_bytes src) P;
                    Some (p, P) } }"

definition image_convert_multi_to_YCrCb :: "methods \<Rightarrow> nat option \<Rightarrow> int \<Rightarrow> symbol \<Rightarrow> pool \<Rightarrow> (int \<times> pool) option" where
  "image_convert_multi_to_YCrCb E ic packet dest_template P =
     do { im \<leftarrow> pdp_packet_image_info packet P;
          let w = sint (i_width im);
          let h = sint (i_height im);
          let d = sint (i_depth im);
          let plane_size = wrap32 (w * h);
          (newpacket, P) \<leftarrow> pdp_packet_new_image_YCrCb E ic (word_of_int w) (word_of_int h) P;
          if newpacket = -1 then Some (-1, P)
          else do { src \<leftarrow> pdp_packet_data packet P;
                    P \<leftarrow> on_bytes newpacket 0 (memcpy (wrap32 (plane_size * 2)) src) P;
                    data \<leftarrow> pixels_at packet plane_size P;
                    P \<leftarrow> (if d \<ge> 1 then on_pixels newpacket plane_size (\<lambda>new. pdp_resample_halve data new w h) P
                          else on_bytes newpacket (2 * plane_size) (memset (asr plane_size 1) 0) P);
                    data \<leftarrow> pixels_at packet (plane_size + plane_size) P;
                    P \<leftarrow> (if d \<ge> 2
                          then on_pixels newpacket (plane_size + asr plane_size 2) (\<lambda>new. pdp_resample_halve data new w h) P
                          else on_bytes newpacket (2 * (plane_size + asr plane_size 2)) (memset (asr plane_size 1) 0) P);
                    Some (newpacket, P) } }"

definition image_convert_YCrCb_to_multi :: "methods \<Rightarrow> nat option \<Rightarrow> int \<Rightarrow> symbol \<Rightarrow> pool \<Rightarrow> (int \<times> pool) option" where
  "image_convert_YCrCb_to_multi E ic packet dest_template P =
     do { im \<leftarrow> pdp_packet_image_info packet P;
          let w = sint (i_width im);
          let h = sint (i_height im);
          let plane_size = wrap32 (w * h);
          (newpacket, P) \<leftarrow> pdp_packet_new_image_mchp E ic (word_of_int w) (word_of_int h) 3 P;
          if newpacket = -1 then Some (-1, P)
          else do { src \<leftarrow> pdp_packet_data packet P;
                    P \<leftarrow> on_bytes newpacket 0 (memcpy (wrap32 (plane_size * 2)) src) P;
                    let w = asr w 1;
                    let h = asr h 1;
                    data \<leftarrow> pixels_at packet plane_size P;
                    P \<leftarrow> on_pixels newpacket plane_size (\<lambda>new. pdp_resample_double data new w h) P;
                    data \<leftarrow> pixels_at packet (plane_size + asr plane_size 2) P;
                    P \<leftarrow> on_pixels newpacket (plane_size + plane_size) (\<lambda>new. pdp_resample_double data new w h) P;
                    Some (newpacket, P) } }"

text \<open>\<open>_pdp_description_get_dims\<close>: the loops run past two slashes, off the end when there are fewer.\<close>

fun past_slash :: "string \<Rightarrow> string option" where
  "past_slash [] = None"
| "past_slash (c # s) = (if c \<noteq> CHR ''/'' then past_slash s else Some s)"

definition pdp_description_get_dims :: "symbol \<Rightarrow> (int \<times> int \<times> int) option" where
  "pdp_description_get_dims template =
     do { c \<leftarrow> past_slash template;
          c \<leftarrow> past_slash c;
          let vs = scan_dims 3 c;
          Some (dim 0 vs, dim 1 vs, dim 2 vs) }"

text \<open>The variable \<open>quality\<close> is the constant 1, so that only the bilinear scaler is called.\<close>

definition image_convert_resample_YCrCb :: "methods \<Rightarrow> nat option \<Rightarrow> int \<Rightarrow> symbol \<Rightarrow> pool \<Rightarrow> (int \<times> pool) option" where
  "image_convert_resample_YCrCb E ic packet dest_template P =
     do { im \<leftarrow> pdp_packet_image_info packet P;
          let src_w = i_width im;
          let src_h = i_height im;
          (dst_w, dst_h, dummy) \<leftarrow> pdp_description_get_dims dest_template;
          (new_packet, P) \<leftarrow> pdp_packet_new_image_YCrCb E ic (word_of_int dst_w) (word_of_int dst_h) P;
          if new_packet = -1 then Some (-1, P)
          else do { let src_size = src_w * src_h;
                    let src_voffset = src_size;
                    let src_uoffset = src_size + drop_bit 2 src_size;
                    let dst_size = (word_of_int dst_w * word_of_int dst_h :: u32);
                    let dst_voffset = dst_size;
                    let dst_uoffset = dst_size + drop_bit 2 dst_size;
                    src \<leftarrow> pixels_at packet 0 P;
                    P \<leftarrow> on_pixels new_packet 0
                      (\<lambda>dst. pdp_resample_scale_bilin src dst (sint src_w) (sint src_h) dst_w dst_h) P;
                    src \<leftarrow> pixels_at packet (uint src_voffset) P;
                    P \<leftarrow> on_pixels new_packet (uint dst_voffset)
                      (\<lambda>dst. pdp_resample_scale_bilin src dst (sint (drop_bit 1 src_w)) (sint (drop_bit 1 src_h)) (asr dst_w 1) (asr dst_h 1)) P;
                    src \<leftarrow> pixels_at packet (uint src_uoffset) P;
                    P \<leftarrow> on_pixels new_packet (uint dst_uoffset)
                      (\<lambda>dst. pdp_resample_scale_bilin src dst (sint (drop_bit 1 src_w)) (sint (drop_bit 1 src_h)) (asr dst_w 1) (asr dst_h 1)) P;
                    Some (new_packet, P) } }"

text \<open>
  The loop \<open>while (depth--)\<close> runs \<open>depth\<close> rounds; from a negative depth it does not stop before a round
  leaves the buffers.
\<close>

definition resample_planes :: "int \<Rightarrow> int \<Rightarrow> u32 \<times> u32 \<Rightarrow> int \<times> int \<Rightarrow> int \<Rightarrow> pool \<Rightarrow> pool option" where
  "resample_planes packet new_packet src_wh dst_wh depth P =
     (if depth < 0 then None
      else for_loop 0 (nat depth) (\<lambda>i P.
        do { let src_size = fst src_wh * snd src_wh;
             let dst_size = (word_of_int (fst dst_wh) * word_of_int (snd dst_wh) :: u32);
             src \<leftarrow> pixels_at packet (int i * uint src_size) P;
             on_pixels new_packet (int i * uint dst_size)
               (\<lambda>dst. pdp_resample_scale_bilin src dst (sint (fst src_wh)) (sint (snd src_wh)) (fst dst_wh) (snd dst_wh)) P }) P)"

definition image_convert_resample_multi :: "methods \<Rightarrow> nat option \<Rightarrow> int \<Rightarrow> symbol \<Rightarrow> pool \<Rightarrow> (int \<times> pool) option" where
  "image_convert_resample_multi E ic packet dest_template P =
     do { im \<leftarrow> pdp_packet_image_info packet P;
          (dst_w, dst_h, depth) \<leftarrow> pdp_description_get_dims dest_template;
          (new_packet, P) \<leftarrow>
            (if depth = 0 then pdp_packet_new_image_grey E ic (word_of_int dst_w) (word_of_int dst_h) P
             else pdp_packet_new_image_mchp E ic (word_of_int dst_w) (word_of_int dst_h) (word_of_int depth) P);
          let depth = (if depth = 0 then 1 else depth);
          if new_packet = -1 then Some (-1, P)
          else do { P \<leftarrow> resample_planes packet new_packet (i_width im, i_height im) (dst_w, dst_h) depth P;
                    Some (new_packet, P) } }"

definition image_convert_fallback :: "int \<Rightarrow> symbol \<Rightarrow> pool \<Rightarrow> (int \<times> pool) option" where
  "image_convert_fallback packet dest_template P = Some (-1, P)"

section \<open>Factory and set-up\<close>

definition pdp_image_factory :: "methods \<Rightarrow> nat option \<Rightarrow> symbol \<Rightarrow> pool \<Rightarrow> (int \<times> pool) option" where
  "pdp_image_factory E ic type P =
     (case pdp_type_to_list type of
        first # s # rest \<Rightarrow>
          if s = ''grey'' \<or> s = ''YCrCb'' \<or> s = ''multi''
          then (case rest of
                  [] \<Rightarrow> None
                | dims # rest \<Rightarrow>
                    do { (p, P) \<leftarrow>
                           (if s = ''multi''
                            then (let vs = scan_dims 3 dims in
                                  pdp_packet_new_image_mchp E ic (word_of_int (dim 0 vs)) (word_of_int (dim 1 vs)) (word_of_int (dim 2 vs)) P)
                            else (let vs = scan_dims 2 dims; t = (if s = ''grey'' then PDP_IMAGE_GREY else PDP_IMAGE_YV12) in
                                  pdp_packet_new_image E ic t (word_of_int (dim 0 vs)) (word_of_int (dim 1 vs)) P));
                         if p \<noteq> -1
                         then do { header \<leftarrow> pdp_packet_header p P;
                                   if desc header \<noteq> Some type
                                   then do { P \<leftarrow> pdp_packet_delete p P; Some (-1, P) }
                                   else Some (p, P) }
                         else Some (p, P) })
          else Some (-1, P)
      | _ \<Rightarrow> None)"

definition image_conversion :: "methods \<Rightarrow> nat option \<Rightarrow> nat \<Rightarrow> int \<Rightarrow> symbol \<Rightarrow> pool \<Rightarrow> (int \<times> pool) option" where
  "image_conversion E ic m packet dest_template P =
     (if m = 0 then image_convert_YCrCb_to_grey E ic packet dest_template P
      else if m = 1 then image_convert_grey_to_YCrCb E ic packet dest_template P
      else if m = 2 then image_convert_grey_to_multi E ic packet dest_template P
      else if m = 3 then image_convert_multi_to_YCrCb E ic packet dest_template P
      else if m = 4 then image_convert_YCrCb_to_multi E ic packet dest_template P
      else if m = 5 then image_convert_resample_YCrCb E ic packet dest_template P
      else if m = 6 then image_convert_resample_multi E ic packet dest_template P
      else image_convert_fallback packet dest_template P)"

text \<open>\<open>c\<close> is the address of the new class object, which becomes \<open>image_class\<close>.\<close>

definition pdp_image_setup :: "nat \<Rightarrow> tstate \<Rightarrow> nat option \<times> tstate" where
  "pdp_image_setup c T =
     (let T = T\<lparr>tpool := pdp_class_new c (Some ''image/*/*'') True (tpool T)\<rparr>;
          prog = pdp_conversion_program_new [0];
          T = pdp_type_register_conversion ''image/YCrCb/*'' ''image/grey/*'' prog T;
          T = pdp_type_register_conversion ''image/multi/*'' ''image/grey/*'' prog T;
          prog = pdp_conversion_program_new [1];
          T = pdp_type_register_conversion ''image/grey/*'' ''image/YCrCb/*'' prog T;
          prog = pdp_conversion_program_new [2];
          T = pdp_type_register_conversion ''image/grey/*'' ''image/multi/*'' prog T;
          prog = pdp_conversion_program_new [3];
          T = pdp_type_register_conversion ''image/multi/*'' ''image/YCrCb/*'' prog T;
          prog = pdp_conversion_program_new [4];
          T = pdp_type_register_conversion ''image/YCrCb/*'' ''image/multi/*'' prog T;
          prog = pdp_conversion_program_new [5];
          T = pdp_type_register_conversion ''image/YCrCb/*'' ''image/YCrCb/*'' prog T;
          prog = pdp_conversion_program_new [6];
          T = pdp_type_register_conversion ''image/multi/*'' ''image/multi/*'' prog T;
          T = pdp_type_register_conversion ''image/grey/*'' ''image/grey/*'' prog T;
          prog = pdp_conversion_program_new [7];
          T = pdp_type_register_conversion ''image/*/*'' ''image/*/*'' prog T
      in (Some c, T))"

end
