(* ===== verification/LLConv.thy ===== *)
theory LLConv
  imports Image
begin

text \<open>
  Low level conversions between raw image formats: \<^verbatim>\<open>system/image/pdp_llconv.c\<close> and
  \<^verbatim>\<open>system/image/pdp_llconv_portable.c\<close>.

  A buffer is a list of bytes; the routines see it as bytes, as 16-bit pixels (\<open>pixels\<close>) or as 32-bit words
  (\<open>words32\<close>), little endian. Source and destination are different buffers. The intermediate values of the colour
  arithmetic stay below \<open>2^31\<close>, so that it is integer arithmetic; sizes and loop counters are C \<open>int\<close>s.
\<close>

section \<open>Fixed point\<close>

text \<open>\<open>FP(x)\<close> truncates \<open>256 x\<close>; the argument is given in thousandths.\<close>

definition FP :: "int \<Rightarrow> int" where
  "FP x = (256 * x) sdiv 1000"

definition CLAMP8 :: "int \<Rightarrow> int" where
  "CLAMP8 x = (if x < 0 then 0 else if x > 255 then 255 else x)"

definition rgb2y :: "int \<Rightarrow> int \<Rightarrow> int \<Rightarrow> int" where
  "rgb2y r g b = FP 257 * r + FP 504 * g + FP 98 * b + FP 16000"

definition rgb2v :: "int \<Rightarrow> int \<Rightarrow> int \<Rightarrow> int" where
  "rgb2v r g b = FP 439 * r - FP 368 * g - FP 71 * b + FP 128000"

definition rgb2u :: "int \<Rightarrow> int \<Rightarrow> int \<Rightarrow> int" where
  "rgb2u r g b = - (FP 148 * r) - FP 291 * g + FP 439 * b + FP 128000"

text \<open>The chrominance of a pixel without the offset, as the subsampling loops write it out.\<close>

definition chroma_v :: "int \<Rightarrow> int \<Rightarrow> int \<Rightarrow> int" where
  "chroma_v r g b = FP 439 * r - FP 368 * g - FP 71 * b"

definition chroma_u :: "int \<Rightarrow> int \<Rightarrow> int \<Rightarrow> int" where
  "chroma_u r g b = - (FP 148 * r) - FP 291 * g + FP 439 * b"

abbreviation to_u8 :: "int \<Rightarrow> u8" where
  "to_u8 x \<equiv> word_of_int x"

text \<open>A byte or a pixel read as an \<open>int\<close>.\<close>

definition rd_u8 :: "u8 list \<Rightarrow> int \<Rightarrow> int option" where
  "rd_u8 b i = map_option uint (rd b i)"

definition rd_s16 :: "plane \<Rightarrow> int \<Rightarrow> int option" where
  "rd_s16 b i = map_option sint (rd b i)"

section \<open>Flipping\<close>

definition rd4 :: "u8 list \<Rightarrow> int \<Rightarrow> u8 list option" where
  "rd4 b i = (if 0 \<le> i \<and> nat i + 4 \<le> length b then Some (take 4 (drop (nat i) b)) else None)"

definition wr4 :: "u8 list \<Rightarrow> int \<Rightarrow> u8 list \<Rightarrow> u8 list option" where
  "wr4 b i v = (if 0 \<le> i \<and> nat i + 4 \<le> length b then Some (take (nat i) b @ v @ drop (nat i + 4) b) else None)"

text \<open>The two loops of \<open>_exchange_row\<close>: \<open>row1\<close> and \<open>row2\<close> are positions in the same buffer.\<close>

partial_function (option) exchange_words :: "int \<Rightarrow> int \<Rightarrow> int \<Rightarrow> u8 list \<Rightarrow> (int \<times> int \<times> int \<times> u8 list) option" where [code]:
  "exchange_words n row1 row2 b =
     (if n AND NOT 3 \<noteq> 0
      then do { tmp \<leftarrow> rd4 b row1;
                w2 \<leftarrow> rd4 b row2;
                b \<leftarrow> wr4 b row1 w2;
                b \<leftarrow> wr4 b row2 tmp;
                exchange_words (n - 4) (row1 + 4) (row2 + 4) b }
      else Some (n, row1, row2, b))"

partial_function (option) exchange_bytes :: "int \<Rightarrow> int \<Rightarrow> int \<Rightarrow> u8 list \<Rightarrow> u8 list option" where [code]:
  "exchange_bytes n row1 row2 b =
     (if n \<noteq> 0
      then do { tmp \<leftarrow> rd b row1;
                c2 \<leftarrow> rd b row2;
                b \<leftarrow> wr b row1 c2;
                b \<leftarrow> wr b row2 tmp;
                exchange_bytes (n - 1) (row1 + 1) (row2 + 1) b }
      else Some b)"

definition exchange_row :: "int \<Rightarrow> int \<Rightarrow> int \<Rightarrow> u8 list \<Rightarrow> u8 list option" where
  "exchange_row row1 row2 n b =
     do { (n, row1, row2, b) \<leftarrow> exchange_words n row1 row2 b; exchange_bytes n row1 row2 b }"

partial_function (option) flip_loop :: "int \<Rightarrow> int \<Rightarrow> int \<Rightarrow> u8 list \<Rightarrow> u8 list option" where [code]:
  "flip_loop linesize row1 row2 b =
     (if row1 < row2
      then do { b \<leftarrow> exchange_row row1 row2 linesize b; flip_loop linesize (row1 + linesize) (row2 - linesize) b }
      else Some b)"

definition pdp_llconv_flip_top_bottom :: "int \<Rightarrow> int \<Rightarrow> int \<Rightarrow> u8 list \<Rightarrow> u8 list option" where
  "pdp_llconv_flip_top_bottom width height pixelsize data =
     (let linesize = wrap32 (width * pixelsize); row1 = 0; row2 = wrap32 (linesize * (height - 1))
      in if height \<le> 1 then Some data
         else if width \<le> 0 then Some data
         else flip_loop linesize row1 row2 data)"

section \<open>Packed 8 bit formats\<close>

definition rgb2yvu_pixel :: "u8 list \<Rightarrow> int \<Rightarrow> u8 list \<Rightarrow> u8 list option" where
  "rgb2yvu_pixel src k dst =
     do { r \<leftarrow> rd_u8 src k;
          g \<leftarrow> rd_u8 src (k + 1);
          b \<leftarrow> rd_u8 src (k + 2);
          let y = rgb2y r g b;
          let v = rgb2v r g b;
          let u = rgb2u r g b;
          dst \<leftarrow> wr dst k (to_u8 (CLAMP8 (asr y 8)));
          dst \<leftarrow> wr dst (k + 1) (to_u8 (CLAMP8 (asr v 8)));
          wr dst (k + 2) (to_u8 (CLAMP8 (asr u 8))) }"

definition llconv_rgb2yvu :: "u8 list \<Rightarrow> int \<Rightarrow> u8 list \<Rightarrow> u8 list option" where
  "llconv_rgb2yvu src nbpixels dst = for_loop 0 (nat nbpixels) (\<lambda>i. rgb2yvu_pixel src (3 * int i)) dst"

definition yvu2rgb_pixel :: "u8 list \<Rightarrow> int \<Rightarrow> u8 list \<Rightarrow> u8 list option" where
  "yvu2rgb_pixel src k dst =
     do { y \<leftarrow> rd_u8 src k;
          v \<leftarrow> rd_u8 src (k + 1);
          u \<leftarrow> rd_u8 src (k + 2);
          let b = FP 1164 * (y - 16) + FP 2018 * (u - 128);
          let g = FP 1164 * (y - 16) - FP 813 * (v - 128) - FP 391 * (u - 128);
          let r = FP 1164 * (y - 16) + FP 1596 * (v - 128);
          dst \<leftarrow> wr dst k (to_u8 (CLAMP8 (asr r 8)));
          dst \<leftarrow> wr dst (k + 1) (to_u8 (CLAMP8 (asr g 8)));
          wr dst (k + 2) (to_u8 (CLAMP8 (asr b 8))) }"

definition llconv_yvu2rgb :: "u8 list \<Rightarrow> int \<Rightarrow> u8 list \<Rightarrow> u8 list option" where
  "llconv_yvu2rgb src nbpixels dst = for_loop 0 (nat nbpixels) (\<lambda>i. yvu2rgb_pixel src (3 * int i)) dst"

definition yvu2yuyv_pair :: "u8 list \<Rightarrow> int \<Rightarrow> u8 list \<Rightarrow> u8 list option" where
  "yvu2yuyv_pair src i dst =
     do { y1 \<leftarrow> rd_u8 src (6 * i);
          y2 \<leftarrow> rd_u8 src (6 * i + 3);
          v1 \<leftarrow> rd_u8 src (6 * i + 1);
          v2 \<leftarrow> rd_u8 src (6 * i + 4);
          u1 \<leftarrow> rd_u8 src (6 * i + 2);
          u2 \<leftarrow> rd_u8 src (6 * i + 5);
          dst \<leftarrow> wr dst (4 * i) (to_u8 y1);
          dst \<leftarrow> wr dst (4 * i + 1) (to_u8 (asr (u1 + u2) 1));
          dst \<leftarrow> wr dst (4 * i + 2) (to_u8 y2);
          wr dst (4 * i + 3) (to_u8 (asr (v1 + v2) 1)) }"

definition llconv_yvu2yuyv :: "u8 list \<Rightarrow> u32 \<Rightarrow> u8 list \<Rightarrow> u8 list option" where
  "llconv_yvu2yuyv src nbpixels dst = for_loop 0 (unat nbpixels div 2) (\<lambda>i. yvu2yuyv_pair src (int i)) dst"

section \<open>Planar YVU to packed RGB\<close>

text \<open>One of the four pixels of a block: the luminance at \<open>lum\<close> with the block's contributions.\<close>

definition store_rgb :: "plane \<Rightarrow> int \<Rightarrow> int \<Rightarrow> int \<Rightarrow> int \<Rightarrow> int \<Rightarrow> u8 list \<Rightarrow> u8 list option" where
  "store_rgb src cb cg cr lum off dst =
     do { p \<leftarrow> rd_s16 src lum;
          let y = p * 2;
          let y1 = FP 1164 * y;
          let y1 = y1 - FP (16 * 256 * 1000);
          let b = asr (cb + y1) 16;
          let g = asr (cg + y1) 16;
          let r = asr (cr + y1) 16;
          dst \<leftarrow> wr dst off (to_u8 (CLAMP8 r));
          dst \<leftarrow> wr dst (off + 1) (to_u8 (CLAMP8 g));
          wr dst (off + 2) (to_u8 (CLAMP8 b)) }"

definition yvu_block :: "plane \<Rightarrow> int \<Rightarrow> int \<Rightarrow> int \<Rightarrow> int \<Rightarrow> int \<Rightarrow> u8 list \<Rightarrow> u8 list option" where
  "yvu_block src w voffset uoffset yoff xoff dst =
     do { let rgboff = wrap32 (3 * (xoff + yoff));
          let rgbw = wrap32 (w * 3);
          let lumoff = xoff + yoff;
          let chromoff = asr xoff 1 + asr yoff 2;
          v \<leftarrow> rd_s16 src (voffset + chromoff);
          u \<leftarrow> rd_s16 src (uoffset + chromoff);
          let cb = FP 2018 * u;
          let cg = FP (- 813) * v + FP (- 391) * u;
          let cr = FP 1596 * v;
          dst \<leftarrow> store_rgb src cb cg cr lumoff rgboff dst;
          dst \<leftarrow> store_rgb src cb cg cr (lumoff + 1) (rgboff + 3) dst;
          dst \<leftarrow> store_rgb src cb cg cr (lumoff + w) (rgboff + rgbw) dst;
          store_rgb src cb cg cr (lumoff + w + 1) (rgboff + rgbw + 3) dst }"

definition llconv_yvu16planar2rgbpacked :: "plane \<Rightarrow> int \<Rightarrow> int \<Rightarrow> u8 list \<Rightarrow> u8 list option" where
  "llconv_yvu16planar2rgbpacked src w h dst =
     (let n = wrap32 (w * h); voffset = n; uoffset = n + asr n 2
      in int_loop 0 n (wrap32 (2 * w)) (\<lambda>yoff. int_loop 0 w 2 (\<lambda>xoff. yvu_block src w voffset uoffset yoff xoff)) dst)"

section \<open>Packed RGB to planar YVU\<close>

text \<open>The three components of the pixel at \<open>k\<close>.\<close>

definition rd_rgb :: "u8 list \<Rightarrow> int \<Rightarrow> int \<Rightarrow> int \<Rightarrow> int \<Rightarrow> (int \<times> int \<times> int) option" where
  "rd_rgb src k ir ig ib =
     do { r \<leftarrow> rd_u8 src (k + ir); g \<leftarrow> rd_u8 src (k + ig); b \<leftarrow> rd_u8 src (k + ib); Some (r, g, b) }"

text \<open>
  A block of 2 x 2 pixels. The second row overwrites \<open>v\<close> and \<open>u\<close> (the code has \<open>=\<close> where the second pixel of a
  row has \<open>+=\<close>), so the chrominance is that of the lower two pixels.
\<close>

definition planar16sub_block ::
  "u8 list \<Rightarrow> int \<Rightarrow> int \<times> int \<times> int \<Rightarrow> int \<Rightarrow> int \<Rightarrow> int \<Rightarrow> int \<Rightarrow> int \<Rightarrow> int \<times> plane \<Rightarrow> (int \<times> plane) option" where
  "planar16sub_block src w idx stride voffset uoffset j i s =
     (case (s, idx) of ((k, dst), (ir, ig, ib)) \<Rightarrow>
        do { let loffset = wrap32 (w * stride);
             (r, g, b) \<leftarrow> rd_rgb src k ir ig ib;
             let y = rgb2y r g b;
             dst \<leftarrow> wr dst (i + j) (to_s16 (CLAMP16 (asr y 1)));
             (r, g, b) \<leftarrow> rd_rgb src (k + stride) ir ig ib;
             let y = rgb2y r g b;
             dst \<leftarrow> wr dst (i + j + 1) (to_s16 (CLAMP16 (asr y 1)));
             (r, g, b) \<leftarrow> rd_rgb src (loffset + k) ir ig ib;
             let y = rgb2y r g b;
             let v = chroma_v r g b;
             let u = chroma_u r g b;
             dst \<leftarrow> wr dst (w + i + j) (to_s16 (CLAMP16 (asr y 1)));
             (r, g, b) \<leftarrow> rd_rgb src (loffset + k + stride) ir ig ib;
             let k = k + 2 * stride;
             let y = rgb2y r g b;
             let v = v + chroma_v r g b;
             let u = u + chroma_u r g b;
             dst \<leftarrow> wr dst (w + i + j + 1) (to_s16 (CLAMP16 (asr y 1)));
             dst \<leftarrow> wr dst (uoffset + asr i 1 + asr j 2) (to_s16 (CLAMP16 (asr u 1)));
             dst \<leftarrow> wr dst (voffset + asr i 1 + asr j 2) (to_s16 (CLAMP16 (asr v 1)));
             Some (k, dst) })"

definition llconv_rgb2yvu_planar16sub_indexed ::
  "u8 list \<Rightarrow> int \<Rightarrow> int \<Rightarrow> int \<Rightarrow> int \<Rightarrow> int \<Rightarrow> int \<Rightarrow> plane \<Rightarrow> plane option" where
  "llconv_rgb2yvu_planar16sub_indexed src w h ir ig ib stride dst =
     (let n = wrap32 (w * h); voffset = n; uoffset = n + asr n 2
      in int_loop 0 n (wrap32 (w * 2))
           (\<lambda>j dst. map_option snd (int_loop 0 w 2 (planar16sub_block src w (ir, ig, ib) stride voffset uoffset j)
                                      (wrap32 (stride * j), dst))) dst)"

definition llconv_rgb2yvu_planar16sub :: "u8 list \<Rightarrow> int \<Rightarrow> int \<Rightarrow> plane \<Rightarrow> plane option" where
  "llconv_rgb2yvu_planar16sub src w h = llconv_rgb2yvu_planar16sub_indexed src w h 0 1 2 3"

definition llconv_rgba2yvu_planar16sub :: "u8 list \<Rightarrow> int \<Rightarrow> int \<Rightarrow> plane \<Rightarrow> plane option" where
  "llconv_rgba2yvu_planar16sub src w h = llconv_rgb2yvu_planar16sub_indexed src w h 0 1 2 4"

definition llconv_bgr2yvu_planar16sub :: "u8 list \<Rightarrow> int \<Rightarrow> int \<Rightarrow> plane \<Rightarrow> plane option" where
  "llconv_bgr2yvu_planar16sub src w h = llconv_rgb2yvu_planar16sub_indexed src w h 2 1 0 3"

definition llconv_bgra2yvu_planar16sub :: "u8 list \<Rightarrow> int \<Rightarrow> int \<Rightarrow> plane \<Rightarrow> plane option" where
  "llconv_bgra2yvu_planar16sub src w h = llconv_rgb2yvu_planar16sub_indexed src w h 2 1 0 4"

definition planar8sub_block ::
  "u8 list \<Rightarrow> int \<Rightarrow> int \<Rightarrow> int \<Rightarrow> int \<Rightarrow> int \<Rightarrow> int \<times> u8 list \<Rightarrow> (int \<times> u8 list) option" where
  "planar8sub_block src w voffset uoffset j i s =
     (case s of (k, dst) \<Rightarrow>
        do { let loffset = wrap32 (w * 3);
             (r, g, b) \<leftarrow> rd_rgb src k 0 1 2;
             let y = rgb2y r g b;
             dst \<leftarrow> wr dst (i + j) (to_u8 (CLAMP8 (asr y 8)));
             (r, g, b) \<leftarrow> rd_rgb src (k + 3) 0 1 2;
             let y = rgb2y r g b;
             dst \<leftarrow> wr dst (i + j + 1) (to_u8 (CLAMP8 (asr y 8)));
             (r, g, b) \<leftarrow> rd_rgb src (loffset + k) 0 1 2;
             let y = rgb2y r g b;
             let v = chroma_v r g b;
             let u = chroma_u r g b;
             dst \<leftarrow> wr dst (w + i + j) (to_u8 (CLAMP8 (asr y 8)));
             (r, g, b) \<leftarrow> rd_rgb src (loffset + k + 3) 0 1 2;
             let k = k + 6;
             let y = rgb2y r g b;
             let v = v + chroma_v r g b;
             let u = u + chroma_u r g b;
             dst \<leftarrow> wr dst (w + i + j + 1) (to_u8 (CLAMP8 (asr y 8)));
             dst \<leftarrow> wr dst (uoffset + asr i 1 + asr j 2) (to_u8 (CLAMP8 (asr u 9 + 128)));
             dst \<leftarrow> wr dst (voffset + asr i 1 + asr j 2) (to_u8 (CLAMP8 (asr v 9 + 128)));
             Some (k, dst) })"

definition llconv_rgb2yvu_planar8sub :: "u8 list \<Rightarrow> int \<Rightarrow> int \<Rightarrow> u8 list \<Rightarrow> u8 list option" where
  "llconv_rgb2yvu_planar8sub src w h dst =
     (let n = wrap32 (w * h); voffset = n; uoffset = n + asr n 2
      in int_loop 0 n (wrap32 (w * 2))
           (\<lambda>j dst. map_option snd (int_loop 0 w 2 (planar8sub_block src w voffset uoffset j) (wrap32 (3 * j), dst))) dst)"

section \<open>Packed YUYV and UYVY\<close>

fun words32 :: "u8 list \<Rightarrow> u32 list" where
  "words32 (a # b # c # d # bs) = (ucast a OR push_bit 8 (ucast b) OR push_bit 16 (ucast c) OR push_bit 24 (ucast d)) # words32 bs"
| "words32 bs = []"

fun word_bytes :: "u32 list \<Rightarrow> u8 list" where
  "word_bytes [] = []"
| "word_bytes (w # ws) = ucast w # ucast (drop_bit 8 w) # ucast (drop_bit 16 w) # ucast (drop_bit 24 w) # word_bytes ws"

definition set_words32 :: "u32 list \<Rightarrow> u8 list \<Rightarrow> u8 list" where
  "set_words32 ws bs = word_bytes ws @ drop (4 * length ws) bs"

text \<open>The chrominance of a block from the four words, in which it lies in the upper bytes of the halves.\<close>

definition store_chroma :: "u32 \<Rightarrow> u32 \<Rightarrow> u32 \<Rightarrow> u32 \<Rightarrow> u32 \<Rightarrow> u32 \<Rightarrow> u32 list \<Rightarrow> u32 list option" where
  "store_chroma v00 v01 v10 v11 up vp dest =
     do { let v00 = v00 + v10;
          let v01 = v01 + v11;
          let v = push_bit 16 v01 OR (v00 AND 0x0000ffff);
          let u = (v01 AND 0xffff0000) OR drop_bit 16 v00;
          let u = u XOR 0x80008000;
          let v = v XOR 0x80008000;
          dest \<leftarrow> wr dest (uint up) u;
          wr dest (uint vp) v }"

definition yuyv_block :: "u32 list \<Rightarrow> u32 \<Rightarrow> u32 \<Rightarrow> u32 \<Rightarrow> u32 \<Rightarrow> u32 \<Rightarrow> u32 list \<Rightarrow> u32 list option" where
  "yuyv_block source w uoffset voffset j i dest =
     do { v00 \<leftarrow> rd source (uint (i + j));
          v01 \<leftarrow> rd source (uint (i + j + 1));
          v10 \<leftarrow> rd source (uint (i + j + drop_bit 1 w));
          v11 \<leftarrow> rd source (uint (i + j + drop_bit 1 w + 1));
          dest \<leftarrow> wr dest (uint (i + j)) (push_bit 7 (v00 AND 0x00ff00ff));
          dest \<leftarrow> wr dest (uint (i + j + 1)) (push_bit 7 (v01 AND 0x00ff00ff));
          dest \<leftarrow> wr dest (uint (i + j + drop_bit 1 w)) (push_bit 7 (v10 AND 0x00ff00ff));
          dest \<leftarrow> wr dest (uint (i + j + drop_bit 1 w + 1)) (push_bit 7 (v11 AND 0x00ff00ff));
          let v00 = drop_bit 1 (v00 AND 0xff00ff00);
          let v01 = drop_bit 1 (v01 AND 0xff00ff00);
          let v10 = drop_bit 1 (v10 AND 0xff00ff00);
          let v11 = drop_bit 1 (v11 AND 0xff00ff00);
          store_chroma v00 v01 v10 v11 (uoffset + drop_bit 1 i + drop_bit 2 j) (voffset + drop_bit 1 i + drop_bit 2 j) dest }"

definition uyvy_block :: "u32 list \<Rightarrow> u32 \<Rightarrow> u32 \<Rightarrow> u32 \<Rightarrow> u32 \<Rightarrow> u32 \<Rightarrow> u32 list \<Rightarrow> u32 list option" where
  "uyvy_block source w uoffset voffset j i dest =
     do { v00 \<leftarrow> rd source (uint (i + j));
          v01 \<leftarrow> rd source (uint (i + j + 1));
          v10 \<leftarrow> rd source (uint (i + j + drop_bit 1 w));
          v11 \<leftarrow> rd source (uint (i + j + drop_bit 1 w + 1));
          dest \<leftarrow> wr dest (uint (i + j)) (drop_bit 1 (v00 AND 0xff00ff00));
          v11 \<leftarrow> rd source (uint (i + j + drop_bit 1 w + 1));
          dest \<leftarrow> wr dest (uint (i + j)) (drop_bit 1 (v00 AND 0xff00ff00));
          dest \<leftarrow> wr dest (uint (i + j + 1)) (drop_bit 1 (v01 AND 0xff00ff00));
          dest \<leftarrow> wr dest (uint (i + j + drop_bit 1 w)) (drop_bit 1 (v10 AND 0xff00ff00));
          dest \<leftarrow> wr dest (uint (i + j + drop_bit 1 w + 1)) (drop_bit 1 (v11 AND 0xff00ff00));
          let v00 = push_bit 7 (v00 AND 0x00ff00ff);
          let v01 = push_bit 7 (v01 AND 0x00ff00ff);
          let v10 = push_bit 7 (v10 AND 0x00ff00ff);
          let v11 = push_bit 7 (v11 AND 0x00ff00ff);
          store_chroma v00 v01 v10 v11 (uoffset + drop_bit 1 i + drop_bit 2 j) (voffset + drop_bit 1 i + drop_bit 2 j) dest }"

definition packed_loops ::
  "u32 \<Rightarrow> u32 \<Rightarrow> (u32 \<Rightarrow> u32 \<Rightarrow> u32 \<Rightarrow> u32 \<Rightarrow> u32 list \<Rightarrow> u32 list option) \<Rightarrow> u32 list \<Rightarrow> u32 list option" where
  "packed_loops w h block dest =
     (let uoffset = drop_bit 1 (w * h); voffset = drop_bit 1 (w * h + drop_bit 2 (w * h))
      in step_loop 0 (drop_bit 1 (h * w)) w (\<lambda>j. step_loop 0 (drop_bit 1 w) 2 (block uoffset voffset j)) dest)"

definition llconv_yuyv_packed_u8s16 :: "u32 list \<Rightarrow> u32 \<Rightarrow> u32 \<Rightarrow> u32 list \<Rightarrow> u32 list option" where
  "llconv_yuyv_packed_u8s16 source w h dest = packed_loops w h (yuyv_block source w) dest"

definition llconv_uyvy_packed_u8s16 :: "u32 list \<Rightarrow> u32 \<Rightarrow> u32 \<Rightarrow> u32 list \<Rightarrow> u32 list option" where
  "llconv_uyvy_packed_u8s16 source w h dest = packed_loops w h (uyvy_block source w) dest"

section \<open>Planar formats of 8 and 16 bits\<close>

definition pixel_unpack_portable_u8s16_y :: "u8 list \<Rightarrow> u32 \<Rightarrow> plane \<Rightarrow> plane option" where
  "pixel_unpack_portable_u8s16_y src nbpixels dst =
     for_loop 0 (unat nbpixels) (\<lambda>i dst. do { s \<leftarrow> rd src (int i); wr dst (int i) (push_bit 7 (ucast s)) }) dst"

definition pixel_unpack_portable_u8s16_uv :: "u8 list \<Rightarrow> u32 \<Rightarrow> plane \<Rightarrow> plane option" where
  "pixel_unpack_portable_u8s16_uv src nbpixels dst =
     for_loop 0 (unat nbpixels) (\<lambda>i dst. do { s \<leftarrow> rd src (int i); wr dst (int i) (push_bit 8 (ucast s) XOR 0x8000) }) dst"

definition pixel_pack_portable_s16u8_y :: "plane \<Rightarrow> u32 \<Rightarrow> u8 list \<Rightarrow> u8 list option" where
  "pixel_pack_portable_s16u8_y src nbpixels dst =
     for_loop 0 (unat nbpixels) (\<lambda>i dst. do { s \<leftarrow> rd_s16 src (int i); wr dst (int i) (to_u8 (CLAMP8 (asr s 7))) }) dst"

definition pixel_pack_portable_s16u8_uv :: "plane \<Rightarrow> u32 \<Rightarrow> u8 list \<Rightarrow> u8 list option" where
  "pixel_pack_portable_s16u8_uv src nbpixels dst =
     for_loop 0 (unat nbpixels) (\<lambda>i dst. do { s \<leftarrow> rd src (int i); wr dst (int i) (ucast (drop_bit 8 (s XOR 0x8000))) }) dst"

text \<open>A routine that gets the pointers \<open>src + m\<close> and \<open>dst + n\<close>.\<close>

definition at_offsets :: "int \<Rightarrow> int \<Rightarrow> ('a list \<Rightarrow> 'b list \<Rightarrow> 'b list option) \<Rightarrow> 'a list \<Rightarrow> 'b list \<Rightarrow> 'b list option" where
  "at_offsets m n f src dst =
     (if m < 0 \<or> n < 0 then None
      else do { t \<leftarrow> f (drop (nat m) src) (drop (nat n) dst); Some (take (nat n) dst @ t) })"

definition llconv_grey_s16u8 :: "plane \<Rightarrow> u32 \<Rightarrow> u8 list \<Rightarrow> u8 list option" where
  "llconv_grey_s16u8 src nbpixels dst = pixel_pack_portable_s16u8_y src nbpixels dst"

definition llconv_yvu_planar_s16u8 :: "plane \<Rightarrow> u32 \<Rightarrow> u8 list \<Rightarrow> u8 list option" where
  "llconv_yvu_planar_s16u8 src nbpixels dst =
     do { dst \<leftarrow> pixel_pack_portable_s16u8_y src nbpixels dst;
          at_offsets (uint nbpixels) (uint nbpixels) (\<lambda>src. pixel_pack_portable_s16u8_uv src (drop_bit 1 nbpixels)) src dst }"

definition llconv_yvu_planar_u8s16 :: "u8 list \<Rightarrow> int \<Rightarrow> plane \<Rightarrow> plane option" where
  "llconv_yvu_planar_u8s16 source nbpixels dest =
     do { dest \<leftarrow> pixel_unpack_portable_u8s16_y source (word_of_int nbpixels) dest;
          at_offsets nbpixels nbpixels (\<lambda>src. pixel_unpack_portable_u8s16_uv src (word_of_int (asr nbpixels 1))) source dest }"

definition llconv_yuv_planar_u8s16 :: "u8 list \<Rightarrow> int \<Rightarrow> plane \<Rightarrow> plane option" where
  "llconv_yuv_planar_u8s16 source nbpixels dest =
     do { let q = asr nbpixels 2;
          dest \<leftarrow> pixel_unpack_portable_u8s16_y source (word_of_int nbpixels) dest;
          dest \<leftarrow> at_offsets nbpixels (nbpixels + q) (\<lambda>src. pixel_unpack_portable_u8s16_uv src (word_of_int q)) source dest;
          at_offsets (nbpixels + q) nbpixels (\<lambda>src. pixel_unpack_portable_u8s16_uv src (word_of_int q)) source dest }"

section \<open>The dispatcher\<close>

datatype RIF =
  RIF_YVU__P411_U8 | RIF_YUV__P411_U8 | RIF_YVU__P411_S16 | RIF_YVU__P444_S16 | RIF_UYVY_P____U8 | RIF_YUYV_P____U8
| RIF_RGB__P____U8 | RIF_RGBA_P____U8 | RIF_RGB__P444_S16 | RIF_GREY______S16 | RIF_GREY______U8 | RIF_BGR__P____U8
| RIF_BGRA_P____U8

text \<open>The destination seen as pixels or as words.\<close>

definition to_pixels :: "(plane \<Rightarrow> plane option) \<Rightarrow> u8 list \<Rightarrow> u8 list option" where
  "to_pixels f dst = do { px \<leftarrow> f (pixels dst); Some (set_pixels px dst) }"

definition to_words :: "(u32 list \<Rightarrow> u32 list option) \<Rightarrow> u8 list \<Rightarrow> u8 list option" where
  "to_words f dst = do { ws \<leftarrow> f (words32 dst); Some (set_words32 ws dst) }"

text \<open>A pair of formats without a routine only posts a warning.\<close>

definition pdp_llconv :: "u8 list \<Rightarrow> RIF \<Rightarrow> RIF \<Rightarrow> int \<Rightarrow> int \<Rightarrow> u8 list \<Rightarrow> u8 list option" where
  "pdp_llconv src stype dtype w h dst =
     (let n = wrap32 (w * h) in
      case (stype, dtype) of
        (RIF_YVU__P411_U8, RIF_YVU__P411_S16) \<Rightarrow> to_pixels (llconv_yvu_planar_u8s16 src n) dst
      | (RIF_YUV__P411_U8, RIF_YVU__P411_S16) \<Rightarrow> to_pixels (llconv_yuv_planar_u8s16 src n) dst
      | (RIF_YUYV_P____U8, RIF_YVU__P411_S16) \<Rightarrow>
          to_words (llconv_yuyv_packed_u8s16 (words32 src) (word_of_int w) (word_of_int h)) dst
      | (RIF_UYVY_P____U8, RIF_YVU__P411_S16) \<Rightarrow>
          to_words (llconv_uyvy_packed_u8s16 (words32 src) (word_of_int w) (word_of_int h)) dst
      | (RIF_RGB__P____U8, RIF_YVU__P411_U8) \<Rightarrow> llconv_rgb2yvu_planar8sub src w h dst
      | (RIF_RGB__P____U8, RIF_YVU__P411_S16) \<Rightarrow> to_pixels (llconv_rgb2yvu_planar16sub src w h) dst
      | (RIF_RGBA_P____U8, RIF_YVU__P411_S16) \<Rightarrow> to_pixels (llconv_rgba2yvu_planar16sub src w h) dst
      | (RIF_BGR__P____U8, RIF_YVU__P411_S16) \<Rightarrow> to_pixels (llconv_bgr2yvu_planar16sub src w h) dst
      | (RIF_BGRA_P____U8, RIF_YVU__P411_S16) \<Rightarrow> to_pixels (llconv_bgra2yvu_planar16sub src w h) dst
      | (RIF_YVU__P411_S16, RIF_RGB__P____U8) \<Rightarrow> llconv_yvu16planar2rgbpacked (pixels src) w h dst
      | (RIF_YVU__P411_S16, RIF_YVU__P411_U8) \<Rightarrow> llconv_yvu_planar_s16u8 (pixels src) (word_of_int n) dst
      | (RIF_GREY______S16, RIF_GREY______U8) \<Rightarrow> llconv_grey_s16u8 (pixels src) (word_of_int n) dst
      | _ \<Rightarrow> Some dst)"

section \<open>Flipping a plane of pixels\<close>

definition pdp_imageproc_flip_tb_process :: "u32 \<Rightarrow> u32 \<Rightarrow> plane \<Rightarrow> plane option" where
  "pdp_imageproc_flip_tb_process width height img =
     map_option pixels (pdp_llconv_flip_top_bottom (sint width) (sint height) 2 (pixel_bytes img))"

end
