(* ===== verification/Bitmap.thy ===== *)
theory Bitmap
  imports LLConv
begin

text \<open>
  Bitmap packets (\<^verbatim>\<open>system/type/pdp_bitmap.c\<close>): 8 bit images in packed or planar formats. Constructors,
  descriptions, conversions from and to the image packets of theory \<open>Image\<close>, the factory and the set-up.

  The statics \<open>image_class\<close> and \<open>bitmap_class\<close> are the arguments \<open>ic\<close> and \<open>bc\<close>. The numbers of the conversion methods
  continue those of \<open>pdp_image_setup\<close>.
\<close>

definition PDP_BITMAP :: u32 where
  "PDP_BITMAP = 6"

definition PDP_BITMAP_RGB :: u32 where
  "PDP_BITMAP_RGB = 0x32424752"

definition PDP_BITMAP_RGBA :: u32 where
  "PDP_BITMAP_RGBA = 0x41424752"

definition PDP_BITMAP_GREY :: u32 where
  "PDP_BITMAP_GREY = 0x59455247"

definition PDP_BITMAP_I420 :: u32 where
  "PDP_BITMAP_I420 = 0x30323449"

definition PDP_BITMAP_YV12 :: u32 where
  "PDP_BITMAP_YV12 = 0x32315659"

section \<open>Checks and descriptions\<close>

text \<open>The subheader seen as a bitmap.\<close>

fun bitmap_of :: "t_info \<Rightarrow> t_bitmap" where
  "bitmap_of NoInfo = \<lparr>b_encoding = 0, b_width = 0, b_height = 0, b_bpp = 0\<rparr>"
| "bitmap_of (Bitmap b) = b"
| "bitmap_of (Image im) = \<lparr>b_encoding = i_encoding im, b_width = i_width im, b_height = i_height im, b_bpp = i_depth im\<rparr>"

definition pdp_packet_bitmap_info :: "int \<Rightarrow> pool \<Rightarrow> t_bitmap option" where
  "pdp_packet_bitmap_info packet P = map_option bitmap_of (pdp_packet_subheader packet P)"

definition pdp_packet_bitmap_isvalid :: "int \<Rightarrow> pool \<Rightarrow> bool" where
  "pdp_packet_bitmap_isvalid packet P =
     (case pdp_packet_header packet P of None \<Rightarrow> False | Some header \<Rightarrow> PDP_BITMAP = ptype header)"

definition pdp_packet_bitmap_get_description :: "int \<Rightarrow> pool \<Rightarrow> symbol" where
  "pdp_packet_bitmap_get_description packet P =
     (case pdp_packet_header packet P of
        None \<Rightarrow> ''invalid''
      | Some header \<Rightarrow>
          (case desc header of
             Some d \<Rightarrow> d
           | None \<Rightarrow>
               if ptype header = PDP_BITMAP
               then (let b = bitmap_of (info header); c = ''bitmap''; encoding = b_encoding b;
                         dims = ''/'' @ fmt_d (b_width b) @ ''x'' @ fmt_d (b_height b) in
                     if encoding = PDP_BITMAP_RGB then c @ ''/rgb'' @ dims
                     else if encoding = PDP_BITMAP_RGBA then c @ ''/rgba'' @ dims
                     else if encoding = PDP_BITMAP_GREY then c @ ''/grey'' @ dims
                     else if encoding = PDP_BITMAP_YV12 then c @ ''/yv12'' @ dims
                     else if encoding = PDP_BITMAP_I420 then c @ ''/i420'' @ dims
                     else c @ ''/unknown'')
               else ''unknown''))"

section \<open>Constructors\<close>

text \<open>A write to the bitmap subheader.\<close>

definition set_bitmap :: "int \<Rightarrow> (t_bitmap \<Rightarrow> t_bitmap) \<Rightarrow> pool \<Rightarrow> pool" where
  "set_bitmap packet f P =
     (case pdp_packet_header packet P of
        None \<Rightarrow> P
      | Some header \<Rightarrow> set_packet packet (Some (header\<lparr>info := Bitmap (f (bitmap_of (info header)))\<rparr>)) P)"

text \<open>The part the constructors share: a new packet, its subheader, description and class.\<close>

definition new_bitmap_packet :: "methods \<Rightarrow> nat option \<Rightarrow> u32 \<Rightarrow> u32 \<Rightarrow> u32 \<Rightarrow> u32 \<Rightarrow> pool \<Rightarrow> (int \<times> pool) option" where
  "new_bitmap_packet E bc packet_size encoding w h P =
     do { (packet, P) \<leftarrow> pdp_packet_new E PDP_BITMAP packet_size P;
          case pdp_packet_header packet P of
            None \<Rightarrow> Some (-1, P)
          | Some header \<Rightarrow>
              (let P = set_bitmap packet (\<lambda>b. b\<lparr>b_encoding := encoding, b_width := w, b_height := h\<rparr>) P;
                   d = pdp_packet_bitmap_get_description packet P
               in do { header \<leftarrow> pdp_packet_header packet P;
                       Some (packet, set_packet packet (Some (header\<lparr>desc := Some d, theclass := bc\<rparr>)) P) }) }"

definition pdp_packet_new_bitmap_yv12 :: "methods \<Rightarrow> nat option \<Rightarrow> u32 \<Rightarrow> u32 \<Rightarrow> pool \<Rightarrow> (int \<times> pool) option" where
  "pdp_packet_new_bitmap_yv12 E bc w h P =
     (let s = w * h; packet_size = s + drop_bit 1 s in new_bitmap_packet E bc packet_size PDP_BITMAP_YV12 w h P)"

definition pdp_packet_new_bitmap_i420 :: "methods \<Rightarrow> nat option \<Rightarrow> u32 \<Rightarrow> u32 \<Rightarrow> pool \<Rightarrow> (int \<times> pool) option" where
  "pdp_packet_new_bitmap_i420 E bc w h P =
     do { (p, P) \<leftarrow> pdp_packet_new_bitmap_yv12 E bc w h P;
          if -1 = p then Some (-1, P)
          else do { let P = set_bitmap p (\<lambda>b. b\<lparr>b_encoding := PDP_BITMAP_I420\<rparr>) P;
                    header \<leftarrow> pdp_packet_header p P;
                    let P = set_packet p (Some (header\<lparr>desc := None\<rparr>)) P;
                    let d = pdp_packet_bitmap_get_description p P;
                    Some (p, set_packet p (Some (header\<lparr>desc := Some d\<rparr>)) P) } }"

definition pdp_packet_new_bitmap_grey :: "methods \<Rightarrow> nat option \<Rightarrow> u32 \<Rightarrow> u32 \<Rightarrow> pool \<Rightarrow> (int \<times> pool) option" where
  "pdp_packet_new_bitmap_grey E bc w h P =
     (let s = w * h; totalnbpixels = s; packet_size = totalnbpixels in new_bitmap_packet E bc packet_size PDP_BITMAP_GREY w h P)"

definition pdp_packet_new_bitmap_rgb :: "methods \<Rightarrow> nat option \<Rightarrow> u32 \<Rightarrow> u32 \<Rightarrow> pool \<Rightarrow> (int \<times> pool) option" where
  "pdp_packet_new_bitmap_rgb E bc w h P =
     (let s = w * h; totalnbpixels = s; packet_size = totalnbpixels * 3 in new_bitmap_packet E bc packet_size PDP_BITMAP_RGB w h P)"

definition pdp_packet_new_bitmap_rgba :: "methods \<Rightarrow> nat option \<Rightarrow> u32 \<Rightarrow> u32 \<Rightarrow> pool \<Rightarrow> (int \<times> pool) option" where
  "pdp_packet_new_bitmap_rgba E bc w h P =
     (let s = w * h; totalnbpixels = s; packet_size = totalnbpixels * 4 in new_bitmap_packet E bc packet_size PDP_BITMAP_RGBA w h P)"

definition pdp_packet_new_bitmap :: "methods \<Rightarrow> nat option \<Rightarrow> u32 \<Rightarrow> u32 \<Rightarrow> u32 \<Rightarrow> pool \<Rightarrow> (int \<times> pool) option" where
  "pdp_packet_new_bitmap E bc type w h P =
     (if type = PDP_BITMAP_GREY then pdp_packet_new_bitmap_grey E bc w h P
      else if type = PDP_BITMAP_YV12 then pdp_packet_new_bitmap_yv12 E bc w h P
      else if type = PDP_BITMAP_I420 then pdp_packet_new_bitmap_i420 E bc w h P
      else if type = PDP_BITMAP_RGB then pdp_packet_new_bitmap_rgb E bc w h P
      else if type = PDP_BITMAP_RGBA then pdp_packet_new_bitmap_rgba E bc w h P
      else Some (-1, P))"

definition pdp_packet_bitmap_flip_top_bottom :: "int \<Rightarrow> pool \<Rightarrow> pool option" where
  "pdp_packet_bitmap_flip_top_bottom packet P =
     (if \<not> pdp_packet_bitmap_isvalid packet P then Some P
      else case pdp_packet_bitmap_info packet P of
             None \<Rightarrow> Some P
           | Some b \<Rightarrow>
               (let w = sint (b_width b); h = sint (b_height b) in
                if b_encoding b = PDP_BITMAP_GREY then on_bytes packet 0 (pdp_llconv_flip_top_bottom w h 1) P
                else if b_encoding b = PDP_BITMAP_RGB then on_bytes packet 0 (pdp_llconv_flip_top_bottom w h 3) P
                else if b_encoding b = PDP_BITMAP_RGBA then on_bytes packet 0 (pdp_llconv_flip_top_bottom w h 4) P
                else Some P))"

section \<open>Conversions from images\<close>

text \<open>The pattern \<open>new_p = ..; if (-1 == new_p) return -1;\<close> followed by writes to the new packet.\<close>

definition make_then :: "(int \<times> pool) option \<Rightarrow> (int \<Rightarrow> pool \<Rightarrow> pool option) \<Rightarrow> (int \<times> pool) option" where
  "make_then m f =
     do { (new_p, P) \<leftarrow> m; if new_p = -1 then Some (-1, P) else do { P \<leftarrow> f new_p P; Some (new_p, P) } }"

definition bitmap_convert_grey_to_grey8 :: "methods \<Rightarrow> nat option \<Rightarrow> int \<Rightarrow> symbol \<Rightarrow> pool \<Rightarrow> (int \<times> pool) option" where
  "bitmap_convert_grey_to_grey8 E bc packet dest_template P =
     (if \<not> pdp_packet_image_isvalid packet P then Some (-1, P)
      else do { image \<leftarrow> pdp_packet_image_info packet P;
                data \<leftarrow> pdp_packet_data packet P;
                let w = i_width image;
                let h = i_height image;
                if \<not> (i_encoding image = PDP_IMAGE_GREY \<or> i_encoding image = PDP_IMAGE_YV12) then Some (-1, P)
                else make_then (pdp_packet_new_bitmap_grey E bc w h P)
                       (\<lambda>new_p. on_bytes new_p 0 (pdp_llconv data RIF_GREY______S16 RIF_GREY______U8 (sint w) (sint h))) })"

definition bitmap_convert_YCrCb_to_rgb8 :: "methods \<Rightarrow> nat option \<Rightarrow> int \<Rightarrow> symbol \<Rightarrow> pool \<Rightarrow> (int \<times> pool) option" where
  "bitmap_convert_YCrCb_to_rgb8 E bc packet dest_template P =
     (if \<not> pdp_packet_image_isvalid packet P then Some (-1, P)
      else do { image \<leftarrow> pdp_packet_image_info packet P;
                data \<leftarrow> pdp_packet_data packet P;
                let w = i_width image;
                let h = i_height image;
                if \<not> i_encoding image = PDP_IMAGE_YV12 then Some (-1, P)
                else make_then (pdp_packet_new_bitmap_rgb E bc w h P)
                       (\<lambda>new_p. on_bytes new_p 0 (pdp_llconv data RIF_YVU__P411_S16 RIF_RGB__P____U8 (sint w) (sint h))) })"

definition bitmap_convert_image_to_yv12 :: "methods \<Rightarrow> nat option \<Rightarrow> int \<Rightarrow> symbol \<Rightarrow> pool \<Rightarrow> (int \<times> pool) option" where
  "bitmap_convert_image_to_yv12 E bc packet dest_template P =
     do { image \<leftarrow> pdp_packet_image_info packet P;
          let encoding = i_encoding image;
          if \<not> pdp_packet_image_isvalid packet P then Some (-1, P)
          else do { data \<leftarrow> pdp_packet_data packet P;
                    let w = i_width image;
                    let h = i_height image;
                    let nbpixels = w * h;
                    (new_p, P) \<leftarrow> pdp_packet_new_bitmap_yv12 E bc w h P;
                    if new_p = -1 then Some (-1, P)
                    else if encoding = PDP_IMAGE_YV12
                    then do { P \<leftarrow> on_bytes new_p 0 (pdp_llconv data RIF_YVU__P411_S16 RIF_YVU__P411_U8 (sint w) (sint h)) P;
                              Some (new_p, P) }
                    else if encoding = PDP_IMAGE_GREY
                    then do { P \<leftarrow> on_bytes new_p 0 (pdp_llconv data RIF_GREY______S16 RIF_GREY______U8 (sint w) (sint h)) P;
                              P \<leftarrow> on_bytes new_p (uint nbpixels) (memset (uint (drop_bit 1 nbpixels)) 0x80) P;
                              Some (new_p, P) }
                    else do { P \<leftarrow> pdp_packet_mark_unused E new_p P; Some (-1, P) } } }"

text \<open>\<open>_map\<close>: the shift that makes an 8 bit value, negative pixels become zero.\<close>

definition map_pixel :: "int \<Rightarrow> int" where
  "map_pixel pixel = (let mask = NOT (asr pixel 16) in asr pixel 7 AND mask)"

text \<open>The loop of \<open>convert_mchp_to_rgb8\<close>: channel \<open>c\<close> of pixel \<open>i\<close>, for \<open>n\<close> channels.\<close>

definition interleave :: "plane \<Rightarrow> int \<Rightarrow> nat \<Rightarrow> u8 list \<Rightarrow> u8 list option" where
  "interleave data plane n new_data =
     for_loop 0 (nat plane) (\<lambda>i. for_loop 0 n (\<lambda>c new_data.
       do { pixel \<leftarrow> rd_s16 data (wrap32 (int i + plane * int c)); wr new_data (wrap32 (int (n * i + c))) (to_u8 (map_pixel pixel)) })) new_data"

definition bitmap_convert_mchp_to_rgb8 :: "methods \<Rightarrow> nat option \<Rightarrow> int \<Rightarrow> symbol \<Rightarrow> pool \<Rightarrow> (int \<times> pool) option" where
  "bitmap_convert_mchp_to_rgb8 E bc packet dest_template P =
     do { image \<leftarrow> pdp_packet_image_info packet P;
          data \<leftarrow> pdp_packet_data packet P;
          let w = i_width image;
          let h = i_height image;
          let plane = wrap32 (sint w * sint h);
          let nb_channels = sint (i_depth image);
          if nb_channels = 1 then make_then (pdp_packet_new_bitmap_grey E bc w h P) (\<lambda>p. on_bytes p 0 (interleave (pixels data) plane 1))
          else if nb_channels = 3 then make_then (pdp_packet_new_bitmap_rgb E bc w h P) (\<lambda>p. on_bytes p 0 (interleave (pixels data) plane 3))
          else if nb_channels = 4 then make_then (pdp_packet_new_bitmap_rgba E bc w h P) (\<lambda>p. on_bytes p 0 (interleave (pixels data) plane 4))
          else Some (-1, P) }"

section \<open>Conversions from bitmaps\<close>

definition bitmap_convert_rgb8_to_YCrCb :: "methods \<Rightarrow> nat option \<Rightarrow> int \<Rightarrow> symbol \<Rightarrow> pool \<Rightarrow> (int \<times> pool) option" where
  "bitmap_convert_rgb8_to_YCrCb E ic packet dest_template P =
     do { bitmap \<leftarrow> pdp_packet_bitmap_info packet P;
          data \<leftarrow> pdp_packet_data packet P;
          let w = b_width bitmap;
          let h = b_height bitmap;
          make_then (pdp_packet_new_image_YCrCb E ic w h P)
            (\<lambda>new_p. on_bytes new_p 0 (pdp_llconv data RIF_RGB__P____U8 RIF_YVU__P411_S16 (sint w) (sint h))) }"

definition bitmap_convert_rgb8_to_bitmap_YCrCb :: "methods \<Rightarrow> nat option \<Rightarrow> int \<Rightarrow> symbol \<Rightarrow> pool \<Rightarrow> (int \<times> pool) option" where
  "bitmap_convert_rgb8_to_bitmap_YCrCb E bc packet dest_template P =
     do { bitmap \<leftarrow> pdp_packet_bitmap_info packet P;
          data \<leftarrow> pdp_packet_data packet P;
          let w = b_width bitmap;
          let h = b_height bitmap;
          make_then (pdp_packet_new_bitmap_yv12 E bc w h P)
            (\<lambda>new_p. on_bytes new_p 0 (pdp_llconv data RIF_RGB__P____U8 RIF_YVU__P411_U8 (sint w) (sint h))) }"

definition bitmap_convert_grey8_to_grey :: "methods \<Rightarrow> nat option \<Rightarrow> int \<Rightarrow> symbol \<Rightarrow> pool \<Rightarrow> (int \<times> pool) option" where
  "bitmap_convert_grey8_to_grey E ic packet dest_template P =
     do { bitmap \<leftarrow> pdp_packet_bitmap_info packet P;
          data \<leftarrow> pdp_packet_data packet P;
          let w = b_width bitmap;
          let h = b_height bitmap;
          make_then (pdp_packet_new_image_grey E ic w h P)
            (\<lambda>new_p. on_bytes new_p 0 (pdp_llconv data RIF_GREY______U8 RIF_GREY______S16 (sint w) (sint h))) }"

definition rgb_to_rgba_loop :: "u8 list \<Rightarrow> int \<Rightarrow> u8 list \<Rightarrow> u8 list option" where
  "rgb_to_rgba_loop data n =
     for_loop 0 (nat n) (\<lambda>i new_data.
       do { r \<leftarrow> rd data (wrap32 (int (3 * i))); new_data \<leftarrow> wr new_data (wrap32 (int (4 * i))) r;
            g \<leftarrow> rd data (wrap32 (int (3 * i + 1))); new_data \<leftarrow> wr new_data (wrap32 (int (4 * i + 1))) g;
            b \<leftarrow> rd data (wrap32 (int (3 * i + 2))); new_data \<leftarrow> wr new_data (wrap32 (int (4 * i + 2))) b;
            wr new_data (wrap32 (int (4 * i + 3))) 0 })"

definition rgba_to_rgb_loop :: "u8 list \<Rightarrow> int \<Rightarrow> u8 list \<Rightarrow> u8 list option" where
  "rgba_to_rgb_loop data n =
     for_loop 0 (nat n) (\<lambda>i new_data.
       do { r \<leftarrow> rd data (wrap32 (int (4 * i))); new_data \<leftarrow> wr new_data (wrap32 (int (3 * i))) r;
            g \<leftarrow> rd data (wrap32 (int (4 * i + 1))); new_data \<leftarrow> wr new_data (wrap32 (int (3 * i + 1))) g;
            b \<leftarrow> rd data (wrap32 (int (4 * i + 2))); wr new_data (wrap32 (int (3 * i + 2))) b })"

definition bitmap_convert_rgb8_to_rgba8 :: "methods \<Rightarrow> nat option \<Rightarrow> int \<Rightarrow> symbol \<Rightarrow> pool \<Rightarrow> (int \<times> pool) option" where
  "bitmap_convert_rgb8_to_rgba8 E bc packet dest_template P =
     do { bitmap \<leftarrow> pdp_packet_bitmap_info packet P;
          data \<leftarrow> pdp_packet_data packet P;
          let w = b_width bitmap;
          let h = b_height bitmap;
          make_then (pdp_packet_new_bitmap_rgba E bc w h P) (\<lambda>p. on_bytes p 0 (rgb_to_rgba_loop data (wrap32 (sint w * sint h)))) }"

definition bitmap_convert_rgba8_to_rgb8 :: "methods \<Rightarrow> nat option \<Rightarrow> int \<Rightarrow> symbol \<Rightarrow> pool \<Rightarrow> (int \<times> pool) option" where
  "bitmap_convert_rgba8_to_rgb8 E bc packet dest_template P =
     do { bitmap \<leftarrow> pdp_packet_bitmap_info packet P;
          data \<leftarrow> pdp_packet_data packet P;
          let w = b_width bitmap;
          let h = b_height bitmap;
          make_then (pdp_packet_new_bitmap_rgb E bc w h P) (\<lambda>p. on_bytes p 0 (rgba_to_rgb_loop data (wrap32 (sint w * sint h)))) }"

definition deinterleave_loop :: "u8 list \<Rightarrow> int \<Rightarrow> plane \<Rightarrow> plane option" where
  "deinterleave_loop data plane =
     for_loop 0 (nat plane) (\<lambda>i new_data.
       do { r \<leftarrow> rd data (wrap32 (int (3 * i))); new_data \<leftarrow> wr new_data (int i) (push_bit 7 (ucast r));
            g \<leftarrow> rd data (wrap32 (int (3 * i + 1))); new_data \<leftarrow> wr new_data (wrap32 (int i + plane)) (push_bit 7 (ucast g));
            b \<leftarrow> rd data (wrap32 (int (3 * i + 2))); wr new_data (wrap32 (int i + plane * 2)) (push_bit 7 (ucast b)) })"

definition bitmap_convert_rgb8_to_mchp :: "methods \<Rightarrow> nat option \<Rightarrow> int \<Rightarrow> symbol \<Rightarrow> pool \<Rightarrow> (int \<times> pool) option" where
  "bitmap_convert_rgb8_to_mchp E ic packet dest_template P =
     do { bitmap \<leftarrow> pdp_packet_bitmap_info packet P;
          data \<leftarrow> pdp_packet_data packet P;
          let w = b_width bitmap;
          let h = b_height bitmap;
          make_then (pdp_packet_new_image_mchp E ic w h 3 P) (\<lambda>p. on_pixels p 0 (deinterleave_loop data (wrap32 (sint w * sint h)))) }"

definition bitmap_convert_yv12_tofrom_i420 :: "methods \<Rightarrow> nat option \<Rightarrow> int \<Rightarrow> symbol \<Rightarrow> pool \<Rightarrow> (int \<times> pool) option" where
  "bitmap_convert_yv12_tofrom_i420 E bc packet dest_template P =
     do { inb \<leftarrow> pdp_packet_bitmap_info packet P;
          let w = b_width inb;
          let h = b_height inb;
          if b_encoding inb = PDP_BITMAP_YV12 \<or> b_encoding inb = PDP_BITMAP_I420
          then do { let out_encoding = (if b_encoding inb = PDP_BITMAP_YV12 then PDP_BITMAP_I420 else PDP_BITMAP_YV12);
                    make_then (pdp_packet_new_bitmap E bc out_encoding w h P)
                      (\<lambda>new_p P.
                        do { in_d \<leftarrow> pdp_packet_data packet P;
                             let plane = wrap32 (sint w * sint h);
                             P \<leftarrow> on_bytes new_p 0 (memcpy plane in_d) P;
                             let off = plane;
                             let plane = plane sdiv 4;
                             if off < 0 \<or> off + plane < 0 then None
                             else do { P \<leftarrow> on_bytes new_p off (memcpy plane (drop (nat (off + plane)) in_d)) P;
                                       on_bytes new_p (off + plane) (memcpy plane (drop (nat off) in_d)) P } }) }
          else Some (-1, P) }"

definition bitmap_convert_yv12_to_image :: "methods \<Rightarrow> nat option \<Rightarrow> int \<Rightarrow> symbol \<Rightarrow> pool \<Rightarrow> (int \<times> pool) option" where
  "bitmap_convert_yv12_to_image E ic packet dest_template P =
     do { bitmap \<leftarrow> pdp_packet_bitmap_info packet P;
          data \<leftarrow> pdp_packet_data packet P;
          let w = b_width bitmap;
          let h = b_height bitmap;
          make_then (pdp_packet_new_image_YCrCb E ic w h P)
            (\<lambda>new_p. on_bytes new_p 0 (pdp_llconv data RIF_YVU__P411_U8 RIF_YVU__P411_S16 (sint w) (sint h))) }"

definition bitmap_convert_fallback :: "int \<Rightarrow> symbol \<Rightarrow> pool \<Rightarrow> (int \<times> pool) option" where
  "bitmap_convert_fallback packet dest_template P = Some (-1, P)"

section \<open>Factory and set-up\<close>

definition pdp_bitmap_factory :: "methods \<Rightarrow> nat option \<Rightarrow> symbol \<Rightarrow> pool \<Rightarrow> (int \<times> pool) option" where
  "pdp_bitmap_factory E bc type P =
     (case pdp_type_to_list type of
        first # s # rest \<Rightarrow>
          if s = ''grey'' \<or> s = ''yv12'' \<or> s = ''rgb''
          then (case rest of
                  [] \<Rightarrow> None
                | dims # rest \<Rightarrow>
                    do { let t = (if s = ''grey'' then PDP_BITMAP_GREY else if s = ''yv12'' then PDP_BITMAP_YV12 else PDP_BITMAP_RGB);
                         let vs = scan_dims 2 dims;
                         (p, P) \<leftarrow> pdp_packet_new_bitmap E bc t (word_of_int (dim 0 vs)) (word_of_int (dim 1 vs)) P;
                         if p \<noteq> -1
                         then do { header \<leftarrow> pdp_packet_header p P;
                                   if desc header \<noteq> Some type
                                   then do { P \<leftarrow> pdp_packet_delete p P; Some (-1, P) }
                                   else Some (p, P) }
                         else Some (p, P) })
          else Some (-1, P)
      | _ \<Rightarrow> None)"

definition bitmap_conversion :: "methods \<Rightarrow> nat option \<Rightarrow> nat option \<Rightarrow> nat \<Rightarrow> int \<Rightarrow> symbol \<Rightarrow> pool \<Rightarrow> (int \<times> pool) option" where
  "bitmap_conversion E ic bc m packet dest_template P =
     (if m = 8 then bitmap_convert_grey_to_grey8 E bc packet dest_template P
      else if m = 9 then bitmap_convert_grey8_to_grey E ic packet dest_template P
      else if m = 10 then bitmap_convert_YCrCb_to_rgb8 E bc packet dest_template P
      else if m = 11 then bitmap_convert_image_to_yv12 E bc packet dest_template P
      else if m = 12 then bitmap_convert_yv12_to_image E ic packet dest_template P
      else if m = 13 then bitmap_convert_rgb8_to_YCrCb E ic packet dest_template P
      else if m = 14 then bitmap_convert_rgb8_to_mchp E ic packet dest_template P
      else if m = 15 then bitmap_convert_mchp_to_rgb8 E bc packet dest_template P
      else if m = 16 then bitmap_convert_yv12_tofrom_i420 E bc packet dest_template P
      else if m = 17 then bitmap_convert_rgb8_to_rgba8 E bc packet dest_template P
      else if m = 18 then bitmap_convert_rgba8_to_rgb8 E bc packet dest_template P
      else if m = 19 then bitmap_convert_rgb8_to_bitmap_YCrCb E bc packet dest_template P
      else bitmap_convert_fallback packet dest_template P)"

definition pdp_bitmap_setup :: "nat \<Rightarrow> tstate \<Rightarrow> nat option \<times> tstate" where
  "pdp_bitmap_setup c T =
     (let T = T\<lparr>tpool := pdp_class_new c (Some ''bitmap/*/*'') True (tpool T)\<rparr>;
          prog = pdp_conversion_program_new [8];
          T = pdp_type_register_conversion ''image/grey/*'' ''bitmap/grey/*'' prog T;
          prog = pdp_conversion_program_new [9];
          T = pdp_type_register_conversion ''bitmap/grey/*'' ''image/grey/*'' prog T;
          prog = pdp_conversion_program_new [10];
          T = pdp_type_register_conversion ''image/YCrCb/*'' ''bitmap/rgb/*'' prog T;
          prog = pdp_conversion_program_new [11];
          T = pdp_type_register_conversion ''image/YCrCb/*'' ''bitmap/yv12/*'' prog T;
          T = pdp_type_register_conversion ''image/grey/*'' ''bitmap/yv12/*'' prog T;
          T = pdp_type_register_conversion ''image/YCrCb/*'' ''bitmap/*'' prog T;
          T = pdp_type_register_conversion ''image/grey/*'' ''bitmap/*'' prog T;
          prog = pdp_conversion_program_new [12];
          T = pdp_type_register_conversion ''bitmap/yv12/*'' ''image/YCrCb/*'' prog T;
          prog = pdp_conversion_program_new [13];
          T = pdp_type_register_conversion ''bitmap/rgb/*'' ''image/YCrCb/*'' prog T;
          prog = pdp_conversion_program_new [14];
          T = pdp_type_register_conversion ''bitmap/rgb/*'' ''image/multi/*'' prog T;
          prog = pdp_conversion_program_new [15];
          T = pdp_type_register_conversion ''image/multi/*'' ''bitmap/*/*'' prog T;
          prog = pdp_conversion_program_new [16];
          T = pdp_type_register_conversion ''bitmap/yv12/*'' ''bitmap/i420/*'' prog T;
          T = pdp_type_register_conversion ''bitmap/i420/*'' ''bitmap/yv12/*'' prog T;
          prog = pdp_conversion_program_new [17];
          T = pdp_type_register_conversion ''bitmap/rgb/*'' ''bitmap/rgba/*'' prog T;
          prog = pdp_conversion_program_new [18];
          T = pdp_type_register_conversion ''bitmap/rgba/*'' ''bitmap/rgb/*'' prog T;
          prog = pdp_conversion_program_new [13];
          T = pdp_type_register_conversion ''bitmap/rgb/*'' ''image/*/*'' prog T;
          prog = pdp_conversion_program_new [19];
          T = pdp_type_register_conversion ''bitmap/rgb/*'' ''bitmap/yv12/*'' prog T;
          prog = pdp_conversion_program_new [20];
          T = pdp_type_register_conversion ''image/*/*'' ''bitmap/*/*'' prog T;
          T = pdp_type_register_conversion ''bitmap/*/*'' ''image/*/*'' prog T;
          T = pdp_type_register_conversion ''bitmap/*/*'' ''bitmap/*/*'' prog T
      in (Some c, T))"

end
