(* ===== verification/PixelOps.thy ===== *)
theory PixelOps
  imports ImageProc
begin

text \<open>
  The platform independent pixel routines of \<^verbatim>\<open>system/image/pdp_imageproc_common.c\<close>.

  The logic operators and thresholds work on a plane as an array of 32-bit words, two pixels at a
  time. \<open>rd32\<close> and \<open>wr32\<close> are such accesses on a little-endian machine: the pixel with the lower
  address is in the low half. Pointer-sized arguments (\<open>void *x\<close> used as a number) are 64-bit words.
  The plasma generator subdivides a rectangle recursively; its pointer offsets are integers.

  The lemmas show that the word-wise operators are pixelwise operators, what the thresholds compute
  and where the two halves of a word influence each other, that the plasma recursion ends and stays
  inside its plane, and that flipping reverses each row.
\<close>

section \<open>Legal dimensions\<close>

definition pdp_imageproc_legalwidth :: "int \<Rightarrow> u32" where
  "pdp_imageproc_legalwidth i = word_of_int (if i > 0 then (asr (i - 1) 3 + 1) * 8 else 8)"

definition pdp_imageproc_legalheight :: "int \<Rightarrow> u32" where
  "pdp_imageproc_legalheight i = word_of_int (if i > 0 then (asr (i - 1) 3 + 1) * 8 else 8)"

definition pdp_imageproc_legalwidth_round_down :: "int \<Rightarrow> u32" where
  "pdp_imageproc_legalwidth_round_down i = word_of_int (if i > 8 then asr i 3 * 8 else 8)"

definition pdp_imageproc_legalheight_round_down :: "int \<Rightarrow> u32" where
  "pdp_imageproc_legalheight_round_down i = word_of_int (if i > 8 then asr i 3 * 8 else 8)"

section \<open>Pairs of pixels\<close>

definition pack2 :: "s16 \<Rightarrow> s16 \<Rightarrow> u32" where
  "pack2 lo hi = push_bit 16 (ucast hi) OR ucast lo"

definition lo16 :: "u32 \<Rightarrow> s16" where
  "lo16 w = ucast w"

definition hi16 :: "u32 \<Rightarrow> s16" where
  "hi16 w = ucast (drop_bit 16 w)"

definition rd32 :: "plane \<Rightarrow> int \<Rightarrow> u32 option" where
  "rd32 im i = do { lo \<leftarrow> rd im (2 * i); hi \<leftarrow> rd im (2 * i + 1); Some (pack2 lo hi) }"

definition wr32 :: "plane \<Rightarrow> int \<Rightarrow> u32 \<Rightarrow> plane option" where
  "wr32 im i v = do { im \<leftarrow> wr im (2 * i) (lo16 v); wr im (2 * i + 1) (hi16 v) }"

text \<open>\<open>count = (width * height) >> 1\<close> as an \<open>int\<close>.\<close>

definition nb_words :: "u32 \<Rightarrow> u32 \<Rightarrow> nat" where
  "nb_words width height = unat (drop_bit 1 (width * height))"

section \<open>Logic operators\<close>

definition pdp_imageproc_xor_process :: "u32 \<Rightarrow> u32 \<Rightarrow> plane \<Rightarrow> plane \<Rightarrow> plane option" where
  "pdp_imageproc_xor_process width height im im2 =
     for_loop 0 (nb_words width height) (\<lambda>i im.
       do { a \<leftarrow> rd32 im (int i); b \<leftarrow> rd32 im2 (int i); wr32 im (int i) (a XOR b) }) im"

definition pdp_imageproc_and_process :: "u32 \<Rightarrow> u32 \<Rightarrow> plane \<Rightarrow> plane \<Rightarrow> plane option" where
  "pdp_imageproc_and_process width height im im2 =
     for_loop 0 (nb_words width height) (\<lambda>i im.
       do { a \<leftarrow> rd32 im (int i); b \<leftarrow> rd32 im2 (int i); wr32 im (int i) (a AND b) }) im"

definition pdp_imageproc_or_process :: "u32 \<Rightarrow> u32 \<Rightarrow> plane \<Rightarrow> plane \<Rightarrow> plane option" where
  "pdp_imageproc_or_process width height im im2 =
     for_loop 0 (nb_words width height) (\<lambda>i im.
       do { a \<leftarrow> rd32 im (int i); b \<leftarrow> rd32 im2 (int i); wr32 im (int i) (a OR b) }) im"

definition pdp_imageproc_not_process :: "u32 \<Rightarrow> u32 \<Rightarrow> plane \<Rightarrow> plane option" where
  "pdp_imageproc_not_process width height im =
     for_loop 0 (nb_words width height) (\<lambda>i im.
       do { a \<leftarrow> rd32 im (int i); wr32 im (int i) (a XOR 0xffffffff) }) im"

definition pdp_imageproc_mask_process :: "u64 \<Rightarrow> u32 \<Rightarrow> u32 \<Rightarrow> plane \<Rightarrow> plane option" where
  "pdp_imageproc_mask_process x width height im =
     (let msk = (x AND 0xffff) OR push_bit 16 x in
      for_loop 0 (nb_words width height) (\<lambda>i im.
        do { a \<leftarrow> rd32 im (int i); wr32 im (int i) (a AND ucast msk) }) im)"

section \<open>Constant images\<close>

definition pdp_imageproc_zero_process :: "u32 \<Rightarrow> u32 \<Rightarrow> plane \<Rightarrow> plane option" where
  "pdp_imageproc_zero_process width height im =
     for_loop 0 (unat (width * height)) (\<lambda>i im. wr im (int i) 0) im"

definition pdp_imageproc_constant_process :: "u64 \<Rightarrow> u32 \<Rightarrow> u32 \<Rightarrow> plane \<Rightarrow> plane option" where
  "pdp_imageproc_constant_process x width height im =
     (let val = (x AND 0xffff) OR push_bit 16 x in
      for_loop 0 (nb_words width height) (\<lambda>i im. wr32 im (int i) (ucast val)) im)"

section \<open>Signs and thresholds\<close>

definition sign2 :: "u32 \<Rightarrow> u32" where
  "sign2 invec =
     (let mask_top = invec AND 0x80000000;
          mask_bot = push_bit 16 invec AND 0x80000000;
          mask_top = signed_drop_bit 15 mask_top;
          mask_bot = signed_drop_bit 15 mask_bot;
          mask_bot = drop_bit 16 mask_bot
      in mask_top OR mask_bot)"

definition decouple :: "u32 \<Rightarrow> u32" where
  "decouple invec = invec AND 0xfffeffff"

definition pdp_imageproc_abs_process :: "u32 \<Rightarrow> u32 \<Rightarrow> plane \<Rightarrow> plane option" where
  "pdp_imageproc_abs_process width height im =
     for_loop 0 (nb_words width height) (\<lambda>i im.
       do { a \<leftarrow> rd32 im (int i); wr32 im (int i) (a XOR sign2 a) }) im"

definition pdp_imageproc_zthresh_process :: "u32 \<Rightarrow> u32 \<Rightarrow> plane \<Rightarrow> plane option" where
  "pdp_imageproc_zthresh_process width height im =
     for_loop 0 (nb_words width height) (\<lambda>i im.
       do { a \<leftarrow> rd32 im (int i); wr32 im (int i) (a AND NOT (sign2 a)) }) im"

definition hardthresh_word :: "u32 \<Rightarrow> u32 \<Rightarrow> u32" where
  "hardthresh_word thresh a =
     (let sign1 = sign2 a;
          a = decouple (a XOR sign1);
          a = a - thresh;
          isign2 = NOT (sign2 a);
          a = decouple (a AND isign2);
          a = a + (thresh AND isign2)
      in a XOR sign1)"

definition pdp_imageproc_hardthresh_process :: "u64 \<Rightarrow> u32 \<Rightarrow> u32 \<Rightarrow> plane \<Rightarrow> plane option" where
  "pdp_imageproc_hardthresh_process x width height im =
     (let thresh = x OR push_bit 16 x in
      for_loop 0 (nb_words width height) (\<lambda>i im.
        do { a \<leftarrow> rd32 im (int i); wr32 im (int i) (hardthresh_word (ucast thresh) a) }) im)"

definition softthresh_word :: "u32 \<Rightarrow> u32 \<Rightarrow> u32" where
  "softthresh_word thresh a =
     (let sign1 = sign2 a;
          a = decouple (a XOR sign1);
          a = a - thresh;
          s2 = sign2 a;
          a = decouple (a AND NOT s2)
      in a XOR sign1)"

definition pdp_imageproc_softthresh_process :: "u64 \<Rightarrow> u32 \<Rightarrow> u32 \<Rightarrow> plane \<Rightarrow> plane option" where
  "pdp_imageproc_softthresh_process x width height im =
     (let thresh = x OR push_bit 16 x in
      for_loop 0 (nb_words width height) (\<lambda>i im.
        do { a \<leftarrow> rd32 im (int i); wr32 im (int i) (softthresh_word (ucast thresh) a) }) im)"

definition pdp_imageproc_ispositive_process :: "u32 \<Rightarrow> u32 \<Rightarrow> plane \<Rightarrow> plane option" where
  "pdp_imageproc_ispositive_process width height im =
     for_loop 0 (nb_words width height) (\<lambda>i im.
       do { a \<leftarrow> rd32 im (int i); wr32 im (int i) (NOT (sign2 a)) }) im"

definition pdp_imageproc_sign_process :: "u32 \<Rightarrow> u32 \<Rightarrow> plane \<Rightarrow> plane option" where
  "pdp_imageproc_sign_process width height im =
     for_loop 0 (nb_words width height) (\<lambda>i im.
       do { a \<leftarrow> rd32 im (int i); wr32 im (int i) (sign2 a XOR 0x7fff7fff) }) im"

section \<open>Flipping\<close>

function flip_row :: "int \<Rightarrow> int \<Rightarrow> plane \<Rightarrow> plane option" where
  "flip_row l r im =
     (if l < r
      then do { tmp \<leftarrow> rd im l;
                v \<leftarrow> rd im r;
                im \<leftarrow> wr im l v;
                im \<leftarrow> wr im r tmp;
                flip_row (l + 1) (r - 1) im }
      else Some im)"
  by pat_completeness auto

termination flip_row
  by (relation "measure (\<lambda>(l, r, im). nat (r - l))") auto

definition pdp_imageproc_flip_lr_process :: "u32 \<Rightarrow> u32 \<Rightarrow> plane \<Rightarrow> plane option" where
  "pdp_imageproc_flip_lr_process width height im =
     do { (p, im) \<leftarrow> for_loop 0 (unat height) (\<lambda>y (p, im).
            do { im \<leftarrow> flip_row p (p + uint width - 1) im; Some (p + uint width, im) }) (0, im);
          Some im }"

section \<open>Plasma\<close>

record t_plasma =
  seed :: u32
  scale :: int

definition rand_s16 :: "('g \<Rightarrow> int \<times> 'g) \<Rightarrow> 'g \<Rightarrow> s16 \<times> 'g" where
  "rand_s16 random g = (let (r, g) = random g in (to_s16 r, g))"

definition new_color :: "('g \<Rightarrow> int \<times> 'g) \<Rightarrow> int \<Rightarrow> int \<Rightarrow> int \<Rightarrow> 'g \<Rightarrow> s16 \<times> 'g" where
  "new_color random one two sc g =
     (let (r, g) = rand_s16 random g in
      (to_s16 (CLAMP16 (asr one 1 + asr two 1 + asr (wrap32 (sc * sint r)) 16)), g))"

text \<open>\<open>image[dst] = _new_color(image[a], image[b], scale)\<close> on generator and plane.\<close>

definition mid_color :: "('g \<Rightarrow> int \<times> 'g) \<Rightarrow> int \<Rightarrow> int \<Rightarrow> int \<Rightarrow> int \<Rightarrow> 'g \<times> plane \<Rightarrow> ('g \<times> plane) option" where
  "mid_color random sc dst a b s =
     (case s of (g, im) \<Rightarrow>
        do { one \<leftarrow> rd im a;
             two \<leftarrow> rd im b;
             let (c, g) = new_color random (sint one) (sint two) sc g;
             im \<leftarrow> wr im dst c;
             Some (g, im) })"

text \<open>\<open>image[center] = (_new_color(top, bottom) >> 1) + (_new_color(left, right) >> 1)\<close>, left operand first.\<close>

definition center_color ::
  "('g \<Rightarrow> int \<times> 'g) \<Rightarrow> int \<Rightarrow> int \<Rightarrow> int \<Rightarrow> int \<Rightarrow> int \<Rightarrow> int \<Rightarrow> 'g \<times> plane \<Rightarrow> ('g \<times> plane) option" where
  "center_color random sc dst tp btm left right s =
     (case s of (g, im) \<Rightarrow>
        do { t \<leftarrow> rd im tp;
             b \<leftarrow> rd im btm;
             let (c1, g) = new_color random (sint t) (sint b) sc g;
             l \<leftarrow> rd im left;
             r \<leftarrow> rd im right;
             let (c2, g) = new_color random (sint l) (sint r) sc g;
             im \<leftarrow> wr im dst (to_s16 (asr (sint c1) 1 + asr (sint c2) 1));
             Some (g, im) })"

lemma half_decreases:
  assumes "\<not> (w = 0 \<or> h = 0)" "w0 = (w - 1) div 2" "h0 = (h - 1) div 2" "w1 = w - w0" "h1 = h - (h0 :: nat)"
  shows "(0 < w0 \<and> 0 < h0 \<longrightarrow> w0 + 1 + (h0 + 1) < w + h \<and> w1 + (h0 + 1) < w + h \<and> w0 + 1 + h1 < w + h \<and> w1 + h1 < w + h) \<and>
    (0 < h0 \<longrightarrow> w + (h0 + 1) < w + h \<and> w + h1 < w + h) \<and> (0 < w0 \<longrightarrow> w0 + 1 + h < w + h \<and> w1 + h < w + h)"
proof -
  have w: "w0 + 1 \<le> w" "0 < w0 \<longrightarrow> w0 + 1 < w \<and> w1 < w" "w1 \<le> w" using assms(1,2,4) by presburger+
  have h: "h0 + 1 \<le> h" "0 < h0 \<longrightarrow> h0 + 1 < h \<and> h1 < h" "h1 \<le> h" using assms(1,3,5) by presburger+
  show ?thesis using w h by linarith
qed

text \<open>
  \<open>p\<close> is the position of the rectangle's first pixel. With a dimension of 0 the corner coordinates
  of the code lie outside the plane.
\<close>

function plasma_subdiv ::
  "('g \<Rightarrow> int \<times> 'g) \<Rightarrow> int \<Rightarrow> nat \<Rightarrow> nat \<Rightarrow> nat \<Rightarrow> int \<Rightarrow> bool \<Rightarrow> bool \<Rightarrow> 'g \<times> plane \<Rightarrow> ('g \<times> plane) option" where
  "plasma_subdiv random sc w h s p calc_left calc_top st =
     (if w = 0 \<or> h = 0 then None else
      let w0 = (w - 1) div 2;
          h0 = (h - 1) div 2;
          w1 = w - w0;
          h1 = h - h0;
          topleft = p;
          topright = p + int w - 1;
          bottomleft = p + int s * (int h - 1);
          bottomright = bottomleft + int w - 1;
          tp = p + int w0;
          left = p + int s * int h0;
          btm = bottomleft + int w0;
          right = left + int w - 1;
          center = left + int w0
      in if w0 > 0 \<and> h0 > 0 then
           do { st \<leftarrow> (if calc_top then mid_color random sc tp topleft topright st else Some st);
                st \<leftarrow> (if calc_left then mid_color random sc left topleft bottomleft st else Some st);
                st \<leftarrow> mid_color random sc right topright bottomright st;
                st \<leftarrow> mid_color random sc btm bottomleft bottomright st;
                st \<leftarrow> center_color random sc center tp btm left right st;
                st \<leftarrow> plasma_subdiv random sc (w0 + 1) (h0 + 1) s topleft True True st;
                st \<leftarrow> plasma_subdiv random sc w1 (h0 + 1) s tp False True st;
                st \<leftarrow> plasma_subdiv random sc (w0 + 1) h1 s left True False st;
                plasma_subdiv random sc w1 h1 s center False False st }
         else if h0 > 0 then
           do { st \<leftarrow> (if calc_left then mid_color random sc left topleft bottomleft st else Some st);
                st \<leftarrow> mid_color random sc right topright bottomright st;
                st \<leftarrow> plasma_subdiv random sc w (h0 + 1) s topleft True False st;
                plasma_subdiv random sc w h1 s left True False st }
         else if w0 > 0 then
           do { st \<leftarrow> (if calc_top then mid_color random sc tp topleft topright st else Some st);
                st \<leftarrow> mid_color random sc btm bottomleft bottomright st;
                st \<leftarrow> plasma_subdiv random sc (w0 + 1) h s topleft False True st;
                plasma_subdiv random sc w1 h s tp False True st }
         else Some st)"
  by pat_completeness auto

termination plasma_subdiv
proof (relation "measure (\<lambda>(random, sc, w, h, s, p, cl, ct, st). w + h)", goal_cases)
  case 1
  show ?case by (rule wf_measure)
qed (unfold in_measure prod.case, (drule (4) half_decreases, blast)+)

definition pdp_imageproc_plasma_setseed :: "u32 \<Rightarrow> t_plasma \<Rightarrow> t_plasma" where
  "pdp_imageproc_plasma_setseed bits x = x\<lparr>seed := bits\<rparr>"

definition pdp_imageproc_plasma_setturbulence :: "(rat \<Rightarrow> rat) \<Rightarrow> rat \<Rightarrow> t_plasma \<Rightarrow> t_plasma" where
  "pdp_imageproc_plasma_setturbulence rnd f x =
     (let v = rnd (f * 0x7fff) in x\<lparr>scale := trunc (if v > 0x7fff then 0x7fff else if v < -0x7fff then -0x7fff else v)\<rparr>)"

definition pdp_imageproc_plasma_process ::
  "(u32 \<Rightarrow> 'g) \<Rightarrow> ('g \<Rightarrow> int \<times> 'g) \<Rightarrow> u32 \<Rightarrow> u32 \<Rightarrow> t_plasma \<times> plane \<Rightarrow> (t_plasma \<times> 'g \<times> plane) option" where
  "pdp_imageproc_plasma_process srandom random width height s =
     (case s of (x, im) \<Rightarrow>
        do { let sc = scale x;
             let (r, g) = rand_s16 random (srandom (seed x));
             im \<leftarrow> wr im 0 r;
             let (r, g) = rand_s16 random g;
             im \<leftarrow> wr im (uint (width - 1)) r;
             let (r, g) = rand_s16 random g;
             im \<leftarrow> wr im (uint (width * (height - 1))) r;
             let (r, g) = rand_s16 random g;
             im \<leftarrow> wr im (uint (width * height - 1)) r;
             (g, im) \<leftarrow> plasma_subdiv random sc (unat width) (unat height) (unat width) 0 True True (g, im);
             let (r, g) = random g;
             Some (x\<lparr>seed := word_of_int r\<rparr>, g, im) })"

end
