(* ===== verification/PixelOpsOk.thy ===== *)
theory PixelOpsOk
  imports PixelOps ImageProcOk
begin

text \<open>
  Correctness of the word-wise pixel routines, the thresholds, the plasma generator and flipping.
\<close>

section \<open>The two halves of a word\<close>

lemma bit_pack2: "bit (pack2 lo hi) n \<longleftrightarrow> (if n < 16 then bit lo n else bit hi (n - 16))"
  by (auto simp: pack2_def bit_simps dest: bit_imp_le_length)

lemma lo16_pack2 [simp]: "lo16 (pack2 lo hi) = lo"
  by (rule bit_word_eqI) (simp add: lo16_def bit_simps bit_pack2)

lemma hi16_pack2 [simp]: "hi16 (pack2 lo hi) = hi"
  by (rule bit_word_eqI) (simp add: hi16_def bit_simps bit_pack2)

lemma pack2_lo_hi [simp]: "pack2 (lo16 w) (hi16 w) = w"
  by (rule bit_word_eqI) (auto simp: bit_pack2 lo16_def hi16_def bit_simps)

lemma pack2_xor: "pack2 a b XOR pack2 c d = pack2 (a XOR c) (b XOR d)"
  by (rule bit_word_eqI) (simp add: bit_pack2 bit_simps)

lemma pack2_and: "pack2 a b AND pack2 c d = pack2 (a AND c) (b AND d)"
  by (rule bit_word_eqI) (simp add: bit_pack2 bit_simps)

lemma pack2_or: "pack2 a b OR pack2 c d = pack2 (a OR c) (b OR d)"
  by (rule bit_word_eqI) (simp add: bit_pack2 bit_simps)

lemma pack2_not: "NOT (pack2 a b) = pack2 (NOT a) (NOT b)"
  by (rule bit_word_eqI) (auto simp: bit_pack2 bit_simps)

lemmas pack2_ops = pack2_xor pack2_and pack2_or pack2_not

definition smask :: "s16 \<Rightarrow> s16" where
  "smask a = (if sint a < 0 then -1 else 0)"

lemma bit_smask: "bit (smask a) n \<longleftrightarrow> n < 16 \<and> bit a 15"
  using bit_last_iff [of a] by (simp add: smask_def bit_minus_1_iff)

lemma bit_top32: "bit (0x80000000 :: nat) m \<longleftrightarrow> m = 31" "bit (0x80000000 :: int) m \<longleftrightarrow> m = 31"
  using bit_exp_iff [of 31 m, where 'a = nat] bit_exp_iff [of 31 m, where 'a = int] by (auto simp: possible_bit_def)

lemma sign2_pack2: "sign2 (pack2 a b) = pack2 (smask a) (smask b)"
proof -
  have "bit (sign2 (pack2 a b)) n = bit (pack2 (smask a) (smask b)) n" if "n < 32" for n
    unfolding sign2_def Let_def using that
    by (cases "n = 16"; cases "n = 0") (auto simp: bit_simps bit_pack2 bit_smask bit_signed_drop_bit_iff min_def bit_top32)
  then show ?thesis by (intro bit_word_eqI) simp
qed

lemma const_words: "(0xffffffff :: u32) = pack2 (-1) (-1)" "(0x7fff7fff :: u32) = pack2 0x7fff 0x7fff"
proof -
  have "pack2 0 0 = 0" by (simp add: pack2_def)
  then have "pack2 (-1) (-1) = -1" using pack2_not [of 0 0] by simp
  moreover have "(0xffffffff :: u32) = -1" by simp
  ultimately show "(0xffffffff :: u32) = pack2 (-1) (-1)" by metis
qed (simp add: pack2_def)

section \<open>Loops over words\<close>

lemma rd32_nat: "2 * i + 1 < length b \<Longrightarrow> rd32 b (int i) = Some (pack2 (b ! (2 * i)) (b ! (2 * i + 1)))"
  using rd_nat [of "2 * i" b] rd_nat [of "2 * i + 1" b] by (simp add: rd32_def add.commute)

lemma wr32_nat: "2 * i + 1 < length b \<Longrightarrow> wr32 b (int i) v = Some (b[2 * i := lo16 v, 2 * i + 1 := hi16 v])"
  using wr_nat [of "2 * i" b] wr_nat [of "2 * i + 1" "b[2 * i := lo16 v]"] by (simp add: wr32_def add.commute)

lemma words_loop:
  assumes len: "length im = 2 * n"
    and body: "\<And>i b. i < n \<Longrightarrow> length b = 2 * n \<Longrightarrow> f i b = do { a \<leftarrow> rd32 b (int i); wr32 b (int i) (F i a) }"
  shows "for_loop 0 n f im = Some (map (\<lambda>k. if even k then lo16 (F (k div 2) (pack2 (im ! k) (im ! (k + 1))))
    else hi16 (F (k div 2) (pack2 (im ! (k - 1)) (im ! k)))) [0..<2 * n])"
proof -
  let ?out = "\<lambda>k. if even k then lo16 (F (k div 2) (pack2 (im ! k) (im ! (k + 1))))
    else hi16 (F (k div 2) (pack2 (im ! (k - 1)) (im ! k)))"
  let ?I = "\<lambda>j b. length b = 2 * n \<and> (\<forall>k < 2 * n. b ! k = (if k < 2 * j then ?out k else im ! k))"
  have "\<exists>b. for_loop 0 n f im = Some b \<and> ?I (0 + n) b"
  proof (rule for_loop_inv)
    fix j b
    assume j: "j < 0 + n" and I: "?I j b"
    let ?v = "F j (pack2 (im ! (2 * j)) (im ! (2 * j + 1)))"
    have bj: "b ! (2 * j) = im ! (2 * j)" "b ! (2 * j + 1) = im ! (2 * j + 1)" "2 * j + 1 < length b" using I j by simp_all
    then have "f j b = Some (b[2 * j := lo16 ?v, 2 * j + 1 := hi16 ?v])"
      using body [of j b] j I by (simp add: rd32_nat wr32_nat)
    moreover have "b[2 * j := lo16 ?v, 2 * j + 1 := hi16 ?v] ! k = (if k < 2 * Suc j then ?out k else im ! k)" if "k < 2 * n" for k
    proof -
      have "k = 2 * j \<or> k = 2 * j + 1 \<or> k < 2 * j \<or> 2 * Suc j \<le> k" by presburger
      then consider "k = 2 * j" | "k = 2 * j + 1" | "k < 2 * j" | "2 * Suc j \<le> k" by blast
      then show ?thesis using I that bj(3) by cases simp_all
    qed
    ultimately show "\<exists>b'. f j b = Some b' \<and> ?I (Suc j) b'" using I by simp
  qed (use len in simp)
  then obtain b where b: "for_loop 0 n f im = Some b" "?I n b" by auto
  have "b = map ?out [0..<2 * n]" by (rule nth_equalityI) (use b(2) in auto)
  with b(1) show ?thesis by simp
qed

lemma words_loop_map:
  assumes "length im = 2 * n"
    and "\<And>i b. i < n \<Longrightarrow> length b = 2 * n \<Longrightarrow> f i b = do { a \<leftarrow> rd32 b (int i); wr32 b (int i) (F a) }"
    and lanes: "\<And>a b. F (pack2 a b) = pack2 (g a) (g b)"
  shows "for_loop 0 n f im = Some (map g im)"
proof -
  have "for_loop 0 n f im = Some (map (\<lambda>k. g (im ! k)) [0..<2 * n])"
    by (subst words_loop [OF assms(1), where F = "\<lambda>_. F"]) (use assms in auto)
  then show ?thesis using map_nth_upt [of "2 * n" im g] assms(1) by simp
qed

lemma lanes2:
  assumes "\<And>a b c d. F (pack2 a b) (pack2 c d) = pack2 (g a c) (g b d)"
  shows "(if even k then lo16 (F (pack2 (im ! k) (im ! (k + 1))) (pack2 (im2 ! (2 * (k div 2))) (im2 ! (2 * (k div 2) + 1))))
    else hi16 (F (pack2 (im ! (k - 1)) (im ! k)) (pack2 (im2 ! (2 * (k div 2))) (im2 ! (2 * (k div 2) + 1))))) = g (im ! k) (im2 ! k)"
  by (cases "even k") (auto simp: assms elim!: evenE oddE)

lemma words_loop_map2:
  assumes "length im = 2 * n" "length im2 = 2 * n"
    and lanes: "\<And>a b c d. F (pack2 a b) (pack2 c d) = pack2 (g a c) (g b d)"
  shows "for_loop 0 n (\<lambda>i im. do { a \<leftarrow> rd32 im (int i); b \<leftarrow> rd32 im2 (int i); wr32 im (int i) (F a b) }) im = Some (map2 g im im2)"
proof -
  let ?b = "\<lambda>i. pack2 (im2 ! (2 * i)) (im2 ! (2 * i + 1))"
  have rd2: "rd32 im2 (int i) = Some (?b i)" if "i < n" for i using that assms(2) by (intro rd32_nat) simp
  define L where "L k = (if even k then lo16 (F (pack2 (im ! k) (im ! (k + 1))) (?b (k div 2)))
        else hi16 (F (pack2 (im ! (k - 1)) (im ! k)) (?b (k div 2))))" for k
  have L: "L k = g (im ! k) (im2 ! k)" for k unfolding L_def by (rule lanes2 [where F = F and g = g]) (rule lanes)
  have "for_loop 0 n (\<lambda>i im. do { a \<leftarrow> rd32 im (int i); b \<leftarrow> rd32 im2 (int i); wr32 im (int i) (F a b) }) im = Some (map L [0..<2 * n])"
    unfolding L_def by (rule words_loop [OF assms(1), where F = "\<lambda>i a. F a (?b i)"]) (simp only: rd2 bind.bind_lunit)
  moreover have "map L [0..<2 * n] = map2 g im im2"
    unfolding L by (rule map2_nth_upt) (simp_all only: assms(1,2))
  ultimately show ?thesis by simp
qed

lemma nb_words_half: "nb_words w h = unat (w * h) div 2"
  unfolding nb_words_def unat_drop_bit_eq by (simp add: drop_bit_eq_div)

section \<open>Logic operators and signs\<close>

lemma logic_pixelwise:
  assumes "length im = unat (w * h)" "even (unat (w * h))" "length im2 = unat (w * h)"
  shows "pdp_imageproc_xor_process w h im im2 = Some (map2 (XOR) im im2)"
    and "pdp_imageproc_and_process w h im im2 = Some (map2 (AND) im im2)"
    and "pdp_imageproc_or_process w h im im2 = Some (map2 (OR) im im2)"
proof -
  have n: "length im = 2 * nb_words w h" "length im2 = 2 * nb_words w h" using assms by (simp_all add: nb_words_half)
  show "pdp_imageproc_xor_process w h im im2 = Some (map2 (XOR) im im2)"
    unfolding pdp_imageproc_xor_process_def by (rule words_loop_map2 [OF n, where F = "(XOR)" and g = "(XOR)"]) (rule pack2_xor)
  show "pdp_imageproc_and_process w h im im2 = Some (map2 (AND) im im2)"
    unfolding pdp_imageproc_and_process_def by (rule words_loop_map2 [OF n, where F = "(AND)" and g = "(AND)"]) (rule pack2_and)
  show "pdp_imageproc_or_process w h im im2 = Some (map2 (OR) im im2)"
    unfolding pdp_imageproc_or_process_def by (rule words_loop_map2 [OF n, where F = "(OR)" and g = "(OR)"]) (rule pack2_or)
qed

lemma signs_pixelwise:
  assumes "length im = unat (w * h)" "even (unat (w * h))"
  shows "pdp_imageproc_not_process w h im = Some (map NOT im)"
    and "pdp_imageproc_abs_process w h im = Some (map (\<lambda>a. if sint a < 0 then NOT a else a) im)"
    and "pdp_imageproc_zthresh_process w h im = Some (map (\<lambda>a. if sint a < 0 then 0 else a) im)"
    and "pdp_imageproc_ispositive_process w h im = Some (map (\<lambda>a. if sint a < 0 then 0 else -1) im)"
    and "pdp_imageproc_sign_process w h im = Some (map (\<lambda>a. if sint a < 0 then -0x8000 else 0x7fff) im)"
proof -
  have n: "length im = 2 * nb_words w h" using assms by (simp add: nb_words_half)
  show "pdp_imageproc_not_process w h im = Some (map NOT im)" unfolding pdp_imageproc_not_process_def
    by (rule words_loop_map [OF n refl]) (simp add: const_words pack2_ops)
  show "pdp_imageproc_abs_process w h im = Some (map (\<lambda>a. if sint a < 0 then NOT a else a) im)" unfolding pdp_imageproc_abs_process_def
    by (rule words_loop_map [OF n refl]) (simp add: sign2_pack2 pack2_ops smask_def)
  show "pdp_imageproc_zthresh_process w h im = Some (map (\<lambda>a. if sint a < 0 then 0 else a) im)" unfolding pdp_imageproc_zthresh_process_def
    by (rule words_loop_map [OF n refl]) (simp add: sign2_pack2 pack2_ops smask_def)
  show "pdp_imageproc_ispositive_process w h im = Some (map (\<lambda>a. if sint a < 0 then 0 else -1) im)" unfolding pdp_imageproc_ispositive_process_def
    by (rule words_loop_map [OF n refl]) (simp add: sign2_pack2 pack2_ops smask_def)
  show "pdp_imageproc_sign_process w h im = Some (map (\<lambda>a. if sint a < 0 then -0x8000 else 0x7fff) im)" unfolding pdp_imageproc_sign_process_def
    by (rule words_loop_map [OF n refl]) (simp add: sign2_pack2 pack2_ops smask_def const_words)
qed

section \<open>Thresholds\<close>

lemma lo16_minus: "lo16 (u - v) = lo16 u - lo16 v"
proof -
  have "take_bit 16 (u - v) = take_bit 16 (take_bit 32 u - take_bit 32 v)" for u v :: int
    using take_bit_diff [of 16 "take_bit 32 u" "take_bit 32 v"] take_bit_diff [of 16 u v] by (simp add: take_bit_take_bit)
  then show ?thesis unfolding lo16_def by transfer simp
qed

lemma lo16_plus: "lo16 (u + v) = lo16 u + lo16 v"
proof -
  have "take_bit 16 (u + v) = take_bit 16 (take_bit 32 u + take_bit 32 v)" for u v :: int
    using take_bit_add [of 16 "take_bit 32 u" "take_bit 32 v"] take_bit_add [of 16 u v] by (simp add: take_bit_take_bit)
  then show ?thesis unfolding lo16_def by transfer simp
qed

lemma lo16_logic: "lo16 (u AND v) = lo16 u AND lo16 v" "lo16 (u XOR v) = lo16 u XOR lo16 v" "lo16 (NOT u) = NOT (lo16 u)"
  by (rule bit_word_eqI; simp add: lo16_def bit_simps)+

lemma lo16_sign2: "lo16 (sign2 w) = smask (lo16 w)"
  using sign2_pack2 [of "lo16 w" "hi16 w"] by simp

lemma lo16_decouple: "lo16 (decouple w) = lo16 w"
proof -
  have "lo16 0xfffeffff = 0xffff" by (simp add: lo16_def)
  also have "(0xffff :: s16) = -1" by simp
  finally show ?thesis unfolding decouple_def lo16_logic by simp
qed

lemmas lo16_ops = lo16_minus lo16_plus lo16_logic lo16_sign2 lo16_decouple

lemma abs_nonneg: "0 \<le> sint (a XOR smask a)"
  using bit_last_iff [of "a XOR smask a"] by (simp add: bit_simps bit_smask)

lemma thresh_cmp:
  assumes "0 \<le> sint t" "0 \<le> sint x"
  shows "sint (x - t :: s16) < 0 \<longleftrightarrow> sint x < sint t"
  using assms sint_s16_bounds [of t] sint_s16_bounds [of x]
  by (simp add: sint_word_ariths signed_take_bit_int_eq_self)

definition hard_ref :: "s16 \<Rightarrow> s16 \<Rightarrow> s16" where
  "hard_ref t a = (if sint t \<le> sint (a XOR smask a) then a else smask a)"

definition soft_ref :: "s16 \<Rightarrow> s16 \<Rightarrow> s16" where
  "soft_ref t a = (if sint t \<le> sint (a XOR smask a) then ((a XOR smask a) - t) XOR smask a else smask a)"

lemma hard_low: "0 \<le> sint t \<Longrightarrow> lo16 (hardthresh_word (pack2 t t) (pack2 a b)) = hard_ref t a"
  using thresh_cmp [OF _ abs_nonneg, of t a]
  by (simp add: hardthresh_word_def Let_def lo16_ops hard_ref_def) (auto simp: smask_def ac_simps not_less)

lemma soft_low: "0 \<le> sint t \<Longrightarrow> lo16 (softthresh_word (pack2 t t) (pack2 a b)) = soft_ref t a"
  using thresh_cmp [OF _ abs_nonneg, of t a]
  by (simp add: softthresh_word_def Let_def lo16_ops soft_ref_def) (auto simp: smask_def ac_simps not_less)

lemma thresh_word:
  assumes "x \<le> (0x7fff :: u64)"
  shows "(ucast (x OR push_bit 16 x) :: u32) = pack2 (ucast x) (ucast x)" "0 \<le> sint (ucast x :: s16)"
proof -
  have ux: "unat x \<le> 0x7fff" using assms by (simp add: word_le_nat_alt)
  have hi: "\<not> bit x n" if "15 \<le> n" for n
  proof
    assume "bit x n"
    then have "bit (unat x) n" by (simp add: bit_simps)
    then have "2 ^ n \<le> unat x" by (metis bit_iff_odd div_less even_zero not_less)
    moreover have "(2 :: nat) ^ 15 \<le> 2 ^ n" using that by (intro power_increasing) simp_all
    ultimately show False using ux by simp
  qed
  show "(ucast (x OR push_bit 16 x) :: u32) = pack2 (ucast x) (ucast x)"
    by (rule bit_word_eqI) (auto simp: bit_pack2 bit_simps hi)
  show "0 \<le> sint (ucast x :: s16)" using bit_last_iff [of "ucast x :: s16"] hi [of 15] by (simp add: bit_simps)
qed

lemma thresholds_low:
  assumes "length im = unat (w * h)" "even (unat (w * h))" "x \<le> 0x7fff" "even k" "k < length im"
  shows "\<exists>im'. pdp_imageproc_hardthresh_process x w h im = Some im' \<and> length im' = length im \<and> im' ! k = hard_ref (ucast x) (im ! k)"
    and "\<exists>im'. pdp_imageproc_softthresh_process x w h im = Some im' \<and> length im' = length im \<and> im' ! k = soft_ref (ucast x) (im ! k)"
proof -
  have n: "length im = 2 * nb_words w h" using assms by (simp add: nb_words_half)
  note t = thresh_word [OF assms(3)]
  show "\<exists>im'. pdp_imageproc_hardthresh_process x w h im = Some im' \<and> length im' = length im \<and> im' ! k = hard_ref (ucast x) (im ! k)"
    unfolding pdp_imageproc_hardthresh_process_def Let_def t(1)
    by (subst words_loop [OF n, where F = "\<lambda>_. hardthresh_word (pack2 (ucast x) (ucast x))"])
      (use n assms(4,5) hard_low [OF t(2)] in simp_all)
  show "\<exists>im'. pdp_imageproc_softthresh_process x w h im = Some im' \<and> length im' = length im \<and> im' ! k = soft_ref (ucast x) (im ! k)"
    unfolding pdp_imageproc_softthresh_process_def Let_def t(1)
    by (subst words_loop [OF n, where F = "\<lambda>_. softthresh_word (pack2 (ucast x) (ucast x))"])
      (use n assms(4,5) soft_low [OF t(2)] in simp_all)
qed

section \<open>Flipping\<close>

declare flip_row.simps [simp del]

lemma flip_row_pixels:
  assumes "0 \<le> l" "r < int (length im)" "l \<le> r + 1"
  shows "\<exists>im'. flip_row l r im = Some im' \<and> length im' = length im \<and>
    (\<forall>k < length im. im' ! k = (if l \<le> int k \<and> int k \<le> r then im ! nat (l + r - int k) else im ! k))"
  using assms
proof (induction l r im rule: flip_row.induct)
  case (1 l r im)
  show ?case
  proof (cases "l < r")
    case False
    then have "l = r \<or> l = r + 1" using 1(4) by linarith
    with False show ?thesis by (auto simp: flip_row.simps [of l r])
  next
    case True
    let ?im = "im[nat l := im ! nat r, nat r := im ! nat l]"
    have in_l: "0 \<le> l" "l < int (length im)" "0 \<le> r" "r < int (length im)" using 1(2-4) True by simp_all
    have acc: "rd im l = Some (im ! nat l)" "rd im r = Some (im ! nat r)" "wr im l (im ! nat r) = Some (im[nat l := im ! nat r])"
      "wr (im[nat l := im ! nat r]) r (im ! nat l) = Some ?im" using in_l by (simp_all add: rd_in wr_in)
    obtain im' where im': "flip_row (l + 1) (r - 1) ?im = Some im'" "length im' = length im"
      "\<And>k. k < length im \<Longrightarrow> im' ! k = (if l + 1 \<le> int k \<and> int k \<le> r - 1 then ?im ! nat (l + r - int k) else ?im ! k)"
      using 1(1) [OF True acc] in_l True by (auto simp: algebra_simps)
    have f: "flip_row l r im = Some im'"
      using im'(1) True in_l by (simp add: flip_row.simps [of l r] rd_in wr_in)
    have "im' ! k = (if l \<le> int k \<and> int k \<le> r then im ! nat (l + r - int k) else im ! k)" if k: "k < length im" for k
    proof -
      consider "int k = l" | "int k = r" | "l + 1 \<le> int k \<and> int k \<le> r - 1" | "int k < l \<or> r < int k" by linarith
      then show ?thesis
      proof cases
        case 3
        then have "nat (l + r - int k) \<noteq> nat l" "nat (l + r - int k) \<noteq> nat r" using in_l by (simp_all add: eq_nat_nat_iff)
        with 3 im'(3) [OF k] show ?thesis by simp
      next
        case 1
        then have "nat l = k" by simp
        with 1 True im'(3) [OF k] k show ?thesis by (auto simp: nth_list_update)
      next
        case 2
        then have "nat r = k" by simp
        with 2 True im'(3) [OF k] k show ?thesis by (auto simp: nth_list_update)
      next
        case 4
        then have "nat l \<noteq> k" "nat r \<noteq> k" using in_l True by linarith+
        with 4 im'(3) [OF k] True show ?thesis by (auto simp: nth_list_update)
      qed
    qed
    with f im'(2) show ?thesis by blast
  qed
qed

lemma flip_row_line:
  assumes "line_ok im p 1 n"
  shows "\<exists>im'. flip_row p (p + int n - 1) im = Some im' \<and> line_upd im p 1 (rev (getline im p 1 n)) im'"
proof (cases "n = 0")
  case True
  then show ?thesis by (simp add: flip_row.simps getline_def line_upd_def)
next
  case False
  have ok: "0 \<le> pos p 1 i \<and> pos p 1 i < int (length im)" if "i < n" for i using assms that by (simp add: line_ok_def)
  have b: "0 \<le> p" "p + int n - 1 < int (length im)" using ok [of 0] ok [of "n - 1"] False by (simp_all add: of_nat_diff)
  obtain im' where im': "flip_row p (p + int n - 1) im = Some im'" "length im' = length im"
    "\<And>k. k < length im \<Longrightarrow> im' ! k = (if p \<le> int k \<and> int k \<le> p + int n - 1 then im ! nat (p + (p + int n - 1) - int k) else im ! k)"
    using flip_row_pixels [OF b] by auto
  have "line_upd im p 1 (rev (getline im p 1 n)) im'"
    unfolding line_upd_def
  proof (intro conjI allI impI)
    show "getline im' p 1 (length (rev (getline im p 1 n))) = rev (getline im p 1 n)"
    proof (rule nth_equalityI)
      fix i
      assume "i < length (getline im' p 1 (length (rev (getline im p 1 n))))"
      then have i: "i < n" by simp
      have "im' ! nat (p + int i) = im ! nat (p + (p + int n - 1) - (p + int i))"
        using im'(3) [of "nat (p + int i)"] i b by (simp add: nat_less_iff)
      also have "p + (p + int n - 1) - (p + int i) = p + int (n - Suc i)" using i by (simp add: of_nat_diff)
      finally show "getline im' p 1 (length (rev (getline im p 1 n))) ! i = rev (getline im p 1 n) ! i"
        using i by (simp add: rev_nth)
    qed simp
  next
    fix k
    assume k: "k < length im" "\<forall>i < length (rev (getline im p 1 n)). int k \<noteq> pos p 1 i"
    have "\<not> (p \<le> int k \<and> int k \<le> p + int n - 1)"
    proof
      assume "p \<le> int k \<and> int k \<le> p + int n - 1"
      then have "nat (int k - p) < n" "int k = pos p 1 (nat (int k - p))" by auto
      with k(2) show False by (metis length_getline length_rev)
    qed
    then show "im' ! k = im ! k" using im'(3) [OF k(1)] by auto
  qed (rule im'(2))
  with im'(1) show ?thesis by blast
qed

lemma flip_lr_rows:
  assumes len: "length im = unat w * unat h"
  shows "\<exists>im'. pdp_imageproc_flip_lr_process w h im = Some im' \<and> length im' = length im \<and>
    (\<forall>y < unat h. getline im' (int (unat w * y)) 1 (unat w) = rev (getline im (int (unat w * y)) 1 (unat w)))"
proof -
  define W where "W = unat w"
  have uw: "uint w = int W" by (simp add: W_def)
  let ?body = "\<lambda>y (p, im). do { im \<leftarrow> flip_row p (p + int W - 1) im; Some (p + int W, im) }"
  let ?I = "\<lambda>y (p, b). p = int (W * y) \<and> length b = length im \<and> (\<forall>j < unat h. getline b (int (W * j)) 1 W =
    (if j < y then rev (getline im (int (W * j)) 1 W) else getline im (int (W * j)) 1 W))"
  have "\<exists>s'. for_loop 0 (unat h) ?body (0, im) = Some s' \<and> ?I (0 + unat h) s'"
  proof (rule for_loop_inv)
    fix y s
    assume y: "y < 0 + unat h" and I: "?I y s"
    obtain b where s: "s = (int (W * y), b)" "length b = length im" using I by (cases s) auto
    have G: "getline b (int (W * j)) 1 W = (if j < y then rev (getline im (int (W * j)) 1 W) else getline im (int (W * j)) 1 W)"
      if "j < unat h" for j using I s that by auto
    have ok: "line_ok b (int (W * j)) 1 W" if "j < unat h" for j using row_ok [of b W "unat h" j] s(2) len that by (simp add: W_def)
    obtain b' where b': "flip_row (int (W * y)) (int (W * y) + int W - 1) b = Some b'"
      "line_upd b (int (W * y)) 1 (rev (getline b (int (W * y)) 1 W)) b'" using flip_row_line [OF ok] y by auto
    have "getline b' (int (W * j)) 1 W = (if j < Suc y then rev (getline im (int (W * j)) 1 W) else getline im (int (W * j)) 1 W)"
      if j: "j < unat h" for j
    proof (cases "j = y")
      case True
      then show ?thesis using b'(2) G [of y] y by (simp add: line_upd_def)
    next
      case False
      have "getline b' (int (W * j)) 1 W = getline b (int (W * j)) 1 W"
      proof (rule getline_other [OF b'(2) ok [OF j]])
        fix i k
        assume "i < W" "k < length (rev (getline b (int (W * y)) 1 W))"
        then have "W * j + i \<noteq> W * y + k" using rows_apart [of i W k j y] False by auto
        then show "pos (int (W * j)) 1 i \<noteq> pos (int (W * y)) 1 k" by (simp flip: of_nat_mult of_nat_add)
      qed
      then show ?thesis using G [OF j] False by auto
    qed
    moreover have "?body y s = Some (int (W * Suc y), b')" using b'(1) by (simp add: s)
    moreover have "length b' = length im" using b'(2) s(2) by (simp add: line_upd_length)
    ultimately show "\<exists>s'. ?body y s = Some s' \<and> ?I (Suc y) s'" by auto
  qed simp
  then obtain p im' where "for_loop 0 (unat h) ?body (0, im) = Some (p, im')" "length im' = length im"
    "\<forall>j < unat h. getline im' (int (W * j)) 1 W = rev (getline im (int (W * j)) 1 W)" by auto
  then show ?thesis unfolding pdp_imageproc_flip_lr_process_def uw W_def [symmetric] by auto
qed

section \<open>Plasma\<close>

declare plasma_subdiv.simps [simp del]

definition xy :: "int \<Rightarrow> nat \<Rightarrow> nat \<Rightarrow> nat \<Rightarrow> int" where
  "xy p s x y = p + int x + int s * int y"

definition region_ok :: "int \<Rightarrow> nat \<Rightarrow> nat \<Rightarrow> nat \<Rightarrow> nat \<Rightarrow> bool" where
  "region_ok p w h s L \<longleftrightarrow> (\<forall>x < w. \<forall>y < h. 0 \<le> xy p s x y \<and> xy p s x y < int L)"

lemma region_sub:
  assumes "region_ok p w h s L" "x + w' \<le> w" "y + h' \<le> h" "q = xy p s x y"
  shows "region_ok q w' h' s L"
  unfolding region_ok_def
proof (intro allI impI)
  fix i j
  assume "i < w'" "j < h'"
  then have "x + i < w" "y + j < h" using assms(2,3) by simp_all
  then have "0 \<le> xy p s (x + i) (y + j) \<and> xy p s (x + i) (y + j) < int L" using assms(1) unfolding region_ok_def by blast
  then show "0 \<le> xy q s i j \<and> xy q s i j < int L" by (simp add: assms(4) xy_def algebra_simps)
qed

text \<open>Steps that succeed on every state with a plane of \<open>L\<close> pixels, and keep its length.\<close>

definition total_on :: "nat \<Rightarrow> ('g \<times> plane \<Rightarrow> ('g \<times> plane) option) \<Rightarrow> bool" where
  "total_on L f \<longleftrightarrow> (\<forall>st. length (snd st) = L \<longrightarrow> (\<exists>st'. f st = Some st' \<and> length (snd st') = L))"

lemma total_on_bind: "total_on L f \<Longrightarrow> total_on L g \<Longrightarrow> total_on L (\<lambda>st. Option.bind (f st) g)"
  unfolding total_on_def by fastforce

lemma total_on_Some: "total_on L (\<lambda>st. Some st)"
  by (simp add: total_on_def)

lemma total_on_if: "total_on L f \<Longrightarrow> total_on L (\<lambda>st. if b then f st else Some st)"
  by (simp add: total_on_def)

lemma total_on_mid:
  assumes "0 \<le> d" "d < int L" "0 \<le> a" "a < int L" "0 \<le> b" "b < int L"
  shows "total_on L (mid_color random sc d a b)"
  using assms by (auto simp: total_on_def mid_color_def rd_in wr_in split: prod.splits)

lemma total_on_center:
  assumes "0 \<le> d" "d < int L" "0 \<le> a" "a < int L" "0 \<le> b" "b < int L" "0 \<le> l" "l < int L" "0 \<le> r" "r < int L"
  shows "total_on L (center_color random sc d a b l r)"
  using assms by (auto simp: total_on_def center_color_def rd_in wr_in split: prod.splits)

text \<open>One level of the recursion, with corners and midpoints as coordinates in the rectangle.\<close>

lemma plasma_level:
  assumes "0 < w" "0 < h"
  defines "w0 \<equiv> (w - 1) div 2" and "h0 \<equiv> (h - 1) div 2"
  shows "plasma_subdiv random sc w h s p cl ct st =
    (if 0 < w0 \<and> 0 < h0 then
       do { st \<leftarrow> (if ct then mid_color random sc (xy p s w0 0) p (xy p s (w - 1) 0) st else Some st);
            st \<leftarrow> (if cl then mid_color random sc (xy p s 0 h0) p (xy p s 0 (h - 1)) st else Some st);
            st \<leftarrow> mid_color random sc (xy p s (w - 1) h0) (xy p s (w - 1) 0) (xy p s (w - 1) (h - 1)) st;
            st \<leftarrow> mid_color random sc (xy p s w0 (h - 1)) (xy p s 0 (h - 1)) (xy p s (w - 1) (h - 1)) st;
            st \<leftarrow> center_color random sc (xy p s w0 h0) (xy p s w0 0) (xy p s w0 (h - 1)) (xy p s 0 h0) (xy p s (w - 1) h0) st;
            st \<leftarrow> plasma_subdiv random sc (w0 + 1) (h0 + 1) s p True True st;
            st \<leftarrow> plasma_subdiv random sc (w - w0) (h0 + 1) s (xy p s w0 0) False True st;
            st \<leftarrow> plasma_subdiv random sc (w0 + 1) (h - h0) s (xy p s 0 h0) True False st;
            plasma_subdiv random sc (w - w0) (h - h0) s (xy p s w0 h0) False False st }
     else if 0 < h0 then
       do { st \<leftarrow> (if cl then mid_color random sc (xy p s 0 h0) p (xy p s 0 (h - 1)) st else Some st);
            st \<leftarrow> mid_color random sc (xy p s (w - 1) h0) (xy p s (w - 1) 0) (xy p s (w - 1) (h - 1)) st;
            st \<leftarrow> plasma_subdiv random sc w (h0 + 1) s p True False st;
            plasma_subdiv random sc w (h - h0) s (xy p s 0 h0) True False st }
     else if 0 < w0 then
       do { st \<leftarrow> (if ct then mid_color random sc (xy p s w0 0) p (xy p s (w - 1) 0) st else Some st);
            st \<leftarrow> mid_color random sc (xy p s w0 (h - 1)) (xy p s 0 (h - 1)) (xy p s (w - 1) (h - 1)) st;
            st \<leftarrow> plasma_subdiv random sc (w0 + 1) h s p False True st;
            plasma_subdiv random sc (w - w0) h s (xy p s w0 0) False True st }
     else Some st)"
proof -
  have nz: "(w = 0 \<or> h = 0) = False" using assms(1,2) by simp
  have i: "int (w - 1) = int w - 1" "int (h - 1) = int h - 1" using assms(1,2) by (simp_all add: of_nat_diff)
  have pts: "xy p s (w - 1) 0 = p + int w - 1" "xy p s 0 (h - 1) = p + int s * (int h - 1)"
    "xy p s (w - 1) (h - 1) = p + int s * (int h - 1) + int w - 1" "xy p s w0 0 = p + int w0" "xy p s 0 h0 = p + int s * int h0"
    "xy p s w0 (h - 1) = p + int s * (int h - 1) + int w0" "xy p s (w - 1) h0 = p + int s * int h0 + int w - 1"
    "xy p s w0 h0 = p + int s * int h0 + int w0" by (simp_all only: xy_def i)
  show ?thesis unfolding pts unfolding w0_def h0_def
    by (subst plasma_subdiv.simps) (simp only: Let_def if_False nz)
qed

lemma plasma_total:
  assumes "region_ok p w h s L" "0 < w" "0 < h"
  shows "total_on L (plasma_subdiv random sc w h s p cl ct)"
  using assms
proof (induction "w + h" arbitrary: w h p cl ct rule: less_induct)
  case less
  define w0 h0 where "w0 = (w - 1) div 2" and "h0 = (h - 1) div 2"
  have in_r: "0 \<le> xy p s x y" "xy p s x y < int L" if "x < w" "y < h" for x y
    using less(2) that by (auto simp: region_ok_def)
  have p0: "xy p s 0 0 = p" by (simp add: xy_def)
  have sub: "total_on L (plasma_subdiv random sc w' h' s q cl' ct')"
    if "q = xy p s x y" "x + w' \<le> w" "y + h' \<le> h" "w' + h' < w + h" "0 < w'" "0 < h'" for x y w' h' q cl' ct'
    by (rule less(1) [OF that(4) region_sub [OF less(2) that(2,3,1)] that(5,6)])
  have mid: "total_on L (mid_color random sc d a b)"
    if "d = xy p s dx dy" "a = xy p s ax ay" "b = xy p s cx cy" "dx < w" "dy < h" "ax < w" "ay < h" "cx < w" "cy < h" for dx dy ax ay cx cy d a b
    using in_r that by (intro total_on_mid) simp_all
  have lt: "w0 < w" "h0 < h" "w - 1 < w" "h - 1 < h" using less(3,4) by (auto simp: w0_def h0_def)
  have m: "total_on L (mid_color random sc (xy p s w0 0) p (xy p s (w - 1) 0))"
    "total_on L (mid_color random sc (xy p s 0 h0) p (xy p s 0 (h - 1)))"
    "total_on L (mid_color random sc (xy p s (w - 1) h0) (xy p s (w - 1) 0) (xy p s (w - 1) (h - 1)))"
    "total_on L (mid_color random sc (xy p s w0 (h - 1)) (xy p s 0 (h - 1)) (xy p s (w - 1) (h - 1)))"
    by (rule mid [OF refl p0 [symmetric] refl] mid [OF refl refl refl]; use lt less(3,4) in simp)+
  have c: "total_on L (center_color random sc (xy p s w0 h0) (xy p s w0 0) (xy p s w0 (h - 1)) (xy p s 0 h0) (xy p s (w - 1) h0))"
    by (rule total_on_center; rule in_r; use lt less(3,4) in simp)
  have nz: "\<not> (w = 0 \<or> h = 0)" using less(3,4) by simp
  note dec = half_decreases [OF nz w0_def h0_def refl refl]
  note intros = total_on_bind total_on_if total_on_Some m c
  note level = plasma_level [OF less(3,4), folded w0_def h0_def]
  consider "0 < w0" "0 < h0" | "\<not> 0 < w0" "0 < h0" | "0 < w0" "\<not> 0 < h0" | "\<not> 0 < w0" "\<not> 0 < h0" by blast
  then show ?case
  proof cases
    case 1
    have "total_on L (plasma_subdiv random sc (w0 + 1) (h0 + 1) s p True True)"
      "total_on L (plasma_subdiv random sc (w - w0) (h0 + 1) s (xy p s w0 0) False True)"
      "total_on L (plasma_subdiv random sc (w0 + 1) (h - h0) s (xy p s 0 h0) True False)"
      "total_on L (plasma_subdiv random sc (w - w0) (h - h0) s (xy p s w0 h0) False False)"
      by (rule sub [OF p0 [symmetric]] sub [OF refl]; use lt dec 1 in simp)+
    then have "total_on L (\<lambda>st. plasma_subdiv random sc w h s p cl ct st)"
      unfolding level using 1 by (simp only: simp_thms if_True) (intro intros)
    then show ?thesis by simp
  next
    case 2
    have "total_on L (plasma_subdiv random sc w (h0 + 1) s p True False)"
      "total_on L (plasma_subdiv random sc w (h - h0) s (xy p s 0 h0) True False)"
      by (rule sub [OF p0 [symmetric]] sub [OF refl]; use lt dec 2 less(3) in simp)+
    then have "total_on L (\<lambda>st. plasma_subdiv random sc w h s p cl ct st)"
      unfolding level using 2 by (simp only: simp_thms if_True if_False) (intro intros)
    then show ?thesis by simp
  next
    case 3
    have "total_on L (plasma_subdiv random sc (w0 + 1) h s p False True)"
      "total_on L (plasma_subdiv random sc (w - w0) h s (xy p s w0 0) False True)"
      by (rule sub [OF p0 [symmetric]] sub [OF refl]; use lt dec 3 less(4) in simp)+
    then have "total_on L (\<lambda>st. plasma_subdiv random sc w h s p cl ct st)"
      unfolding level using 3 by (simp only: simp_thms if_True if_False) (intro intros)
    then show ?thesis by simp
  next
    case 4
    have "total_on L (\<lambda>st. plasma_subdiv random sc w h s p cl ct st)"
      unfolding level using 4 by (simp only: simp_thms if_False) (rule total_on_Some)
    then show ?thesis by simp
  qed
qed

lemma rows_determine:
  assumes "length a = w * h" "length b = w * h"
    and rows: "\<And>y. y < h \<Longrightarrow> getline a (int (w * y)) 1 w = getline b (int (w * y)) 1 w"
  shows "a = b"
proof (rule nth_equalityI)
  fix k
  assume "k < length a"
  then have k: "k < w * h" using assms(1) by simp
  then have w: "0 < w" by (cases w) auto
  then have y: "k div w < h" "k mod w < w" using k by (simp_all add: less_mult_imp_div_less mult.commute)
  have "getline a (int (w * (k div w))) 1 w ! (k mod w) = getline b (int (w * (k div w))) 1 w ! (k mod w)" using rows [OF y(1)] by simp
  moreover have "nat (pos (int (w * (k div w))) 1 (k mod w)) = k" by (simp flip: of_nat_mult of_nat_add)
  ultimately show "a ! k = b ! k" using y(2) by simp
qed (use assms in simp)

lemma plasma_process_total:
  assumes small: "unat w * unat h < 2 ^ 32" and pos: "0 < w" "0 < h" and len: "length im = unat w * unat h"
  shows "\<exists>x' g im'. pdp_imageproc_plasma_process srandom random w h (x, im) = Some (x', g, im') \<and> length im' = length im"
proof -
  define W H where "W = unat w" and "H = unat h"
  have WH: "0 < W" "0 < H" "W * H < 2 ^ 32" "length im = W * H" using small pos len by (auto simp: W_def H_def word_less_nat_alt)
  have uh: "unat (h - 1) = H - 1" "unat (w - 1) = W - 1" using unat_minus_one [of h] unat_minus_one [of w] pos by (auto simp: W_def H_def)
  have "W * 1 \<le> W * H" by (rule mult_le_mono2) (use WH in simp)
  then have le: "W * (H - 1) < W * H" "W - 1 < W * H" "W * H - 1 < W * H" using WH(1,2) by (simp, linarith+)
  have "unat w * unat (h - 1) < 2 ^ 32" unfolding uh W_def [symmetric] using le(1) WH(3) by (rule less_trans)
  then have "unat (w * (h - 1)) = W * (H - 1)" unfolding unat_mult_u32 uh W_def [symmetric] by (simp only: unat_mult_u32 uh W_def)
  then have c3: "uint (w * (h - 1)) = int (W * (H - 1))" by (simp only: uint_nat)
  have c2: "uint (w - 1) = int (W - 1)" by (simp only: uint_nat uh)
  have wh: "unat (w * h) = W * H" using unat_mult_u32 [OF small] by (simp add: W_def H_def)
  then have "w * h \<noteq> 0" using WH by (metis mult_pos_pos neq0_conv unsigned_0)
  then have "unat (w * h - 1) = W * H - 1" using unat_minus_one [of "w * h"] wh by simp
  then have c4: "uint (w * h - 1) = int (W * H - 1)" by (simp only: uint_nat)
  have reg: "region_ok 0 W H W (W * H)"
    unfolding region_ok_def
  proof (intro allI impI)
    fix x y
    assume "x < W" "y < H"
    then have "x + W * y < W * Suc y" "W * Suc y \<le> W * H" by (simp, intro mult_le_mono2, simp)
    then have "x + W * y < W * H" by (rule less_le_trans)
    then show "0 \<le> xy 0 W x y \<and> xy 0 W x y < int (W * H)" by (simp add: xy_def flip: of_nat_mult of_nat_add)
  qed
  have sub: "\<exists>st'. plasma_subdiv random (scale x) W H W 0 True True st = Some st' \<and> length (snd st') = W * H"
    if "length (snd st) = W * H" for st
    using plasma_total [OF reg WH(1,2), of random "scale x" True True] that unfolding total_on_def by blast
  then have rest: "\<exists>x' g im'. Option.bind (plasma_subdiv random (scale x) W H W 0 True True st) (\<lambda>p. Some (X p, G p, snd p)) =
      Some (x', g, im') \<and> length im' = length im" if "length (snd st) = W * H" for st and X :: "'a \<times> plane \<Rightarrow> t_plasma" and G :: "'a \<times> plane \<Rightarrow> 'a"
    using that WH(4) by fastforce
  have w: "wr b 0 v = Some (b[0 := v])" "wr b (int (W - 1)) v = Some (b[W - 1 := v])"
    "wr b (int (W * (H - 1))) v = Some (b[W * (H - 1) := v])" "wr b (int (W * H - 1)) v = Some (b[W * H - 1 := v])"
    if "length b = W * H" for b and v :: s16
    using wr_nat [of 0 b v] wr_nat [of "W - 1" b v] wr_nat [of "W * (H - 1)" b v] wr_nat [of "W * H - 1" b v] le that WH(1,2)
    by (simp_all del: of_nat_mult)
  show ?thesis
    unfolding pdp_imageproc_plasma_process_def prod.case Let_def split_beta c2 c3 c4 W_def [symmetric] H_def [symmetric]
    by (simp only: fst_conv snd_conv w WH(4) length_list_update bind.bind_lunit) (rule rest [unfolded WH(4)], simp add: WH(4))
qed

section \<open>Legal dimensions\<close>

lemma legalwidth_round_up:
  assumes "0 < i" "i < 2 ^ 30"
  shows "8 dvd unat (pdp_imageproc_legalwidth i) \<and> i \<le> int (unat (pdp_imageproc_legalwidth i)) \<and> int (unat (pdp_imageproc_legalwidth i)) < i + 8"
proof -
  let ?v = "((i - 1) div 8 + 1) * 8"
  have b: "i \<le> ?v" "?v < i + 8" "0 \<le> ?v" using assms(1) by presburger+
  have "unat (word_of_int v :: u32) = nat v" if "0 \<le> v" "v < 2 ^ 32" for v
    using that by (simp add: unsigned_of_int take_bit_int_eq_self)
  from this [of ?v] have "unat (pdp_imageproc_legalwidth i) = nat ?v"
    using b assms unfolding pdp_imageproc_legalwidth_def asr_def by simp
  moreover have "8 dvd nat ?v"
    using nat_mult_distrib [of "(i - 1) div 8 + 1" 8] b(3) by (metis dvd_triv_right nat_numeral zero_le_mult_iff zero_less_numeral not_less)
  ultimately show ?thesis using b by simp
qed

section \<open>Properties\<close>

text \<open>
  C29: eight of the routines that process two pixels per 32-bit word, \<open>and\<close>, \<open>or\<close>, \<open>xor\<close>, \<open>not\<close>, \<open>abs\<close>, \<open>zthresh\<close>,
  \<open>ispositive\<close> and \<open>sign\<close>, are pixelwise operators: on planes with an even number of pixels they return, and each result
  pixel is the bitwise operator, the absolute value (with \<open>~x\<close> for negative \<open>x\<close>), the positive part, the
  sign mask or the sign of the pixel itself, independently of the pixel it shares a word with. The hard and
  the soft threshold, which are word routines too, are not among them: see \<open>hard_threshold_not_pixelwise\<close>.
\<close>

theorem word_ops_are_pixelwise:
  assumes "length im = unat (w * h)" and "even (unat (w * h))" and "length im2 = unat (w * h)"
  shows "pdp_imageproc_xor_process w h im im2 = Some (map2 (XOR) im im2) \<and>
    pdp_imageproc_and_process w h im im2 = Some (map2 (AND) im im2) \<and>
    pdp_imageproc_or_process w h im im2 = Some (map2 (OR) im im2) \<and>
    pdp_imageproc_not_process w h im = Some (map NOT im) \<and>
    pdp_imageproc_abs_process w h im = Some (map (\<lambda>a. if sint a < 0 then NOT a else a) im) \<and>
    pdp_imageproc_zthresh_process w h im = Some (map (\<lambda>a. if sint a < 0 then 0 else a) im) \<and>
    pdp_imageproc_ispositive_process w h im = Some (map (\<lambda>a. if sint a < 0 then 0 else -1) im) \<and>
    pdp_imageproc_sign_process w h im = Some (map (\<lambda>a. if sint a < 0 then -0x8000 else 0x7fff) im)"
  using logic_pixelwise [OF assms] signs_pixelwise [OF assms(1,2)] by blast

theorem word_ops_are_pixelwise_witness:
  "pdp_imageproc_abs_process 2 1 [5, -3] = Some [5, 2]"
  using word_ops_are_pixelwise [of "[5, -3]" 2 1 "[0, 0]"] by simp

text \<open>
  the hard and soft thresholds return, and on the pixels at even positions they are exact: the
  hard threshold keeps a pixel whose magnitude reaches the threshold, the soft threshold shrinks it
  by the threshold, and both replace smaller pixels by 0 or -1. The pixels at odd positions carry
  no such guarantee: their subtraction can be hit by a borrow from their neighbour, see
  \<open>hard_threshold_not_pixelwise\<close>.
\<close>

theorem thresholds_exact_on_even_pixels:
  assumes "length im = unat (w * h)" and "even (unat (w * h))" and "x \<le> 0x7fff" and "even k" and "k < length im"
  shows "(\<exists>im'. pdp_imageproc_hardthresh_process x w h im = Some im' \<and> length im' = length im \<and>
      im' ! k = (if sint (ucast x :: s16) \<le> sint (im ! k XOR smask (im ! k)) then im ! k else smask (im ! k))) \<and>
    (\<exists>im'. pdp_imageproc_softthresh_process x w h im = Some im' \<and> length im' = length im \<and>
      im' ! k = (if sint (ucast x :: s16) \<le> sint (im ! k XOR smask (im ! k))
                 then ((im ! k XOR smask (im ! k)) - ucast x) XOR smask (im ! k) else smask (im ! k)))"
  using thresholds_low [OF assms] unfolding hard_ref_def soft_ref_def by blast

theorem thresholds_exact_on_even_pixels_witness:
  "\<exists>im'. pdp_imageproc_hardthresh_process 100 2 1 [200, 7] = Some im' \<and> im' ! 0 = 200"
  using thresholds_exact_on_even_pixels [of "[200, 7]" 2 1 100 0] by (auto simp: smask_def)

lemma hard_threshold_not_pixelwise:
  "pdp_imageproc_hardthresh_process 0x100 2 1 [0, 0x100] = Some [0, 0]"
  "pdp_imageproc_hardthresh_process 0x100 2 1 [0x100, 0x100] = Some [0x100, 0x100]"
  by code_simp+

text \<open>
  the plasma generator returns on every plane with at least one pixel, whatever the random numbers:
  the subdivision ends, and no corner, midpoint or centre it reads or writes is outside the plane.
\<close>

theorem plasma_returns_inside_plane:
  assumes "unat w * unat h < 2 ^ 32" and "0 < w" and "0 < h" and "length im = unat w * unat h"
  shows "\<exists>x' g im'. pdp_imageproc_plasma_process srandom random w h (x, im) = Some (x', g, im') \<and> length im' = length im"
  by (rule plasma_process_total [OF assms])

theorem plasma_returns_inside_plane_witness:
  "\<exists>x' g im'. pdp_imageproc_plasma_process (\<lambda>s. s) (\<lambda>g. (sint g, g + 1)) 8 8 (\<lparr>seed = 1, scale = 100\<rparr>, replicate 64 0) = Some (x', g, im') \<and>
    length im' = 64"
  using plasma_returns_inside_plane [of 8 8 "replicate 64 0" "\<lambda>s. s" "\<lambda>g. (sint g, g + 1)" "\<lparr>seed = 1, scale = 100\<rparr>"] by simp

text \<open>
  \<open>pdp_imageproc_flip_lr_process\<close> reverses every row, and doing it twice gives the plane back.
\<close>

theorem flip_lr_twice:
  assumes "length im = unat w * unat h"
  shows "\<exists>im'. pdp_imageproc_flip_lr_process w h im = Some im' \<and> length im' = length im \<and>
    (\<forall>y < unat h. getline im' (int (unat w * y)) 1 (unat w) = rev (getline im (int (unat w * y)) 1 (unat w))) \<and>
    pdp_imageproc_flip_lr_process w h im' = Some im"
proof -
  obtain im' where 1: "pdp_imageproc_flip_lr_process w h im = Some im'" "length im' = length im"
    "\<forall>y < unat h. getline im' (int (unat w * y)) 1 (unat w) = rev (getline im (int (unat w * y)) 1 (unat w))"
    using flip_lr_rows [OF assms] by blast
  then have l': "length im' = unat w * unat h" using assms by simp
  obtain im'' where 2: "pdp_imageproc_flip_lr_process w h im' = Some im''" "length im'' = length im'"
    "\<forall>y < unat h. getline im'' (int (unat w * y)) 1 (unat w) = rev (getline im' (int (unat w * y)) 1 (unat w))"
    using flip_lr_rows [OF l'] by blast
  have "im'' = im" by (rule rows_determine [of _ "unat w" "unat h"]) (use 1 2 assms in auto)
  with 1 2 show ?thesis by blast
qed

theorem flip_lr_twice_witness:
  "\<exists>im'. pdp_imageproc_flip_lr_process 2 2 [1, 2, 3, 4] = Some im' \<and> pdp_imageproc_flip_lr_process 2 2 im' = Some [1, 2, 3, 4]"
  using flip_lr_twice [of "[1, 2, 3, 4]" 2 2] by auto

end
