(* ===== verification/Dispatch.thy ===== *)
theory Dispatch
  imports Image PixelOpsOk
begin

text \<open>
  The dispatchers of \<^verbatim>\<open>system/image/pdp_imageproc_common.c\<close>, which run a plane routine on the channels of
  image packets that the channel mask selects, and the proof that they hand every plane to the
  routine exactly as the encoding lays it out.

  A routine is a pointer to code: an argument that gets its own data \<open>x\<close>, the size of the plane and
  pointers to the pixels (a packet and an offset), and works on the pool. \<open>run1\<close> and \<open>run2\<close> turn the
  routines of theories \<open>ImageProc\<close> and \<open>PixelOps\<close> into such arguments.
\<close>

section \<open>Dispatchers\<close>

type_synonym ipos = "int \<times> int"
type_synonym 'x routine = "'x \<Rightarrow> u32 \<Rightarrow> u32 \<Rightarrow> int \<Rightarrow> pool \<Rightarrow> ('x \<times> pool) option"

definition on_chan :: "u32 \<Rightarrow> u32 \<Rightarrow> ('x \<Rightarrow> pool \<Rightarrow> ('x \<times> pool) option) \<Rightarrow> 'x \<Rightarrow> pool \<Rightarrow> ('x \<times> pool) option" where
  "on_chan chanmask msk f x P = (if chanmask AND msk \<noteq> 0 then f x P else Some (x, P))"

text \<open>A round of the loop over the planes of a multi-channel image.\<close>

definition plane_round ::
  "'x routine \<Rightarrow> u32 \<Rightarrow> u32 \<Rightarrow> u32 \<Rightarrow> u32 \<Rightarrow> 'x \<times> int \<times> u32 \<times> pool \<Rightarrow> ('x \<times> int \<times> u32 \<times> pool) option" where
  "plane_round process_routine chanmask w h plane_size s =
     (case s of (x, off, msk, P) \<Rightarrow>
        do { (x, P) \<leftarrow> on_chan chanmask msk (\<lambda>x P. process_routine x w h off P) x P;
             Some (x, off + uint plane_size, push_bit 1 msk, P) })"

text \<open>
  What the three dispatchers share once their packets are checked; all data pointers advance
  together, \<open>off\<close> pixels from the start of their packet.
\<close>

definition dispatch_planes :: "'x routine \<Rightarrow> 'x \<Rightarrow> u32 \<Rightarrow> int \<Rightarrow> pool \<Rightarrow> ('x \<times> pool) option" where
  "dispatch_planes process_routine x chanmask packet0 P =
     do { image0 \<leftarrow> pdp_packet_image_info packet0 P;
          let w = i_width image0;
          let h = i_height image0;
          let d = i_depth image0;
          let plane_size = w * h;
          let chanmask = (if i_chanmask image0 \<noteq> 0 then i_chanmask image0 else chanmask);
          let P = set_image packet0 (\<lambda>im. im\<lparr>i_chanmask := 0\<rparr>) P;
          if i_encoding image0 = PDP_IMAGE_GREY
          then on_chan chanmask 1 (\<lambda>x P. process_routine x w h 0 P) x P
          else if i_encoding image0 = PDP_IMAGE_YV12
          then do { (x, P) \<leftarrow> on_chan chanmask 1 (\<lambda>x P. process_routine x w h 0 P) x P;
                    let off = uint plane_size;
                    let plane_size = drop_bit 2 plane_size;
                    let w = drop_bit 1 w;
                    let h = drop_bit 1 h;
                    (x, P) \<leftarrow> on_chan chanmask 2 (\<lambda>x P. process_routine x w h off P) x P;
                    let off = off + uint plane_size;
                    on_chan chanmask 4 (\<lambda>x P. process_routine x w h off P) x P }
          else if i_encoding image0 = PDP_IMAGE_MCHP
          then do { (x, off, msk, P) \<leftarrow> for_loop 0 (unat d) (\<lambda>i. plane_round process_routine chanmask w h plane_size) (x, 0, 1, P);
                    Some (x, P) }
          else Some (x, P) }"

definition pdp_imageproc_dispatch_1buf ::
  "('x \<Rightarrow> u32 \<Rightarrow> u32 \<Rightarrow> ipos \<Rightarrow> pool \<Rightarrow> ('x \<times> pool) option) \<Rightarrow> 'x \<Rightarrow> u32 \<Rightarrow> int \<Rightarrow> pool \<Rightarrow> ('x \<times> pool) option" where
  "pdp_imageproc_dispatch_1buf process_routine x chanmask packet0 P =
     (if \<not> pdp_packet_image_isvalid packet0 P then Some (x, P)
      else dispatch_planes (\<lambda>x w h off. process_routine x w h (packet0, off)) x chanmask packet0 P)"

definition pdp_imageproc_dispatch_2buf ::
  "('x \<Rightarrow> u32 \<Rightarrow> u32 \<Rightarrow> ipos \<Rightarrow> ipos \<Rightarrow> pool \<Rightarrow> ('x \<times> pool) option) \<Rightarrow> 'x \<Rightarrow> u32 \<Rightarrow> int \<Rightarrow> int \<Rightarrow> pool \<Rightarrow>
   ('x \<times> pool) option" where
  "pdp_imageproc_dispatch_2buf process_routine x chanmask packet0 packet1 P =
     (if \<not> pdp_packet_image_compat packet0 packet1 P then Some (x, P)
      else dispatch_planes (\<lambda>x w h off. process_routine x w h (packet0, off) (packet1, off)) x chanmask packet0 P)"

text \<open>The check compares \<open>packet0\<close> with \<open>packet1\<close> twice.\<close>

definition pdp_imageproc_dispatch_3buf ::
  "('x \<Rightarrow> u32 \<Rightarrow> u32 \<Rightarrow> ipos \<Rightarrow> ipos \<Rightarrow> ipos \<Rightarrow> pool \<Rightarrow> ('x \<times> pool) option) \<Rightarrow> 'x \<Rightarrow> u32 \<Rightarrow> int \<Rightarrow> int \<Rightarrow> int \<Rightarrow> pool \<Rightarrow>
   ('x \<times> pool) option" where
  "pdp_imageproc_dispatch_3buf process_routine x chanmask packet0 packet1 packet2 P =
     (if \<not> (pdp_packet_image_compat packet0 packet1 P \<and> pdp_packet_image_compat packet0 packet1 P) then Some (x, P)
      else dispatch_planes (\<lambda>x w h off. process_routine x w h (packet0, off) (packet1, off) (packet2, off))
             x chanmask packet0 P)"

text \<open>Plane routines as dispatcher arguments; the packets of \<open>run2\<close> are two different ones.\<close>

definition run1 :: "('x \<Rightarrow> u32 \<Rightarrow> u32 \<Rightarrow> plane \<Rightarrow> plane option) \<Rightarrow> 'x \<Rightarrow> u32 \<Rightarrow> u32 \<Rightarrow> ipos \<Rightarrow> pool \<Rightarrow> ('x \<times> pool) option" where
  "run1 f x w h p P = do { P \<leftarrow> on_pixels (fst p) (snd p) (f x w h) P; Some (x, P) }"

definition run2 ::
  "('x \<Rightarrow> u32 \<Rightarrow> u32 \<Rightarrow> plane \<Rightarrow> plane \<Rightarrow> plane option) \<Rightarrow> 'x \<Rightarrow> u32 \<Rightarrow> u32 \<Rightarrow> ipos \<Rightarrow> ipos \<Rightarrow> pool \<Rightarrow> ('x \<times> pool) option" where
  "run2 f x w h p q P =
     do { src \<leftarrow> pixels_at (fst q) (snd q) P;
          P \<leftarrow> on_pixels (fst p) (snd p) (\<lambda>im. f x w h im src) P;
          Some (x, P) }"

section \<open>The planes of an image\<close>

definition planes :: "t_image \<Rightarrow> (u32 \<times> u32) list" where
  "planes im =
     (let w = i_width im; h = i_height im in
      if i_encoding im = PDP_IMAGE_GREY then [(w, h)]
      else if i_encoding im = PDP_IMAGE_YV12 then [(w, h), (drop_bit 1 w, drop_bit 1 h), (drop_bit 1 w, drop_bit 1 h)]
      else if i_encoding im = PDP_IMAGE_MCHP then replicate (unat (i_depth im)) (w, h)
      else [])"

text \<open>The specification: routine \<open>g\<close> on the planes whose bit of the channel mask is set, channel \<open>i\<close> first.\<close>

fun on_planes :: "(u32 \<Rightarrow> u32 \<Rightarrow> plane \<Rightarrow> plane) \<Rightarrow> u32 \<Rightarrow> nat \<Rightarrow> (u32 \<times> u32) list \<Rightarrow> plane \<Rightarrow> plane" where
  "on_planes g chanmask i [] px = px"
| "on_planes g chanmask i ((w, h) # ps) px =
     (let n = unat w * unat h
      in (if bit chanmask i then g w h (take n px) else take n px) @ on_planes g chanmask (i + 1) ps (drop n px))"

definition planes_total :: "(u32 \<times> u32) list \<Rightarrow> nat" where
  "planes_total ps = sum_list (map (\<lambda>(w, h). unat w * unat h) ps)"

section \<open>Writing pixels into a packet\<close>

lemma length_pixels [simp]: "length (pixels bs) = length bs div 2"
  by (induction bs rule: pixels.induct) simp_all

lemma length_pixel_bytes [simp]: "length (pixel_bytes ps) = 2 * length ps"
  by (induction ps) simp_all

lemma pixel_word: "(ucast (ucast p :: u8) OR push_bit 8 (ucast (ucast (drop_bit 8 p) :: u8))) = (p :: s16)"
  by (rule bit_word_eqI) (auto simp: bit_simps)

lemma pixels_bytes: "pixels (pixel_bytes ps @ bs) = ps @ pixels bs"
  by (induction ps) (simp_all add: pixel_word)

lemma pixels_set: "length ps = length bs div 2 \<Longrightarrow> pixels (set_pixels ps bs) = ps"
proof -
  assume l: "length ps = length bs div 2"
  have "length (pixels (drop (2 * length ps) bs)) = 0" unfolding length_pixels by (simp add: l)
  then have "pixels (drop (2 * length ps) bs) = []" by (simp only: length_0_conv)
  then show ?thesis by (simp add: set_pixels_def pixels_bytes)
qed

lemma pixel_low: "ucast (ucast lo OR push_bit 8 (ucast hi) :: s16) = (lo :: u8)" for hi :: u8
  by (rule bit_word_eqI) (auto simp: bit_simps)

lemma pixel_high: "ucast (drop_bit 8 (ucast lo OR push_bit 8 (ucast hi)) :: s16) = (hi :: u8)" for lo :: u8
  by (rule bit_word_eqI) (auto simp: bit_simps dest: bit_imp_le_length)

lemma set_pixels_id: "set_pixels (pixels bs) bs = bs"
  by (induction bs rule: pixels.induct) (simp_all add: set_pixels_def pixel_low pixel_high [simplified])

lemma set_pixels_again: "length qs = length ps \<Longrightarrow> set_pixels qs (set_pixels ps bs) = set_pixels qs bs"
  by (simp add: set_pixels_def)

lemma length_set_pixels: "2 * length ps \<le> length bs \<Longrightarrow> length (set_pixels ps bs) = length bs"
  by (simp add: set_pixels_def)

text \<open>The pool in which the packet \<open>p\<close>, apart from its pixels \<open>px\<close>, is \<open>h0\<close>.\<close>

definition with_pixels :: "int \<Rightarrow> t_pdp \<Rightarrow> pool \<Rightarrow> plane \<Rightarrow> pool" where
  "with_pixels p h0 P px = set_packet p (Some (h0\<lparr>pdata := set_pixels px (pdata h0)\<rparr>)) P"

lemma set_packet_again [simp]: "set_packet p h (set_packet p g P) = set_packet p h P"
  by (simp add: set_packet_def)

lemma header_with_pixels:
  "pdp_packet_header p P = Some h \<Longrightarrow>
    pdp_packet_header q (with_pixels p h0 P px) = (if q = p then Some (h0\<lparr>pdata := set_pixels px (pdata h0)\<rparr>) else pdp_packet_header q P)"
  using header_valid [of p P h] by (simp add: with_pixels_def header_set_packet)

lemma on_pixels_step:
  assumes "pdp_packet_header p P = Some h" "length px = length (pdata h0) div 2" "px = pre @ q"
    and "f q = Some b" "length b = length q"
  shows "on_pixels p (int (length pre)) f (with_pixels p h0 P px) = Some (with_pixels p h0 P (pre @ b))"
proof -
  have l: "length (pre @ b) = length px" using assms(3,5) by simp
  show ?thesis
    unfolding on_pixels_def header_with_pixels [OF assms(1)]
    using assms(2-4) set_pixels_again [OF l, of "pdata h0"] by (simp add: Let_def pixels_set with_pixels_def)
qed

section \<open>Plane routines\<close>

text \<open>
  The contract of a plane routine: on the pixels from a plane on, it rewrites the plane as \<open>g\<close> says and
  leaves what lies behind it.
\<close>

definition plane_fits :: "u32 \<Rightarrow> u32 \<Rightarrow> bool" where
  "plane_fits w h \<longleftrightarrow> unat w * unat h < 2 ^ 32 \<and> even (unat w * unat h)"

locale plane_routine =
  fixes f :: "u32 \<Rightarrow> u32 \<Rightarrow> plane \<Rightarrow> plane option"
    and g :: "u32 \<Rightarrow> u32 \<Rightarrow> plane \<Rightarrow> plane"
  assumes runs: "plane_fits w h \<Longrightarrow> length p = unat w * unat h \<Longrightarrow> f w h (p @ rest) = Some (g w h p @ rest)"
    and size_kept: "plane_fits w h \<Longrightarrow> length p = unat w * unat h \<Longrightarrow> length (g w h p) = length p"
begin

text \<open>One channel: the plane at the end of \<open>pre\<close>.\<close>

lemma chan_step:
  assumes h: "pdp_packet_header p P = Some h'" and px: "length (pre @ q) = length (pdata h0) div 2"
    and n: "plane_fits w h" "unat w * unat h \<le> length q"
  shows "on_chan cm (push_bit i 1) (\<lambda>x P. run1 (\<lambda>x. f) x w h (p, int (length pre)) P) x (with_pixels p h0 P (pre @ q)) =
    Some (x, with_pixels p h0 P
      (pre @ (if bit cm i then g w h (take (unat w * unat h) q) else take (unat w * unat h) q) @ drop (unat w * unat h) q))"
proof -
  let ?n = "unat w * unat h"
  have l: "length (take ?n q) = ?n" using n(2) by simp
  have r: "f w h q = Some (g w h (take ?n q) @ drop ?n q)" using runs [OF n(1) l, of "drop ?n q"] by simp
  have lb: "length (g w h (take ?n q) @ drop ?n q) = length q" using size_kept [OF n(1) l] n(2) by simp
  have "cm AND push_bit i 1 \<noteq> 0 \<longleftrightarrow> bit cm i" by (simp add: bit_iff_and_push_bit_not_eq_0)
  then show ?thesis using on_pixels_step [where f = "f w h", OF h px refl r lb] by (simp add: on_chan_def run1_def)
qed

lemma plane_loop:
  assumes h: "pdp_packet_header p P = Some h'" and n: "plane_fits w h"
  shows "length (pre @ q) = length (pdata h0) div 2 \<Longrightarrow> unat w * unat h * m \<le> length q \<Longrightarrow> off = int (length pre) \<Longrightarrow>
    \<exists>off' msk'. for_loop i m (\<lambda>i. plane_round (\<lambda>x w h off. run1 (\<lambda>x. f) x w h (p, off)) cm w h (w * h))
      (x, off, push_bit i 1, with_pixels p h0 P (pre @ q)) =
      Some (x, off', msk', with_pixels p h0 P (pre @ on_planes g cm i (replicate m (w, h)) q))"
proof (induction m arbitrary: i pre q off)
  case (Suc m)
  let ?n = "unat w * unat h"
  let ?b = "if bit cm i then g w h (take ?n q) else take ?n q"
  have nq: "?n \<le> length q" "?n * m \<le> length (drop ?n q)" using Suc.prems(2) by simp_all
  have lb: "length ?b = ?n" using size_kept [OF n, of "take ?n q"] nq(1) by simp
  have ps: "uint (w * h) = int ?n" using n unat_mult_u32 [of w h] by (simp only: uint_nat plane_fits_def)
  have m: "push_bit 1 (push_bit i 1) = (push_bit (Suc i) 1 :: u32)" by (simp add: push_bit_push_bit)
  have "plane_round (\<lambda>x w h off. run1 (\<lambda>x. f) x w h (p, off)) cm w h (w * h) (x, off, push_bit i 1, with_pixels p h0 P (pre @ q))
      = Some (x, int (length (pre @ ?b)), push_bit (Suc i) 1, with_pixels p h0 P ((pre @ ?b) @ drop ?n q))"
    unfolding plane_round_def prod.case Suc.prems(3) chan_step [OF h Suc.prems(1) n nq(1)] ps m
    using lb by simp
  moreover have "\<exists>off' msk'. for_loop (Suc i) m (\<lambda>i. plane_round (\<lambda>x w h off. run1 (\<lambda>x. f) x w h (p, off)) cm w h (w * h))
      (x, int (length (pre @ ?b)), push_bit (Suc i) 1, with_pixels p h0 P ((pre @ ?b) @ drop ?n q)) =
      Some (x, off', msk', with_pixels p h0 P ((pre @ ?b) @ on_planes g cm (Suc i) (replicate m (w, h)) (drop ?n q)))"
    by (rule Suc.IH) (use Suc.prems(1) nq lb in simp_all)
  ultimately show ?case by (simp add: Let_def)
qed simp

text \<open>
  The dispatcher on a valid image whose planes fit and lie inside the packet: the result is the pool
  in which only the selected planes of the packet have changed and its channel mask is reset.
\<close>

lemma dispatch:
  assumes h: "pdp_packet_header p P = Some h" and v: "pdp_packet_image_isvalid p P" and im: "im = image_of (info h)"
    and fit: "\<And>w k. (w, k) \<in> set (planes im) \<Longrightarrow> plane_fits w k"
    and chroma: "i_encoding im = PDP_IMAGE_YV12 \<Longrightarrow> even (unat (i_width im)) \<and> even (unat (i_height im))"
    and len: "planes_total (planes im) \<le> length (pdata h) div 2"
  shows "pdp_imageproc_dispatch_1buf (run1 (\<lambda>x. f)) x cm p P =
    Some (x, with_pixels p (h\<lparr>info := Image (im\<lparr>i_chanmask := 0\<rparr>)\<rparr>) P
      (on_planes g (if i_chanmask im \<noteq> 0 then i_chanmask im else cm) 0 (planes im) (pixels (pdata h))))"
proof -
  let ?w = "i_width im" and ?k = "i_height im" and ?h0 = "h\<lparr>info := Image (im\<lparr>i_chanmask := 0\<rparr>)\<rparr>"
  let ?cm = "if i_chanmask im \<noteq> 0 then i_chanmask im else cm" and ?px = "pixels (pdata h)"
  let ?run = "\<lambda>x w k off. run1 (\<lambda>x. f) x w k (p, off)"
  have info: "pdp_packet_image_info p P = Some im"
    using h im by (simp add: pdp_packet_image_info_def pdp_packet_subheader_def)
  have P0: "set_image p (\<lambda>im. im\<lparr>i_chanmask := 0\<rparr>) P = with_pixels p ?h0 P ([] @ ?px)"
    using h im by (simp add: set_image_def with_pixels_def set_pixels_id)
  have len0: "length ([] @ ?px) = length (pdata ?h0) div 2" by simp
  note step = chan_step [OF h, where ?h0.0 = ?h0 and cm = ?cm]
  consider (grey) "i_encoding im = PDP_IMAGE_GREY" | (yv12) "i_encoding im = PDP_IMAGE_YV12" | (mchp) "i_encoding im = PDP_IMAGE_MCHP"
    using v h im by (auto simp: pdp_packet_image_isvalid_def Let_def)
  then have "dispatch_planes ?run x cm p P = Some (x, with_pixels p ?h0 P (on_planes g ?cm 0 (planes im) ?px))"
  proof cases
    case grey
    have "plane_fits ?w ?k" "unat ?w * unat ?k \<le> length ?px"
      using fit len grey by (simp_all add: planes_def planes_total_def)
    from step [where pre = "[]" and i = 0, OF len0 this, of x] show ?thesis
      using grey unfolding dispatch_planes_def info P0 by (simp add: Let_def planes_def)
  next
    case mchp
    then have ne: "i_encoding im \<noteq> PDP_IMAGE_GREY" "i_encoding im \<noteq> PDP_IMAGE_YV12"
      by (simp_all add: PDP_IMAGE_GREY_def PDP_IMAGE_MCHP_def PDP_IMAGE_YV12_def)
    show ?thesis
    proof (cases "unat (i_depth im) = 0")
      case True
      then show ?thesis using mchp ne unfolding dispatch_planes_def info P0 by (simp add: Let_def planes_def)
    next
      case False
      then have pf: "plane_fits ?w ?k" and l: "unat ?w * unat ?k * unat (i_depth im) \<le> length ?px"
        using fit len mchp ne by (simp_all add: planes_def planes_total_def Let_def sum_list_replicate mult.commute)
      from plane_loop [where pre = "[]" and i = 0, OF h pf len0 l, of 0 ?cm x] obtain o' m' where
        "for_loop 0 (unat (i_depth im)) (\<lambda>i. plane_round ?run ?cm ?w ?k (?w * ?k)) (x, 0, 1, with_pixels p ?h0 P ([] @ ?px)) =
          Some (x, o', m', with_pixels p ?h0 P ([] @ on_planes g ?cm 0 (replicate (unat (i_depth im)) (?w, ?k)) ?px))" by auto
      then show ?thesis using mchp ne unfolding dispatch_planes_def info P0 by (simp add: Let_def planes_def)
    qed
  next
    case yv12
    then have ne: "i_encoding im \<noteq> PDP_IMAGE_GREY" by (simp add: PDP_IMAGE_GREY_def PDP_IMAGE_YV12_def)
    define cm' w2 k2 where "cm' = ?cm" and "w2 = drop_bit 1 ?w" and "k2 = drop_bit 1 ?k"
    let ?n = "unat ?w * unat ?k" and ?n2 = "unat w2 * unat k2"
    have pl: "planes im = [(?w, ?k), (w2, k2), (w2, k2)]" using yv12 ne by (simp add: planes_def Let_def w2_def k2_def)
    have pf: "plane_fits ?w ?k" "plane_fits w2 k2" using fit pl by auto
    have l: "?n + ?n2 + ?n2 \<le> length ?px" using len pl by (simp add: planes_total_def)
    have wk: "unat (?w * ?k) = ?n" using pf(1) by (intro unat_mult_u32) (simp add: plane_fits_def)
    then have u: "uint (?w * ?k) = int ?n" by (simp only: uint_nat)
    obtain a b where ab: "unat ?w = 2 * a" "unat ?k = 2 * b" using chroma yv12 by (metis evenE)
    then have "?n2 = a * b" unfolding w2_def k2_def unat_drop_bit_eq by (simp add: drop_bit_eq_div)
    moreover have "unat (drop_bit 2 (?w * ?k)) = a * b" unfolding unat_drop_bit_eq wk ab by (simp add: drop_bit_eq_div)
    ultimately have u2: "uint (drop_bit 2 (?w * ?k)) = int ?n2" by (simp only: uint_nat)
    define b0 where "b0 = (if bit cm' 0 then g ?w ?k (take ?n ?px) else take ?n ?px)"
    define q1 where "q1 = drop ?n ?px"
    define b1 where "b1 = (if bit cm' 1 then g w2 k2 (take ?n2 q1) else take ?n2 q1)"
    define q2 where "q2 = drop ?n2 q1"
    have b0: "length b0 = ?n" using size_kept [OF pf(1), of "take ?n ?px"] l by (simp add: b0_def)
    have q1: "length q1 = length ?px - ?n" by (simp add: q1_def)
    have b1: "length b1 = ?n2" using size_kept [OF pf(2), of "take ?n2 q1"] l q1 by (simp add: b1_def)
    have q2: "length q2 = length ?px - ?n - ?n2" by (simp add: q2_def q1)
    have bits: "push_bit 0 1 = (1 :: u32)" "push_bit 1 1 = (2 :: u32)" "push_bit 2 1 = (4 :: u32)" by simp_all
    have i0: "int (length ([] :: plane)) = 0" by simp
    have le: "?n \<le> length ?px" "?n2 \<le> length q1" "?n2 \<le> length q2" using l q1 q2 by linarith+
    have at1: "length (b0 @ q1) = length (pdata ?h0) div 2" using len0 le(1) b0 q1 by simp
    then have at2: "length ((b0 @ b1) @ q2) = length (pdata ?h0) div 2" using le b0 b1 q1 q2 by simp
    note step' = chan_step [OF h, where ?h0.0 = ?h0 and cm = cm']
    have s0: "on_chan cm' 1 (\<lambda>x P. ?run x ?w ?k 0 P) x (with_pixels p ?h0 P ([] @ ?px)) = Some (x, with_pixels p ?h0 P (b0 @ q1))"
      using step' [OF len0 pf(1) le(1), of 0 x] unfolding bits i0 append_Nil b0_def q1_def .
    have s1: "on_chan cm' 2 (\<lambda>x P. ?run x w2 k2 (int ?n) P) x (with_pixels p ?h0 P (b0 @ q1)) = Some (x, with_pixels p ?h0 P ((b0 @ b1) @ q2))"
      using step' [OF at1 pf(2) le(2), of 1 x] unfolding bits b0 by (simp only: b1_def q2_def append_assoc)
    have s2: "on_chan cm' 4 (\<lambda>x P. ?run x w2 k2 (int ?n + int ?n2) P) x (with_pixels p ?h0 P ((b0 @ b1) @ q2))
        = Some (x, with_pixels p ?h0 P ((b0 @ b1) @ (if bit cm' 2 then g w2 k2 (take ?n2 q2) else take ?n2 q2) @ drop ?n2 q2))"
      using step' [OF at2 pf(2) le(3), of 2 x] unfolding bits length_append b0 b1 of_nat_add .
    have r: "on_planes g cm' 0 (planes im) ?px = (b0 @ b1) @ (if bit cm' 2 then g w2 k2 (take ?n2 q2) else take ?n2 q2) @ drop ?n2 q2"
      unfolding pl on_planes.simps Let_def b0_def b1_def q1_def q2_def by (simp add: numeral_2_eq_2)
    have "dispatch_planes ?run x cm p P = Some (x, with_pixels p ?h0 P (on_planes g cm' 0 (planes im) ?px))"
      unfolding dispatch_planes_def info P0 bind.bind_lunit Let_def w2_def [symmetric] k2_def [symmetric] cm'_def [symmetric] u u2 r
      using yv12 ne by (simp only: s0 s1 s2 simp_thms if_True if_False bind.bind_lunit prod.case)
    then show ?thesis unfolding cm'_def .
  qed
  then show ?thesis using v by (simp add: pdp_imageproc_dispatch_1buf_def)
qed

end

section \<open>The routines meet the contract\<close>

text \<open>A loop that runs on a plane runs the same way when more pixels follow.\<close>

lemma rd_frame: "rd b i = Some v \<Longrightarrow> rd (b @ r) i = Some v"
  by (auto simp: rd_def nth_append nat_less_iff split: if_splits)

lemma wr_frame: "wr b i v = Some b' \<Longrightarrow> wr (b @ r) i v = Some (b' @ r)"
  by (auto simp: wr_def list_update_append nat_less_iff split: if_splits)

lemma for_loop_frame:
  assumes "\<And>i b b'. f i b = Some b' \<Longrightarrow> f i (b @ r) = Some (b' @ r)"
  shows "for_loop i n f b = Some b' \<Longrightarrow> for_loop i n f (b @ r) = Some (b' @ r)"
proof (induction n arbitrary: i b)
  case (Suc n)
  then show ?case by (auto simp: bind_eq_Some_conv intro: assms)
qed simp

lemma rd32_frame: "rd32 b i = Some v \<Longrightarrow> rd32 (b @ r) i = Some v"
  by (auto simp: rd32_def bind_eq_Some_conv intro!: rd_frame)

lemma wr32_frame: "wr32 b i v = Some b' \<Longrightarrow> wr32 (b @ r) i v = Some (b' @ r)"
  by (auto simp: wr32_def bind_eq_Some_conv intro: wr_frame)

lemmas frames = rd_frame wr_frame rd32_frame wr32_frame

lemma routine_frame:
  "pdp_imageproc_gain_process d w h b = Some b' \<Longrightarrow> pdp_imageproc_gain_process d w h (b @ r) = Some (b' @ r)"
  "pdp_imageproc_not_process w h b = Some b' \<Longrightarrow> pdp_imageproc_not_process w h (b @ r) = Some (b' @ r)"
  "pdp_imageproc_abs_process w h b = Some b' \<Longrightarrow> pdp_imageproc_abs_process w h (b @ r) = Some (b' @ r)"
  unfolding pdp_imageproc_gain_process_def pdp_imageproc_not_process_def pdp_imageproc_abs_process_def
  by (erule for_loop_frame [rotated]; unfold bind_eq_Some_conv; elim exE conjE; intro exI conjI; erule frames)+

lemma plane_routineI:
  assumes "\<And>w h b b' r. f w h b = Some b' \<Longrightarrow> f w h (b @ r) = Some (b' @ r)"
    and "\<And>w h p. length p = unat (w * h) \<Longrightarrow> even (unat (w * h)) \<Longrightarrow> f w h p = Some (map g p)"
  shows "plane_routine f (\<lambda>w h. map g)"
  by unfold_locales (use assms unat_mult_u32 in \<open>simp_all add: plane_fits_def\<close>)

interpretation gain: plane_routine "pdp_imageproc_gain_process d"
  "\<lambda>w h. map (\<lambda>a. to_s16 (CLAMP16 (asr (wrap32 (sint a * d ! 0)) (nat (d ! 1)))))" for d
  by (rule plane_routineI) (rule routine_frame gain_pixelwise; assumption)+

interpretation not: plane_routine pdp_imageproc_not_process "\<lambda>w h. map NOT"
  by (rule plane_routineI) (rule routine_frame signs_pixelwise; assumption)+

interpretation abs: plane_routine pdp_imageproc_abs_process "\<lambda>w h. map (\<lambda>a. if sint a < 0 then NOT a else a)"
  by (rule plane_routineI) (rule routine_frame signs_pixelwise; assumption)+

section \<open>Properties\<close>

text \<open>The planes of an image lie inside \<open>n\<close> pixels and suit the routines.\<close>

definition image_fits :: "t_image \<Rightarrow> nat \<Rightarrow> bool" where
  "image_fits im n \<longleftrightarrow> (\<forall>(w, h) \<in> set (planes im). plane_fits w h) \<and> planes_total (planes im) \<le> n \<and>
     (i_encoding im = PDP_IMAGE_YV12 \<longrightarrow> even (unat (i_width im)) \<and> even (unat (i_height im)))"

text \<open>
  C6: the one-buffer dispatcher hands every plane of a grey, YCrCb or multi-channel image to the
  routine exactly where the encoding puts it: on a valid image the result is the pool in which the
  planes selected by the channel mask (the packet's own, when it is set) have been amplified or
  inverted pixel by pixel, the other planes and packets are as before, and the packet's mask is reset.
\<close>

theorem dispatch_selected_planes:
  assumes "pdp_packet_header p P = Some h" "pdp_packet_image_isvalid p P" "im = image_of (info h)"
    and "image_fits im (length (pdata h) div 2)" "cm' = (if i_chanmask im \<noteq> 0 then i_chanmask im else cm)"
  shows "pdp_imageproc_dispatch_1buf (run1 (\<lambda>_. pdp_imageproc_gain_process d)) x cm p P =
      Some (x, with_pixels p (h\<lparr>info := Image (im\<lparr>i_chanmask := 0\<rparr>)\<rparr>) P
        (on_planes (\<lambda>w h. map (\<lambda>a. to_s16 (CLAMP16 (asr (wrap32 (sint a * d ! 0)) (nat (d ! 1)))))) cm' 0 (planes im) (pixels (pdata h)))) \<and>
    pdp_imageproc_dispatch_1buf (run1 (\<lambda>_. pdp_imageproc_not_process)) x cm p P =
      Some (x, with_pixels p (h\<lparr>info := Image (im\<lparr>i_chanmask := 0\<rparr>)\<rparr>) P
        (on_planes (\<lambda>w h. map NOT) cm' 0 (planes im) (pixels (pdata h))))"
  unfolding assms(5)
  by (intro conjI gain.dispatch not.dispatch) (use assms(1-4) in \<open>auto simp: image_fits_def\<close>)

text \<open>A YCrCb image of 4 x 4 pixels whose own mask selects the luminance and the U plane.\<close>

definition demo_image :: t_image where
  "demo_image = \<lparr>i_encoding = PDP_IMAGE_YV12, i_width = 4, i_height = 4, i_depth = 0, i_chanmask = 5\<rparr>"

definition demo_packet :: t_pdp where
  "demo_packet = \<lparr>ptype = PDP_IMAGE, desc = Some ''image/YCrCb/4x4'', psize = 304, flags = 0, users = 1, theclass = None,
     info = Image demo_image, pdata = pixel_bytes (replicate 24 100)\<rparr>"

definition demo_pool :: pool where
  "demo_pool = set_packet 0 (Some demo_packet) (pdp_packet_setup empty_pool)"

lemma demo_header: "pdp_packet_header 0 demo_pool = Some demo_packet"
  by (simp add: demo_pool_def pdp_packet_header_def set_packet_def pdp_packet_setup_def PDP_INITIAL_POOL_SIZE_def)

lemma demo_valid: "pdp_packet_image_isvalid 0 demo_pool"
  by (simp add: pdp_packet_image_isvalid_def demo_header demo_packet_def demo_image_def)

lemma demo_planes: "planes demo_image = [(4, 4), (2, 2), (2, 2)]"
  by (simp add: planes_def demo_image_def PDP_IMAGE_YV12_def PDP_IMAGE_GREY_def)

lemma demo_fits: "image_fits demo_image (length (pdata demo_packet) div 2)"
  by (auto simp: image_fits_def demo_planes planes_total_def plane_fits_def demo_packet_def) (simp_all add: demo_image_def)

theorem dispatch_selected_planes_witness:
  "\<exists>P. pdp_imageproc_dispatch_1buf (run1 (\<lambda>_. pdp_imageproc_not_process)) () 7 0 demo_pool = Some ((), P) \<and>
     map_option pixels (pdp_packet_data 0 P) = Some (replicate 16 (-101) @ replicate 4 100 @ replicate 4 (-101))"
proof (intro exI conjI)
  let ?P = "with_pixels 0 (demo_packet\<lparr>info := Image (demo_image\<lparr>i_chanmask := 0\<rparr>)\<rparr>) demo_pool
        (on_planes (\<lambda>w h. map NOT) 5 0 (planes demo_image) (pixels (pdata demo_packet)))"
  show "pdp_imageproc_dispatch_1buf (run1 (\<lambda>_. pdp_imageproc_not_process)) () 7 0 demo_pool = Some ((), ?P)"
    by (rule dispatch_selected_planes [OF demo_header demo_valid _ demo_fits, THEN conjunct2]) (simp_all add: demo_packet_def demo_image_def)
  have "pixels (pdata demo_packet) = replicate 24 100"
    using pixels_bytes [of "replicate 24 100" "[]"] by (simp add: demo_packet_def)
  moreover have "on_planes (\<lambda>w h. map NOT) 5 0 (planes demo_image) (replicate 24 100) = replicate 16 (-101) @ replicate 4 100 @ replicate 4 (-101)"
    by (simp add: demo_planes Let_def not_eq_complement)
  ultimately show "map_option pixels (pdp_packet_data 0 ?P) = Some (replicate 16 (-101) @ replicate 4 100 @ replicate 4 (-101))"
    by (simp add: pdp_packet_data_def header_with_pixels [OF demo_header] pixels_set demo_packet_def)
qed

text \<open>
  The three-buffer dispatcher never looks at its third packet: with two compatible grey images it
  calls the routine with a pointer into \<open>packet2\<close> whatever that handle is.
\<close>

lemma dispatch_3buf_ignores_packet2:
  assumes "pdp_packet_image_compat p0 p1 P" "pdp_packet_image_info p0 P = Some im" "i_encoding im = PDP_IMAGE_GREY"
    and "i_chanmask im = 0" "cm AND 1 \<noteq> 0"
  shows "pdp_imageproc_dispatch_3buf f x cm p0 p1 p2 P =
    f x (i_width im) (i_height im) (p0, 0) (p1, 0) (p2, 0) (set_image p0 (\<lambda>im. im\<lparr>i_chanmask := 0\<rparr>) P)"
  using assms by (simp add: pdp_imageproc_dispatch_3buf_def dispatch_planes_def on_chan_def Let_def)

end
