(* ===== verification/ImageOk.thy ===== *)
theory ImageOk
  imports Dispatch
begin

text \<open>
  Properties of the image packets of theory \<open>Image\<close>: what the constructors make, that the factory makes
  exactly the image its description asks for, and that the conversions keep the contract under
  which theory \<open>TypeConv\<close> chains them.
\<close>

section \<open>Fresh packets\<close>

lemma made_write:
  assumes "made P R q P1" "pdp_packet_header q P1 = Some h" "users g = users h"
  shows "made P R q (set_packet q (Some g) P1)"
proof -
  have "users h = 1" using assms(1,2) by (simp add: made_def pdp_packet_writable_def)
  moreover have "pool_inv (set_packet q (Some g) P1) (add_mset q R)"
    by (rule write_ok [OF made_inv [OF assms(1)] _ assms(2,3)]) simp
  moreover have "pdp_packet_header x (set_packet q (Some g) P1) = (if x = q then Some g else pdp_packet_header x P1)" for x
    using header_valid [OF assms(2)] by (simp add: header_set_packet)
  ultimately show ?thesis using assms by (auto simp: made_def pdp_packet_writable_def)
qed

section \<open>New images\<close>

definition blank_image :: t_image where
  "blank_image = \<lparr>i_encoding = 0, i_width = 0, i_height = 0, i_depth = 0, i_chanmask = 0\<rparr>"

text \<open>The description of an image, the abstract view of \<open>pdp_packet_image_get_description\<close>.\<close>

definition image_desc :: "t_image \<Rightarrow> symbol" where
  "image_desc im =
     ''image/'' @
     (if i_encoding im = PDP_IMAGE_YV12 then ''YCrCb/'' @ fmt_d (i_width im) @ ''x'' @ fmt_d (i_height im)
      else if i_encoding im = PDP_IMAGE_GREY then ''grey/'' @ fmt_d (i_width im) @ ''x'' @ fmt_d (i_height im)
      else if i_encoding im = PDP_IMAGE_MCHP then ''multi/'' @ fmt_d (i_width im) @ ''x'' @ fmt_d (i_height im) @ ''x'' @ fmt_d (i_depth im)
      else ''unknown'')"

lemma get_description_fresh:
  "pdp_packet_header p P = Some h \<Longrightarrow> desc h = None \<Longrightarrow> ptype h = PDP_IMAGE \<Longrightarrow> info h = Image im \<Longrightarrow>
    pdp_packet_image_get_description p P = image_desc im"
  by (simp add: pdp_packet_image_get_description_def image_desc_def Let_def)

text \<open>
  A new image of \<open>sz\<close> bytes: \<open>-1\<close> with every held packet as it was, or a packet made for the caller, described as
  the image it is.
\<close>

definition image_made :: "nat option \<Rightarrow> t_image \<Rightarrow> pool \<Rightarrow> int multiset \<Rightarrow> int \<Rightarrow> pool \<Rightarrow> bool" where
  "image_made ic im P R q P' \<longleftrightarrow>
     (if q = -1 then kept P R P'
      else made P R q P' \<and> (\<exists>h. pdp_packet_header q P' = Some h \<and> ptype h = PDP_IMAGE \<and> info h = Image im \<and>
        desc h = Some (image_desc im) \<and> theclass h = ic \<and> flags h = 0))"

lemma new_image_packet_made:
  assumes inv: "pool_inv P R" "size R < 2 ^ 32 - 1" and r: "new_image_packet E ic sz f P = Some (q, P')"
  shows "image_made ic (f blank_image) P R q P'"
    and "q \<noteq> -1 \<Longrightarrow> data_ok P \<Longrightarrow> malloc_fits E \<Longrightarrow> unat sz + 256 < 2 ^ 32 \<Longrightarrow>
      data_ok P' \<and> (\<exists>h. pdp_packet_header q P' = Some h \<and> length (pdata h) = unat sz)"
proof -
  from r obtain n P1 where n: "pdp_packet_new E PDP_IMAGE sz P = Some (n, P1)"
    by (auto simp: new_image_packet_def bind_eq_Some_conv)
  note d = new_ok [OF inv n]
  have "image_made ic (f blank_image) P R q P' \<and> (q \<noteq> -1 \<longrightarrow> data_ok P \<longrightarrow> malloc_fits E \<longrightarrow> unat sz + 256 < 2 ^ 32 \<longrightarrow>
      data_ok P' \<and> (\<exists>h. pdp_packet_header q P' = Some h \<and> length (pdata h) = unat sz))"
  proof (cases "n = -1")
    case True
    then have "q = -1" "P' = P1" using r n by (simp_all add: new_image_packet_def pdp_packet_header_def)
    with True d show ?thesis by (simp add: image_made_def)
  next
    case False
    with d have m: "made P R n P1" by simp
    from new_blank [OF inv n False] obtain h where
      h: "pdp_packet_header n P1 = Some h" "blank PDP_IMAGE sz h"
        "\<And>x. x \<noteq> n \<Longrightarrow> pdp_packet_header x P1 = pdp_packet_header x P"
        "data_ok P \<Longrightarrow> malloc_fits E \<Longrightarrow> unat sz + 256 < 2 ^ 32 \<Longrightarrow> length (pdata h) = unat sz" by blast
    let ?im = "f blank_image"
    let ?h1 = "h\<lparr>info := Image ?im\<rparr>"
    let ?P2 = "set_packet n (Some ?h1) P1"
    have P2: "made P R n ?P2" "pdp_packet_header n ?P2 = Some ?h1"
      using made_write [OF m h(1), of ?h1] header_valid [OF h(1)] by (simp_all add: header_set_packet)
    have d: "pdp_packet_image_get_description n ?P2 = image_desc ?im"
      using h(2) by (intro get_description_fresh [OF P2(2)]) (simp_all add: blank_def)
    let ?h2 = "?h1\<lparr>desc := Some (image_desc ?im), theclass := ic\<rparr>"
    let ?P3 = "set_packet n (Some ?h2) ?P2"
    have P3: "made P R n ?P3" "pdp_packet_header n ?P3 = Some ?h2"
      using made_write [OF P2, of ?h2] header_valid [OF P2(2)] by (simp_all only: header_set_packet) simp_all
    have "image_of (info h) = blank_image" using h(2) by (simp add: blank_def blank_image_def)
    then have "new_image_packet E ic sz f P = Some (n, ?P3)"
      unfolding new_image_packet_def using n h(1) P2(2) d by (simp add: set_image_def Let_def)
    then have q: "q = n" "P' = ?P3" using r by simp_all
    have "image_made ic ?im P R n ?P3" using P3 h(2) False by (simp add: image_made_def blank_def)
    moreover have "data_ok ?P3" if D: "data_ok P" "malloc_fits E" "unat sz + 256 < 2 ^ 32"
      unfolding data_ok_def
    proof (intro allI impI)
      fix x g assume x: "pdp_packet_header x ?P3 = Some g"
      show "length (pdata g) = unat (psize g - of_nat PDP_HEADER_SIZE)"
      proof (cases "x = n")
        case True
        then show ?thesis using x P3(2) h(2) h(4) [OF D] by (simp add: blank_def)
      next
        case False
        then have "pdp_packet_header x P = Some g" using x h(3) header_valid [OF h(1)] by (simp add: header_set_packet)
        then show ?thesis using D(1) by (simp add: data_ok_def)
      qed
    qed
    moreover have "length (pdata ?h2) = unat sz" if "data_ok P" "malloc_fits E" "unat sz + 256 < 2 ^ 32"
      using h(4) [OF that] by simp
    ultimately show ?thesis unfolding q using P3(2) by blast
  qed
  then show "image_made ic (f blank_image) P R q P'"
    and "q \<noteq> -1 \<Longrightarrow> data_ok P \<Longrightarrow> malloc_fits E \<Longrightarrow> unat sz + 256 < 2 ^ 32 \<Longrightarrow>
      data_ok P' \<and> (\<exists>h. pdp_packet_header q P' = Some h \<and> length (pdata h) = unat sz)" by blast+
qed

lemma new_image_packet_returns:
  assumes "pool_inv P R" "size R < 2 ^ 32 - 1" "malloc_fits E" "unat sz + 256 < 2 ^ 32"
  shows "\<exists>q P'. new_image_packet E ic sz f P = Some (q, P')"
    and "malloc_ok E \<Longrightarrow> unat sz + 256 < 2 ^ 31 \<Longrightarrow> \<exists>q P'. new_image_packet E ic sz f P = Some (q, P') \<and> q \<noteq> -1"
proof -
  have go: "\<exists>q P2. new_image_packet E ic sz f P = Some (q, P2) \<and> (pdp_packet_header n P1 \<noteq> None \<longrightarrow> q = n)"
    if n: "pdp_packet_new E PDP_IMAGE sz P = Some (n, P1)" for n P1
  proof (cases "pdp_packet_header n P1")
    case None
    with n show ?thesis by (simp add: new_image_packet_def)
  next
    case (Some h)
    have "pdp_packet_header n (set_packet n (Some (h\<lparr>info := Image (f (image_of (info h)))\<rparr>)) P1) \<noteq> None"
      using header_valid [OF Some] by (simp add: header_set_packet)
    with n Some show ?thesis by (auto simp: new_image_packet_def set_image_def Let_def)
  qed
  from new_defined [OF assms, of PDP_IMAGE] go show "\<exists>q P'. new_image_packet E ic sz f P = Some (q, P')" by blast
  assume "malloc_ok E" "unat sz + 256 < 2 ^ 31"
  from new_succeeds [OF assms(1,2) this, of PDP_IMAGE] obtain n P1 where
    n: "pdp_packet_new E PDP_IMAGE sz P = Some (n, P1)" "made P R n P1" by blast
  then have "n \<noteq> -1" "pdp_packet_header n P1 \<noteq> None" by (auto simp: made_def pdp_packet_writable_def split: option.splits)
  with go [OF n(1)] show "\<exists>q P'. new_image_packet E ic sz f P = Some (q, P') \<and> q \<noteq> -1" by auto
qed

lemma malloc_ok_fits: "malloc_ok E \<Longrightarrow> malloc_fits E"
  by (simp add: malloc_ok_def)

lemma new_image_packet_ok:
  assumes "pool_inv P R" "size R < 2 ^ 32 - 1" "data_ok P" "malloc_ok E" "unat sz + 256 < 2 ^ 31"
  shows "\<exists>q P' h. new_image_packet E ic sz f P = Some (q, P') \<and> made P R q P' \<and> data_ok P' \<and> pdp_packet_header q P' = Some h \<and>
    ptype h = PDP_IMAGE \<and> info h = Image (f blank_image) \<and> desc h = Some (image_desc (f blank_image)) \<and> theclass h = ic \<and> flags h = 0 \<and>
    length (pdata h) = unat sz"
proof -
  have sz: "unat sz + 256 < 2 ^ 32" using assms(5) by simp
  from new_image_packet_returns(2) [OF assms(1,2) malloc_ok_fits [OF assms(4)] sz assms(4,5)] obtain q P' where
    r: "new_image_packet E ic sz f P = Some (q, P')" "q \<noteq> -1" by blast
  note M = new_image_packet_made [OF assms(1,2) r(1)]
  from M(2) [OF r(2) assms(3) malloc_ok_fits [OF assms(4)] sz] M(1) r show ?thesis by (auto simp: image_made_def)
qed

text \<open>
  An image the constructors can make: a known encoding, dimensions that print as positive numbers,
  data that with the header stay below 2 GB, since \<open>pdp_alloc\<close> takes an \<open>int\<close>, even dimensions when the
  chrominance is subsampled.
\<close>

definition image_legal :: "t_image \<Rightarrow> bool" where
  "image_legal im \<longleftrightarrow> i_encoding im \<in> {PDP_IMAGE_YV12, PDP_IMAGE_GREY, PDP_IMAGE_MCHP} \<and>
     unat (i_width im) < 2 ^ 31 \<and> unat (i_height im) < 2 ^ 31 \<and> unat (i_depth im) < 2 ^ 31 \<and>
     2 * planes_total (planes im) + 256 < 2 ^ 31 \<and>
     (i_encoding im = PDP_IMAGE_YV12 \<longrightarrow> even (unat (i_width im)) \<and> even (unat (i_height im))) \<and>
     (i_encoding im \<noteq> PDP_IMAGE_MCHP \<longrightarrow> i_depth im = 0) \<and> i_chanmask im = 0"

text \<open>The constructor call for an image.\<close>

definition new_image_of :: "methods \<Rightarrow> nat option \<Rightarrow> t_image \<Rightarrow> pool \<Rightarrow> (int \<times> pool) option" where
  "new_image_of E ic im P =
     (if i_encoding im = PDP_IMAGE_MCHP then pdp_packet_new_image_mchp E ic (i_width im) (i_height im) (i_depth im) P
      else pdp_packet_new_image E ic (i_encoding im) (i_width im) (i_height im) P)"

text \<open>What a constructor delivers.\<close>

definition is_new_image :: "nat option \<Rightarrow> t_image \<Rightarrow> pool \<Rightarrow> int multiset \<Rightarrow> int \<Rightarrow> pool \<Rightarrow> bool" where
  "is_new_image ic im P R q P' \<longleftrightarrow> made P R q P' \<and> data_ok P' \<and> pdp_packet_image_isvalid q P' \<and>
     (\<exists>h. pdp_packet_header q P' = Some h \<and> info h = Image im \<and> desc h = Some (image_desc im) \<and> theclass h = ic \<and>
        length (pdata h) = 2 * planes_total (planes im))"

lemmas encodings = PDP_IMAGE_YV12_def PDP_IMAGE_GREY_def PDP_IMAGE_MCHP_def

lemma unat_push1: "2 * unat (x :: u32) < 2 ^ 32 \<Longrightarrow> unat (push_bit 1 x) = 2 * unat x"
  by (simp add: push_bit_eq_mult unat_word_ariths)

text \<open>The constructor of a legal image asks for the bytes of its planes.\<close>

lemma new_image_of_packet:
  assumes "image_legal im"
  obtains sz f where "unat sz = 2 * planes_total (planes im)" "f blank_image = im"
    "\<And>E ic P. new_image_of E ic im P = new_image_packet E ic sz f P"
proof -
  let ?w = "i_width im" and ?h = "i_height im" and ?d = "i_depth im"
  have "2 * planes_total (planes im) + 256 < 2 ^ 31" using assms by (simp add: image_legal_def)
  then have sz: "2 * planes_total (planes im) + 256 < 2 ^ 32" by simp
  consider (grey) "i_encoding im = PDP_IMAGE_GREY" | (yv12) "i_encoding im = PDP_IMAGE_YV12" | (mchp) "i_encoding im = PDP_IMAGE_MCHP"
    using assms by (auto simp: image_legal_def)
  then show thesis
  proof cases
    case grey
    then have pl: "planes_total (planes im) = unat ?w * unat ?h" by (simp add: planes_def planes_total_def)
    then have "unat (?w * ?h) = unat ?w * unat ?h" using sz pl by (intro unat_mult_u32) linarith
    then have "unat (push_bit 1 (?w * ?h)) = 2 * planes_total (planes im)"
      using sz pl unat_push1 [of "?w * ?h"] by simp
    then show thesis using grey assms
      by (rule_tac that [of _ "\<lambda>im. im\<lparr>i_encoding := PDP_IMAGE_GREY, i_width := ?w, i_height := ?h\<rparr>"])
        (simp_all add: new_image_of_def pdp_packet_new_image_def pdp_packet_new_image_grey_def Let_def encodings blank_image_def image_legal_def)
  next
    case mchp
    then have pl: "planes_total (planes im) = unat ?d * (unat ?w * unat ?h)"
      by (simp add: planes_def planes_total_def sum_list_replicate Let_def encodings)
    have "unat (?w * ?h * ?d) = unat ?d * (unat ?w * unat ?h)"
    proof (cases "?d = 0")
      case False
      then have "unat ?w * unat ?h * 1 \<le> unat ?w * unat ?h * unat ?d" by (intro mult_le_mono2) (simp add: unat_gt_0 Suc_leI)
      then have "unat ?w * unat ?h \<le> unat ?d * (unat ?w * unat ?h)" by (simp only: mult_1_right mult.commute)
      then have "unat ?w * unat ?h < 2 ^ 32" "unat ?w * unat ?h * unat ?d < 2 ^ 32"
        using sz unfolding pl by (linarith | simp add: mult.commute mult.left_commute)+
      then show ?thesis using unat_mult_u32 [of ?w ?h] unat_mult_u32 [of "?w * ?h" ?d] by (simp add: mult.commute)
    qed simp
    then have "unat (push_bit 1 (?w * ?h * ?d)) = 2 * planes_total (planes im)"
      using sz pl unat_push1 [of "?w * ?h * ?d"] by simp
    then show thesis using mchp assms
      by (rule_tac that [of _ "\<lambda>im. im\<lparr>i_encoding := PDP_IMAGE_MCHP, i_width := ?w, i_height := ?h, i_depth := ?d\<rparr>"])
        (simp_all add: new_image_of_def pdp_packet_new_image_mchp_def Let_def blank_image_def image_legal_def)
  next
    case yv12
    then have even: "even (unat ?w)" "even (unat ?h)" using assms by (simp_all add: image_legal_def)
    then obtain a b where ab: "unat ?w = 2 * a" "unat ?h = 2 * b" by (metis evenE)
    have half: "unat (drop_bit 1 ?w) = a" "unat (drop_bit 1 ?h) = b" unfolding unat_drop_bit_eq ab by (simp_all add: drop_bit_eq_div)
    then have pl: "planes_total (planes im) = 6 * (a * b)"
      using yv12 ab by (simp only: planes_def planes_total_def Let_def encodings) simp
    then have lt: "12 * (a * b) + 256 < 2 ^ 32" using sz by simp
    then have wh: "unat (?w * ?h) = 4 * (a * b)" using unat_mult_u32 [of ?w ?h] ab by simp
    then have "unat (drop_bit 1 (?w * ?h)) = 2 * (a * b)" unfolding unat_drop_bit_eq by (simp add: drop_bit_eq_div)
    then have "unat (?w * ?h + drop_bit 1 (?w * ?h)) = 6 * (a * b)"
      using wh lt by (simp only: unat_word_ariths) simp
    then have "unat (push_bit 1 (?w * ?h + drop_bit 1 (?w * ?h))) = 2 * planes_total (planes im)"
      using unat_push1 [of "?w * ?h + drop_bit 1 (?w * ?h)"] lt pl by simp
    then show thesis using yv12 assms
      by (rule_tac that [of _ "\<lambda>im. im\<lparr>i_encoding := PDP_IMAGE_YV12, i_width := ?w, i_height := ?h\<rparr>"])
        (simp_all add: new_image_of_def pdp_packet_new_image_def pdp_packet_new_image_YCrCb_def Let_def encodings blank_image_def image_legal_def)
  qed
qed

lemma new_image_of_ok:
  assumes "pool_inv P R" "size R < 2 ^ 32 - 1" "data_ok P" "malloc_ok E" "image_legal im"
  shows "\<exists>q P'. new_image_of E ic im P = Some (q, P') \<and> is_new_image ic im P R q P'"
proof (rule new_image_of_packet [OF assms(5)])
  fix sz f
  assume sz: "unat sz = 2 * planes_total (planes im)" and f: "f blank_image = im"
    and e: "\<And>E ic P. new_image_of E ic im P = new_image_packet E ic sz f P"
  have "unat sz + 256 < 2 ^ 31" using sz assms(5) by (simp add: image_legal_def)
  from new_image_packet_ok [OF assms(1-4) this, of ic f] f sz show ?thesis unfolding e
    using assms(5) by (fastforce simp: is_new_image_def pdp_packet_image_isvalid_def image_legal_def Let_def)
qed

text \<open>Without a promise that \<open>malloc\<close> succeeds, and whatever the buffers in the pool are.\<close>

lemma new_image_of_made:
  assumes "pool_inv P R" "size R < 2 ^ 32 - 1" "malloc_fits E" "image_legal im"
  shows "\<exists>q P'. new_image_of E ic im P = Some (q, P') \<and> image_made ic im P R q P' \<and> (malloc_ok E \<longrightarrow> q \<noteq> -1)"
proof (rule new_image_of_packet [OF assms(4)])
  fix sz f
  assume sz: "unat sz = 2 * planes_total (planes im)" and f: "f blank_image = im"
    and e: "\<And>E ic P. new_image_of E ic im P = new_image_packet E ic sz f P"
  have lt: "unat sz + 256 < 2 ^ 31" using sz assms(4) by (simp add: image_legal_def)
  then have "unat sz + 256 < 2 ^ 32" by simp
  note r = new_image_packet_returns [OF assms(1-3) this, of ic f]
  from r(1) r(2) [OF _ lt] new_image_packet_made(1) [OF assms(1,2), of E ic sz f] f
  show ?thesis unfolding e by fastforce
qed

section \<open>Numbers that print and scan\<close>

lemma scan_nat_str:
  assumes "int n < 2 ^ 31" "r = [] \<or> \<not> is_digit (hd r)"
  shows "scan_d (nat_str n @ r) = Some (int n, r)"
proof -
  obtain c cs where c: "nat_str n = c # cs" by (cases "nat_str n") simp_all
  then have d: "is_digit c" "\<forall>x \<in> set cs. is_digit x" using nat_str_digits [of n] by simp_all
  have t: "takeWhile is_digit (nat_str n @ r) = nat_str n" "dropWhile is_digit (nat_str n @ r) = r"
    using nat_str_digits [of n] assms(2) by (cases r; simp add: takeWhile_append2 dropWhile_append2)+
  have sat: "max (- (2 ^ 63)) (min (2 ^ 63 - 1) (int n)) = int n" "wrap32 (int n) = int n"
    using assms(1) by (simp, rule wrap32_nat)
  have "scan_d (nat_str n @ r) =
      (if takeWhile is_digit (nat_str n @ r) = [] then None
       else Some (wrap32 (max (- (2 ^ 63)) (min (2 ^ 63 - 1) (int (digits_value (takeWhile is_digit (nat_str n @ r)))))),
                  dropWhile is_digit (nat_str n @ r)))"
    unfolding scan_d_def c using digit_kinds [OF d(1)] d(1) by (simp add: Let_def)
  then show ?thesis unfolding t digits_value_nat_str sat by simp
qed

lemma fmt_d_nat: "unat (w :: u32) < 2 ^ 31 \<Longrightarrow> fmt_d w = nat_str (unat w)"
  by (simp add: fmt_d_def sint_u32)

lemma scan_fmt:
  assumes "unat w < 2 ^ 31" "r = [] \<or> \<not> is_digit (hd r)"
  shows "scan_d (fmt_d w @ r) = Some (int (unat w), r)"
proof -
  have "int (unat w) < int (2 ^ 31)" using assms(1) by (simp only: of_nat_less_iff)
  then have "int (unat w) < 2 ^ 31" by (simp only: of_nat_power of_nat_numeral)
  then show ?thesis using scan_nat_str [OF _ assms(2)] by (simp only: fmt_d_nat [OF assms(1)])
qed

lemma not_digit_x: "\<not> is_digit CHR ''x''"
  by (simp add: is_digit_def)

lemma scan_dims_2:
  assumes "unat w < 2 ^ 31" "unat h < 2 ^ 31"
  shows "scan_dims 2 (fmt_d w @ ''x'' @ fmt_d h) = [int (unat w), int (unat h)]"
  using scan_fmt [OF assms(1), of "''x'' @ fmt_d h"] scan_fmt [OF assms(2), of "[]"]
  by (simp add: numeral_2_eq_2 not_digit_x)

lemma scan_dims_3:
  assumes "unat w < 2 ^ 31" "unat h < 2 ^ 31" "unat d < 2 ^ 31"
  shows "scan_dims 3 (fmt_d w @ ''x'' @ fmt_d h @ ''x'' @ fmt_d d) = [int (unat w), int (unat h), int (unat d)]"
  using scan_fmt [OF assms(1), of "''x'' @ fmt_d h @ ''x'' @ fmt_d d"] scan_fmt [OF assms(2), of "''x'' @ fmt_d d"] scan_fmt [OF assms(3), of "[]"]
  by (simp add: numeral_3_eq_3 not_digit_x)

lemma no_slash_fmt: "unat w < 2 ^ 31 \<Longrightarrow> no_slash (fmt_d w)"
  using nat_str_digits [of "unat w"] digit_kinds by (fastforce simp: fmt_d_nat)

section \<open>The factory\<close>

text \<open>The components of the description of a legal image.\<close>

definition desc_parts :: "t_image \<Rightarrow> symbol list" where
  "desc_parts im =
     (if i_encoding im = PDP_IMAGE_YV12 then [''image'', ''YCrCb'', fmt_d (i_width im) @ ''x'' @ fmt_d (i_height im)]
      else if i_encoding im = PDP_IMAGE_GREY then [''image'', ''grey'', fmt_d (i_width im) @ ''x'' @ fmt_d (i_height im)]
      else [''image'', ''multi'', fmt_d (i_width im) @ ''x'' @ fmt_d (i_height im) @ ''x'' @ fmt_d (i_depth im)])"

lemma desc_to_list: "image_legal im \<Longrightarrow> pdp_type_to_list (image_desc im) = desc_parts im"
proof -
  assume l: "image_legal im"
  then have "no_slash (fmt_d (i_width im))" "no_slash (fmt_d (i_height im))" "no_slash (fmt_d (i_depth im))"
    by (auto simp: image_legal_def intro!: no_slash_fmt)
  then have "\<forall>s \<in> set (desc_parts im). no_slash s" by (simp add: desc_parts_def)
  moreover have "desc_parts im \<noteq> []" by (simp add: desc_parts_def)
  moreover have "image_desc im = join_types (desc_parts im)"
    using l by (auto simp: image_desc_def desc_parts_def image_legal_def)
  ultimately show ?thesis by (simp add: pdp_type_to_list_split split_join)
qed

lemma factory_of_desc:
  assumes "image_legal im"
  shows "pdp_image_factory E ic (image_desc im) P =
    do { (p, P) \<leftarrow> new_image_of E ic im P;
         if p \<noteq> -1
         then do { header \<leftarrow> pdp_packet_header p P;
                   if desc header \<noteq> Some (image_desc im)
                   then do { P \<leftarrow> pdp_packet_delete p P; Some (-1, P) }
                   else Some (p, P) }
         else Some (p, P) }"
proof -
  have lt: "unat (i_width im) < 2 ^ 31" "unat (i_height im) < 2 ^ 31" "unat (i_depth im) < 2 ^ 31"
    using assms by (simp_all add: image_legal_def)
  note dims = scan_dims_2 [OF lt(1,2)] scan_dims_3 [OF lt]
  consider (grey) "i_encoding im = PDP_IMAGE_GREY" | (yv12) "i_encoding im = PDP_IMAGE_YV12" | (mchp) "i_encoding im = PDP_IMAGE_MCHP"
    using assms by (auto simp: image_legal_def)
  then show ?thesis
    unfolding pdp_image_factory_def desc_to_list [OF assms] desc_parts_def new_image_of_def
    by cases (simp_all add: dims encodings dim_def Let_def del: append.simps append_Cons)
qed

text \<open>The factory keeps the contract of constructors on the description of every legal image.\<close>

lemma image_factory_creates:
  assumes "pool_inv P R" "size R < 2 ^ 32 - 1" "malloc_fits E" "image_legal im"
  shows "\<exists>q P'. pdp_image_factory E ic (image_desc im) P = Some (q, P') \<and> image_made ic im P R q P' \<and> (malloc_ok E \<longrightarrow> q \<noteq> -1)"
proof -
  from new_image_of_made [OF assms, of ic] obtain q P' where
    n: "new_image_of E ic im P = Some (q, P')" "image_made ic im P R q P'" "malloc_ok E \<longrightarrow> q \<noteq> -1" by blast
  show ?thesis
  proof (intro exI conjI)
    show "pdp_image_factory E ic (image_desc im) P = Some (q, P')"
      unfolding factory_of_desc [OF assms(4)] using n by (auto simp: image_made_def)
  qed (rule n(2,3))+
qed

section \<open>Conversions\<close>

text \<open>A packet that has been made and described; conversions only write into the data of such a packet.\<close>

definition fresh :: "pool \<Rightarrow> int multiset \<Rightarrow> int \<Rightarrow> pool \<Rightarrow> bool" where
  "fresh P R q P' \<longleftrightarrow> made P R q P' \<and> (\<exists>h. pdp_packet_header q P' = Some h \<and> desc h \<noteq> None)"

lemma fresh_converted: "fresh P R q P' \<Longrightarrow> converted P R q P'"
  by (auto simp: fresh_def converted_def made_def)

lemma kept_is_converted: "pool_inv P R \<Longrightarrow> converted P R (-1) P"
  by (simp add: converted_def kept_refl)

lemma fresh_data:
  assumes "fresh P R q P1" "pdp_packet_header q P1 = Some h"
  shows "fresh P R q (set_packet q (Some (h\<lparr>pdata := d\<rparr>)) P1)"
  using assms made_write [of P R q P1 h "h\<lparr>pdata := d\<rparr>"] header_valid [OF assms(2)]
  by (auto simp: fresh_def header_set_packet)

lemma fresh_on_bytes: "fresh P R q P1 \<Longrightarrow> on_bytes q off f P1 = Some P2 \<Longrightarrow> fresh P R q P2"
  by (auto simp: on_bytes_def bind_eq_Some_conv Let_def fresh_data split: if_splits)

lemma fresh_on_pixels: "fresh P R q P1 \<Longrightarrow> on_pixels q off f P1 = Some P2 \<Longrightarrow> fresh P R q P2"
  by (auto simp: on_pixels_def bind_eq_Some_conv Let_def fresh_data split: if_splits)

lemmas fresh_writes = fresh_on_bytes fresh_on_pixels

lemma new_image_packet_converted:
  assumes "pool_inv P R" "size R < 2 ^ 32 - 1" "new_image_packet E ic sz f P = Some (q, P')"
  shows "converted P R q P'"
  using new_image_packet_made(1) [OF assms] by (auto simp: image_made_def converted_def)

lemma constructors_converted:
  assumes "pool_inv P R" "size R < 2 ^ 32 - 1"
  shows "pdp_packet_new_image_YCrCb E ic w h P = Some (q, P') \<Longrightarrow> converted P R q P'"
    and "pdp_packet_new_image_grey E ic w h P = Some (q, P') \<Longrightarrow> converted P R q P'"
    and "pdp_packet_new_image_mchp E ic w h d P = Some (q, P') \<Longrightarrow> converted P R q P'"
  unfolding pdp_packet_new_image_YCrCb_def pdp_packet_new_image_grey_def pdp_packet_new_image_mchp_def Let_def
  by (erule new_image_packet_converted [OF assms])+

lemma for_loop_keeps:
  "for_loop i n f s = Some s' \<Longrightarrow> I s \<Longrightarrow> (\<And>j s s'. f j s = Some s' \<Longrightarrow> I s \<Longrightarrow> I s') \<Longrightarrow> I s'"
  by (induction n arbitrary: i s) (auto simp: bind_eq_Some_conv)

lemma fresh_resample_planes: "fresh P R q P1 \<Longrightarrow> resample_planes p q sw dw depth P1 = Some P2 \<Longrightarrow> fresh P R q P2"
  unfolding resample_planes_def
  by (auto split: if_splits simp: Let_def elim!: for_loop_keeps [where I = "fresh P R q"])
    (auto simp: bind_eq_Some_conv intro: fresh_on_pixels)

lemma fresh_nonneg [simp]: "\<not> fresh P R (-1) P'"
  by (simp add: fresh_def made_def)

text \<open>\<open>yields Q m\<close>: if \<open>m\<close> returns, its result satisfies \<open>Q\<close>; one rule per kind of step.\<close>

definition yields :: "('a \<Rightarrow> bool) \<Rightarrow> 'a option \<Rightarrow> bool" where
  "yields Q m \<longleftrightarrow> (\<forall>r. m = Some r \<longrightarrow> Q r)"

definition handed_out :: "pool \<Rightarrow> int multiset \<Rightarrow> int \<times> pool \<Rightarrow> bool" where
  "handed_out P R r \<longleftrightarrow> converted P R (fst r) (snd r)"

lemma yields_Some: "Q r \<Longrightarrow> yields Q (Some r)"
  by (simp add: yields_def)

lemma yields_read: "(\<And>x. yields Q (f x)) \<Longrightarrow> yields Q (Option.bind m f)"
  by (auto simp: yields_def bind_eq_Some_conv)

lemma yields_bytes: "fresh P R q P1 \<Longrightarrow> (\<And>P2. fresh P R q P2 \<Longrightarrow> yields Q (g P2)) \<Longrightarrow> yields Q (Option.bind (on_bytes q off f P1) g)"
  by (auto simp: yields_def bind_eq_Some_conv intro: fresh_on_bytes)

lemma yields_pixels: "fresh P R q P1 \<Longrightarrow> (\<And>P2. fresh P R q P2 \<Longrightarrow> yields Q (g P2)) \<Longrightarrow> yields Q (Option.bind (on_pixels q off f P1) g)"
  by (auto simp: yields_def bind_eq_Some_conv intro: fresh_on_pixels)

lemma yields_planes: "fresh P R q P1 \<Longrightarrow> (\<And>P2. fresh P R q P2 \<Longrightarrow> yields Q (g P2)) \<Longrightarrow> yields Q (Option.bind (resample_planes p q sw dw depth P1) g)"
  by (auto simp: yields_def bind_eq_Some_conv intro: fresh_resample_planes)

lemma yields_if_bind: "yields Q (Option.bind a g) \<Longrightarrow> yields Q (Option.bind b g) \<Longrightarrow> yields Q (Option.bind (if c then a else b) g)"
  by simp

lemma yields_new:
  assumes "\<And>q P1. m = Some (q, P1) \<Longrightarrow> converted P R q P1"
    and "\<And>P1. converted P R (-1) P1 \<Longrightarrow> yields Q (f (-1) P1)" "\<And>q P1. fresh P R q P1 \<Longrightarrow> q \<noteq> -1 \<Longrightarrow> yields Q (g q P1)"
  shows "yields Q (Option.bind m (\<lambda>(q, P1). if q = -1 then f q P1 else g q P1))"
  unfolding yields_def bind_eq_Some_conv
proof (intro allI impI, elim exE conjE)
  fix r x
  assume m: "m = Some x" and r: "(case x of (q, P1) \<Rightarrow> if q = -1 then f q P1 else g q P1) = Some r"
  obtain q P1 where x: "x = (q, P1)" by (cases x)
  have c: "converted P R q P1" using m x assms(1) by blast
  show "Q r"
  proof (cases "q = -1")
    case True
    then show ?thesis using r x c assms(2) [of P1] by (simp add: yields_def)
  next
    case False
    with c have "fresh P R q P1" by (simp add: converted_def fresh_def)
    with False r x assms(3) [of q P1] show ?thesis by (simp add: yields_def)
  qed
qed

lemma handed_out_pair: "fresh P R q P1 \<Longrightarrow> handed_out P R (q, P1)" "converted P R q P1 \<Longrightarrow> handed_out P R (q, P1)"
  by (simp_all add: handed_out_def fresh_converted)

lemma conversion_fresh:
  assumes "pool_inv P R" "size R < 2 ^ 32 - 1"
  shows "yields (handed_out P R) (image_convert_YCrCb_to_grey E ic p d P)"
    and "yields (handed_out P R) (image_convert_grey_to_YCrCb E ic p d P)"
    and "yields (handed_out P R) (image_convert_grey_to_multi E ic p d P)"
    and "yields (handed_out P R) (image_convert_multi_to_YCrCb E ic p d P)"
    and "yields (handed_out P R) (image_convert_YCrCb_to_multi E ic p d P)"
  unfolding image_convert_YCrCb_to_grey_def image_convert_grey_to_YCrCb_def image_convert_grey_to_multi_def
    image_convert_multi_to_YCrCb_def image_convert_YCrCb_to_multi_def Let_def
  by ((rule yields_read, rule yields_new, erule constructors_converted [OF assms],
      (erule yields_bytes yields_pixels | erule handed_out_pair | rule yields_if_bind yields_Some yields_read | assumption)+)[1])+

lemma resample_fresh:
  assumes "pool_inv P R" "size R < 2 ^ 32 - 1"
  shows "yields (handed_out P R) (image_convert_resample_YCrCb E ic p d P)"
    and "yields (handed_out P R) (image_convert_resample_multi E ic p d P)"
  unfolding image_convert_resample_YCrCb_def image_convert_resample_multi_def Let_def
  by ((rule yields_read, rule yields_read, split prod.split, intro allI impI, split prod.split, intro allI impI,
      rule yields_new, (erule constructors_converted [OF assms] | (split if_split_asm; erule constructors_converted [OF assms])),
      (erule yields_bytes yields_pixels yields_planes | erule handed_out_pair | rule yields_if_bind yields_Some yields_read | assumption)+)[1])+

lemma image_conversion_converted:
  assumes "pool_inv P R" "size R < 2 ^ 32 - 1" "image_conversion E ic m p d P = Some (q, P')"
  shows "converted P R q P'"
proof (cases "m \<le> 6")
  case True
  then have "yields (handed_out P R) (image_conversion E ic m p d P)"
    using conversion_fresh [OF assms(1,2), of E ic p d] resample_fresh [OF assms(1,2), of E ic p d] by (simp add: image_conversion_def)
  then show ?thesis using assms(3) by (simp add: yields_def handed_out_def)
next
  case False
  then have "q = -1" "P' = P" using assms(3) by (simp_all add: image_conversion_def image_convert_fallback_def)
  then show ?thesis using assms(1) by (simp add: kept_is_converted)
qed

lemma image_conv_ok: "conv_ok (image_conversion E ic)"
  using image_conversion_converted unfolding conv_ok_def by blast

lemma image_setup_ok:
  assumes "tstate_ok T R" "pdp_image_setup c T = (ic, T')"
  shows "tstate_ok T' R"
  using assms by (auto simp: pdp_image_setup_def tstate_ok_def ccache_inv_def Let_def pdp_type_register_conversion_def
      pdp_conversion_program_new_def intro: class_new_inv)

section \<open>Luminance\<close>

lemma data_ok_write:
  assumes "data_ok P" "pdp_packet_header q P = Some h" "length d = length (pdata h)"
  shows "data_ok (set_packet q (Some (h\<lparr>pdata := d\<rparr>)) P)"
  using assms header_valid [OF assms(2)] by (auto simp: data_ok_def header_set_packet)

text \<open>A packet the caller got from a conversion: its data are \<open>d\<close>, it is an image \<open>im\<close>.\<close>

definition is_image :: "t_image \<Rightarrow> u8 list \<Rightarrow> pool \<Rightarrow> int multiset \<Rightarrow> int \<Rightarrow> pool \<Rightarrow> bool" where
  "is_image im d P R q P' \<longleftrightarrow> fresh P R q P' \<and> data_ok P' \<and>
     (\<exists>g. pdp_packet_header q P' = Some g \<and> info g = Image im \<and> desc g = Some (image_desc im) \<and> pdata g = d)"

lemma is_image_write:
  assumes "is_image im d P R q P1" "length d' = length d" "f (drop n d) = Some b" "d' = take n d @ b"
  shows "\<exists>P2. on_bytes q (int n) f P1 = Some P2 \<and> is_image im d' P R q P2"
proof -
  from assms(1) obtain g where g: "fresh P R q P1" "data_ok P1" "pdp_packet_header q P1 = Some g" "info g = Image im"
      "desc g = Some (image_desc im)" "pdata g = d" by (auto simp: is_image_def)
  have "on_bytes q (int n) f P1 = Some (set_packet q (Some (g\<lparr>pdata := d'\<rparr>)) P1)"
    using g(3,6) assms(3,4) by (simp add: on_bytes_def)
  moreover have "pdp_packet_header q (set_packet q (Some (g\<lparr>pdata := d'\<rparr>)) P1) = Some (g\<lparr>pdata := d'\<rparr>)"
    using header_valid [OF g(3)] by (simp add: header_set_packet)
  ultimately show ?thesis using fresh_data [OF g(1,3), of d'] data_ok_write [OF g(2,3), of d'] assms(2) g(4-6)
    by (simp add: is_image_def)
qed

lemma new_is_image: "is_new_image ic im P R q P' \<Longrightarrow> \<exists>d. is_image im d P R q P' \<and> length d = 2 * planes_total (planes im)"
  by (fastforce simp: is_new_image_def is_image_def fresh_def)

lemma size_arith: "3 * n + 256 < 2 ^ 31 \<Longrightarrow> 2 * n + 256 < (2 ^ 31 :: nat) \<and> 2 * n < (2 ^ 31 :: nat)"
  by simp

text \<open>\<open>2 * w * h\<close> in C is the size of the plane in bytes.\<close>

lemma y_bytes:
  assumes "unat w < 2 ^ 31" "unat h < 2 ^ 31" "2 * (unat w * unat h) < 2 ^ 31" "n = 2 * (unat w * unat h)"
  shows "wrap32 (wrap32 (2 * sint (w :: u32)) * sint (h :: u32)) = int n"
proof (cases "unat h = 0")
  case True
  then show ?thesis using assms(4) sint_u32 [OF assms(2)] by (simp add: wrap32_def)
next
  case False
  define W H where "W = unat w" and "H = unat h"
  have s: "sint w = int W" "sint h = int H" using sint_u32 assms(1,2) by (simp_all only: W_def H_def)
  have "W * 1 \<le> W * H" using False by (intro mult_le_mono2) (simp add: H_def)
  then have "W \<le> W * H" by (simp only: mult_1_right)
  then have "2 * W \<le> 2 * (W * H)" by (rule mult_le_mono2)
  moreover have "2 * (W * H) < 2 ^ 31" using assms(3) unfolding W_def H_def .
  ultimately have "2 * W < 2 ^ 31" "2 * W * H < 2 ^ 31" by (rule order_le_less_trans, simp only: mult.assoc)
  then have "int (2 * W) < int (2 ^ 31)" "int (2 * W * H) < int (2 ^ 31)" by (simp_all only: of_nat_less_iff)
  note i = this [unfolded of_nat_power of_nat_numeral]
  have "wrap32 (int (2 * W)) = int (2 * W)" "wrap32 (int (2 * W * H)) = int (2 * W * H)"
    by (rule wrap32_nat, rule i)+
  moreover have "2 * int W = int (2 * W)" "int (2 * W) * int H = int (2 * W * H)" by simp_all
  moreover have "2 * W * H = n" using assms(4) unfolding W_def H_def by (simp only: mult.assoc)
  ultimately show ?thesis unfolding s by (simp only:)
qed

text \<open>The sizes on which both conversions are defined.\<close>

definition convertible :: "t_image \<Rightarrow> bool" where
  "convertible im \<longleftrightarrow> unat (i_width im) < 2 ^ 31 \<and> unat (i_height im) < 2 ^ 31 \<and> even (unat (i_width im)) \<and> even (unat (i_height im)) \<and>
     3 * (unat (i_width im) * unat (i_height im)) + 256 < 2 ^ 31"

definition luma_bytes :: "t_image \<Rightarrow> nat" where
  "luma_bytes im = 2 * (unat (i_width im) * unat (i_height im))"

definition recoded :: "u32 \<Rightarrow> t_image \<Rightarrow> t_image" where
  "recoded enc im = \<lparr>i_encoding = enc, i_width = i_width im, i_height = i_height im, i_depth = 0, i_chanmask = 0\<rparr>"

lemma recoded_total:
  assumes "convertible im"
  shows "planes_total (planes (recoded PDP_IMAGE_GREY im)) = unat (i_width im) * unat (i_height im)"
    and "2 * planes_total (planes (recoded PDP_IMAGE_YV12 im)) = 3 * (unat (i_width im) * unat (i_height im))"
proof -
  show "planes_total (planes (recoded PDP_IMAGE_GREY im)) = unat (i_width im) * unat (i_height im)"
    by (simp add: planes_def planes_total_def recoded_def encodings)
  obtain a b where ab: "unat (i_width im) = 2 * a" "unat (i_height im) = 2 * b"
    using assms by (metis convertible_def evenE)
  have half: "unat (drop_bit 1 (i_width im)) = a" "unat (drop_bit 1 (i_height im)) = b"
    unfolding unat_drop_bit_eq ab by (simp_all add: drop_bit_eq_div)
  have "planes (recoded PDP_IMAGE_YV12 im) = [(i_width im, i_height im), (drop_bit 1 (i_width im), drop_bit 1 (i_height im)),
      (drop_bit 1 (i_width im), drop_bit 1 (i_height im))]"
    by (simp add: planes_def recoded_def encodings Let_def)
  then show "2 * planes_total (planes (recoded PDP_IMAGE_YV12 im)) = 3 * (unat (i_width im) * unat (i_height im))"
    by (simp only: planes_total_def list.map sum_list_simps prod.case half) (simp add: ab)
qed

lemma recoded_legal:
  assumes "convertible im"
  shows "image_legal (recoded PDP_IMAGE_GREY im)" "image_legal (recoded PDP_IMAGE_YV12 im)"
proof -
  have "3 * (unat (i_width im) * unat (i_height im)) + 256 < 2 ^ 31" using assms by (simp add: convertible_def)
  then have "2 * planes_total (planes (recoded PDP_IMAGE_GREY im)) + 256 < 2 ^ 31"
    "2 * planes_total (planes (recoded PDP_IMAGE_YV12 im)) + 256 < 2 ^ 31"
    unfolding recoded_total [OF assms] using size_arith by blast+
  then show "image_legal (recoded PDP_IMAGE_GREY im)" "image_legal (recoded PDP_IMAGE_YV12 im)"
    using assms by (simp_all add: image_legal_def convertible_def) (simp_all add: recoded_def)
qed

lemma sint_word_of_int_u32 [simp]: "word_of_int (sint w) = (w :: u32)"
  by simp

lemma grey_to_YCrCb_ok:
  assumes inv: "pool_inv P R" "size R < 2 ^ 32 - 1" "data_ok P" "malloc_ok E"
    and p: "p \<in># R" "pdp_packet_header p P = Some h" "image_of (info h) = im" "convertible im" "luma_bytes im \<le> length (pdata h)"
  shows "\<exists>q P'. image_convert_grey_to_YCrCb E ic p d P = Some (q, P') \<and>
    is_image (recoded PDP_IMAGE_YV12 im) (take (luma_bytes im) (pdata h) @ replicate (luma_bytes im div 2) 0) P R q P'"
proof -
  let ?w = "i_width im" and ?h = "i_height im" and ?n = "luma_bytes im" and ?im = "recoded PDP_IMAGE_YV12 im"
  from new_image_of_ok [OF inv recoded_legal(2) [OF p(4)], of ic] obtain q P1 where
    n: "new_image_of E ic ?im P = Some (q, P1)" "is_new_image ic ?im P R q P1" by blast
  have new: "pdp_packet_new_image_YCrCb E ic ?w ?h P = Some (q, P1)"
    using n(1) by (simp add: new_image_of_def pdp_packet_new_image_def recoded_def encodings)
  from new_is_image [OF n(2)] obtain b where b: "is_image ?im b P R q P1" "length b = ?n + ?n div 2"
    unfolding recoded_total(2) [OF p(4)] luma_bytes_def by auto
  have q: "q \<noteq> -1" "p \<noteq> q" "pdp_packet_header p P1 = Some h"
    using b(1) p(1,2) by (auto simp: is_image_def fresh_def made_def)
  have y: "wrap32 (wrap32 (2 * sint ?w) * sint ?h) = int ?n"
    using p(4) size_arith unfolding convertible_def luma_bytes_def by (intro y_bytes) blast+
  have uv: "asr (int ?n) 1 = int (?n div 2)" by (simp add: asr_def zdiv_int)
  let ?d1 = "take ?n (pdata h) @ drop ?n b"
  have "memcpy (int ?n) (pdata h) (drop 0 b) = Some ?d1" using p(5) b(2) by (simp add: memcpy_def)
  from is_image_write [where f = "memcpy (int ?n) (pdata h)" and n = 0, OF b(1) _ this, of ?d1] p(5) b(2) obtain P2 where
    P2: "on_bytes q 0 (memcpy (int ?n) (pdata h)) P1 = Some P2" "is_image ?im ?d1 P R q P2" by auto
  have dr: "drop ?n ?d1 = drop ?n b" "take ?n ?d1 = take ?n (pdata h)" using p(5) by simp_all
  have "memset (int (?n div 2)) 0 (drop ?n ?d1) = Some (replicate (?n div 2) 0)"
    unfolding dr using b(2) by (simp add: memset_def)
  from is_image_write [where f = "memset (int (?n div 2)) 0" and n = ?n, OF P2(2) _ this refl] p(5) b(2) obtain P3 where
    P3: "on_bytes q (int ?n) (memset (int (?n div 2)) 0) P2 = Some P3"
      "is_image ?im (take ?n (pdata h) @ replicate (?n div 2) 0) P R q P3" unfolding dr by auto
  have "image_convert_grey_to_YCrCb E ic p d P = Some (q, P3)"
    unfolding image_convert_grey_to_YCrCb_def using p(2,3) new q P2(1) P3(1)
    by (simp add: pdp_packet_image_info_def pdp_packet_subheader_def pdp_packet_data_def Let_def y uv [simplified])
  with P3(2) show ?thesis by blast
qed

lemma YCrCb_to_grey_ok:
  assumes inv: "pool_inv P R" "size R < 2 ^ 32 - 1" "data_ok P" "malloc_ok E"
    and p: "p \<in># R" "pdp_packet_header p P = Some h" "image_of (info h) = im" "convertible im" "luma_bytes im \<le> length (pdata h)"
  shows "\<exists>q P'. image_convert_YCrCb_to_grey E ic p d P = Some (q, P') \<and>
    is_image (recoded PDP_IMAGE_GREY im) (take (luma_bytes im) (pdata h)) P R q P'"
proof -
  let ?w = "i_width im" and ?h = "i_height im" and ?n = "luma_bytes im" and ?im = "recoded PDP_IMAGE_GREY im"
  from new_image_of_ok [OF inv recoded_legal(1) [OF p(4)], of ic] obtain q P1 where
    n: "new_image_of E ic ?im P = Some (q, P1)" "is_new_image ic ?im P R q P1" by blast
  have new: "pdp_packet_new_image_grey E ic ?w ?h P = Some (q, P1)"
    using n(1) by (simp add: new_image_of_def pdp_packet_new_image_def recoded_def encodings)
  from new_is_image [OF n(2)] obtain b where b: "is_image ?im b P R q P1" "length b = ?n"
    unfolding recoded_total(1) [OF p(4)] luma_bytes_def by auto
  have q: "q \<noteq> -1" "p \<noteq> q" "pdp_packet_header p P1 = Some h"
    using b(1) p(1,2) by (auto simp: is_image_def fresh_def made_def)
  have y: "wrap32 (wrap32 (2 * sint ?w) * sint ?h) = int ?n"
    using p(4) size_arith unfolding convertible_def luma_bytes_def by (intro y_bytes) blast+
  have "memcpy (int ?n) (pdata h) (drop 0 b) = Some (take ?n (pdata h))" using p(5) b(2) by (simp add: memcpy_def)
  from is_image_write [where f = "memcpy (int ?n) (pdata h)" and n = 0, OF b(1) _ this, of "take ?n (pdata h)"] p(5) b(2) obtain P2 where
    P2: "on_bytes q 0 (memcpy (int ?n) (pdata h)) P1 = Some P2" "is_image ?im (take ?n (pdata h)) P R q P2" by auto
  have "image_convert_YCrCb_to_grey E ic p d P = Some (q, P2)"
    unfolding image_convert_YCrCb_to_grey_def using p(2,3) new q P2(1)
    by (simp add: pdp_packet_image_info_def pdp_packet_subheader_def pdp_packet_data_def Let_def y)
  with P2(2) show ?thesis by blast
qed

section \<open>Conversions that go wrong\<close>

lemma pixels_at_nat: "pixels_at p (int n) P = map_option (\<lambda>bs. drop n (pixels bs)) (pdp_packet_data p P)"
  by (cases "pdp_packet_data p P") (simp_all add: pixels_at_def)

lemma halve_no_source: "2 \<le> w \<Longrightarrow> 2 \<le> h \<Longrightarrow> int (w * h) < 2 ^ 31 \<Longrightarrow> pdp_resample_halve [] new (int w) (int h) = None"
proof -
  assume a: "2 \<le> w" "2 \<le> h" "int (w * h) < 2 ^ 31"
  define dw dh where "dw = w div 2" and "dh = h div 2"
  have d: "asr (int w) 1 = int dw" "asr (int h) 1 = int dh" "0 < dw" "0 < dh"
    using a(1,2) by (simp_all add: asr_def dw_def dh_def zdiv_int)
  have "dh * dw \<le> w * h" unfolding dw_def dh_def by (subst mult.commute) (intro mult_le_mono div_le_dividend)
  then have "int (dh * dw) \<le> int (w * h)" by (simp only: of_nat_le_iff)
  then have "wrap32 (int (dh * dw)) = int (dh * dw)" using a(3) by (intro wrap32_nat) linarith
  then have n: "wrap32 (int dh * int dw) = int (dh * dw)" by simp
  have lt: "(0 :: int) < int (dh * dw)" using d by simp
  obtain m where "dw = Suc m" using d(3) by (cases dw) simp_all
  then have m: "nat (int dw) = Suc m" by (simp only: nat_int)
  have "halve_row [] (int w) (int dw) 0 (0, new) = None"
    unfolding halve_row_def prod.case m by (simp add: halve_pixel_def rd_def)
  then show ?thesis unfolding pdp_resample_halve_def d(1,2) n Let_def using lt by (subst int_loop.simps) simp
qed

section \<open>Properties\<close>


text \<open>
  C12: every image constructor makes, for any legal encoding and size (data and header below 2 GB, the limit of
  \<open>pdp_alloc\<close>) and as long as \<open>malloc\<close> has memory, a well-formed image packet: it belongs to the caller
  alone, is valid, has the encoding and dimensions asked for, the class of images, the description of its
  type, and a buffer of exactly the size of its planes.
\<close>

theorem new_image_well_formed:
  assumes "pool_inv P R" "size R < 2 ^ 32 - 1" "data_ok P" "malloc_ok E" "image_legal im"
  shows "\<exists>q P'. (if i_encoding im = PDP_IMAGE_MCHP then pdp_packet_new_image_mchp E ic (i_width im) (i_height im) (i_depth im) P
      else pdp_packet_new_image E ic (i_encoding im) (i_width im) (i_height im) P) = Some (q, P') \<and> is_new_image ic im P R q P'"
  using new_image_of_ok [OF assms] unfolding new_image_of_def .

definition small_image :: t_image where
  "small_image = \<lparr>i_encoding = PDP_IMAGE_YV12, i_width = 4, i_height = 4, i_depth = 0, i_chanmask = 0\<rparr>"

lemma small_legal: "image_legal small_image"
  by (simp add: image_legal_def small_image_def planes_def planes_total_def Let_def encodings)

lemma setup_pool_ok: "pool_inv (pdp_packet_setup empty_pool) {#}" "data_ok (pdp_packet_setup empty_pool)"
  using preach_inv [OF preach_empty plain_methods_ok]
  by (auto simp: data_ok_def pdp_packet_header_def pdp_packet_setup_def PDP_INITIAL_POOL_SIZE_def)

theorem new_image_well_formed_witness:
  "\<exists>q P'. pdp_packet_new_image plain_methods (Some 7) PDP_IMAGE_YV12 4 4 (pdp_packet_setup empty_pool) = Some (q, P') \<and>
     pdp_packet_image_isvalid q P'"
  using new_image_well_formed [OF setup_pool_ok(1) _ setup_pool_ok(2) plain_malloc_ok(1) small_legal, of "Some 7"]
  by (auto simp: small_image_def is_new_image_def encodings)

text \<open>
  C13: the factory makes what a description asks for: the description of any legal image (data and
  header below 2 GB), parsed by the factory, gives a new packet with exactly that encoding, size and description (so that printing and
  parsing a type are inverse, and the packet is not thrown away again as inexact).
\<close>

theorem factory_round_trip:
  assumes "pool_inv P R" "size R < 2 ^ 32 - 1" "data_ok P" "malloc_ok E" "image_legal im"
  shows "\<exists>q P'. pdp_image_factory E ic (image_desc im) P = Some (q, P') \<and> is_new_image ic im P R q P'"
proof -
  from new_image_of_ok [OF assms, of ic] obtain q P' where
    n: "new_image_of E ic im P = Some (q, P')" "is_new_image ic im P R q P'" by blast
  then have "q \<noteq> -1" by (auto simp: is_new_image_def made_def)
  with n show ?thesis unfolding factory_of_desc [OF assms(5)] by (auto simp: is_new_image_def)
qed

theorem factory_round_trip_witness:
  "\<exists>q P'. pdp_image_factory plain_methods None ''image/YCrCb/4x4'' (pdp_packet_setup empty_pool) = Some (q, P') \<and>
     pdp_packet_image_isvalid q P'"
proof -
  have "char_of (52 :: nat) = CHR ''4''" by code_simp
  then have "fmt_d 4 = ''4''" by (simp add: fmt_d_nat nat_str.simps)
  then have "image_desc small_image = ''image/YCrCb/4x4''" by (simp add: image_desc_def small_image_def)
  then show ?thesis
    using factory_round_trip [OF setup_pool_ok(1) _ setup_pool_ok(2) plain_malloc_ok(1) small_legal, of None]
    by (auto simp: is_new_image_def)
qed


text \<open>
  once \<open>pdp_image_setup\<close> has registered the image conversions, a conversion of a packet that the
  registry chains from them, in any number and order, leaves the references right: every held packet
  is untouched, intermediate packets have been released, the result is \<open>-1\<close> or a new packet of the
  caller's alone.
\<close>

theorem image_conversions_keep_references:
  assumes "methods_ok E" "size R < 2 ^ 32 - 3" "tstate_ok T0 R" "pdp_image_setup c T0 = (ic, T)"
    and "pdp_packet_convert E (image_conversion E ic) p d T = Some (q, T')"
  shows "conversion T R q T'"
  using convert_ok [OF assms(1) image_conv_ok assms(2) image_setup_ok [OF assms(3,4)] assms(5)] by blast

text \<open>A registry with one YCrCb packet of 4 x 4 pixels, held once, and the conversions of images.\<close>

definition reg_state :: tstate where
  "reg_state = \<lparr>tpool = demo_pool, conversion_list = [], cached_conversion_list = [], max_cache_size = INIT_MAX_CACHE_SIZE\<rparr>"

lemma demo_pool_inv: "pool_inv demo_pool {#0#}"
proof -
  have "made (pdp_packet_setup empty_pool) {#} 0 demo_pool"
    unfolding demo_pool_def by (rule make_packet [OF setup_pool_ok(1)])
      (simp_all add: demo_packet_def pdp_packet_setup_def PDP_INITIAL_POOL_SIZE_def)
  then show ?thesis by (simp add: made_def)
qed

lemma reg_state_ok: "tstate_ok reg_state {#0#}"
  using demo_pool_inv by (simp add: tstate_ok_def reg_state_def ccache_inv_def INIT_MAX_CACHE_SIZE_def)

theorem image_conversions_keep_references_witness:
  "\<exists>ic T q T'. pdp_image_setup 7 reg_state = (ic, T) \<and>
     pdp_packet_convert plain_methods (image_conversion plain_methods ic) 0 ''image/grey/*'' T = Some (q, T') \<and>
     q = 1 \<and> conversion T {#0#} q T'"
proof -
  obtain ic T where s: "pdp_image_setup 7 reg_state = (ic, T)" by fastforce
  have "map_option fst (pdp_packet_convert plain_methods (image_conversion plain_methods (fst (pdp_image_setup 7 reg_state))) 0
      ''image/grey/*'' (snd (pdp_image_setup 7 reg_state))) = Some 1"
    by code_simp
  then obtain T' where c: "pdp_packet_convert plain_methods (image_conversion plain_methods ic) 0 ''image/grey/*'' T = Some (1, T')"
    using s by auto
  have "conversion T {#0#} 1 T'"
    by (rule image_conversions_keep_references [OF plain_methods_ok _ reg_state_ok s c]) simp
  with s c show ?thesis by blast
qed

text \<open>
  C32: converting a grey image to YCrCb and back gives the picture back: both conversions are defined on
  every held grey image with even dimensions and less than \<open>2^31\<close> bytes of YCrCb data and header, stay inside their buffers,
  set the chrominance to zero and preserve the luminance byte for byte; the results are new packets
  with the right type descriptions.
\<close>

theorem grey_YCrCb_round_trip:
  assumes "pool_inv P R" "size R < 2 ^ 32 - 2" "data_ok P" "malloc_ok E"
    and "p \<in># R" "pdp_packet_header p P = Some h" "info h = Image im" "convertible im" "luma_bytes im \<le> length (pdata h)"
  shows "\<exists>q P1 r P2. image_convert_grey_to_YCrCb E ic p d P = Some (q, P1) \<and>
    is_image (recoded PDP_IMAGE_YV12 im) (take (luma_bytes im) (pdata h) @ replicate (luma_bytes im div 2) 0) P R q P1 \<and>
    image_convert_YCrCb_to_grey E ic q d' P1 = Some (r, P2) \<and>
    is_image (recoded PDP_IMAGE_GREY im) (take (luma_bytes im) (pdata h)) P1 (add_mset q R) r P2"
proof -
  let ?d = "take (luma_bytes im) (pdata h)" and ?im = "recoded PDP_IMAGE_YV12 im"
  from grey_to_YCrCb_ok [OF assms(1) _ assms(3-6) _ assms(8,9), of ic d] assms(2,7) obtain q P1 where
    q: "image_convert_grey_to_YCrCb E ic p d P = Some (q, P1)" "is_image ?im (?d @ replicate (luma_bytes im div 2) 0) P R q P1" by auto
  then obtain g where g: "pdp_packet_header q P1 = Some g" "image_of (info g) = ?im" "pdata g = ?d @ replicate (luma_bytes im div 2) 0"
    "pool_inv P1 (add_mset q R)" "data_ok P1" by (auto simp: is_image_def fresh_def made_def)
  have im: "convertible ?im" "luma_bytes ?im = luma_bytes im" "recoded PDP_IMAGE_GREY ?im = recoded PDP_IMAGE_GREY im"
    using assms(8) by (simp_all add: convertible_def luma_bytes_def recoded_def)
  have "\<exists>r P2. image_convert_YCrCb_to_grey E ic q d' P1 = Some (r, P2) \<and>
      is_image (recoded PDP_IMAGE_GREY ?im) (take (luma_bytes ?im) (pdata g)) P1 (add_mset q R) r P2"
    by (rule YCrCb_to_grey_ok [OF g(4) _ g(5) assms(4) _ g(1,2) im(1)]) (use assms(2,9) g(3) im(2) in simp_all)
  then show ?thesis using q unfolding im(2,3) g(3) using assms(9) by auto
qed

lemma new_image_exists:
  assumes "image_legal im"
  shows "\<exists>P p h. pool_inv P {#p#} \<and> data_ok P \<and> pdp_packet_image_isvalid p P \<and> pdp_packet_header p P = Some h \<and>
    info h = Image im \<and> length (pdata h) = 2 * planes_total (planes im)"
  using new_image_of_ok [OF setup_pool_ok(1) _ setup_pool_ok(2) plain_malloc_ok(1) assms, of None]
  by (fastforce simp: is_new_image_def made_def)

theorem grey_YCrCb_round_trip_witness:
  "\<exists>P p q P1 r P2. image_convert_grey_to_YCrCb plain_methods None p '''' P = Some (q, P1) \<and>
     image_convert_YCrCb_to_grey plain_methods None q '''' P1 = Some (r, P2) \<and>
     pdp_packet_data r P2 = pdp_packet_data p P \<and> pdp_packet_data p P \<noteq> None"
proof -
  let ?im = "recoded PDP_IMAGE_GREY small_image"
  have c: "convertible small_image" "convertible ?im" "luma_bytes ?im = 32" by (simp_all add: convertible_def small_image_def recoded_def luma_bytes_def)
  from new_image_exists [OF recoded_legal(1) [OF c(1)]] obtain P p h where
    h: "pool_inv P {#p#}" "data_ok P" "pdp_packet_header p P = Some h" "info h = Image ?im" "length (pdata h) = 32"
    unfolding recoded_total(1) [OF c(1)] by (auto simp: small_image_def)
  from grey_YCrCb_round_trip [OF h(1) _ h(2) plain_malloc_ok(1) _ h(3,4) c(2), of None "''''" "''''"] h(5) c(3) obtain q P1 r P2 where
    "image_convert_grey_to_YCrCb plain_methods None p '''' P = Some (q, P1)"
    "image_convert_YCrCb_to_grey plain_methods None q '''' P1 = Some (r, P2)" "pdp_packet_data r P2 = Some (pdata h)"
    by (fastforce simp: is_image_def pdp_packet_data_def)
  with h(3) show ?thesis by (fastforce simp: pdp_packet_data_def)
qed

text \<open>
  the conversion of a multi-channel image with one channel to YCrCb reads outside its source: the
  test \<open>d >= 1\<close> before the copy of channel 1 (counted from 0) is true when there is only channel 0, so
  that the conversion is undefined on every such image whose buffer has exactly its size.
\<close>

theorem multi_one_channel_reads_outside:
  assumes "pool_inv P R" "size R < 2 ^ 32 - 1" "data_ok P" "malloc_ok E"
    and "p \<in># R" "pdp_packet_header p P = Some h" "info h = Image im" "convertible im" "i_depth im = 1"
    and "2 \<le> unat (i_width im)" "2 \<le> unat (i_height im)" "length (pdata h) = luma_bytes im"
  shows "image_convert_multi_to_YCrCb E ic p d P = None"
proof -
  let ?w = "i_width im" and ?h = "i_height im" and ?im = "recoded PDP_IMAGE_YV12 im"
  define W H where "W = unat ?w" and "H = unat ?h"
  from new_image_of_ok [OF assms(1-4) recoded_legal(2) [OF assms(8)], of ic] obtain q P1 where
    n: "new_image_of E ic ?im P = Some (q, P1)" "is_new_image ic ?im P R q P1" by blast
  have new: "pdp_packet_new_image_YCrCb E ic ?w ?h P = Some (q, P1)"
    using n(1) by (simp add: new_image_of_def pdp_packet_new_image_def recoded_def encodings)
  have q: "q \<noteq> -1" "p \<noteq> q" "pdp_packet_header p P1 = Some h"
    using n(2) assms(5,6) by (auto simp: is_new_image_def made_def)
  have wh: "W * H < 2 ^ 31" "W < 2 ^ 31" "H < 2 ^ 31" using assms(8) by (simp_all add: convertible_def W_def H_def)
  then have "int (W * H) < int (2 ^ 31)" by (simp only: of_nat_less_iff)
  then have i: "int (W * H) < 2 ^ 31" by (simp only: of_nat_power of_nat_numeral)
  have s: "sint ?w = int W" "sint ?h = int H" using sint_u32 wh by (simp_all only: W_def H_def)
  have pl: "wrap32 (int W * int H) = int (W * H)" using wrap32_nat [OF i] by simp
  have none: "pdp_resample_halve [] new (int W) (int H) = None" for new
    by (rule halve_no_source) (use assms(10,11) i in \<open>simp_all add: W_def H_def\<close>)
  have "drop (W * H) (pixels (pdata h)) = []" using assms(12) by (simp add: luma_bytes_def W_def H_def)
  then have px: "pixels_at p (int (W * H)) P2 = Some []" if "pdp_packet_header p P2 = Some h" for P2
    using that by (simp add: pixels_at_nat pdp_packet_data_def del: of_nat_mult)
  have keep: "pdp_packet_header p P2 = Some h" if "on_bytes q off f P1 = Some P2" for off f P2
    using that q(2,3) header_valid by (auto simp: on_bytes_def bind_eq_Some_conv Let_def header_set_packet split: if_splits)
  have fail: "on_pixels q off (\<lambda>new. pdp_resample_halve [] new (int W) (int H)) P2 = None" for off P2
    by (simp add: on_pixels_def Let_def none bind_eq_None_conv)
  have info: "pdp_packet_image_info p P = Some im"
    using assms(6,7) by (simp add: pdp_packet_image_info_def pdp_packet_subheader_def)
  have d1: "1 \<le> sint (i_depth im)" using assms(9) by simp
  have c: "word_of_int (int W) = ?w" "word_of_int (int H) = ?h" by (simp_all add: W_def H_def)
  show ?thesis
    unfolding image_convert_multi_to_YCrCb_def info bind.bind_lunit Let_def s c new pl
    using q(1) d1 by (auto simp: bind_eq_None_conv px [unfolded of_nat_mult] keep fail)
qed

theorem multi_one_channel_reads_outside_witness:
  "\<exists>P p. pdp_packet_image_isvalid p P \<and> image_convert_multi_to_YCrCb plain_methods None p '''' P = None"
proof -
  let ?im = "\<lparr>i_encoding = PDP_IMAGE_MCHP, i_width = 2, i_height = 2, i_depth = 1, i_chanmask = 0\<rparr>"
  have l: "image_legal ?im" "planes_total (planes ?im) = 4"
    by (simp_all add: image_legal_def planes_def planes_total_def encodings)
  from new_image_exists [OF l(1)] obtain p P h where
    h: "pool_inv P {#p#}" "data_ok P" "pdp_packet_image_isvalid p P" "pdp_packet_header p P = Some h" "info h = Image ?im"
      "length (pdata h) = 8" unfolding l(2) by auto
  have "image_convert_multi_to_YCrCb plain_methods None p '''' P = None"
    by (rule multi_one_channel_reads_outside [OF h(1) _ h(2) plain_malloc_ok(1) _ h(4,5)])
      (use h(6) in \<open>simp_all add: convertible_def luma_bytes_def\<close>)
  with h(3) show ?thesis by blast
qed

text \<open>A grey image is made in a new pool and released: its packet waits on the reuse list of its description.\<close>

definition spare_pool :: "pool option" where
  "spare_pool =
     do { (q, P) \<leftarrow> pdp_packet_new_image_grey plain_methods None 4 4 (pdp_packet_setup empty_pool);
          pdp_packet_mark_unused plain_methods q P }"

text \<open>
  the factory can break the pool: a request whose dimensions are not written the way a description
  prints them makes it take the unused packet of the same size and delete it as inexact, while the
  reuse list of the packet's old description still names it; the next request for that description
  dereferences the packet that is gone.
\<close>

theorem factory_inexact_dangles:
  "\<exists>P Q. spare_pool = Some P \<and> pdp_image_factory plain_methods None ''image/grey/04x4'' P = Some (-1, Q) \<and>
     pdp_packet_reuse plain_methods (Some ''image/grey/4x4'') Q = None"
proof -
  have "map_option (\<lambda>P. map_option (\<lambda>(q, Q). (q, pdp_packet_reuse plain_methods (Some ''image/grey/4x4'') Q = None))
      (pdp_image_factory plain_methods None ''image/grey/04x4'' P)) spare_pool = Some (Some (-1, True))" by code_simp
  then show ?thesis by auto
qed

end
