(* ===== verification/LLConvOk.thy ===== *)
theory LLConvOk
  imports LLConv Dispatch
begin

text \<open>
  Correctness of the low level conversions: what every byte or pixel of the destination becomes, on buffers of
  exactly the size the formats need; flipping; the round trip between planar formats of 8 and 16 bits.
\<close>

section \<open>Loops of writes\<close>

text \<open>A sequence of writes at positions inside the buffer.\<close>

definition writes :: "(nat \<times> 'a) list \<Rightarrow> 'a list \<Rightarrow> 'a list" where
  "writes ws b = fold (\<lambda>(i, v) b. b[i := v]) ws b"

lemma writes_Nil [simp]: "writes [] b = b"
  by (simp add: writes_def)

lemma writes_Cons: "writes ((i, v) # ws) b = writes ws (b[i := v])"
  by (simp add: writes_def)

lemma writes_append: "writes (us @ ws) b = writes ws (writes us b)"
  by (simp add: writes_def)

lemma length_writes [simp]: "length (writes ws b) = length b"
  by (induction ws arbitrary: b) (auto simp: writes_def)

lemma writes_nth:
  assumes "\<forall>(i, v) \<in> set ws. v = F i" "n < length b"
  shows "writes ws b ! n = (if n \<in> fst ` set ws then F n else b ! n)"
  using assms
proof (induction ws arbitrary: b)
  case (Cons x ws)
  obtain i v where x: "x = (i, v)" by (cases x)
  with Cons.IH [of "b[i := v]"] Cons.prems show ?case by (auto simp: writes_Cons nth_list_update)
qed simp

text \<open>Writes that cover the first \<open>m\<close> positions, each with the value the function \<open>F\<close> gives it.\<close>

lemma writes_cover:
  assumes "\<forall>(i, v) \<in> set ws. v = F i" "fst ` set ws = {..<m}" "m \<le> length b"
  shows "writes ws b = map F [0..<m] @ drop m b"
  by (rule nth_equalityI) (use assms(2,3) in \<open>auto simp: writes_nth [OF assms(1)] nth_append\<close>)

lemma for_loop_writes:
  assumes "\<And>j b. i \<le> j \<Longrightarrow> j < i + n \<Longrightarrow> length b = m \<Longrightarrow> f j b = Some (writes (W j) b)" "length b = m"
  shows "for_loop i n f b = Some (writes (concat (map W [i..<i + n])) b)"
  using assms
proof (induction n arbitrary: i b)
  case (Suc n)
  have "for_loop (Suc i) n f (writes (W i) b) = Some (writes (concat (map W [Suc i..<Suc i + n])) (writes (W i) b))"
    by (rule Suc.IH) (use Suc.prems in auto)
  moreover have "[i..<i + Suc n] = i # [Suc i..<Suc i + n]" by (simp add: upt_rec)
  ultimately show ?case using Suc.prems(1) [of i b] Suc.prems(2) by (simp add: writes_append)
qed simp

lemma for_loop_writes_pair:
  assumes "\<And>j b. i \<le> j \<Longrightarrow> j < i + n \<Longrightarrow> length b = m \<Longrightarrow> f j (kk j, b) = Some (kk (Suc j), writes (W j) b)" "length b = m"
  shows "for_loop i n f (kk i, b) = Some (kk (i + n), writes (concat (map W [i..<i + n])) b)"
  using assms
proof (induction n arbitrary: i b)
  case (Suc n)
  have "for_loop (Suc i) n f (kk (Suc i), writes (W i) b) =
      Some (kk (Suc i + n), writes (concat (map W [Suc i..<Suc i + n])) (writes (W i) b))"
    by (rule Suc.IH) (use Suc.prems in auto)
  moreover have "[i..<i + Suc n] = i # [Suc i..<Suc i + n]" by (simp add: upt_rec)
  ultimately show ?case using Suc.prems(1) [of i b] Suc.prems(2) by (simp add: writes_append)
qed simp

section \<open>Blocks of 2 x 2 pixels\<close>

text \<open>The position of pixel \<open>(x, y)\<close> of the block \<open>(X, Y)\<close> in a plane of width \<open>2 * a\<close>.\<close>

definition at_block :: "nat \<Rightarrow> nat \<Rightarrow> nat \<Rightarrow> nat \<Rightarrow> nat \<Rightarrow> nat" where
  "at_block a X Y x y = 2 * a * (2 * Y + y) + (2 * X + x)"

lemma at_block_lt:
  assumes "X < a" "Y < b" "x < 2" "y < 2"
  shows "at_block a X Y x y < 4 * a * b"
proof -
  have "2 * a * (2 * Y + y) + (2 * X + x) < 2 * a * (2 * b)"
    by (rule raster_lt) (use assms in simp_all)
  then show ?thesis by (simp add: at_block_def)
qed

lemma at_block_inv:
  assumes "X < a" "x < 2" "y < 2"
  shows "at_block a X Y x y mod (2 * a) div 2 = X" "at_block a X Y x y div (2 * a) div 2 = Y"
proof -
  have lt: "2 * X + x < 2 * a" using assms by simp
  have "(2 * a * (2 * Y + y) + (2 * X + x)) mod (2 * a) = 2 * X + x"
    "(2 * a * (2 * Y + y) + (2 * X + x)) div (2 * a) = 2 * Y + y"
    using lt by (simp_all add: mod_less div_mult_self1)
  then show "at_block a X Y x y mod (2 * a) div 2 = X" "at_block a X Y x y div (2 * a) div 2 = Y"
    using assms by (simp_all add: at_block_def)
qed

lemma at_block_ex:
  assumes "n < 4 * a * b"
  shows "\<exists>X<a. \<exists>Y<b. \<exists>x<2. \<exists>y<2. n = at_block a X Y x y"
proof -
  let ?c = "n mod (2 * a)" and ?r = "n div (2 * a)"
  have a: "0 < a" using assms by (cases a) simp_all
  have "?c < 2 * a" using a by simp
  moreover have "?r < 2 * b" using assms by (simp add: less_mult_imp_div_less mult.commute mult.left_commute)
  moreover have "2 * a * ?r + ?c = n" by simp
  moreover have "2 * (?r div 2) + ?r mod 2 = ?r" "2 * (?c div 2) + ?c mod 2 = ?c" by simp_all
  ultimately show ?thesis
    by (intro exI [of _ "?c div 2"] exI [of _ "?r div 2"] exI [of _ "?c mod 2"] exI [of _ "?r mod 2"] conjI)
      (simp_all add: at_block_def less_mult_imp_div_less)
qed

lemma at_chroma_lt: "X < a \<Longrightarrow> Y < b \<Longrightarrow> a * Y + X < a * (b :: nat)"
  by (rule raster_lt)

lemma at_chroma_ex: "n < a * b \<Longrightarrow> \<exists>X<a. \<exists>Y<b. n = a * Y + (X :: nat)"
  by (rule exI [of _ "n mod a"], cases "a = 0", simp, intro conjI exI [of _ "n div a"])
    (simp_all add: less_mult_imp_div_less mult.commute)

text \<open>Reads and writes at natural positions.\<close>

lemma rd_u8_nat [simp]: "i < length b \<Longrightarrow> rd_u8 b (int i) = Some (uint (b ! i))"
  by (simp add: rd_u8_def)

lemma rd_s16_nat [simp]: "i < length b \<Longrightarrow> rd_s16 b (int i) = Some (sint (b ! i))"
  by (simp add: rd_s16_def)

lemma asr_nat: "asr (int n) k = int (n div 2 ^ k)"
  by (simp add: asr_def zdiv_int)

text \<open>The two nested loops over the blocks.\<close>

lemma block_loops:
  assumes "0 < a" "int (4 * a * b) < 2 ^ 31" "length dst = m"
    and "\<And>Y d. Y < b \<Longrightarrow> length d = m \<Longrightarrow> row (int (4 * a * Y)) d = Some (writes (W Y) d)"
  shows "int_loop 0 (wrap32 (int (2 * a) * int (2 * b))) (wrap32 (int (2 * a) * 2)) row dst =
    Some (writes (concat (map W [0..<b])) dst)"
proof (cases "b = 0")
  case True
  have "wrap32 0 = 0" by (simp add: wrap32_def)
  then show ?thesis using True by (subst int_loop.simps) simp
next
  case False
  have "4 * a * 1 \<le> 4 * a * b" using False by (intro mult_le_mono2) simp
  then have "int (4 * a) \<le> int (4 * a * b)" by (simp only: of_nat_le_iff mult_1_right)
  then have w: "wrap32 (int (4 * a)) = int (4 * a)" using assms(2) by (intro wrap32_nat) linarith
  have n: "wrap32 (int (4 * a * b)) = int (4 * a * b)" by (rule wrap32_nat [OF assms(2)])
  have e: "int (2 * a) * int (2 * b) = int (4 * a * b)" "int (2 * a) * 2 = int (4 * a)" by simp_all
  have "int_loop (int (4 * a * 0)) (int (4 * a * b)) (int (4 * a)) row dst = for_loop 0 (b - 0) (\<lambda>j. row (int (4 * a * j))) dst"
    by (rule int_loop_rows [OF _ assms(2)]) (use assms(1) in simp_all)
  also have "\<dots> = Some (writes (concat (map W [0..<0 + b])) dst)"
    unfolding diff_zero by (rule for_loop_writes) (use assms(3,4) in simp_all)
  finally show ?thesis unfolding e n w by simp
qed

lemma block_row:
  assumes "0 < a" "int (2 * a) < 2 ^ 31" "length dst = m"
    and "\<And>X d. X < a \<Longrightarrow> length d = m \<Longrightarrow> f (int (2 * X)) (kk X, d) = Some (kk (Suc X), writes (W X) d)"
  shows "map_option snd (int_loop 0 (int (2 * a)) 2 f (kk 0, dst)) = Some (writes (concat (map W [0..<a])) dst)"
proof -
  have "int_loop (int (2 * 0)) (int (2 * a)) (int 2) f (kk 0, dst) = for_loop 0 (a - 0) (\<lambda>j. f (int (2 * j))) (kk 0, dst)"
    by (rule int_loop_rows) (use assms(1,2) in simp_all)
  also have "\<dots> = Some (kk (0 + a), writes (concat (map W [0..<0 + a])) dst)"
    unfolding diff_zero by (rule for_loop_writes_pair) (use assms(3,4) in simp_all)
  finally show ?thesis by simp
qed

text \<open>The writes of all blocks: the luminance of the four pixels and one value in each chrominance plane.\<close>

definition block_writes :: "(nat \<Rightarrow> 'a) \<Rightarrow> nat \<Rightarrow> nat \<Rightarrow> nat \<Rightarrow> nat \<Rightarrow> (nat \<times> 'a) list" where
  "block_writes F a b Y X = map (\<lambda>n. (n, F n))
     [at_block a X Y 0 0, at_block a X Y 1 0, at_block a X Y 0 1, at_block a X Y 1 1,
      5 * a * b + (a * Y + X), 4 * a * b + (a * Y + X)]"

lemma block_writes_all:
  assumes "6 * a * b \<le> length dst"
  shows "writes (concat (map (\<lambda>Y. concat (map (block_writes F a b Y) [0..<a])) [0..<b])) dst = map F [0..<6 * a * b] @ drop (6 * a * b) dst"
proof (rule writes_cover)
  let ?ws = "concat (map (\<lambda>Y. concat (map (block_writes F a b Y) [0..<a])) [0..<b])"
  show "\<forall>(i, v) \<in> set ?ws. v = F i" by (auto simp: block_writes_def)
  show "fst ` set ?ws = {..<6 * a * b}"
  proof (intro equalityI subsetI)
    fix n assume "n \<in> fst ` set ?ws"
    then obtain v X Y where XY: "X < a" "Y < b" "(n, v) \<in> set (block_writes F a b Y X)" by auto
    have lt: "at_block a X Y x y < 4 * (a * b)" if "x < 2" "y < 2" for x y
      using at_block_lt [OF XY(1,2) that] by (simp only: mult.assoc)
    have "n < 4 * (a * b) \<or> n = 5 * (a * b) + (a * Y + X) \<or> n = 4 * (a * b) + (a * Y + X)"
      using XY(3) lt by (auto simp: block_writes_def mult.assoc)
    then have "n < 6 * (a * b)" using at_chroma_lt [OF XY(1,2)] by linarith
    then show "n \<in> {..<6 * a * b}" by (simp only: mult.assoc lessThan_iff)
  next
    fix n assume "n \<in> {..<6 * a * b}"
    then have n: "n < 6 * a * b" by simp
    consider "n < 4 * a * b" | "4 * a * b \<le> n" "n < 5 * a * b" | "5 * a * b \<le> n" by linarith
    then have "\<exists>X<a. \<exists>Y<b. n \<in> fst ` set (block_writes F a b Y X)"
    proof cases
      case 1
      then obtain X Y x y where XY: "X < a" "Y < b" "x < 2" "y < 2" "n = at_block a X Y x y" using at_block_ex by blast
      then have "x = 0 \<or> x = 1" "y = 0 \<or> y = 1" by auto
      then have "n \<in> fst ` set (block_writes F a b Y X)" unfolding XY(5) by (auto simp: block_writes_def)
      then show ?thesis using XY(1,2) by blast
    next
      case 2
      then have "n - 4 * a * b < a * b" unfolding mult.assoc by linarith
      then obtain X Y where XY: "X < a" "Y < b" "n - 4 * a * b = a * Y + X" using at_chroma_ex by blast
      then have "n = 4 * a * b + (a * Y + X)" using 2 by simp
      then show ?thesis using XY(1,2) by (intro exI [of _ X] conjI exI [of _ Y]) (simp_all add: block_writes_def)
    next
      case 3
      with n have "n - 5 * a * b < a * b" unfolding mult.assoc by linarith
      then obtain X Y where XY: "X < a" "Y < b" "n - 5 * a * b = a * Y + X" using at_chroma_ex by blast
      then have "n = 5 * a * b + (a * Y + X)" using 3 by simp
      then show ?thesis using XY(1,2) by (intro exI [of _ X] conjI exI [of _ Y]) (simp_all add: block_writes_def)
    qed
    then show "n \<in> fst ` set ?ws" by fastforce
  qed
qed (rule assms)

section \<open>RGB to YVU\<close>

text \<open>The components of pixel \<open>n\<close> in a packed format, and what becomes of the pixels in a planar one.\<close>

definition rgb_at :: "u8 list \<Rightarrow> nat \<Rightarrow> nat \<Rightarrow> nat \<Rightarrow> nat \<Rightarrow> nat \<Rightarrow> int \<times> int \<times> int" where
  "rgb_at src stride ir ig ib n =
     (uint (src ! (stride * n + ir)), uint (src ! (stride * n + ig)), uint (src ! (stride * n + ib)))"

text \<open>
  Position \<open>n\<close> of the planar image of size \<open>2 a * 2 b\<close>: the luminance of pixel \<open>n\<close>, or the sum of the chrominance
  of the lower two pixels of a block. \<open>yl\<close> and \<open>cl\<close> bring both to the format of the destination.
\<close>

definition yvu_ref ::
  "(int \<Rightarrow> 'p) \<Rightarrow> (int \<Rightarrow> 'p) \<Rightarrow> (nat \<Rightarrow> int \<times> int \<times> int) \<Rightarrow> nat \<Rightarrow> nat \<Rightarrow> nat \<Rightarrow> 'p" where
  "yvu_ref yl cl px a b n =
     (if n < 4 * a * b then yl (case px n of (r, g, b) \<Rightarrow> rgb2y r g b)
      else (let c = (if n < 5 * a * b then n - 4 * a * b else n - 5 * a * b);
                f = (\<lambda>(r, g, bl). if n < 5 * a * b then chroma_v r g bl else chroma_u r g bl)
            in cl (f (px (at_block a (c mod a) (c div a) 0 1)) + f (px (at_block a (c mod a) (c div a) 1 1)))))"

lemma rd_rgb_nat:
  assumes "n < N" "stride * N \<le> length src" "ir < stride" "ig < stride" "ib < stride"
  shows "rd_rgb src (int (stride * n)) (int ir) (int ig) (int ib) = Some (rgb_at src stride ir ig ib n)"
proof -
  have "stride * n + i < length src" if "i < stride" for i
    using raster_lt [OF that assms(1)] assms(2) by linarith
  then show ?thesis using assms(3-5)
    by (simp add: rd_rgb_def rgb_at_def del: of_nat_mult of_nat_add flip: of_nat_add)
qed

lemma yvu_ref_luma: "n < 4 * a * b \<Longrightarrow> px n = (r, g, bl) \<Longrightarrow> yvu_ref yl cl px a b n = yl (rgb2y r g bl)"
  by (simp add: yvu_ref_def)

lemma yvu_ref_chroma:
  assumes "X < a" "Y < b" "px (at_block a X Y 0 1) = (r, g, bl)" "px (at_block a X Y 1 1) = (r', g', bl')"
  shows "yvu_ref yl cl px a b (4 * a * b + (a * Y + X)) = cl (chroma_v r g bl + chroma_v r' g' bl')"
    and "yvu_ref yl cl px a b (5 * a * b + (a * Y + X)) = cl (chroma_u r g bl + chroma_u r' g' bl')"
proof -
  have "(a * Y + X) mod a = X" "(a * Y + X) div a = Y" using assms(1) by simp_all
  moreover have "a * Y + X < a * b" by (rule at_chroma_lt [OF assms(1,2)])
  ultimately show "yvu_ref yl cl px a b (4 * a * b + (a * Y + X)) = cl (chroma_v r g bl + chroma_v r' g' bl')"
    "yvu_ref yl cl px a b (5 * a * b + (a * Y + X)) = cl (chroma_u r g bl + chroma_u r' g' bl')"
    using assms(3,4) by (simp_all add: yvu_ref_def Let_def mult.assoc)
qed

text \<open>The positions of a block, as the code computes them.\<close>

lemma block_positions:
  "at_block a X Y 0 0 = 4 * a * Y + 2 * X" "at_block a X Y 1 0 = 4 * a * Y + 2 * X + 1"
  "at_block a X Y 0 1 = 4 * a * Y + 2 * X + 2 * a" "at_block a X Y 1 1 = 4 * a * Y + 2 * X + 2 * a + 1"
  by (simp_all add: at_block_def algebra_simps)

lemma chroma_position: "asr (int (2 * X)) 1 + asr (int (4 * a * Y)) 2 = int (a * Y + X)"
  unfolding asr_nat by simp

text \<open>The four pixels of a block, as the loops read them.\<close>

lemma block_reads:
  assumes "X < a" "Y < b" "stride * (4 * a * b) \<le> length src" "ir < stride" "ig < stride" "ib < stride"
    and "int (stride * (4 * a * b)) < 2 ^ 31" "k = int (stride * (4 * a * Y + 2 * X))"
  defines "px \<equiv> rgb_at src stride ir ig ib" and "lo \<equiv> wrap32 (int (2 * a) * int stride)"
  shows "rd_rgb src k (int ir) (int ig) (int ib) = Some (px (at_block a X Y 0 0))"
    and "rd_rgb src (k + int stride) (int ir) (int ig) (int ib) = Some (px (at_block a X Y 1 0))"
    and "rd_rgb src (lo + k) (int ir) (int ig) (int ib) = Some (px (at_block a X Y 0 1))"
    and "rd_rgb src (lo + k + int stride) (int ir) (int ig) (int ib) = Some (px (at_block a X Y 1 1))"
proof -
  have "2 * a * stride \<le> stride * (4 * a * b)" using assms(1,2) by (cases b) simp_all
  then have "int (2 * a * stride) \<le> int (stride * (4 * a * b))" by (simp only: of_nat_le_iff)
  then have "wrap32 (int (2 * a * stride)) = int (2 * a * stride)" using assms(7) by (intro wrap32_nat) linarith
  then have lo: "lo = int (2 * a * stride)" by (simp add: lo_def)
  have e: "k = int (stride * at_block a X Y 0 0)" "k + int stride = int (stride * at_block a X Y 1 0)"
    "lo + k = int (stride * at_block a X Y 0 1)" "lo + k + int stride = int (stride * at_block a X Y 1 1)"
    unfolding assms(8) lo block_positions of_nat_add [symmetric] by (simp_all add: algebra_simps)
  have r: "rd_rgb src (int (stride * at_block a X Y x y)) (int ir) (int ig) (int ib) = Some (px (at_block a X Y x y))"
    if "x < 2" "y < 2" for x y
    unfolding px_def by (rule rd_rgb_nat [OF at_block_lt [OF assms(1,2) that] assms(3-6)])
  show "rd_rgb src k (int ir) (int ig) (int ib) = Some (px (at_block a X Y 0 0))" unfolding e(1) by (rule r) simp_all
  show "rd_rgb src (k + int stride) (int ir) (int ig) (int ib) = Some (px (at_block a X Y 1 0))" unfolding e(2) by (rule r) simp_all
  show "rd_rgb src (lo + k) (int ir) (int ig) (int ib) = Some (px (at_block a X Y 0 1))" unfolding e(3) by (rule r) simp_all
  show "rd_rgb src (lo + k + int stride) (int ir) (int ig) (int ib) = Some (px (at_block a X Y 1 1))" unfolding e(4) by (rule r) simp_all
qed

text \<open>The six writes of a block.\<close>

lemma block_stores:
  assumes "X < a" "Y < b" "6 * a * b \<le> length d"
    and "F (at_block a X Y 0 0) = v0" "F (at_block a X Y 1 0) = v1" "F (at_block a X Y 0 1) = v2" "F (at_block a X Y 1 1) = v3"
    and "F (5 * a * b + (a * Y + X)) = u" "F (4 * a * b + (a * Y + X)) = v"
  defines "w \<equiv> int (2 * a)" and "i \<equiv> int (2 * X)" and "j \<equiv> int (4 * a * Y)"
  shows "do { d \<leftarrow> wr d (i + j) v0; d \<leftarrow> wr d (i + j + 1) v1; d \<leftarrow> wr d (w + i + j) v2; d \<leftarrow> wr d (w + i + j + 1) v3;
              d \<leftarrow> wr d (int (5 * a * b) + asr i 1 + asr j 2) u; d \<leftarrow> wr d (int (4 * a * b) + asr i 1 + asr j 2) v; f d } =
    f (writes (block_writes F a b Y X) d)"
proof -
  have lt: "at_block a X Y x y < length d" if "x < 2" "y < 2" for x y
    using at_block_lt [OF assms(1,2) that] assms(3) unfolding mult.assoc by linarith
  have clt: "4 * a * b + (a * Y + X) < length d" "5 * a * b + (a * Y + X) < length d"
    using at_chroma_lt [OF assms(1,2)] assms(3) unfolding mult.assoc by linarith+
  have e: "i + j = int (at_block a X Y 0 0)" "i + j + 1 = int (at_block a X Y 1 0)"
    "w + i + j = int (at_block a X Y 0 1)" "w + i + j + 1 = int (at_block a X Y 1 1)"
    unfolding w_def i_def j_def block_positions by simp_all
  have c: "int (5 * a * b) + asr i 1 + asr j 2 = int (5 * a * b + (a * Y + X))"
    "int (4 * a * b) + asr i 1 + asr j 2 = int (4 * a * b + (a * Y + X))"
    unfolding add.assoc i_def j_def chroma_position by simp_all
  show ?thesis unfolding e(4) unfolding e(3) unfolding e(2) unfolding e(1) c using lt clt assms(4-9)
    by (simp add: block_writes_def writes_Cons del: of_nat_add of_nat_mult)
qed

text \<open>Both conversions: the first \<open>6 a b\<close> positions of the destination are the planar image.\<close>

definition to_yvu16 :: "(nat \<Rightarrow> int \<times> int \<times> int) \<Rightarrow> nat \<Rightarrow> nat \<Rightarrow> nat \<Rightarrow> s16" where
  "to_yvu16 = yvu_ref (\<lambda>y. to_s16 (CLAMP16 (asr y 1))) (\<lambda>c. to_s16 (CLAMP16 (asr c 1)))"

definition to_yvu8 :: "(nat \<Rightarrow> int \<times> int \<times> int) \<Rightarrow> nat \<Rightarrow> nat \<Rightarrow> nat \<Rightarrow> u8" where
  "to_yvu8 = yvu_ref (\<lambda>y. to_u8 (CLAMP8 (asr y 8))) (\<lambda>c. to_u8 (CLAMP8 (asr c 9 + 128)))"

text \<open>The conditions on sizes and buffers.\<close>

definition rgb_sizes :: "nat \<Rightarrow> nat \<Rightarrow> nat \<Rightarrow> u8 list \<Rightarrow> 'p list \<Rightarrow> bool" where
  "rgb_sizes a b stride src dst \<longleftrightarrow> 0 < a \<and> 3 \<le> stride \<and> stride * (4 * a * b) \<le> length src \<and> 6 * a * b \<le> length dst \<and>
     int (stride * (4 * a * b)) < 2 ^ 31"

lemma block16:
  assumes "X < a" "Y < b" "rgb_sizes a b stride src d" "ir < stride" "ig < stride" "ib < stride"
  shows "planar16sub_block src (int (2 * a)) (int ir, int ig, int ib) (int stride) (int (4 * a * b)) (int (5 * a * b))
      (int (4 * a * Y)) (int (2 * X)) (int (stride * (4 * a * Y + 2 * X)), d) =
    Some (int (stride * (4 * a * Y + 2 * Suc X)), writes (block_writes (to_yvu16 (rgb_at src stride ir ig ib) a b) a b Y X) d)"
proof -
  let ?px = "rgb_at src stride ir ig ib" and ?k = "int (stride * (4 * a * Y + 2 * X))"
  note sz = assms(3) [unfolded rgb_sizes_def]
  obtain r0 g0 c0 r1 g1 c1 r2 g2 c2 r3 g3 c3 where px: "?px (at_block a X Y 0 0) = (r0, g0, c0)" "?px (at_block a X Y 1 0) = (r1, g1, c1)"
    "?px (at_block a X Y 0 1) = (r2, g2, c2)" "?px (at_block a X Y 1 1) = (r3, g3, c3)" by (metis prod_cases3)
  have lt: "at_block a X Y x y < 4 * a * b" if "x < 2" "y < 2" for x y by (rule at_block_lt [OF assms(1,2) that])
  note luma = yvu_ref_luma [OF lt, where px = ?px] and chroma = yvu_ref_chroma [OF assms(1,2) px(3,4)]
  have "?k + 2 * int stride = int (stride * (4 * a * Y + 2 * Suc X))" by (simp add: algebra_simps)
  moreover note block_reads [where ir = ir and ig = ig and ib = ib and src = src and stride = stride and k = ?k, OF assms(1,2), unfolded px]
  moreover note block_stores [OF assms(1,2), where F = "to_yvu16 ?px a b" and d = d and f = "\<lambda>d. Some (?k + 2 * int stride, d)", unfolded to_yvu16_def,
      OF _ luma luma luma luma chroma(2,1), OF _ _ _ px(1) _ _ px(2) _ _ px(3) _ _ px(4)]
  ultimately show ?thesis using sz assms(4-6)
    by (simp add: planar16sub_block_def Let_def to_yvu16_def del: of_nat_add of_nat_mult)
qed

lemma block8:
  assumes "X < a" "Y < b" "rgb_sizes a b 3 src d"
  shows "planar8sub_block src (int (2 * a)) (int (4 * a * b)) (int (5 * a * b))
      (int (4 * a * Y)) (int (2 * X)) (int (3 * (4 * a * Y + 2 * X)), d) =
    Some (int (3 * (4 * a * Y + 2 * Suc X)), writes (block_writes (to_yvu8 (rgb_at src 3 0 1 2) a b) a b Y X) d)"
proof -
  let ?px = "rgb_at src 3 0 1 2" and ?k = "int (3 * (4 * a * Y + 2 * X))"
  note sz = assms(3) [unfolded rgb_sizes_def]
  obtain r0 g0 c0 r1 g1 c1 r2 g2 c2 r3 g3 c3 where px: "?px (at_block a X Y 0 0) = (r0, g0, c0)" "?px (at_block a X Y 1 0) = (r1, g1, c1)"
    "?px (at_block a X Y 0 1) = (r2, g2, c2)" "?px (at_block a X Y 1 1) = (r3, g3, c3)" by (metis prod_cases3)
  have lt: "at_block a X Y x y < 4 * a * b" if "x < 2" "y < 2" for x y by (rule at_block_lt [OF assms(1,2) that])
  note luma = yvu_ref_luma [OF lt, where px = ?px] and chroma = yvu_ref_chroma [OF assms(1,2) px(3,4)]
  have "?k + 6 = int (3 * (4 * a * Y + 2 * Suc X))" by (simp add: algebra_simps)
  moreover have "rd_rgb src ?k 0 1 2 = Some (r0, g0, c0)" "rd_rgb src (?k + 3) 0 1 2 = Some (r1, g1, c1)"
    "rd_rgb src (wrap32 (int (2 * a) * 3) + ?k) 0 1 2 = Some (r2, g2, c2)"
    "rd_rgb src (wrap32 (int (2 * a) * 3) + ?k + 3) 0 1 2 = Some (r3, g3, c3)"
    using block_reads [where ir = 0 and ig = 1 and ib = 2 and src = src and stride = 3 and k = ?k, OF assms(1,2), unfolded px] sz by simp_all
  moreover note block_stores [OF assms(1,2), where F = "to_yvu8 ?px a b" and d = d and f = "\<lambda>d. Some (?k + 6, d)", unfolded to_yvu8_def,
      OF _ luma luma luma luma chroma(2,1), OF _ _ _ px(1) _ _ px(2) _ _ px(3) _ _ px(4)]
  ultimately show ?thesis using sz
    by (simp add: planar8sub_block_def Let_def to_yvu8_def del: of_nat_add of_nat_mult)
qed

lemma planar_loops:
  assumes sz: "rgb_sizes a b stride src dst"
    and blk: "\<And>X Y d. X < a \<Longrightarrow> Y < b \<Longrightarrow> rgb_sizes a b stride src d \<Longrightarrow>
      blk (int (4 * a * b)) (int (5 * a * b)) (int (4 * a * Y)) (int (2 * X)) (int (stride * (4 * a * Y + 2 * X)), d) =
        Some (int (stride * (4 * a * Y + 2 * Suc X)), writes (block_writes F a b Y X) d)"
  defines "w \<equiv> int (2 * a)" and "n \<equiv> wrap32 (int (2 * a) * int (2 * b))"
  shows "int_loop 0 n (wrap32 (w * 2)) (\<lambda>j dst. map_option snd (int_loop 0 w 2 (blk n (n + asr n 2) j) (wrap32 (int stride * j), dst))) dst =
    Some (map F [0..<6 * a * b] @ drop (6 * a * b) dst)"
proof (cases "b = 0")
  case True
  have "wrap32 0 = 0" by (simp add: wrap32_def)
  then show ?thesis unfolding n_def using True by (subst int_loop.simps) simp
next
  case False
  note s = sz [unfolded rgb_sizes_def]
  have szd: "rgb_sizes a b stride src d" if "length d = length dst" for d using sz that by (simp add: rgb_sizes_def)
  have "4 * a * b * 1 \<le> 4 * a * b * stride" using s by (intro mult_le_mono2) simp
  then have "4 * a * b \<le> stride * (4 * a * b)" by (simp only: mult.commute mult_1_right)
  then have "int (4 * a * b) \<le> int (stride * (4 * a * b))" by (simp only: of_nat_le_iff)
  then have i: "int (4 * a * b) < 2 ^ 31" using s by linarith
  have "2 * a * 1 \<le> 2 * a * (2 * b)" using False by (intro mult_le_mono2) simp
  then have "int (2 * a) \<le> int (4 * a * b)" by (simp only: of_nat_le_iff)
  then have wi: "int (2 * a) < 2 ^ 31" using i by linarith
  have "int (2 * a) * int (2 * b) = int (4 * a * b)" by simp
  then have n: "n = int (4 * a * b)" unfolding n_def by (simp only: wrap32_nat [OF i])
  moreover have "asr (int (4 * a * b)) 2 = int (a * b)" unfolding asr_nat by simp
  ultimately have n: "n = int (4 * a * b)" "n + asr n 2 = int (5 * a * b)" by simp_all
  have row: "map_option snd (int_loop 0 w 2 (blk n (n + asr n 2) (int (4 * a * Y))) (wrap32 (int stride * int (4 * a * Y)), d)) =
      Some (writes (concat (map (block_writes F a b Y) [0..<a])) d)" if "Y < b" "length d = length dst" for Y d
  proof -
    have "4 * a * Y \<le> 4 * a * b" using that(1) by (intro mult_le_mono2) simp
    then have "stride * (4 * a * Y) \<le> stride * (4 * a * b)" by (rule mult_le_mono2)
    then have "int (stride * (4 * a * Y)) \<le> int (stride * (4 * a * b))" by (simp only: of_nat_le_iff)
    then have "wrap32 (int (stride * (4 * a * Y))) = int (stride * (4 * a * Y))" using s by (intro wrap32_nat) linarith
    then have k: "wrap32 (int stride * int (4 * a * Y)) = int (stride * (4 * a * Y + 2 * 0))" by (simp del: of_nat_mult flip: of_nat_mult)
    show ?thesis unfolding k n(2) unfolding n(1) w_def
      by (rule block_row [where kk = "\<lambda>X. int (stride * (4 * a * Y + 2 * X))", OF _ wi that(2)])
        (use s in blast, rule blk [OF _ that(1) szd])
  qed
  have "int_loop 0 n (wrap32 (w * 2)) (\<lambda>j dst. map_option snd (int_loop 0 w 2 (blk n (n + asr n 2) j) (wrap32 (int stride * j), dst))) dst =
      Some (writes (concat (map (\<lambda>Y. concat (map (block_writes F a b Y) [0..<a])) [0..<b])) dst)"
    unfolding n_def w_def
    by (rule block_loops [OF _ i refl]) (use s row in \<open>simp_all only: n_def w_def\<close>)
  then show ?thesis using s by (simp only: block_writes_all)
qed

text \<open>
  C21: the conversion of packed RGB (any component order and pixel stride) to planar YCrCb of 16 bits computes, for every
  even size, the reference picture: each luminance is that of its pixel, each chrominance that of a block of 2 x 2
  pixels; it stays inside both buffers and leaves the destination behind the picture alone. The reference shows
  what the code makes of the chrominance: the sum over the lower two pixels of the block only.
\<close>

theorem rgb_to_yvu16:
  assumes "rgb_sizes a b stride src dst" "ir < stride" "ig < stride" "ib < stride"
  shows "llconv_rgb2yvu_planar16sub_indexed src (int (2 * a)) (int (2 * b)) (int ir) (int ig) (int ib) (int stride) dst =
    Some (map (to_yvu16 (rgb_at src stride ir ig ib) a b) [0..<6 * a * b] @ drop (6 * a * b) dst)"
  unfolding llconv_rgb2yvu_planar16sub_indexed_def Let_def
  by (rule planar_loops [OF assms(1)]) (rule block16; (rule assms)?)

theorem rgb_to_yvu16_witness:
  "\<exists>px. llconv_rgb2yvu_planar16sub_indexed [255, 0, 0, 0, 255, 0, 0, 0, 255, 9, 9, 9] 2 2 0 1 2 3 (replicate 7 0) = Some (px @ [0]) \<and> length px = 6"
  using rgb_to_yvu16 [of 1 1 3 "[255, 0, 0, 0, 255, 0, 0, 0, 255, 9, 9, 9]" "replicate 7 0" 0 1 2]
  by (simp add: rgb_sizes_def)

theorem rgb_to_yvu8:
  assumes "rgb_sizes a b 3 src dst"
  shows "llconv_rgb2yvu_planar8sub src (int (2 * a)) (int (2 * b)) dst =
    Some (map (to_yvu8 (rgb_at src 3 0 1 2) a b) [0..<6 * a * b] @ drop (6 * a * b) dst)"
  unfolding llconv_rgb2yvu_planar8sub_def Let_def
  using planar_loops [OF assms, of "planar8sub_block src (int (2 * a))"] block8 by simp

section \<open>YVU to RGB\<close>

lemma block_row_plain:
  assumes "0 < a" "int (2 * a) < 2 ^ 31" "length dst = m"
    and "\<And>X d. X < a \<Longrightarrow> length d = m \<Longrightarrow> f (int (2 * X)) d = Some (writes (W X) d)"
  shows "int_loop 0 (int (2 * a)) 2 f dst = Some (writes (concat (map W [0..<a])) dst)"
proof -
  have "int_loop (int (2 * 0)) (int (2 * a)) (int 2) f dst = for_loop 0 (a - 0) (\<lambda>j. f (int (2 * j))) dst"
    by (rule int_loop_rows) (use assms(1,2) in simp_all)
  also have "\<dots> = Some (writes (concat (map W [0..<0 + a])) dst)"
    unfolding diff_zero by (rule for_loop_writes) (use assms(3,4) in simp_all)
  finally show ?thesis by simp
qed

text \<open>Byte \<open>m\<close> of the packed image: component \<open>m mod 3\<close> of pixel \<open>m div 3\<close>, with the chrominance of its block.\<close>

definition rgb_ref :: "plane \<Rightarrow> nat \<Rightarrow> nat \<Rightarrow> nat \<Rightarrow> u8" where
  "rgb_ref src a b m =
     (let n = m div 3; c = a * (n div (2 * a) div 2) + n mod (2 * a) div 2;
          y = FP 1164 * (sint (src ! n) * 2) - FP (16 * 256 * 1000);
          v = sint (src ! (4 * a * b + c)); u = sint (src ! (5 * a * b + c))
      in to_u8 (CLAMP8 (asr ((if m mod 3 = 0 then FP 1596 * v
                              else if m mod 3 = 1 then FP (- 813) * v + FP (- 391) * u
                              else FP 2018 * u) + y) 16)))"

definition rgb_pixel :: "(nat \<Rightarrow> 'a) \<Rightarrow> nat \<Rightarrow> (nat \<times> 'a) list" where
  "rgb_pixel F n = [(3 * n, F (3 * n)), (3 * n + 1, F (3 * n + 1)), (3 * n + 2, F (3 * n + 2))]"

definition rgb_writes :: "(nat \<Rightarrow> 'a) \<Rightarrow> nat \<Rightarrow> nat \<Rightarrow> nat \<Rightarrow> (nat \<times> 'a) list" where
  "rgb_writes F a Y X = concat (map (rgb_pixel F) [at_block a X Y 0 0, at_block a X Y 1 0, at_block a X Y 0 1, at_block a X Y 1 1])"

lemma rgb_pixel_iff: "(m, v) \<in> set (rgb_pixel F n) \<longleftrightarrow> m div 3 = n \<and> v = F m"
proof -
  have "m = 3 * n \<or> m = 3 * n + 1 \<or> m = 3 * n + 2 \<longleftrightarrow> m div 3 = n" by linarith
  then show ?thesis by (auto simp: rgb_pixel_def)
qed

lemma rgb_writes_iff:
  "(m, v) \<in> set (rgb_writes F a Y X) \<longleftrightarrow> v = F m \<and> (\<exists>x<2. \<exists>y<2. m div 3 = at_block a X Y x y)"
proof -
  have "(\<exists>x<2. \<exists>y<2. n = at_block a X Y x y) \<longleftrightarrow>
      n = at_block a X Y 0 0 \<or> n = at_block a X Y 1 0 \<or> n = at_block a X Y 0 1 \<or> n = at_block a X Y 1 1" for n
    by (auto simp: numeral_2_eq_2 less_Suc_eq)
  then show ?thesis by (auto simp: rgb_writes_def rgb_pixel_iff)
qed

lemma rgb_writes_all:
  assumes "3 * (4 * a * b) \<le> length dst"
  shows "writes (concat (map (\<lambda>Y. concat (map (rgb_writes F a Y) [0..<a])) [0..<b])) dst =
    map F [0..<3 * (4 * a * b)] @ drop (3 * (4 * a * b)) dst"
proof (rule writes_cover)
  let ?ws = "concat (map (\<lambda>Y. concat (map (rgb_writes F a Y) [0..<a])) [0..<b])"
  have ws: "(m, v) \<in> set ?ws \<longleftrightarrow> v = F m \<and> (\<exists>X<a. \<exists>Y<b. \<exists>x<2. \<exists>y<2. m div 3 = at_block a X Y x y)" for m v
    by (auto simp: rgb_writes_iff Bex_def)
  show "\<forall>(i, v) \<in> set ?ws. v = F i" by (auto simp: rgb_writes_iff)
  have "m \<in> fst ` set ?ws \<longleftrightarrow> m < 3 * (4 * a * b)" for m
  proof -
    have "m \<in> fst ` set ?ws \<longleftrightarrow> (\<exists>v. (m, v) \<in> set ?ws)" by force
    also have "\<dots> \<longleftrightarrow> (\<exists>X<a. \<exists>Y<b. \<exists>x<2. \<exists>y<2. m div 3 = at_block a X Y x y)" unfolding ws by simp
    also have "\<dots> \<longleftrightarrow> m div 3 < 4 * a * b" using at_block_ex at_block_lt by metis
    also have "\<dots> \<longleftrightarrow> m < 3 * (4 * a * b)" by linarith
    finally show ?thesis .
  qed
  then show "fst ` set ?ws = {..<3 * (4 * a * b)}" by blast
qed (rule assms)

lemma store_rgb_nat:
  assumes "n < length src" "3 * n + 2 < length d"
    and "F (3 * n) = to_u8 (CLAMP8 (asr (cr + (FP 1164 * (sint (src ! n) * 2) - FP (16 * 256 * 1000))) 16))"
    and "F (3 * n + 1) = to_u8 (CLAMP8 (asr (cg + (FP 1164 * (sint (src ! n) * 2) - FP (16 * 256 * 1000))) 16))"
    and "F (3 * n + 2) = to_u8 (CLAMP8 (asr (cb + (FP 1164 * (sint (src ! n) * 2) - FP (16 * 256 * 1000))) 16))"
  shows "store_rgb src cb cg cr (int n) (int (3 * n)) d = Some (writes (rgb_pixel F n) d)"
proof -
  have e: "int (3 * n) + 1 = int (3 * n + 1)" "int (3 * n) + 2 = int (3 * n + 2)" by simp_all
  show ?thesis unfolding store_rgb_def e using assms
    by (simp add: Let_def rgb_pixel_def writes_Cons del: of_nat_add of_nat_mult of_nat_Suc)
qed

lemma div_mod_3:
  "3 * n div 3 = n" "(3 * n + 1) div 3 = n" "(3 * n + 2) div 3 = (n :: nat)"
  "3 * n mod 3 = 0" "(3 * n + 1) mod 3 = 1" "(3 * n + 2) mod 3 = 2"
  by presburger+

lemma yvu_block_nat:
  assumes XY: "X < a" "Y < b" and sz: "6 * a * b \<le> length src" "3 * (4 * a * b) \<le> length d" "int (3 * (4 * a * b)) < 2 ^ 31"
  shows "yvu_block src (int (2 * a)) (int (4 * a * b)) (int (5 * a * b)) (int (4 * a * Y)) (int (2 * X)) d =
    Some (writes (rgb_writes (rgb_ref src a b) a Y X) d)"
proof -
  let ?p = "at_block a X Y" and ?c = "a * Y + X" and ?F = "rgb_ref src a b"
  have lt: "?p x y < 4 * a * b" if "x < 2" "y < 2" for x y by (rule at_block_lt [OF XY that])
  have srclt: "?p x y < length src" "3 * ?p x y + 2 < length d" if "x < 2" "y < 2" for x y
    using lt [OF that] sz(1,2) unfolding mult.assoc by linarith+
  have clt: "4 * a * b + ?c < length src" "5 * a * b + ?c < length src"
    using at_chroma_lt [OF XY] sz(1) unfolding mult.assoc by linarith+
  define u v where "u = sint (src ! (5 * a * b + ?c))" and "v = sint (src ! (4 * a * b + ?c))"
  have F: "?F (3 * ?p x y) = to_u8 (CLAMP8 (asr (FP 1596 * v + (FP 1164 * (sint (src ! ?p x y) * 2) - FP (16 * 256 * 1000))) 16))"
    "?F (3 * ?p x y + 1) = to_u8 (CLAMP8 (asr (FP (- 813) * v + FP (- 391) * u + (FP 1164 * (sint (src ! ?p x y) * 2) - FP (16 * 256 * 1000))) 16))"
    "?F (3 * ?p x y + 2) = to_u8 (CLAMP8 (asr (FP 2018 * u + (FP 1164 * (sint (src ! ?p x y) * 2) - FP (16 * 256 * 1000))) 16))"
    if "x < 2" "y < 2" for x y
    unfolding rgb_ref_def Let_def div_mod_3 at_block_inv [OF XY(1) that] u_def v_def by simp_all
  have st: "store_rgb src (FP 2018 * u) (FP (- 813) * v + FP (- 391) * u) (FP 1596 * v) (int (?p x y)) (int (3 * ?p x y)) d' =
      Some (writes (rgb_pixel ?F (?p x y)) d')" if "x < 2" "y < 2" "length d' = length d" for x y d'
    by (rule store_rgb_nat [where F = ?F]) (use srclt [OF that(1,2)] that(3) F [OF that(1,2)] in simp_all)
  have "int (3 * ?p 0 0) \<le> int (3 * (4 * a * b))" using lt [of 0 0] by (simp only: of_nat_le_iff) simp
  then have w0: "wrap32 (int (3 * ?p 0 0)) = int (3 * ?p 0 0)" using sz(3) by (intro wrap32_nat) linarith
  have "2 * a * 1 \<le> 4 * a * b" using XY by (intro mult_le_mono) simp_all
  then have "int (2 * a * 3) \<le> int (3 * (4 * a * b))" by (simp only: of_nat_le_iff)
  then have w1: "wrap32 (int (2 * a) * 3) = int (2 * a * 3)" using sz(3)
    by (subst wrap32_nat [symmetric]) (linarith, simp)
  have e: "int (2 * X) + int (4 * a * Y) = int (?p 0 0)" "int (?p 0 0) + 1 = int (?p 1 0)" "int (?p 0 0) + int (2 * a) = int (?p 0 1)"
    "int (?p 0 1) + 1 = int (?p 1 1)" "3 * int (?p 0 0) = int (3 * ?p 0 0)" "int (3 * ?p 0 0) + 3 = int (3 * ?p 1 0)"
    "int (3 * ?p 0 0) + int (2 * a * 3) = int (3 * ?p 0 1)" "int (3 * ?p 0 1) + 3 = int (3 * ?p 1 1)"
    unfolding block_positions by simp_all
  have c: "int (4 * a * b) + int ?c = int (4 * a * b + ?c)" "int (5 * a * b) + int ?c = int (5 * a * b + ?c)" by simp_all
  show ?thesis
    unfolding yvu_block_def Let_def e w0 w1 chroma_position c
    unfolding e
    using clt by (simp add: u_def [symmetric] v_def [symmetric] st rgb_writes_def writes_append del: of_nat_add of_nat_mult)
qed

text \<open>
  C37: the conversion of planar YCrCb of 16 bits to packed RGB computes the reference picture byte for byte for every
  even size, each pixel with the chrominance of its block, clamped to 0 .. 255, inside both buffers.
\<close>

theorem yvu_to_rgb:
  assumes "0 < a" "6 * a * b \<le> length src" "3 * (4 * a * b) \<le> length dst" "int (3 * (4 * a * b)) < 2 ^ 31"
  shows "llconv_yvu16planar2rgbpacked src (int (2 * a)) (int (2 * b)) dst =
    Some (map (rgb_ref src a b) [0..<3 * (4 * a * b)] @ drop (3 * (4 * a * b)) dst)"
proof (cases "b = 0")
  case True
  have "wrap32 0 = 0" by (simp add: wrap32_def)
  then show ?thesis unfolding llconv_yvu16planar2rgbpacked_def Let_def using True by (subst int_loop.simps) simp
next
  case False
  have i: "int (4 * a * b) < 2 ^ 31" using assms(4) by linarith
  have "2 * a * 1 \<le> 2 * a * (2 * b)" using False by (intro mult_le_mono2) simp
  then have "int (2 * a) \<le> int (4 * a * b)" by (simp only: of_nat_le_iff)
  then have wi: "int (2 * a) < 2 ^ 31" using i by linarith
  define n where "n = wrap32 (int (2 * a) * int (2 * b))"
  have "int (2 * a) * int (2 * b) = int (4 * a * b)" by simp
  then have n: "n = int (4 * a * b)" unfolding n_def by (simp only: wrap32_nat [OF i])
  moreover have "asr (int (4 * a * b)) 2 = int (a * b)" unfolding asr_nat by simp
  ultimately have n2: "n + asr n 2 = int (5 * a * b)" by simp
  have row: "int_loop 0 (int (2 * a)) 2 (yvu_block src (int (2 * a)) n (n + asr n 2) (int (4 * a * Y))) d =
      Some (writes (concat (map (rgb_writes (rgb_ref src a b) a Y) [0..<a])) d)" if "Y < b" "length d = length dst" for Y d
    unfolding n2 unfolding n
    by (rule block_row_plain [OF assms(1) wi that(2)]) (use assms that in \<open>simp only: yvu_block_nat\<close>)
  have "llconv_yvu16planar2rgbpacked src (int (2 * a)) (int (2 * b)) dst =
      Some (writes (concat (map (\<lambda>Y. concat (map (rgb_writes (rgb_ref src a b) a Y) [0..<a])) [0..<b])) dst)"
    unfolding llconv_yvu16planar2rgbpacked_def Let_def mult.commute [of 2 "int (2 * a)"]
    by (rule block_loops [OF assms(1) i refl]) (use row in \<open>simp only: n_def\<close>)
  then show ?thesis using assms(3) by (simp only: rgb_writes_all)
qed

theorem yvu_to_rgb_witness:
  "\<exists>px. llconv_yvu16planar2rgbpacked (replicate 6 100) 2 2 (replicate 13 7) = Some (px @ [7]) \<and> length px = 12"
  using yvu_to_rgb [of 1 1 "replicate 6 100" "replicate 13 7"] by simp

section \<open>Planar formats of 8 and 16 bits\<close>

lemma for_loop_fill:
  assumes "n \<le> length dst" "\<And>i d. i < n \<Longrightarrow> length d = length dst \<Longrightarrow> f i d = wr d (int i) (F i)"
  shows "for_loop 0 n f dst = Some (map F [0..<n] @ drop n dst)"
proof -
  have "for_loop 0 n f dst = Some (writes (concat (map (\<lambda>i. [(i, F i)]) [0..<0 + n])) dst)"
    by (rule for_loop_writes) (use assms in \<open>simp_all add: writes_Cons\<close>)
  also have "writes (concat (map (\<lambda>i. [(i, F i)]) [0..<0 + n])) dst = map F [0..<n] @ drop n dst"
    by (rule writes_cover) (use assms(1) in \<open>auto simp: image_iff\<close>)
  finally show ?thesis .
qed

definition unpack_y :: "u8 \<Rightarrow> s16" where
  "unpack_y s = push_bit 7 (ucast s)"

definition unpack_uv :: "u8 \<Rightarrow> s16" where
  "unpack_uv s = push_bit 8 (ucast s) XOR 0x8000"

definition pack_y :: "s16 \<Rightarrow> u8" where
  "pack_y s = to_u8 (CLAMP8 (asr (sint s) 7))"

definition pack_uv :: "s16 \<Rightarrow> u8" where
  "pack_uv s = ucast (drop_bit 8 (s XOR 0x8000))"

lemma map_nth_take: "n \<le> length xs \<Longrightarrow> map (\<lambda>i. g (xs ! i)) [0..<n] = map g (take n xs)"
  by (rule nth_equalityI) simp_all

lemma pixel_loops:
  assumes "unat n \<le> length dst" "unat n \<le> length bs"
  shows "pixel_unpack_portable_u8s16_y bs n dst = Some (map unpack_y (take (unat n) bs) @ drop (unat n) dst)"
    and "pixel_unpack_portable_u8s16_uv bs n dst = Some (map unpack_uv (take (unat n) bs) @ drop (unat n) dst)"
  unfolding map_nth_take [OF assms(2), symmetric] pixel_unpack_portable_u8s16_y_def pixel_unpack_portable_u8s16_uv_def
  by (rule for_loop_fill; use assms in \<open>simp add: unpack_y_def unpack_uv_def\<close>)+

lemma pack_loops:
  assumes "unat n \<le> length dst" "unat n \<le> length ps"
  shows "pixel_pack_portable_s16u8_y ps n dst = Some (map pack_y (take (unat n) ps) @ drop (unat n) dst)"
    and "pixel_pack_portable_s16u8_uv ps n dst = Some (map pack_uv (take (unat n) ps) @ drop (unat n) dst)"
  unfolding map_nth_take [OF assms(2), symmetric] pixel_pack_portable_s16u8_y_def pixel_pack_portable_s16u8_uv_def
  by (rule for_loop_fill; use assms in \<open>simp add: pack_y_def pack_uv_def\<close>)+

lemma pack_unpack_y: "pack_y (unpack_y s) = s"
proof -
  have u: "uint s < 256" "0 \<le> uint s" using uint_lt2p [of s] by simp_all
  have "sint (unpack_y s) = 128 * uint s"
  proof -
    have "unpack_y s = word_of_int (128 * uint s)"
      by (simp add: unpack_y_def push_bit_eq_mult)
    moreover have "-256 \<le> uint s" using u(2) by linarith
    ultimately show ?thesis using u(1) by (simp only:) (rule sint_word_of_int_s16, simp add: in_s16_def)
  qed
  then show ?thesis using u by (simp add: pack_y_def asr_def CLAMP8_def)
qed

lemma pack_unpack_uv: "pack_uv (unpack_uv s) = s"
  by (rule bit_word_eqI) (auto simp: pack_uv_def unpack_uv_def bit_simps)

lemma u32_of_int: "int n < 2 ^ 31 \<Longrightarrow> unat (word_of_int (int n) :: u32) = n"
  by (simp add: unat_of_nat_u32)

lemma planar_unpack:
  assumes "int n < 2 ^ 31" "n + n div 2 \<le> length src" "n + n div 2 \<le> length dst"
  shows "llconv_yvu_planar_u8s16 src (int n) dst =
    Some (map unpack_y (take n src) @ map unpack_uv (take (n div 2) (drop n src)) @ drop (n + n div 2) dst)"
proof -
  have "int (n div 2) < 2 ^ 31" using assms(1) by linarith
  then have h: "unat (word_of_int (int (n div 2)) :: u32) = n div 2" by (rule u32_of_int)
  have a: "asr (int n) 1 = int (n div 2)" unfolding asr_nat by simp
  show ?thesis unfolding llconv_yvu_planar_u8s16_def a
    using assms(2,3) h u32_of_int [OF assms(1)]
    by (simp add: pixel_loops at_offsets_def add.commute del: of_nat_div of_int_of_nat_eq)
qed

lemma planar_pack:
  assumes "int n < 2 ^ 31" "n + n div 2 \<le> length src" "n + n div 2 \<le> length dst"
  shows "llconv_yvu_planar_s16u8 src (word_of_int (int n)) dst =
    Some (map pack_y (take n src) @ map pack_uv (take (n div 2) (drop n src)) @ drop (n + n div 2) dst)"
proof -
  have n: "unat (word_of_int (int n) :: u32) = n" by (rule u32_of_int [OF assms(1)])
  moreover have "unat (drop_bit 1 (word_of_int (int n) :: u32)) = n div 2"
    unfolding unat_drop_bit_eq n by (simp add: drop_bit_eq_div)
  ultimately show ?thesis unfolding llconv_yvu_planar_s16u8_def uint_nat
    using assms(2,3) by (simp add: pack_loops at_offsets_def add.commute del: of_int_of_nat_eq)
qed

text \<open>The planes \<open>V\<close> and \<open>U\<close> change places in the conversion from the \<open>YUV\<close> layout.\<close>

lemma planar_yuv_unpack:
  assumes "int (4 * q) < 2 ^ 31" "6 * q \<le> length src" "6 * q \<le> length dst"
  shows "llconv_yuv_planar_u8s16 src (int (4 * q)) dst =
    llconv_yvu_planar_u8s16 (take (4 * q) src @ take q (drop (5 * q) src) @ take q (drop (4 * q) src)) (int (4 * q)) dst"
proof -
  have i: "int q < 2 ^ 31" using assms(1) by linarith
  have n: "unat (word_of_int (int (4 * q)) :: u32) = 4 * q" "unat (word_of_int (int q) :: u32) = q"
    by (rule u32_of_int [OF assms(1)], rule u32_of_int [OF i])
  have a: "asr (int (4 * q)) 2 = int q" unfolding asr_nat by simp
  let ?s = "take (4 * q) src @ take q (drop (5 * q) src) @ take q (drop (4 * q) src)"
  have e: "int (4 * q) + int q = int (5 * q)" by simp
  have "llconv_yvu_planar_u8s16 ?s (int (4 * q)) dst = Some (map unpack_y (take (4 * q) src) @
      map unpack_uv (take q (drop (5 * q) src)) @ map unpack_uv (take q (drop (4 * q) src)) @ drop (6 * q) dst)"
    using planar_unpack [OF assms(1), of ?s dst] assms(2,3) by (simp del: of_nat_mult)
  then show ?thesis
    unfolding llconv_yuv_planar_u8s16_def Let_def a e
    using assms(2,3) n by (simp add: pixel_loops at_offsets_def del: of_nat_mult of_int_of_nat_eq)
qed

section \<open>Flipping\<close>

text \<open>A buffer is cut at the rows: \<open>exchange_row\<close> swaps two segments of the same length.\<close>

lemma rd4_append: "length p = i \<Longrightarrow> length x = 4 \<Longrightarrow> rd4 (p @ x @ q) (int i) = Some x"
  by (simp add: rd4_def)

lemma wr4_append: "length p = i \<Longrightarrow> length x = 4 \<Longrightarrow> wr4 (p @ x @ q) (int i) v = Some (p @ v @ q)"
  by (simp add: wr4_def)

lemma rd_append: "int (length p) = i \<Longrightarrow> rd (p @ c # q) i = Some c"
  by (auto simp: rd_def)

lemma wr_append: "int (length p) = i \<Longrightarrow> wr (p @ c # q) i v = Some (p @ v # q)"
  by (auto simp: wr_def)

lemma exchange_bytes_ok:
  assumes "length x = n" "length y = n" "int (length p) = i" "int (length (p @ x @ m)) = j"
  shows "exchange_bytes (int n) i j (p @ x @ m @ y @ q) = Some (p @ y @ m @ x @ q)"
  using assms
proof (induction n arbitrary: x y p m i j)
  case 0
  then show ?case by (simp add: exchange_bytes.simps)
next
  case (Suc n)
  obtain c x' where x: "x = c # x'" using Suc.prems(1) by (cases x) auto
  obtain d y' where y: "y = d # y'" using Suc.prems(2) by (cases y) auto
  have r: "rd (p @ x @ m @ y @ q) i = Some c" "rd (p @ x @ m @ y @ q) j = Some d"
    using rd_append [OF Suc.prems(3), of c "x' @ m @ y @ q"] rd_append [OF Suc.prems(4), of d "y' @ q"] by (simp_all add: x y)
  have w1: "wr (p @ x @ m @ y @ q) i d = Some (p @ (d # x') @ m @ y @ q)"
    using wr_append [OF Suc.prems(3), of c "x' @ m @ y @ q" d] by (simp add: x)
  have j: "int (length (p @ (d # x') @ m)) = j" using Suc.prems(4) by (simp add: x)
  have w2: "wr (p @ (d # x') @ m @ y @ q) j c = Some ((p @ [d]) @ x' @ (m @ [c]) @ y' @ q)"
    using wr_append [OF j, of d "y' @ q" c] by (simp add: y)
  have "exchange_bytes (int n) (i + 1) (j + 1) ((p @ [d]) @ x' @ (m @ [c]) @ y' @ q) = Some ((p @ [d]) @ y' @ (m @ [c]) @ x' @ q)"
    by (rule Suc.IH) (use Suc.prems x y in auto)
  then show ?case by (subst exchange_bytes.simps) (simp add: r w1 w2 del: append.simps append_Cons append_assoc, simp add: x y)
qed

lemma and_not_3: "int n AND NOT 3 \<noteq> 0 \<longleftrightarrow> 4 \<le> n"
proof -
  have m: "(3 :: int) = mask 2" by (simp add: mask_eq_exp_minus_1)
  have "int n AND NOT 3 = push_bit 2 (drop_bit 2 (int n))"
    unfolding m by (rule bit_eqI) (auto simp: bit_simps not_less dest: le_Suc_ex)
  also have "\<dots> = int n div 4 * 4" by (simp add: push_bit_eq_mult drop_bit_eq_div)
  finally show ?thesis by (simp add: div_eq_0_iff) linarith
qed

lemma exchange_row_ok:
  assumes "length x = n" "length y = n" "int (length p) = i" "int (length (p @ x @ m)) = j"
  shows "exchange_row i j (int n) (p @ x @ m @ y @ q) = Some (p @ y @ m @ x @ q)"
  using assms
proof (induction n arbitrary: x y p m i j rule: less_induct)
  case (less n)
  show ?case
  proof (cases "4 \<le> n")
    case False
    then show ?thesis using exchange_bytes_ok [OF less.prems] and_not_3 [of n]
      by (simp add: exchange_row_def exchange_words.simps)
  next
    case True
    obtain x1 x2 where x: "x = x1 @ x2" "length x1 = 4" using True less.prems(1) by (metis append_take_drop_id length_take min.absorb2)
    obtain y1 y2 where y: "y = y1 @ y2" "length y1 = 4" using True less.prems(2) by (metis append_take_drop_id length_take min.absorb2)
    let ?b = "p @ x @ m @ y @ q"
    have r: "rd4 ?b i = Some x1" "rd4 ?b j = Some y1"
      using rd4_append [of p "length p" x1 "x2 @ m @ y @ q"] rd4_append [of "p @ x @ m" "length (p @ x @ m)" y1 "y2 @ q"] x y
      by (simp_all flip: less.prems(3,4))
    have w1: "wr4 ?b i y1 = Some (p @ y1 @ x2 @ m @ y @ q)"
      using wr4_append [of p "length p" x1 "x2 @ m @ y @ q" y1] x by (simp flip: less.prems(3))
    have w2: "wr4 (p @ y1 @ x2 @ m @ y @ q) j x1 = Some ((p @ y1) @ x2 @ (m @ x1) @ y2 @ q)"
      using wr4_append [of "p @ y1 @ x2 @ m" "length (p @ x @ m)" y1 "y2 @ q" x1] x y by (simp flip: less.prems(4))
    have "exchange_row (i + 4) (j + 4) (int (n - 4)) ((p @ y1) @ x2 @ (m @ x1) @ y2 @ q) = Some ((p @ y1) @ y2 @ (m @ x1) @ x2 @ q)"
      by (rule less.IH) (use True less.prems x y in auto)
    moreover have "exchange_row i j (int n) ?b = exchange_row (i + 4) (j + 4) (int n - 4) ((p @ y1) @ x2 @ (m @ x1) @ y2 @ q)"
      unfolding exchange_row_def
      by (subst exchange_words.simps) (use True and_not_3 [of n] r w1 w2 in simp)
    ultimately show ?thesis using True x y by (simp add: of_nat_diff)
  qed
qed

lemma flip_loop_ok:
  assumes "\<forall>r \<in> set rows. length r = n" "0 < n" "int (length p) = i" "j = i + int n * (int (length rows) - 1)"
  shows "flip_loop (int n) i j (p @ concat rows @ q) = Some (p @ concat (rev rows) @ q)"
  using assms
proof (induction "length rows" arbitrary: rows p q i j rule: less_induct)
  case less
  show ?case
  proof (cases "length rows < 2")
    case True
    then have "rows = [] \<or> (\<exists>r. rows = [r])" by (cases rows; cases "tl rows") auto
    moreover have "int n * (int (length rows) - 1) \<le> 0" using True by (intro mult_nonneg_nonpos) simp_all
    moreover from this have "\<not> i < j" using less.prems(4) by linarith
    ultimately show ?thesis by (subst flip_loop.simps) auto
  next
    case False
    obtain x rest where "rows = x # rest" "rest \<noteq> []" using False by (cases rows; cases "tl rows") auto
    then obtain mid y where rows: "rows = x # mid @ [y]" by (metis append_butlast_last_id)
    have lens: "length x = n" "length y = n" using less.prems(1) rows by auto
    have "\<forall>r \<in> set mid. length r = n" using less.prems(1) rows by simp
    then have "length (concat mid) = n * length mid" by (induction mid) auto
    then have j: "int (length (p @ x @ concat mid)) = j" using less.prems(3,4) lens rows by (simp add: algebra_simps)
    have lt: "i < j" using less.prems(2,4) rows by simp
    have e: "exchange_row i j (int n) (p @ x @ concat mid @ y @ q) = Some (p @ y @ concat mid @ x @ q)"
      by (rule exchange_row_ok [OF lens less.prems(3) j])
    have "flip_loop (int n) (i + int n) (j - int n) ((p @ y) @ concat mid @ (x @ q)) = Some ((p @ y) @ concat (rev mid) @ (x @ q))"
      by (rule less.hyps) (use less.prems rows lens in \<open>auto simp: algebra_simps\<close>)
    then show ?thesis using lt e rows by (subst flip_loop.simps) simp
  qed
qed

lemma flip_rows:
  assumes "\<forall>r \<in> set rows. length r = n" "int n = width * pixelsize" "int (length rows) = height"
    and "0 < width" "0 < pixelsize" "int (n * length rows) < 2 ^ 31"
  shows "pdp_llconv_flip_top_bottom width height pixelsize (concat rows @ rest) = Some (concat (rev rows) @ rest)"
proof (cases "height \<le> 1")
  case True
  then have "rows = [] \<or> (\<exists>r. rows = [r])" using assms(3) by (cases rows; cases "tl rows") auto
  then show ?thesis using True by (auto simp: pdp_llconv_flip_top_bottom_def)
next
  case False
  have n: "0 < n" using assms(2,4,5) by (metis of_nat_0_less_iff zero_less_mult_iff)
  have "n * 1 \<le> n * length rows" "n * (length rows - 1) \<le> n * length rows" using False assms(3) by (intro mult_le_mono2, simp)+
  then have "int n \<le> int (n * length rows)" "int (n * (length rows - 1)) \<le> int (n * length rows)" by (simp_all only: of_nat_le_iff mult_1_right)
  then have w: "wrap32 (int n) = int n" "wrap32 (int (n * (length rows - 1))) = int (n * (length rows - 1))"
    using assms(6) by (intro wrap32_nat; linarith)+
  have "int (length rows - 1) = height - 1" using False assms(3) by linarith
  then have r: "int n * (height - 1) = int (n * (length rows - 1))" by simp
  then have "flip_loop (int n) 0 (int (n * (length rows - 1))) ([] @ concat rows @ rest) = Some ([] @ concat (rev rows) @ rest)"
    by (intro flip_loop_ok [OF assms(1) n]) (simp, simp only: assms(3) r add_0)
  then show ?thesis using False assms(4)
    unfolding pdp_llconv_flip_top_bottom_def Let_def assms(2) [symmetric] w(1) r w(2) by simp
qed

text \<open>
  C23: flipping top and bottom reverses the order of the rows in place, for any size of rows (the words and the single
  bytes of a row together) and any number of rows, odd or even, and leaves what lies behind the picture.
\<close>

theorem flip_top_bottom_reverses_rows:
  assumes "\<forall>r \<in> set rows. length r = n" "int n = width * pixelsize" "int (length rows) = height"
    and "0 < width" "0 < pixelsize" "int (n * length rows) < 2 ^ 31"
  shows "pdp_llconv_flip_top_bottom width height pixelsize (concat rows @ rest) = Some (concat (rev rows) @ rest)"
  by (rule flip_rows [OF assms])

theorem flip_top_bottom_reverses_rows_witness:
  "pdp_llconv_flip_top_bottom 5 3 1 [1, 2, 3, 4, 5, 11, 12, 13, 14, 15, 21, 22, 23, 24, 25, 99] =
     Some [21, 22, 23, 24, 25, 11, 12, 13, 14, 15, 1, 2, 3, 4, 5, 99]"
  using flip_top_bottom_reverses_rows [of "[[1, 2, 3, 4, 5], [11, 12, 13, 14, 15], [21, 22, 23, 24, 25]]" 5 5 1 3 "[99]"] by simp

text \<open>Both flips undo themselves on a plane of pixels.\<close>

lemma pixel_bytes_concat: "concat (map pixel_bytes rows) = pixel_bytes (concat rows)"
proof -
  have "pixel_bytes (xs @ ys) = pixel_bytes xs @ pixel_bytes ys" for xs ys by (induction xs) simp_all
  then show ?thesis by (induction rows) simp_all
qed

theorem flip_tb_process_reverses_rows:
  assumes "\<forall>r \<in> set rows. length r = unat w" "length rows = unat h" "0 < unat w" "unat w < 2 ^ 31" "unat h < 2 ^ 31" "2 * unat w * unat h < 2 ^ 31"
  shows "pdp_imageproc_flip_tb_process w h (concat rows) = Some (concat (rev rows))"
proof -
  have s: "sint w = int (unat w)" "sint h = int (unat h)" using assms(4,5) by (simp_all only: sint_u32)
  have lt: "int (2 * unat w * unat h) < 2 ^ 31" using assms(6) by (metis of_nat_less_iff of_nat_numeral of_nat_power)
  have r: "\<forall>r \<in> set (map pixel_bytes rows). length r = 2 * unat w" using assms(1) by auto
  have n: "int (2 * unat w) = int (unat w) * 2" "int (length (map pixel_bytes rows)) = int (unat h)" using assms(2) by simp_all
  have p: "0 < int (unat w)" "(0 :: int) < 2" "int (2 * unat w * length (map pixel_bytes rows)) < 2 ^ 31"
    using assms(3) lt by (simp_all only: of_nat_0_less_iff length_map assms(2) zero_less_numeral)
  have "pdp_llconv_flip_top_bottom (int (unat w)) (int (unat h)) 2 (concat (map pixel_bytes rows) @ []) = Some (concat (rev (map pixel_bytes rows)) @ [])"
    by (rule flip_rows [OF r n p])
  then show ?thesis
    unfolding pdp_imageproc_flip_tb_process_def s rev_map pixel_bytes_concat append_Nil2
    using pixels_bytes [of "concat (rev rows)" "[]"] by simp
qed

end
