(* ===== verification/BitmapOk.thy ===== *)
theory BitmapOk
  imports Bitmap ImageOk LLConvOk
begin

text \<open>
  Properties of bitmap packets: what the constructors make, references during conversions between images and
  bitmaps, conversions that undo each other, and the conversions and types the code forgets.
\<close>

text \<open>The two writes that every constructor makes to a new packet.\<close>

lemma made_filled:
  fixes i :: t_info and d :: "symbol option" and c :: "nat option"
  assumes "made P R q P1" "pdp_packet_header q P1 = Some h"
  defines "h1 \<equiv> h\<lparr>info := i\<rparr>" and "P2 \<equiv> set_packet q (Some (h\<lparr>info := i\<rparr>)) P1"
    and "h2 \<equiv> h\<lparr>info := i, desc := d, theclass := c\<rparr>"
  shows "made P R q P2" "pdp_packet_header q P2 = Some h1" "made P R q (set_packet q (Some h2) P2)"
    "pdp_packet_header q (set_packet q (Some h2) P2) = Some h2"
    "\<And>x. x \<noteq> q \<Longrightarrow> pdp_packet_header x (set_packet q (Some h2) P2) = pdp_packet_header x P1"
proof -
  note v = header_valid [OF assms(2)]
  show P2: "made P R q P2" "pdp_packet_header q P2 = Some h1"
    using made_write [OF assms(1,2), of h1] v by (simp_all add: h1_def P2_def header_set_packet)
  note v2 = header_valid [OF P2(2)]
  show "made P R q (set_packet q (Some h2) P2)"
    using made_write [OF P2, of h2] by (simp add: h1_def h2_def)
  show "pdp_packet_header q (set_packet q (Some h2) P2) = Some h2"
    "\<And>x. x \<noteq> q \<Longrightarrow> pdp_packet_header x (set_packet q (Some h2) P2) = pdp_packet_header x P1"
    using v v2 by (simp_all add: P2_def header_set_packet)
qed

section \<open>New bitmaps\<close>

definition bitmap_desc :: "t_bitmap \<Rightarrow> symbol" where
  "bitmap_desc b =
     ''bitmap/'' @
     (if b_encoding b = PDP_BITMAP_RGB then ''rgb''
      else if b_encoding b = PDP_BITMAP_RGBA then ''rgba''
      else if b_encoding b = PDP_BITMAP_GREY then ''grey''
      else if b_encoding b = PDP_BITMAP_YV12 then ''yv12'' else ''i420'') @
     ''/'' @ fmt_d (b_width b) @ ''x'' @ fmt_d (b_height b)"

definition bitmap_bytes :: "t_bitmap \<Rightarrow> nat" where
  "bitmap_bytes b =
     (let n = unat (b_width b) * unat (b_height b) in
      if b_encoding b = PDP_BITMAP_RGB then 3 * n
      else if b_encoding b = PDP_BITMAP_RGBA then 4 * n
      else if b_encoding b = PDP_BITMAP_GREY then n
      else n + n div 2)"

text \<open>A bitmap the constructors can make: with the header its data stay below 2 GB, as \<open>pdp_alloc\<close> takes an \<open>int\<close>.\<close>

definition bitmap_legal :: "t_bitmap \<Rightarrow> bool" where
  "bitmap_legal b \<longleftrightarrow>
     b_encoding b \<in> {PDP_BITMAP_RGB, PDP_BITMAP_RGBA, PDP_BITMAP_GREY, PDP_BITMAP_YV12, PDP_BITMAP_I420} \<and>
     unat (b_width b) < 2 ^ 31 \<and> unat (b_height b) < 2 ^ 31 \<and> bitmap_bytes b + 256 < 2 ^ 31 \<and> b_bpp b = 0"

text \<open>A packet made for the caller, with everything a client can see of it.\<close>

definition is_packet ::
  "u32 \<Rightarrow> t_info \<Rightarrow> symbol \<Rightarrow> nat option \<Rightarrow> u8 list \<Rightarrow> pool \<Rightarrow> int multiset \<Rightarrow> int \<Rightarrow> pool \<Rightarrow> bool" where
  "is_packet ty i ds c d P R q P' \<longleftrightarrow> fresh P R q P' \<and> data_ok P' \<and>
     (\<exists>g. pdp_packet_header q P' = Some g \<and> ptype g = ty \<and> info g = i \<and> desc g = Some ds \<and> theclass g = c \<and> pdata g = d)"

abbreviation is_bitmap :: "t_bitmap \<Rightarrow> nat option \<Rightarrow> u8 list \<Rightarrow> pool \<Rightarrow> int multiset \<Rightarrow> int \<Rightarrow> pool \<Rightarrow> bool" where
  "is_bitmap b c d P R q P' \<equiv> is_packet PDP_BITMAP (Bitmap b) (bitmap_desc b) c d P R q P'"

lemma data_ok_cong:
  assumes "data_ok P" "\<And>x. x \<noteq> q \<Longrightarrow> pdp_packet_header x P' = pdp_packet_header x P"
    and "pdp_packet_header q P' = Some h" "length (pdata h) = unat (psize h - of_nat PDP_HEADER_SIZE)"
  shows "data_ok P'"
  using assms unfolding data_ok_def by (metis option.inject)

lemma is_packet_write:
  assumes "is_packet ty i ds c d P R q P1" "f d = Some d'" "length d' = length d"
  shows "\<exists>P2. on_bytes q 0 f P1 = Some P2 \<and> is_packet ty i ds c d' P R q P2"
proof -
  from assms(1) obtain g where g: "fresh P R q P1" "data_ok P1" "pdp_packet_header q P1 = Some g" "ptype g = ty" "info g = i"
      "desc g = Some ds" "theclass g = c" "pdata g = d" by (auto simp: is_packet_def)
  let ?P = "set_packet q (Some (g\<lparr>pdata := d'\<rparr>)) P1"
  have "on_bytes q 0 f P1 = Some ?P" using g(3,8) assms(2) by (simp add: on_bytes_def)
  moreover have "pdp_packet_header q ?P = Some (g\<lparr>pdata := d'\<rparr>)"
    using header_valid [OF g(3)] by (simp add: header_set_packet)
  ultimately show ?thesis
    using fresh_data [OF g(1,3), of d'] data_ok_write [OF g(2,3), of d'] assms(3) g by (simp add: is_packet_def)
qed

lemma make_then_packet:
  assumes "m = Some (q, P1)" "is_packet ty i ds c d P R q P1" "f d = Some d'" "length d' = length d"
  shows "\<exists>P2. make_then m (\<lambda>p. on_bytes p 0 f) = Some (q, P2) \<and> is_packet ty i ds c d' P R q P2"
proof -
  have "q \<noteq> -1" using assms(2) by (auto simp: is_packet_def)
  with is_packet_write [where f = f, OF assms(2-4)] assms(1) show ?thesis by (auto simp: make_then_def)
qed

lemma bitmap_description_fresh:
  "pdp_packet_header p P = Some h \<Longrightarrow> desc h = None \<Longrightarrow> ptype h = PDP_BITMAP \<Longrightarrow> info h = Bitmap b \<Longrightarrow>
    b_encoding b \<in> {PDP_BITMAP_RGB, PDP_BITMAP_RGBA, PDP_BITMAP_GREY, PDP_BITMAP_YV12, PDP_BITMAP_I420} \<Longrightarrow>
    pdp_packet_bitmap_get_description p P = bitmap_desc b"
  by (auto simp: pdp_packet_bitmap_get_description_def bitmap_desc_def Let_def)

text \<open>
  A new packet of a known kind: \<open>-1\<close> with every held packet as it was, or a packet made for the caller.
\<close>

definition packet_made :: "u32 \<Rightarrow> t_info \<Rightarrow> symbol \<Rightarrow> nat option \<Rightarrow> pool \<Rightarrow> int multiset \<Rightarrow> int \<Rightarrow> pool \<Rightarrow> bool" where
  "packet_made ty i ds c P R q P' \<longleftrightarrow>
     (if q = -1 then kept P R P'
      else made P R q P' \<and> (\<exists>g. pdp_packet_header q P' = Some g \<and> ptype g = ty \<and> info g = i \<and> desc g = Some ds \<and> theclass g = c))"

lemma packet_made_converted: "packet_made ty i ds c P R q P' \<Longrightarrow> converted P R q P'"
  by (auto simp: packet_made_def converted_def)

lemma new_bitmap_packet_made:
  assumes inv: "pool_inv P R" "size R < 2 ^ 32 - 1" and r: "new_bitmap_packet E bc sz enc w h P = Some (q, P')"
    and b: "b = \<lparr>b_encoding = enc, b_width = w, b_height = h, b_bpp = 0\<rparr>"
      "enc \<in> {PDP_BITMAP_RGB, PDP_BITMAP_RGBA, PDP_BITMAP_GREY, PDP_BITMAP_YV12, PDP_BITMAP_I420}"
  shows "packet_made PDP_BITMAP (Bitmap b) (bitmap_desc b) bc P R q P'"
    and "q \<noteq> -1 \<Longrightarrow> data_ok P \<Longrightarrow> malloc_fits E \<Longrightarrow> unat sz + 256 < 2 ^ 32 \<Longrightarrow> \<exists>d. is_bitmap b bc d P R q P' \<and> length d = unat sz"
proof -
  from r obtain n P1 where n: "pdp_packet_new E PDP_BITMAP sz P = Some (n, P1)"
    by (auto simp: new_bitmap_packet_def bind_eq_Some_conv)
  note dl = new_ok [OF inv n]
  have "packet_made PDP_BITMAP (Bitmap b) (bitmap_desc b) bc P R q P' \<and>
    (q \<noteq> -1 \<longrightarrow> data_ok P \<longrightarrow> malloc_fits E \<longrightarrow> unat sz + 256 < 2 ^ 32 \<longrightarrow> (\<exists>d. is_bitmap b bc d P R q P' \<and> length d = unat sz))"
  proof (cases "n = -1")
    case True
    then have "q = -1" "P' = P1" using r n by (simp_all add: new_bitmap_packet_def pdp_packet_header_def)
    with True dl show ?thesis by (simp add: packet_made_def)
  next
    case False
    with dl have m: "made P R n P1" by simp
    from new_blank [OF inv n False] obtain g where
      g: "pdp_packet_header n P1 = Some g" "blank PDP_BITMAP sz g"
        "\<And>x. x \<noteq> n \<Longrightarrow> pdp_packet_header x P1 = pdp_packet_header x P"
        "data_ok P \<Longrightarrow> malloc_fits E \<Longrightarrow> unat sz + 256 < 2 ^ 32 \<Longrightarrow> length (pdata g) = unat sz" by blast
    note F2 = made_filled(2) [OF m g(1), of "Bitmap b"]
      and F = made_filled(3-5) [OF m g(1), where i = "Bitmap b" and d = "Some (bitmap_desc b)" and c = bc]
    let ?P2 = "set_packet n (Some (g\<lparr>info := Bitmap b\<rparr>)) P1"
    let ?g = "g\<lparr>info := Bitmap b, desc := Some (bitmap_desc b), theclass := bc\<rparr>"
    let ?P3 = "set_packet n (Some ?g) ?P2"
    have s: "set_bitmap n (\<lambda>b. b\<lparr>b_encoding := enc, b_width := w, b_height := h\<rparr>) P1 = ?P2"
      using g(1,2) b(1) by (simp add: set_bitmap_def blank_def)
    have "pdp_packet_bitmap_get_description n ?P2 = bitmap_desc b"
      by (rule bitmap_description_fresh [OF F2]) (use g(2) b in \<open>simp_all add: blank_def\<close>)
    then have "new_bitmap_packet E bc sz enc w h P = Some (n, ?P3)"
      using n g(1) s F2 by (simp add: new_bitmap_packet_def Let_def)
    then have q: "q = n" "P' = ?P3" using r by simp_all
    have ty: "ptype g = PDP_BITMAP" using g(2) by (simp add: blank_def)
    have "is_bitmap b bc (pdata g) P R n ?P3" if "data_ok P" "length (pdata g) = unat sz"
    proof -
      have "data_ok ?P3" by (rule data_ok_cong [OF that(1) _ F(2)]) (use F(3) g(2,3) that(2) in \<open>simp_all add: blank_def\<close>)
      then show ?thesis using F(1,2) ty by (simp add: is_packet_def fresh_def)
    qed
    moreover have "packet_made PDP_BITMAP (Bitmap b) (bitmap_desc b) bc P R n ?P3"
      using False F(1,2) ty by (simp add: packet_made_def)
    ultimately show ?thesis unfolding q using g(4) by blast
  qed
  then show "packet_made PDP_BITMAP (Bitmap b) (bitmap_desc b) bc P R q P'"
    and "q \<noteq> -1 \<Longrightarrow> data_ok P \<Longrightarrow> malloc_fits E \<Longrightarrow> unat sz + 256 < 2 ^ 32 \<Longrightarrow> \<exists>d. is_bitmap b bc d P R q P' \<and> length d = unat sz"
    by blast+
qed

lemma new_bitmap_packet_returns:
  assumes "pool_inv P R" "size R < 2 ^ 32 - 1" "malloc_fits E" "unat sz + 256 < 2 ^ 32"
  shows "\<exists>q P'. new_bitmap_packet E bc sz enc w h P = Some (q, P')"
    and "malloc_ok E \<Longrightarrow> unat sz + 256 < 2 ^ 31 \<Longrightarrow> \<exists>q P'. new_bitmap_packet E bc sz enc w h P = Some (q, P') \<and> q \<noteq> -1"
proof -
  have go: "\<exists>q P2. new_bitmap_packet E bc sz enc w h P = Some (q, P2) \<and> (pdp_packet_header n P1 \<noteq> None \<longrightarrow> q = n)"
    if n: "pdp_packet_new E PDP_BITMAP sz P = Some (n, P1)" for n P1
  proof (cases "pdp_packet_header n P1")
    case None
    with n show ?thesis by (simp add: new_bitmap_packet_def)
  next
    case (Some g)
    then have "pdp_packet_header n (set_packet n (Some (g\<lparr>info := i\<rparr>)) P1) \<noteq> None" for i
      using header_valid [OF Some] by (simp add: header_set_packet)
    then obtain k where "pdp_packet_header n (set_bitmap n (\<lambda>b. b\<lparr>b_encoding := enc, b_width := w, b_height := h\<rparr>) P1) = Some k"
      using Some by (auto simp: set_bitmap_def)
    with n Some show ?thesis by (simp add: new_bitmap_packet_def Let_def)
  qed
  from new_defined [OF assms, of PDP_BITMAP] go show "\<exists>q P'. new_bitmap_packet E bc sz enc w h P = Some (q, P')" by blast
  assume "malloc_ok E" "unat sz + 256 < 2 ^ 31"
  from new_succeeds [OF assms(1,2) this, of PDP_BITMAP] obtain n P1 where
    n: "pdp_packet_new E PDP_BITMAP sz P = Some (n, P1)" "made P R n P1" by blast
  then have "n \<noteq> -1" "pdp_packet_header n P1 \<noteq> None" by (auto simp: made_def pdp_packet_writable_def split: option.splits)
  with go [OF n(1)] show "\<exists>q P'. new_bitmap_packet E bc sz enc w h P = Some (q, P') \<and> q \<noteq> -1" by auto
qed

lemma new_bitmap_packet_ok:
  assumes "pool_inv P R" "size R < 2 ^ 32 - 1" "data_ok P" "malloc_ok E" "unat sz + 256 < 2 ^ 31"
    and b: "b = \<lparr>b_encoding = enc, b_width = w, b_height = h, b_bpp = 0\<rparr>"
      "enc \<in> {PDP_BITMAP_RGB, PDP_BITMAP_RGBA, PDP_BITMAP_GREY, PDP_BITMAP_YV12, PDP_BITMAP_I420}"
  shows "\<exists>q P' d. new_bitmap_packet E bc sz enc w h P = Some (q, P') \<and> is_bitmap b bc d P R q P' \<and> length d = unat sz"
proof -
  have sz: "unat sz + 256 < 2 ^ 32" using assms(5) by simp
  from new_bitmap_packet_returns(2) [OF assms(1,2) malloc_ok_fits [OF assms(4)] sz assms(4,5)] obtain q P' where
    r: "new_bitmap_packet E bc sz enc w h P = Some (q, P')" "q \<noteq> -1" by blast
  from new_bitmap_packet_made(2) [OF assms(1,2) r(1) b r(2) assms(3) malloc_ok_fits [OF assms(4)] sz] r(1) show ?thesis by blast
qed

lemmas bitmap_encodings = PDP_BITMAP_RGB_def PDP_BITMAP_RGBA_def PDP_BITMAP_GREY_def PDP_BITMAP_YV12_def PDP_BITMAP_I420_def

lemma bitmap_sizes:
  assumes "unat w * unat h < 2 ^ 32"
  shows "unat (w * h :: u32) = unat w * unat h"
    and "unat w * unat h + unat w * unat h div 2 < 2 ^ 32 \<Longrightarrow> unat (w * h + drop_bit 1 (w * h) :: u32) = unat w * unat h + unat w * unat h div 2"
    and "3 * (unat w * unat h) < 2 ^ 32 \<Longrightarrow> unat (w * h * 3 :: u32) = 3 * (unat w * unat h)"
    and "4 * (unat w * unat h) < 2 ^ 32 \<Longrightarrow> unat (w * h * 4 :: u32) = 4 * (unat w * unat h)"
proof -
  show wh: "unat (w * h) = unat w * unat h" by (rule unat_mult_u32 [OF assms])
  then have "unat (drop_bit 1 (w * h)) = unat w * unat h div 2" unfolding unat_drop_bit_eq by (simp add: drop_bit_eq_div)
  then show "unat w * unat h + unat w * unat h div 2 < 2 ^ 32 \<Longrightarrow> unat (w * h + drop_bit 1 (w * h)) = unat w * unat h + unat w * unat h div 2"
    using wh by (simp add: unat_plus_if_size word_size)
  show "3 * (unat w * unat h) < 2 ^ 32 \<Longrightarrow> unat (w * h * 3) = 3 * (unat w * unat h)"
    using unat_mult_u32 [of "w * h" 3] wh by simp
  show "4 * (unat w * unat h) < 2 ^ 32 \<Longrightarrow> unat (w * h * 4) = 4 * (unat w * unat h)"
    using unat_mult_u32 [of "w * h" 4] wh by simp
qed

lemma legal_area:
  assumes "bitmap_legal b"
  shows "unat (b_width b) * unat (b_height b) < 2 ^ 32"
proof -
  have "unat (b_width b) * unat (b_height b) \<le> bitmap_bytes b" by (simp add: bitmap_bytes_def Let_def)
  then show ?thesis using assms by (simp add: bitmap_legal_def)
qed

text \<open>Turning a \<open>yv12\<close> packet into one of type \<open>i420\<close>.\<close>

lemma i420_ok:
  assumes "is_bitmap b bc d P R q P1" "pdp_packet_new_bitmap_yv12 E bc w h P = Some (q, P1)" "b_encoding b = PDP_BITMAP_YV12"
  shows "\<exists>P2. pdp_packet_new_bitmap_i420 E bc w h P = Some (q, P2) \<and> is_bitmap (b\<lparr>b_encoding := PDP_BITMAP_I420\<rparr>) bc d P R q P2"
proof -
  let ?b = "b\<lparr>b_encoding := PDP_BITMAP_I420\<rparr>"
  from assms(1) obtain g where g: "fresh P R q P1" "data_ok P1" "pdp_packet_header q P1 = Some g" "ptype g = PDP_BITMAP" "info g = Bitmap b"
      "theclass g = bc" "pdata g = d" by (auto simp: is_packet_def)
  note v = header_valid [OF g(3)]
  let ?g1 = "g\<lparr>info := Bitmap ?b\<rparr>" and ?g2 = "g\<lparr>info := Bitmap ?b, desc := None\<rparr>" and ?g3 = "g\<lparr>info := Bitmap ?b, desc := Some (bitmap_desc ?b)\<rparr>"
  let ?P1 = "set_packet q (Some ?g1) P1" let ?P2 = "set_packet q (Some ?g2) ?P1" let ?P3 = "set_packet q (Some ?g3) ?P2"
  have H: "pdp_packet_header q ?P1 = Some ?g1" "pdp_packet_header q ?P2 = Some ?g2" "pdp_packet_header q ?P3 = Some ?g3"
    "x \<noteq> q \<Longrightarrow> pdp_packet_header x ?P3 = pdp_packet_header x P1" for x
    using v by (simp_all add: header_set_packet)
  have m: "made P R q ?P1" using made_write [OF _ g(3), of P R ?g1] g(1) by (simp add: fresh_def)
  have "made P R q ?P2" using made_write [OF m H(1), of ?g2] by simp
  then have m3: "made P R q ?P3" using made_write [OF _ H(2), of P R ?g3] by simp
  have "pdp_packet_bitmap_get_description q ?P2 = bitmap_desc ?b"
    by (rule bitmap_description_fresh [OF H(2)]) (use g(4) in simp_all)
  moreover have "q \<noteq> -1" using g(1) by auto
  ultimately have "pdp_packet_new_bitmap_i420 E bc w h P = Some (q, ?P3)"
    unfolding pdp_packet_new_bitmap_i420_def using assms(2) g(3,5) H(1) by (simp add: set_bitmap_def Let_def)
  moreover have "data_ok ?P3"
    by (rule data_ok_cong [OF g(2) H(4) H(3)]) (use g(2,3) in \<open>auto simp: data_ok_def\<close>)
  ultimately show ?thesis using m3 H(3) g(4,6,7) by (intro exI [of _ ?P3]) (simp add: is_packet_def fresh_def)
qed

theorem new_bitmap_ok:
  assumes "pool_inv P R" "size R < 2 ^ 32 - 1" "data_ok P" "malloc_ok E" "bitmap_legal b"
  shows "\<exists>q P' d. pdp_packet_new_bitmap E bc (b_encoding b) (b_width b) (b_height b) P = Some (q, P') \<and>
    is_bitmap b bc d P R q P' \<and> length d = bitmap_bytes b"
proof -
  let ?w = "b_width b" and ?h = "b_height b"
  note legal = assms(5) [unfolded bitmap_legal_def] and sizes = bitmap_sizes [OF legal_area [OF assms(5)]]
  have b: "b = \<lparr>b_encoding = b_encoding b, b_width = ?w, b_height = ?h, b_bpp = 0\<rparr>" using legal by simp
  have go: "\<exists>q P' d. new_bitmap_packet E bc sz enc ?w ?h P = Some (q, P') \<and> is_bitmap b bc d P R q P' \<and> length d = bitmap_bytes b"
    if "enc = b_encoding b" "unat sz = bitmap_bytes b" for sz enc
    using new_bitmap_packet_ok [OF assms(1-4) _ b [folded that(1)], of sz bc] legal that by auto
  have yv: "\<exists>q P' d. pdp_packet_new_bitmap_yv12 E bc ?w ?h P = Some (q, P') \<and>
      is_bitmap (b\<lparr>b_encoding := PDP_BITMAP_YV12\<rparr>) bc d P R q P' \<and> length d = bitmap_bytes b"
    if "b_encoding b = PDP_BITMAP_YV12 \<or> b_encoding b = PDP_BITMAP_I420"
  proof -
    have e: "bitmap_bytes b = unat ?w * unat ?h + unat ?w * unat ?h div 2" using that by (auto simp: bitmap_bytes_def Let_def bitmap_encodings)
    have "\<exists>q P' d. new_bitmap_packet E bc (?w * ?h + drop_bit 1 (?w * ?h)) PDP_BITMAP_YV12 ?w ?h P = Some (q, P') \<and>
        is_bitmap (b\<lparr>b_encoding := PDP_BITMAP_YV12\<rparr>) bc d P R q P' \<and> length d = unat (?w * ?h + drop_bit 1 (?w * ?h))"
      by (rule new_bitmap_packet_ok [OF assms(1-4)]) (use legal e sizes(2) in simp_all)
    then show ?thesis unfolding pdp_packet_new_bitmap_yv12_def Let_def using legal e sizes(2) by simp
  qed
  consider "b_encoding b = PDP_BITMAP_GREY" | "b_encoding b = PDP_BITMAP_RGB" | "b_encoding b = PDP_BITMAP_RGBA"
    | "b_encoding b = PDP_BITMAP_YV12" | "b_encoding b = PDP_BITMAP_I420" using legal by blast
  then show ?thesis
  proof cases
    case 1
    then show ?thesis using go [OF 1 [symmetric], of "?w * ?h"] sizes(1)
      by (simp add: pdp_packet_new_bitmap_def pdp_packet_new_bitmap_grey_def Let_def bitmap_encodings bitmap_bytes_def)
  next
    case 2
    then have e: "bitmap_bytes b = 3 * (unat ?w * unat ?h)" by (simp add: bitmap_bytes_def bitmap_encodings Let_def)
    then have "3 * (unat ?w * unat ?h) < 2 ^ 32" using legal by simp
    then have "unat (?w * ?h * 3) = bitmap_bytes b" unfolding e by (rule sizes(3))
    from go [OF 2 [symmetric] this] show ?thesis
      using 2 by (simp add: pdp_packet_new_bitmap_def pdp_packet_new_bitmap_rgb_def Let_def bitmap_encodings)
  next
    case 3
    then have e: "bitmap_bytes b = 4 * (unat ?w * unat ?h)" by (simp add: bitmap_bytes_def bitmap_encodings Let_def)
    then have "4 * (unat ?w * unat ?h) < 2 ^ 32" using legal by simp
    then have "unat (?w * ?h * 4) = bitmap_bytes b" unfolding e by (rule sizes(4))
    from go [OF 3 [symmetric] this] show ?thesis
      using 3 by (simp add: pdp_packet_new_bitmap_def pdp_packet_new_bitmap_rgba_def Let_def bitmap_encodings)
  next
    case 4
    then have e: "b\<lparr>b_encoding := PDP_BITMAP_YV12\<rparr> = b" by simp
    show ?thesis using yv [OF disjI1 [OF 4]] unfolding e unfolding 4 by (simp add: pdp_packet_new_bitmap_def bitmap_encodings)
  next
    case 5
    with yv obtain q P1 d where y: "pdp_packet_new_bitmap_yv12 E bc ?w ?h P = Some (q, P1)"
      "is_bitmap (b\<lparr>b_encoding := PDP_BITMAP_YV12\<rparr>) bc d P R q P1" "length d = bitmap_bytes b" by blast
    have e: "b\<lparr>b_encoding := PDP_BITMAP_YV12\<rparr>\<lparr>b_encoding := PDP_BITMAP_I420\<rparr> = b" using 5 by simp
    from i420_ok [OF y(2,1)] obtain P2 where P2: "pdp_packet_new_bitmap_i420 E bc ?w ?h P = Some (q, P2)"
      "is_bitmap b bc d P R q P2" unfolding e by auto
    moreover have "pdp_packet_new_bitmap E bc (b_encoding b) ?w ?h P = pdp_packet_new_bitmap_i420 E bc ?w ?h P"
      unfolding 5 by (simp add: pdp_packet_new_bitmap_def bitmap_encodings)
    ultimately show ?thesis using y(3) by auto
  qed
qed

section \<open>References\<close>

lemma new_bitmap_packet_converted:
  assumes "pool_inv P R" "size R < 2 ^ 32 - 1" "new_bitmap_packet E bc sz enc w h P = Some (q, P')"
    and "enc \<in> {PDP_BITMAP_RGB, PDP_BITMAP_RGBA, PDP_BITMAP_GREY, PDP_BITMAP_YV12, PDP_BITMAP_I420}"
  shows "converted P R q P'"
  using new_bitmap_packet_made(1) [OF assms(1-3) refl assms(4)] by (rule packet_made_converted)

lemma i420_converted:
  assumes "pool_inv P R" "size R < 2 ^ 32 - 1" "pdp_packet_new_bitmap_i420 E bc w h P = Some (q, P')"
  shows "converted P R q P'"
proof -
  from assms(3) obtain p P1 where n: "pdp_packet_new_bitmap_yv12 E bc w h P = Some (p, P1)"
    by (auto simp: pdp_packet_new_bitmap_i420_def bind_eq_Some_conv)
  then have c: "converted P R p P1"
    using new_bitmap_packet_converted [OF assms(1,2)] by (auto simp: pdp_packet_new_bitmap_yv12_def Let_def)
  show ?thesis
  proof (cases "p = -1")
    case True
    with assms(3) n c show ?thesis by (simp add: pdp_packet_new_bitmap_i420_def)
  next
    case False
    with c obtain g where g: "made P R p P1" "pdp_packet_header p P1 = Some g" by (auto simp: converted_def)
    note F = made_filled [OF g]
    have w: "made P R p (set_packet p (Some b) (set_packet p (Some a) P2)) \<and> pdp_packet_header p (set_packet p (Some b) (set_packet p (Some a) P2)) = Some b"
      if "made P R p P2" "pdp_packet_header p P2 = Some k" "users a = users k" "users b = users k" for P2 k a b
    proof -
      have "made P R p (set_packet p (Some a) P2)" "pdp_packet_header p (set_packet p (Some a) P2) = Some a"
        using made_write [OF that(1-3)] header_valid [OF that(2)] by (simp_all add: header_set_packet)
      then show ?thesis
        using made_write [of P R p "set_packet p (Some a) P2" a b] header_valid [of p "set_packet p (Some a) P2" a] that(3,4)
        by (simp add: header_set_packet)
    qed
    have "fresh P R q P'"
      using assms(3) n g False F(1,2) w [OF F(1,2)] unfolding pdp_packet_new_bitmap_i420_def
      by (fastforce simp: set_bitmap_def Let_def fresh_def)
    then show ?thesis by (rule fresh_converted)
  qed
qed

lemma bitmap_constructors_converted:
  assumes "pool_inv P R" "size R < 2 ^ 32 - 1"
  shows "pdp_packet_new_bitmap_yv12 E bc w h P = Some (q, P') \<Longrightarrow> converted P R q P'"
    and "pdp_packet_new_bitmap_grey E bc w h P = Some (q, P') \<Longrightarrow> converted P R q P'"
    and "pdp_packet_new_bitmap_rgb E bc w h P = Some (q, P') \<Longrightarrow> converted P R q P'"
    and "pdp_packet_new_bitmap_rgba E bc w h P = Some (q, P') \<Longrightarrow> converted P R q P'"
  unfolding pdp_packet_new_bitmap_yv12_def pdp_packet_new_bitmap_grey_def pdp_packet_new_bitmap_rgb_def
    pdp_packet_new_bitmap_rgba_def Let_def
  by (erule new_bitmap_packet_converted [OF assms], simp)+

lemma new_bitmap_converted:
  assumes "pool_inv P R" "size R < 2 ^ 32 - 1" "pdp_packet_new_bitmap E bc type w h P = Some (q, P')"
  shows "converted P R q P'"
  using assms(3) bitmap_constructors_converted [OF assms(1,2)] i420_converted [OF assms(1,2)] kept_is_converted [OF assms(1)]
  by (auto simp: pdp_packet_new_bitmap_def split: if_splits)

text \<open>\<open>yields\<close> with the contract of conversions, and its rules for the steps of the bitmap conversions.\<close>

lemma yields_none: "pool_inv P R \<Longrightarrow> yields (handed_out P R) (Some (-1, P))"
  by (simp add: yields_def handed_out_def kept_is_converted)

lemma yields_fresh: "fresh P R q P' \<Longrightarrow> yields (handed_out P R) (Some (q, P'))"
  by (simp add: yields_def handed_out_def fresh_converted)

lemma yields_if: "(c \<Longrightarrow> yields Q a) \<Longrightarrow> (\<not> c \<Longrightarrow> yields Q b) \<Longrightarrow> yields Q (if c then a else b)"
  by simp

lemma yields_make:
  assumes m: "\<And>q P1. m = Some (q, P1) \<Longrightarrow> converted P R q P1"
    and f: "\<And>q P1 P2. fresh P R q P1 \<Longrightarrow> f q P1 = Some P2 \<Longrightarrow> fresh P R q P2"
  shows "yields (handed_out P R) (make_then m f)"
  unfolding yields_def make_then_def
proof (intro allI impI)
  fix r assume "do { (new_p, P) \<leftarrow> m; if new_p = -1 then Some (-1, P) else do { P \<leftarrow> f new_p P; Some (new_p, P) } } = Some r"
  then obtain q P1 where m1: "m = Some (q, P1)"
    and r: "(if q = -1 then Some (-1, P1) else do { P \<leftarrow> f q P1; Some (q, P) }) = Some r" by (auto simp: bind_eq_Some_conv)
  note c = m [OF m1]
  show "handed_out P R r"
  proof (cases "q = -1")
    case True
    with r c show ?thesis by (auto simp: handed_out_def)
  next
    case False
    with r obtain P2 where P2: "f q P1 = Some P2" "r = (q, P2)" by (auto simp: bind_eq_Some_conv)
    from c False have "fresh P R q P1" by (simp add: converted_def fresh_def)
    from f [OF this P2(1)] show ?thesis by (simp add: P2(2) handed_out_def fresh_converted)
  qed
qed

lemma yields_release:
  assumes "methods_ok E" "pool_inv P R" "fresh P R q P1"
  shows "yields (handed_out P R) (do { P \<leftarrow> pdp_packet_mark_unused E q P1; Some (-1, P) })"
proof -
  have "q \<noteq> -1" using assms(3) by auto
  moreover have c: "converted P R q P1" by (rule fresh_converted [OF assms(3)])
  moreover have "converted P1 (with_ref q R) (-1) P1" by (rule kept_is_converted [OF converted_inv [OF c]])
  ultimately obtain P3 where "pdp_packet_mark_unused E q P1 = Some P3" "converted P R (-1) P3"
    using release_intermediate [OF assms(1)] by blast
  then show ?thesis by (simp add: yields_def handed_out_def)
qed

lemma yields_write: "fresh P R q P1 \<Longrightarrow> yields (handed_out P R) (do { P \<leftarrow> on_bytes q off f P1; Some (q, P) })"
  by (rule yields_bytes, assumption) (rule yields_fresh)

lemma bitmap_conversion_yields:
  assumes "methods_ok E" and inv: "pool_inv P R" "size R < 2 ^ 32 - 1"
  shows "yields (handed_out P R) (bitmap_conversion E ic bc m p d P)"
proof -
  note none = yields_none [OF inv(1)]
  note bm = bitmap_constructors_converted [OF inv] and im = constructors_converted [OF inv]
  have grey: "yields (handed_out P R) (make_then (pdp_packet_new_bitmap_grey E bc w h P) (\<lambda>p. on_bytes p 0 f))"
    and rgb: "yields (handed_out P R) (make_then (pdp_packet_new_bitmap_rgb E bc w h P) (\<lambda>p. on_bytes p 0 f))"
    and rgba: "yields (handed_out P R) (make_then (pdp_packet_new_bitmap_rgba E bc w h P) (\<lambda>p. on_bytes p 0 f))"
    and yv12: "yields (handed_out P R) (make_then (pdp_packet_new_bitmap_yv12 E bc w h P) (\<lambda>p. on_bytes p 0 f))"
    and YCrCb: "yields (handed_out P R) (make_then (pdp_packet_new_image_YCrCb E ic w h P) (\<lambda>p. on_bytes p 0 f))"
    and igrey: "yields (handed_out P R) (make_then (pdp_packet_new_image_grey E ic w h P) (\<lambda>p. on_bytes p 0 f))"
    for w h f
    by (rule yields_make, (erule bm im)+, erule fresh_on_bytes, assumption)+
  have mchp: "yields (handed_out P R) (make_then (pdp_packet_new_image_mchp E ic w h 3 P) (\<lambda>p. on_pixels p 0 f))" for w h f
    by (rule yields_make, erule im, erule fresh_on_pixels, assumption)
  have swap: "yields (handed_out P R) (make_then (pdp_packet_new_bitmap E bc t w h P) (\<lambda>p P. do { in_d \<leftarrow> g P; P \<leftarrow> on_bytes p 0 (f1 in_d) P;
      if c then None else do { P \<leftarrow> on_bytes p o2 (f2 in_d) P; on_bytes p o3 (f3 in_d) P } }))" for t w h g f1 c o2 f2 o3 f3
    by (rule yields_make, erule new_bitmap_converted [OF inv])
      (auto simp: bind_eq_Some_conv split: if_splits, (drule (1) fresh_on_bytes)+)
  have to_yv12: "yields (handed_out P R) (bitmap_convert_image_to_yv12 E bc p d P)"
    unfolding bitmap_convert_image_to_yv12_def Let_def
    by (rule yields_read, rule yields_if, rule none, rule yields_read, rule yields_new, erule bm, rule yields_Some, erule handed_out_pair(2), rule yields_if, erule yields_write,
        rule yields_if, erule yields_bytes, erule yields_write, erule yields_release [OF assms(1,2)])
  show ?thesis
    unfolding bitmap_conversion_def bitmap_convert_grey_to_grey8_def bitmap_convert_grey8_to_grey_def bitmap_convert_YCrCb_to_rgb8_def
      bitmap_convert_yv12_to_image_def bitmap_convert_rgb8_to_YCrCb_def bitmap_convert_rgb8_to_mchp_def bitmap_convert_mchp_to_rgb8_def
      bitmap_convert_yv12_tofrom_i420_def bitmap_convert_rgb8_to_rgba8_def bitmap_convert_rgba8_to_rgb8_def
      bitmap_convert_rgb8_to_bitmap_YCrCb_def bitmap_convert_fallback_def Let_def
    by (intro yields_if yields_read none grey rgb rgba yv12 YCrCb igrey mchp swap to_yv12)
qed

text \<open>All conversion methods of images and bitmaps together, as the registry calls them.\<close>

definition pdp_conv_method :: "methods \<Rightarrow> nat option \<Rightarrow> nat option \<Rightarrow> conv_method" where
  "pdp_conv_method E ic bc m p d P = (if m \<le> 7 then image_conversion E ic m p d P else bitmap_conversion E ic bc m p d P)"

lemma pdp_conv_ok: "methods_ok E \<Longrightarrow> conv_ok (pdp_conv_method E ic bc)"
  unfolding conv_ok_def
proof (intro allI impI)
  fix m p d P R q P'
  assume a: "methods_ok E" "pool_inv P R" "size R < 2 ^ 32 - 1" "pdp_conv_method E ic bc m p d P = Some (q, P')"
  show "converted P R q P'"
    using a(4) image_conversion_converted [OF a(2,3), of E ic m p d q P'] bitmap_conversion_yields [OF a(1-3), of ic bc m p d]
    by (auto simp: pdp_conv_method_def yields_def handed_out_def split: if_splits)
qed

lemma bitmap_setup_ok:
  assumes "tstate_ok T R" "pdp_bitmap_setup c T = (bc, T')"
  shows "tstate_ok T' R"
  using assms by (auto simp: pdp_bitmap_setup_def tstate_ok_def ccache_inv_def Let_def pdp_type_register_conversion_def
      pdp_conversion_program_new_def intro: class_new_inv)

end
