(* ===== verification/BitmapConv.thy ===== *)
theory BitmapConv
  imports BitmapOk
begin

text \<open>
  What the bitmap conversions compute, and the properties of bitmap packets.
\<close>

section \<open>Conversions into new bitmaps\<close>

text \<open>A bitmap with another encoding.\<close>

definition encoded :: "u32 \<Rightarrow> t_bitmap \<Rightarrow> t_bitmap" where
  "encoded enc b = b\<lparr>b_encoding := enc\<rparr>"

lemma encoded_simps [simp]:
  "b_encoding (encoded e b) = e" "b_width (encoded e b) = b_width b" "b_height (encoded e b) = b_height b"
  "encoded e (encoded f b) = encoded e b" "b_encoding b = e \<Longrightarrow> encoded e b = b"
  by (simp_all add: encoded_def)

lemma new_bitmap_cases:
  "pdp_packet_new_bitmap E bc PDP_BITMAP_GREY w h P = pdp_packet_new_bitmap_grey E bc w h P"
  "pdp_packet_new_bitmap E bc PDP_BITMAP_YV12 w h P = pdp_packet_new_bitmap_yv12 E bc w h P"
  "pdp_packet_new_bitmap E bc PDP_BITMAP_I420 w h P = pdp_packet_new_bitmap_i420 E bc w h P"
  "pdp_packet_new_bitmap E bc PDP_BITMAP_RGB w h P = pdp_packet_new_bitmap_rgb E bc w h P"
  "pdp_packet_new_bitmap E bc PDP_BITMAP_RGBA w h P = pdp_packet_new_bitmap_rgba E bc w h P"
  by (simp_all add: pdp_packet_new_bitmap_def bitmap_encodings)

lemma half_u32: "2 * n < 2 ^ 32 \<Longrightarrow> n < (2 ^ 31 :: nat)"
  by simp

lemma bitmap_area:
  assumes "bitmap_legal b" "k * (unat (b_width b) * unat (b_height b)) \<le> bitmap_bytes b" "2 \<le> k"
  shows "wrap32 (sint (b_width b) * sint (b_height b)) = int (unat (b_width b) * unat (b_height b))"
proof -
  have s: "sint (b_width b) = int (unat (b_width b))" "sint (b_height b) = int (unat (b_height b))"
    using assms(1) by (intro sint_u32; simp add: bitmap_legal_def)+
  have "2 * (unat (b_width b) * unat (b_height b)) \<le> k * (unat (b_width b) * unat (b_height b))" using assms(3) by (rule mult_le_mono1)
  then have "2 * (unat (b_width b) * unat (b_height b)) < 2 ^ 31" using assms(1,2) unfolding bitmap_legal_def by linarith
  then have "2 * (unat (b_width b) * unat (b_height b)) < 2 ^ 32" by simp
  then have "unat (b_width b) * unat (b_height b) < 2 ^ 31" by (rule half_u32)
  then have "int (unat (b_width b) * unat (b_height b)) < int (2 ^ 31)" by (simp only: of_nat_less_iff)
  then have "int (unat (b_width b) * unat (b_height b)) < 2 ^ 31" by (simp only: of_nat_power of_nat_numeral)
  from wrap32_nat [OF this] show ?thesis unfolding s by (simp only: of_nat_mult)
qed

text \<open>A packet someone holds, with its type, subheader and data.\<close>

definition held :: "int \<Rightarrow> u32 \<Rightarrow> t_info \<Rightarrow> u8 list \<Rightarrow> pool \<Rightarrow> int multiset \<Rightarrow> bool" where
  "held p ty i d P R \<longleftrightarrow> p \<in># R \<and> (\<exists>h. pdp_packet_header p P = Some h \<and> ptype h = ty \<and> info h = i \<and> pdata h = d)"

lemma held_made: "is_packet ty i ds c d P R q P' \<Longrightarrow> held q ty i d P' (add_mset q R) \<and> pool_inv P' (add_mset q R) \<and> data_ok P'"
  by (auto simp: is_packet_def held_def fresh_def made_def)

lemma held_reads:
  assumes "held p ty i d P R"
  shows "pdp_packet_bitmap_info p P = Some (bitmap_of i)" "pdp_packet_image_info p P = Some (image_of i)" "pdp_packet_data p P = Some d"
  using assms
  by (auto simp: held_def pdp_packet_bitmap_info_def pdp_packet_image_info_def pdp_packet_subheader_def pdp_packet_data_def)

lemma held_kept: "held p ty i d P R \<Longrightarrow> is_packet ty2 j ds c e P R q P' \<Longrightarrow> p \<noteq> q \<and> held p ty i d P' R"
  by (auto simp: is_packet_def held_def fresh_def made_def)

lemma make_bitmap:
  assumes "pool_inv P R" "size R < 2 ^ 32 - 1" "data_ok P" "malloc_ok E" "bitmap_legal b"
    and "\<And>d. length d = bitmap_bytes b \<Longrightarrow> f d = Some d'" "length d' = bitmap_bytes b"
  shows "\<exists>q P'. make_then (pdp_packet_new_bitmap E bc (b_encoding b) (b_width b) (b_height b) P) (\<lambda>p. on_bytes p 0 f) = Some (q, P') \<and>
    is_bitmap b bc d' P R q P'"
proof -
  from new_bitmap_ok [OF assms(1-5), of bc] obtain q P1 d where
    n: "pdp_packet_new_bitmap E bc (b_encoding b) (b_width b) (b_height b) P = Some (q, P1)" "is_bitmap b bc d P R q P1" "length d = bitmap_bytes b" by blast
  from make_then_packet [where f = f, OF n(1,2) assms(6) [OF n(3)]] assms(7) n(3) show ?thesis by auto
qed

section \<open>RGB and RGBA\<close>

definition rgba_ref :: "u8 list \<Rightarrow> nat \<Rightarrow> u8" where
  "rgba_ref s m = (if m mod 4 = 3 then 0 else s ! (3 * (m div 4) + m mod 4))"

definition rgb_of_rgba :: "u8 list \<Rightarrow> nat \<Rightarrow> u8" where
  "rgb_of_rgba s m = s ! (4 * (m div 3) + m mod 3)"

lemma mem_groups: "0 < k \<Longrightarrow> (\<exists>i < n. \<exists>c < k. j = k * i + c) \<longleftrightarrow> j < k * (n :: nat)"
proof (intro iffI)
  assume k: "0 < k" and "\<exists>i < n. \<exists>c < k. j = k * i + c"
  then obtain i c where j: "i < n" "c < k" "j = k * i + c" by blast
  have "k * Suc i \<le> k * n" using j(1) by (intro mult_le_mono2) simp
  then show "j < k * n" using j(2,3) by simp
next
  assume k: "0 < k" and j: "j < k * n"
  have "j div k < n" "j mod k < k" "j = k * (j div k) + j mod k" using k j by (simp_all add: less_mult_imp_div_less mult.commute)
  then show "\<exists>i < n. \<exists>c < k. j = k * i + c" by blast
qed

text \<open>A loop whose step \<open>i\<close> writes the group of \<open>k\<close> values from position \<open>k i\<close>.\<close>

lemma for_loop_groups:
  assumes "0 < k" "k * n \<le> length dst"
    and "\<And>i d. i < n \<Longrightarrow> length d = length dst \<Longrightarrow> f i d = Some (writes (map (\<lambda>c. (k * i + c, F (k * i + c))) [0..<k]) d)"
  shows "for_loop 0 n f dst = Some (map F [0..<k * n] @ drop (k * n) dst)"
proof -
  let ?W = "\<lambda>i. map (\<lambda>c. (k * i + c, F (k * i + c))) [0..<k]"
  have "for_loop 0 n f dst = Some (writes (concat (map ?W [0..<0 + n])) dst)"
    by (rule for_loop_writes) (use assms(3) in simp_all)
  also have "writes (concat (map ?W [0..<0 + n])) dst = map F [0..<k * n] @ drop (k * n) dst"
  proof (rule writes_cover [OF _ _ assms(2)])
    show "\<forall>(i, v) \<in> set (concat (map ?W [0..<0 + n])). v = F i" by auto
    have "fst ` set (concat (map ?W [0..<0 + n])) = {j. \<exists>i < n. \<exists>c < k. j = k * i + c}" by force
    then show "fst ` set (concat (map ?W [0..<0 + n])) = {..<k * n}" using mem_groups [OF assms(1)] by auto
  qed
  finally show ?thesis .
qed

lemma group_lt: "i < n \<Longrightarrow> c < k \<Longrightarrow> k * n \<le> m \<Longrightarrow> k * i + c < (m :: nat)"
  using mem_groups [of k n "k * i + c"] by fastforce

lemma group_div: "c < k \<Longrightarrow> (k * i + c) div k = i \<and> (k * i + c) mod k = (c :: nat)"
  by simp

text \<open>The indices stay in the range of \<open>int\<close>.\<close>

lemma wrap_index:
  assumes "i < n" "4 * n < 2 ^ 31"
  shows "c < 4 \<Longrightarrow> wrap32 (int (4 * i + c)) = int (4 * i + c)" "c < 3 \<Longrightarrow> wrap32 (int (3 * i + c)) = int (3 * i + c)"
    "wrap32 (int (4 * i)) = int (4 * i)" "wrap32 (int (3 * i)) = int (3 * i)"
proof -
  have w: "wrap32 (int k) = int k" if "k < 4 * n" for k
  proof (rule wrap32_nat)
    have "int k < int (2 ^ 31)" using that assms(2) by (simp only: of_nat_less_iff)
    then show "int k < 2 ^ 31" by (simp only: of_nat_power of_nat_numeral)
  qed
  show "c < 4 \<Longrightarrow> wrap32 (int (4 * i + c)) = int (4 * i + c)" "c < 3 \<Longrightarrow> wrap32 (int (3 * i + c)) = int (3 * i + c)"
    "wrap32 (int (4 * i)) = int (4 * i)" "wrap32 (int (3 * i)) = int (3 * i)"
    by (rule w, use assms(1) in linarith)+
qed

lemma rgb_to_rgba_ok:
  assumes "3 * n \<le> length s" "4 * n \<le> length dst" "4 * n < 2 ^ 31"
  shows "rgb_to_rgba_loop s (int n) dst = Some (map (rgba_ref s) [0..<4 * n] @ drop (4 * n) dst)"
  unfolding rgb_to_rgba_loop_def nat_int
proof (rule for_loop_groups [OF _ assms(2)])
  fix i and d :: "u8 list" assume a: "i < n" "length d = length dst"
  have lt: "3 * i < length s" "3 * i + 1 < length s" "3 * i + 2 < length s"
    "4 * i < length d" "4 * i + 1 < length d" "4 * i + 2 < length d" "4 * i + 3 < length d" using a assms by linarith+
  have l: "[0..<4] = [0, 1, 2, 3 :: nat]" by (simp add: upt_rec)
  have "rgba_ref s (4 * i) = s ! (3 * i)" "rgba_ref s (4 * i + 1) = s ! (3 * i + 1)" "rgba_ref s (4 * i + 2) = s ! (3 * i + 2)" "rgba_ref s (4 * i + 3) = 0"
    unfolding rgba_ref_def using group_div [of 0 4 i] group_div [of 1 4 i] group_div [of 2 4 i] group_div [of 3 4 i] by simp_all
  then show "do { r \<leftarrow> rd s (wrap32 (int (3 * i))); d \<leftarrow> wr d (wrap32 (int (4 * i))) r;
         g \<leftarrow> rd s (wrap32 (int (3 * i + 1))); d \<leftarrow> wr d (wrap32 (int (4 * i + 1))) g;
         b \<leftarrow> rd s (wrap32 (int (3 * i + 2))); d \<leftarrow> wr d (wrap32 (int (4 * i + 2))) b;
         wr d (wrap32 (int (4 * i + 3))) 0 } = Some (writes (map (\<lambda>c. (4 * i + c, rgba_ref s (4 * i + c))) [0..<4]) d)"
    using lt unfolding l
    by (simp add: writes_Cons wrap_index [OF a(1) assms(3)] del: of_nat_add of_nat_mult One_nat_def add_2_eq_Suc add_2_eq_Suc')
qed simp

lemma rgba_to_rgb_ok:
  assumes "4 * n \<le> length s" "3 * n \<le> length dst" "4 * n < 2 ^ 31"
  shows "rgba_to_rgb_loop s (int n) dst = Some (map (rgb_of_rgba s) [0..<3 * n] @ drop (3 * n) dst)"
  unfolding rgba_to_rgb_loop_def nat_int
proof (rule for_loop_groups [OF _ assms(2)])
  fix i and d :: "u8 list" assume a: "i < n" "length d = length dst"
  have lt: "4 * i < length s" "4 * i + 1 < length s" "4 * i + 2 < length s"
    "3 * i < length d" "3 * i + 1 < length d" "3 * i + 2 < length d" using a assms by linarith+
  have l: "[0..<3] = [0, 1, 2 :: nat]" by (simp add: upt_rec)
  have "rgb_of_rgba s (3 * i) = s ! (4 * i)" "rgb_of_rgba s (3 * i + 1) = s ! (4 * i + 1)" "rgb_of_rgba s (3 * i + 2) = s ! (4 * i + 2)"
    unfolding rgb_of_rgba_def using group_div [of 0 3 i] group_div [of 1 3 i] group_div [of 2 3 i] by simp_all
  then show "do { r \<leftarrow> rd s (wrap32 (int (4 * i))); d \<leftarrow> wr d (wrap32 (int (3 * i))) r;
         g \<leftarrow> rd s (wrap32 (int (4 * i + 1))); d \<leftarrow> wr d (wrap32 (int (3 * i + 1))) g;
         b \<leftarrow> rd s (wrap32 (int (4 * i + 2))); wr d (wrap32 (int (3 * i + 2))) b } = Some (writes (map (\<lambda>c. (3 * i + c, rgb_of_rgba s (3 * i + c))) [0..<3]) d)"
    using lt unfolding l
    by (simp add: writes_Cons wrap_index [OF a(1) assms(3)] del: of_nat_add of_nat_mult One_nat_def add_2_eq_Suc add_2_eq_Suc')
qed simp

lemma rgb_of_rgba_ref: "map (rgb_of_rgba (map (rgba_ref s) [0..<4 * n])) [0..<3 * n] = map ((!) s) [0..<3 * n]"
proof (rule map_cong [OF refl])
  fix m assume "m \<in> set [0..<3 * n]"
  then have m: "m div 3 < n" "m mod 3 < 3" "3 * (m div 3) + m mod 3 = m" by auto
  have "m mod 3 \<noteq> 3" using m(2) by linarith
  have "4 * (m div 3) + m mod 3 < 4 * n" by (rule group_lt [OF m(1) _ order_refl]) (use m(2) in linarith)
  then show "rgb_of_rgba (map (rgba_ref s) [0..<4 * n]) m = s ! m"
    using m \<open>m mod 3 \<noteq> 3\<close> group_div [of "m mod 3" 4 "m div 3"] by (simp add: rgb_of_rgba_def rgba_ref_def)
qed

lemma map_nth_upto: "k \<le> length s \<Longrightarrow> map ((!) s) [0..<k] = take k s"
  using map_nth_take [of k s "\<lambda>x. x"] by simp

text \<open>
  C38: converting an RGB bitmap to RGBA and back gives the bytes back: both conversions are defined on every held RGB
  bitmap whose RGBA data with the header stay below 2 GB, the alpha bytes are zero, and the results are new bitmaps with the right types.
\<close>

theorem rgb_rgba_round_trip:
  assumes "pool_inv P R" "size R < 2 ^ 32 - 2" "data_ok P" "malloc_ok E"
    and "held p PDP_BITMAP (Bitmap b) s P R" "b_encoding b = PDP_BITMAP_RGB" "bitmap_legal (encoded PDP_BITMAP_RGBA b)" "bitmap_bytes b \<le> length s"
  shows "\<exists>q P1 r P2. bitmap_convert_rgb8_to_rgba8 E bc p d P = Some (q, P1) \<and>
    is_bitmap (encoded PDP_BITMAP_RGBA b) bc (map (rgba_ref s) [0..<bitmap_bytes (encoded PDP_BITMAP_RGBA b)]) P R q P1 \<and>
    bitmap_convert_rgba8_to_rgb8 E bc q d' P1 = Some (r, P2) \<and>
    is_bitmap b bc (take (bitmap_bytes b) s) P1 (add_mset q R) r P2"
proof -
  let ?a = "encoded PDP_BITMAP_RGBA b" and ?n = "unat (b_width b) * unat (b_height b)"
  have len: "bitmap_bytes b = 3 * ?n" "bitmap_bytes ?a = 4 * ?n"
    using assms(6) by (simp_all add: bitmap_bytes_def bitmap_encodings)
  have n: "4 * ?n + 256 < 2 ^ 31" using assms(7) unfolding bitmap_legal_def len by blast
  then have n31: "4 * ?n < 2 ^ 31" and "3 * ?n + 256 < 2 ^ 31" by linarith+
  then have legal: "bitmap_legal b" using assms(6,7) unfolding bitmap_legal_def len by (simp add: encoded_def bitmap_encodings)
  have wh: "wrap32 (sint (b_width b) * sint (b_height b)) = int ?n"
    by (rule bitmap_area [OF legal, of 3]) (simp_all add: len)
  have "\<exists>q P1. make_then (pdp_packet_new_bitmap E bc (b_encoding ?a) (b_width ?a) (b_height ?a) P) (\<lambda>p. on_bytes p 0 (rgb_to_rgba_loop s (int ?n))) = Some (q, P1) \<and>
      is_bitmap ?a bc (map (rgba_ref s) [0..<bitmap_bytes ?a]) P R q P1"
    by (rule make_bitmap [OF assms(1) _ assms(3,4,7)]) (use assms(2,8) rgb_to_rgba_ok [of ?n s, OF _ _ n31] in \<open>simp_all add: len\<close>)
  then obtain q P1 where q: "bitmap_convert_rgb8_to_rgba8 E bc p d P = Some (q, P1)"
      "is_bitmap ?a bc (map (rgba_ref s) [0..<bitmap_bytes ?a]) P R q P1"
    using held_reads [OF assms(5)] by (auto simp: bitmap_convert_rgb8_to_rgba8_def Let_def new_bitmap_cases wh)
  from held_made [OF q(2)] have H: "held q PDP_BITMAP (Bitmap ?a) (map (rgba_ref s) [0..<bitmap_bytes ?a]) P1 (add_mset q R)"
    "pool_inv P1 (add_mset q R)" "data_ok P1" by simp_all
  have "\<exists>r P2. make_then (pdp_packet_new_bitmap E bc (b_encoding b) (b_width b) (b_height b) P1)
        (\<lambda>p. on_bytes p 0 (rgba_to_rgb_loop (map (rgba_ref s) [0..<4 * ?n]) (int ?n))) = Some (r, P2) \<and>
      is_bitmap b bc (take (bitmap_bytes b) s) P1 (add_mset q R) r P2"
    by (rule make_bitmap [OF H(2) _ H(3) assms(4) legal])
      (use assms(2,8) rgba_to_rgb_ok [of ?n "map (rgba_ref s) [0..<4 * ?n]", OF _ _ n31] rgb_of_rgba_ref [of s ?n] map_nth_upto [of "3 * ?n" s] in \<open>simp_all add: len\<close>)
  then have "\<exists>r P2. bitmap_convert_rgba8_to_rgb8 E bc q d' P1 = Some (r, P2) \<and> is_bitmap b bc (take (bitmap_bytes b) s) P1 (add_mset q R) r P2"
    using held_reads [OF H(1)] assms(6) by (simp add: bitmap_convert_rgba8_to_rgb8_def Let_def new_bitmap_cases wh len)
  with q show ?thesis by blast
qed

section \<open>YV12 and I420\<close>

definition swap_planes :: "nat \<Rightarrow> u8 list \<Rightarrow> u8 list" where
  "swap_planes n s = take n s @ take (n div 4) (drop (n + n div 4) s) @ take (n div 4) (drop n s)"

definition other_planar :: "t_bitmap \<Rightarrow> t_bitmap" where
  "other_planar b = encoded (if b_encoding b = PDP_BITMAP_YV12 then PDP_BITMAP_I420 else PDP_BITMAP_YV12) b"

text \<open>Bitmaps with a luminance plane of \<open>n\<close> bytes and two chrominance planes of a quarter.\<close>

definition planar :: "t_bitmap \<Rightarrow> nat \<Rightarrow> bool" where
  "planar b n \<longleftrightarrow> b_encoding b \<in> {PDP_BITMAP_YV12, PDP_BITMAP_I420} \<and> bitmap_legal b \<and>
     n = unat (b_width b) * unat (b_height b) \<and> n < 2 ^ 31 \<and> 4 dvd n"

lemma planar_bytes: "planar b n \<Longrightarrow> bitmap_bytes b = n + n div 2"
  by (auto simp: planar_def bitmap_bytes_def bitmap_encodings Let_def)

lemma planar_area:
  assumes "planar b n"
  shows "wrap32 (sint (b_width b) * sint (b_height b)) = int n"
proof -
  have n: "n = unat (b_width b) * unat (b_height b)" "n < 2 ^ 31" using assms by (simp_all add: planar_def)
  have "sint (b_width b) = int (unat (b_width b))" "sint (b_height b) = int (unat (b_height b))"
    using assms by (intro sint_u32; simp add: planar_def bitmap_legal_def)+
  then have e: "sint (b_width b) * sint (b_height b) = int n" unfolding n(1) by (simp only: of_nat_mult)
  have "int n < int (2 ^ 31)" using n(2) by (simp only: of_nat_less_iff)
  then have "int n < 2 ^ 31" by (simp only: of_nat_power of_nat_numeral)
  then show ?thesis unfolding e by (rule wrap32_nat)
qed

lemma other_planar: "planar b n \<Longrightarrow> planar (other_planar b) n \<and> other_planar (other_planar b) = b \<and> bitmap_bytes (other_planar b) = bitmap_bytes b"
  by (auto simp: planar_def other_planar_def encoded_def bitmap_legal_def bitmap_bytes_def bitmap_encodings Let_def)

lemma swap_twice:
  assumes "4 dvd n" "n + n div 2 \<le> length s"
  shows "length (swap_planes n s) = n + n div 2" "swap_planes n (swap_planes n s) = take (n + n div 2) s"
proof -
  obtain k where k: "n = 4 * k" using assms(1) by blast
  then show "length (swap_planes n s) = n + n div 2" using assms(2) by (simp add: swap_planes_def)
  have "take (4 * k) s @ take k (drop (4 * k) s) @ take k (drop (5 * k) s) = take (6 * k) s"
    using take_add [of "4 * k" k s] take_add [of "5 * k" k s] by (simp add: algebra_simps)
  then show "swap_planes n (swap_planes n s) = take (n + n div 2) s" using k assms(2) by (simp add: swap_planes_def)
qed

lemma is_packet_write_at:
  assumes "is_packet ty i ds c d P R q P1" "f (drop n d) = Some e" "length d' = length d" "d' = take n d @ e"
  shows "\<exists>P2. on_bytes q (int n) f P1 = Some P2 \<and> is_packet ty i ds c d' P R q P2"
proof -
  let ?f = "\<lambda>d. map_option ((@) (take n d)) (f (drop n d))"
  have "\<exists>P2. on_bytes q 0 ?f P1 = Some P2 \<and> is_packet ty i ds c d' P R q P2"
    by (rule is_packet_write [OF assms(1)]) (use assms(2-4) in simp_all)
  moreover have "on_bytes q 0 ?f P1 = on_bytes q (int n) f P1"
    by (cases "pdp_packet_header q P1"; cases "f (drop n (pdata (the (pdp_packet_header q P1))))") (simp_all add: on_bytes_def)
  ultimately show ?thesis by simp
qed

lemma swap_ok:
  assumes "pool_inv P R" "size R < 2 ^ 32 - 1" "data_ok P" "malloc_ok E"
    and "held p PDP_BITMAP (Bitmap b) s P R" "planar b n" "bitmap_bytes b \<le> length s"
  shows "\<exists>q P'. bitmap_convert_yv12_tofrom_i420 E bc p d P = Some (q, P') \<and>
    is_bitmap (other_planar b) bc (swap_planes n s) P R q P'"
proof -
  let ?b = "other_planar b"
  note ob = other_planar [OF assms(6)] and len = planar_bytes [OF assms(6)]
  obtain k where k: "n = 4 * k" using assms(6) by (auto simp: planar_def)
  have "bitmap_legal ?b" using ob by (simp add: planar_def)
  from new_bitmap_ok [OF assms(1-4) this, of bc] obtain q P1 t where
    n: "pdp_packet_new_bitmap E bc (b_encoding ?b) (b_width ?b) (b_height ?b) P = Some (q, P1)" "is_bitmap ?b bc t P R q P1"
      "length t = 6 * k" using ob len k by auto
  from held_kept [OF assms(5) n(2)] have H: "pdp_packet_data p P1 = Some s" using held_reads(3) by blast
  have sl: "6 * k \<le> length s" using assms(7) len k by simp
  let ?t1 = "take n s @ drop n t" and ?t2 = "take n s @ take k (drop (5 * k) s) @ drop (5 * k) t"
  have "\<exists>P2. on_bytes q (int 0) (memcpy (int n) s) P1 = Some P2 \<and> is_bitmap ?b bc ?t1 P R q P2"
    by (rule is_packet_write_at [OF n(2)]) (use sl n(3) k in \<open>auto simp: memcpy_def simp del: of_nat_mult\<close>)
  then obtain P2 where P2: "on_bytes q 0 (memcpy (int n) s) P1 = Some P2" "is_bitmap ?b bc ?t1 P R q P2" by auto
  have "\<exists>P3. on_bytes q (int n) (memcpy (int k) (drop (5 * k) s)) P2 = Some P3 \<and> is_bitmap ?b bc ?t2 P R q P3"
    by (rule is_packet_write_at [OF P2(2)]) (use sl n(3) k in \<open>auto simp: memcpy_def simp del: of_nat_mult\<close>)
  then obtain P3 where P3: "on_bytes q (int n) (memcpy (int k) (drop (5 * k) s)) P2 = Some P3" "is_bitmap ?b bc ?t2 P R q P3" by auto
  have "\<exists>P4. on_bytes q (int (5 * k)) (memcpy (int k) (drop n s)) P3 = Some P4 \<and> is_bitmap ?b bc (swap_planes n s) P R q P4"
    by (rule is_packet_write_at [OF P3(2)]) (use sl n(3) k in \<open>auto simp: memcpy_def swap_planes_def simp del: of_nat_mult\<close>)
  then obtain P4 where P4: "on_bytes q (int (5 * k)) (memcpy (int k) (drop n s)) P3 = Some P4" "is_bitmap ?b bc (swap_planes n s) P R q P4" by auto
  have e: "int n sdiv 4 = int k" "int n + int k = int (5 * k)"
    unfolding k by (cases "k = 0"; simp add: signed_divide_int_def sgn_if)+
  have "b_encoding b = PDP_BITMAP_YV12 \<or> b_encoding b = PDP_BITMAP_I420" using assms(6) by (auto simp: planar_def)
  moreover have "q \<noteq> -1" using n(2) by (auto simp: is_packet_def)
  ultimately have "bitmap_convert_yv12_tofrom_i420 E bc p d P = Some (q, P4)"
    using held_reads(1,3) [OF assms(5)] n(1) H P2(1) P3(1) P4(1) planar_area [OF assms(6)]
    unfolding bitmap_convert_yv12_tofrom_i420_def make_then_def
    by (auto simp: Let_def e other_planar_def simp del: of_nat_mult)
  with P4(2) show ?thesis by blast
qed

theorem yv12_i420_round_trip:
  assumes "pool_inv P R" "size R < 2 ^ 32 - 2" "data_ok P" "malloc_ok E"
    and "held p PDP_BITMAP (Bitmap b) s P R" "planar b n" "bitmap_bytes b \<le> length s"
  shows "\<exists>q P1 r P2. bitmap_convert_yv12_tofrom_i420 E bc p d P = Some (q, P1) \<and>
    is_bitmap (other_planar b) bc (swap_planes n s) P R q P1 \<and>
    bitmap_convert_yv12_tofrom_i420 E bc q d' P1 = Some (r, P2) \<and>
    is_bitmap b bc (take (bitmap_bytes b) s) P1 (add_mset q R) r P2"
proof -
  note ob = other_planar [OF assms(6)] and len = planar_bytes [OF assms(6)]
  have "4 dvd n" using assms(6) unfolding planar_def by blast
  note sw = swap_twice [OF this, of s]
  from swap_ok [OF assms(1) _ assms(3-7), of bc d] assms(2) obtain q P1 where
    q: "bitmap_convert_yv12_tofrom_i420 E bc p d P = Some (q, P1)" "is_bitmap (other_planar b) bc (swap_planes n s) P R q P1" by auto
  from held_made [OF q(2)] have H: "held q PDP_BITMAP (Bitmap (other_planar b)) (swap_planes n s) P1 (add_mset q R)"
    "pool_inv P1 (add_mset q R)" "data_ok P1" by simp_all
  from swap_ok [OF H(2) _ H(3) assms(4) H(1), of n bc d'] assms(2,7) ob len sw q show ?thesis by auto
qed

section \<open>Planar bitmaps and images\<close>

definition yv12_image :: "t_bitmap \<Rightarrow> t_image" where
  "yv12_image b = \<lparr>i_encoding = PDP_IMAGE_YV12, i_width = b_width b, i_height = b_height b, i_depth = 0, i_chanmask = 0\<rparr>"

text \<open>The pixels of the image of a planar bitmap with \<open>n\<close> bytes of luminance.\<close>

definition unpack_planar :: "nat \<Rightarrow> u8 list \<Rightarrow> plane" where
  "unpack_planar n s = map unpack_y (take n s) @ map unpack_uv (take (n div 2) (drop n s))"

definition pack_planar :: "nat \<Rightarrow> plane \<Rightarrow> u8 list" where
  "pack_planar n px = map pack_y (take n px) @ map pack_uv (take (n div 2) (drop n px))"

lemma pack_unpack_planar: "n + n div 2 \<le> length s \<Longrightarrow> pack_planar n (unpack_planar n s) = take (n + n div 2) s"
  by (simp add: pack_planar_def unpack_planar_def pack_unpack_y pack_unpack_uv o_def take_add)

lemma length_unpack_planar: "n + n div 2 \<le> length s \<Longrightarrow> length (unpack_planar n s) = n + n div 2"
  by (simp add: unpack_planar_def)

lemma recoded_yv12: "recoded PDP_IMAGE_YV12 (yv12_image b) = yv12_image b"
  by (simp add: recoded_def yv12_image_def)

lemma new_YCrCb_packet:
  assumes "pool_inv P R" "size R < 2 ^ 32 - 1" "data_ok P" "malloc_ok E" "convertible (yv12_image b)"
  shows "\<exists>q P' d. pdp_packet_new_image_YCrCb E ic (b_width b) (b_height b) P = Some (q, P') \<and>
    is_packet PDP_IMAGE (Image (yv12_image b)) (image_desc (yv12_image b)) ic d P R q P' \<and>
    length d = 3 * (unat (b_width b) * unat (b_height b))"
proof -
  from new_image_of_ok [OF assms(1-4) recoded_legal(2) [OF assms(5)], of ic] obtain q P1 where
    n: "new_image_of E ic (yv12_image b) P = Some (q, P1)" "is_new_image ic (yv12_image b) P R q P1" unfolding recoded_yv12 by blast
  have "pdp_packet_new_image_YCrCb E ic (b_width b) (b_height b) P = Some (q, P1)"
    using n(1) by (simp add: new_image_of_def pdp_packet_new_image_def yv12_image_def encodings)
  moreover from n(2) obtain h where "pdp_packet_header q P1 = Some h" "info h = Image (yv12_image b)" "desc h = Some (image_desc (yv12_image b))"
    "theclass h = ic" "length (pdata h) = 3 * (unat (b_width b) * unat (b_height b))" "ptype h = PDP_IMAGE"
    using recoded_total(2) [OF assms(5)] unfolding recoded_yv12
    by (auto simp: is_new_image_def pdp_packet_image_isvalid_def yv12_image_def)
  ultimately show ?thesis using n(2) by (intro exI [of _ q] exI [of _ P1]) (auto simp: is_packet_def fresh_def is_new_image_def)
qed

lemma yv12_area:
  assumes "convertible (yv12_image b)" "n = unat (b_width b) * unat (b_height b)"
  shows "wrap32 (sint (b_width b) * sint (b_height b)) = int n" "int n < 2 ^ 31"
proof -
  have n: "3 * n + 256 < 2 ^ 31" using assms by (simp add: convertible_def yv12_image_def)
  then show i: "int n < 2 ^ 31" by simp
  have "sint (b_width b) = int (unat (b_width b))" "sint (b_height b) = int (unat (b_height b))"
    using assms(1) by (intro sint_u32; simp add: convertible_def yv12_image_def)+
  then have e: "sint (b_width b) * sint (b_height b) = int n" unfolding assms(2) by (simp only: of_nat_mult)
  show "wrap32 (sint (b_width b) * sint (b_height b)) = int n" unfolding e by (rule wrap32_nat [OF i])
qed

lemma yv12_to_image_ok:
  assumes "pool_inv P R" "size R < 2 ^ 32 - 1" "data_ok P" "malloc_ok E"
    and "held p PDP_BITMAP (Bitmap b) s P R" "convertible (yv12_image b)" "n = unat (b_width b) * unat (b_height b)" "n + n div 2 \<le> length s"
  shows "\<exists>q P'. bitmap_convert_yv12_to_image E ic p d P = Some (q, P') \<and>
    is_packet PDP_IMAGE (Image (yv12_image b)) (image_desc (yv12_image b)) ic (pixel_bytes (unpack_planar n s)) P R q P'"
proof -
  note a = yv12_area [OF assms(6,7)]
  from new_YCrCb_packet [OF assms(1-4,6), of ic] obtain q P1 t where
    q: "pdp_packet_new_image_YCrCb E ic (b_width b) (b_height b) P = Some (q, P1)"
      "is_packet PDP_IMAGE (Image (yv12_image b)) (image_desc (yv12_image b)) ic t P R q P1" "length t = 3 * n" unfolding assms(7) by blast
  have "even n" using assms(6,7) by (simp add: convertible_def yv12_image_def)
  then have t: "length (pixels t) = n + n div 2" "2 * (n + n div 2) = length t" using q(3) by (auto elim: evenE)
  have "pdp_llconv s RIF_YVU__P411_U8 RIF_YVU__P411_S16 (sint (b_width b)) (sint (b_height b)) t = Some (pixel_bytes (unpack_planar n s))"
    using planar_unpack [OF a(2) assms(8), of "pixels t", folded append_assoc, folded unpack_planar_def] t length_unpack_planar [OF assms(8)]
    by (simp add: pdp_llconv_def Let_def a(1) to_pixels_def set_pixels_def unpack_planar_def [symmetric])
  from make_then_packet [where f = "pdp_llconv s RIF_YVU__P411_U8 RIF_YVU__P411_S16 (sint (b_width b)) (sint (b_height b))", OF q(1,2) this] t(2) length_unpack_planar [OF assms(8)]
  show ?thesis using held_reads [OF assms(5)] by (simp add: bitmap_convert_yv12_to_image_def Let_def) blast
qed

lemma image_to_yv12_ok:
  assumes "pool_inv P R" "size R < 2 ^ 32 - 1" "data_ok P" "malloc_ok E" "bitmap_legal b" "b_encoding b = PDP_BITMAP_YV12"
    and "held p PDP_IMAGE (Image (yv12_image b)) (pixel_bytes px) P R" "convertible (yv12_image b)"
    and "n = unat (b_width b) * unat (b_height b)" "length px = n + n div 2"
  shows "\<exists>q P'. bitmap_convert_image_to_yv12 E bc p d P = Some (q, P') \<and> is_bitmap b bc (pack_planar n px) P R q P'"
proof -
  note a = yv12_area [OF assms(8,9)]
  have len: "bitmap_bytes b = n + n div 2" using assms(6,9) by (simp add: bitmap_bytes_def bitmap_encodings Let_def)
  have pk: "length (pack_planar n px) = n + n div 2" using assms(10) by (simp add: pack_planar_def)
  have pb: "pixels (pixel_bytes px) = px" using pixels_bytes [of px "[]"] by simp
  from new_bitmap_ok [OF assms(1-5), of bc] obtain q P1 t where
    q: "pdp_packet_new_bitmap_yv12 E bc (b_width b) (b_height b) P = Some (q, P1)" "is_bitmap b bc t P R q P1" "length t = n + n div 2"
    unfolding assms(6) new_bitmap_cases len by blast
  have "pdp_llconv (pixel_bytes px) RIF_YVU__P411_S16 RIF_YVU__P411_U8 (sint (b_width b)) (sint (b_height b)) t = Some (pack_planar n px)"
    using planar_pack [OF a(2), of px t] q(3) assms(10) by (simp add: pdp_llconv_def Let_def a(1) pb pack_planar_def)
  from is_packet_write [where f = "pdp_llconv (pixel_bytes px) RIF_YVU__P411_S16 RIF_YVU__P411_U8 (sint (b_width b)) (sint (b_height b))",
      OF q(2) this] pk q(3) obtain P2 where
    P2: "on_bytes q 0 (pdp_llconv (pixel_bytes px) RIF_YVU__P411_S16 RIF_YVU__P411_U8 (sint (b_width b)) (sint (b_height b))) P1 = Some P2"
      "is_bitmap b bc (pack_planar n px) P R q P2" by auto
  have "q \<noteq> -1" using q(2) by (auto simp: is_packet_def)
  moreover have "pdp_packet_image_isvalid p P" using assms(7) by (auto simp: held_def pdp_packet_image_isvalid_def yv12_image_def)
  ultimately show ?thesis using held_reads [OF assms(7)] q(1) P2
    by (simp add: bitmap_convert_image_to_yv12_def Let_def yv12_image_def)
qed

text \<open>
  C22: an 8 bit planar bitmap survives the conversion to a 16 bit image packet and back byte for byte, for every held
  bitmap of even size up to the limit of \<open>convertible\<close>; both conversions make new packets with the right descriptions.
\<close>

theorem yv12_image_round_trip:
  assumes "pool_inv P R" "size R < 2 ^ 32 - 2" "data_ok P" "malloc_ok E"
    and "held p PDP_BITMAP (Bitmap b) s P R" "b_encoding b = PDP_BITMAP_YV12" "bitmap_legal b" "convertible (yv12_image b)" "bitmap_bytes b \<le> length s"
  shows "\<exists>q P1 r P2. bitmap_convert_yv12_to_image E ic p d P = Some (q, P1) \<and>
    is_packet PDP_IMAGE (Image (yv12_image b)) (image_desc (yv12_image b)) ic
      (pixel_bytes (unpack_planar (unat (b_width b) * unat (b_height b)) s)) P R q P1 \<and>
    bitmap_convert_image_to_yv12 E bc q d' P1 = Some (r, P2) \<and>
    is_bitmap b bc (take (bitmap_bytes b) s) P1 (add_mset q R) r P2"
proof -
  define n where "n = unat (b_width b) * unat (b_height b)"
  have len: "bitmap_bytes b = n + n div 2" using assms(6) by (simp add: n_def bitmap_bytes_def bitmap_encodings Let_def)
  note sl = assms(9) [unfolded len]
  from yv12_to_image_ok [OF assms(1) _ assms(3-5,8) n_def sl, of ic d] assms(2) obtain q P1 where
    q: "bitmap_convert_yv12_to_image E ic p d P = Some (q, P1)"
      "is_packet PDP_IMAGE (Image (yv12_image b)) (image_desc (yv12_image b)) ic (pixel_bytes (unpack_planar n s)) P R q P1" by auto
  from held_made [OF q(2)] have H: "held q PDP_IMAGE (Image (yv12_image b)) (pixel_bytes (unpack_planar n s)) P1 (add_mset q R)"
    "pool_inv P1 (add_mset q R)" "data_ok P1" by simp_all
  from image_to_yv12_ok [OF H(2) _ H(3) assms(4,7,6) H(1) assms(8) n_def length_unpack_planar [OF sl], of bc d'] assms(2)
  obtain r P2 where "bitmap_convert_image_to_yv12 E bc q d' P1 = Some (r, P2)" "is_bitmap b bc (take (bitmap_bytes b) s) P1 (add_mset q R) r P2"
    unfolding pack_unpack_planar [OF sl] len by auto
  with q show ?thesis unfolding n_def by blast
qed

section \<open>A conversion that does nothing\<close>

lemma set_same_packet: "pdp_packet_header q P = Some h \<Longrightarrow> set_packet q (Some h) P = P"
  by (auto simp: set_packet_def pdp_packet_header_def list_update_same_conv split: if_splits)

text \<open>
  C40: the conversion of a grey bitmap to a grey image never uses the bitmap: the low level conversion has no routine for
  this pair of formats, so that the result is a new image packet with whatever its memory held.
\<close>

theorem grey8_to_grey_writes_nothing:
  assumes "pool_inv P R" "size R < 2 ^ 32 - 1" "held p PDP_BITMAP (Bitmap b) s P R"
  shows "bitmap_convert_grey8_to_grey E ic p d P = pdp_packet_new_image_grey E ic (b_width b) (b_height b) P"
proof (cases "pdp_packet_new_image_grey E ic (b_width b) (b_height b) P")
  case (Some r)
  obtain q P1 where r: "r = (q, P1)" by (cases r)
  note c = constructors_converted(2) [OF assms(1,2) Some [unfolded r]]
  show ?thesis
  proof (cases "q = -1")
    case True
    then show ?thesis using held_reads [OF assms(3)] Some by (simp add: bitmap_convert_grey8_to_grey_def make_then_def r Let_def)
  next
    case False
    with c obtain h where h: "pdp_packet_header q P1 = Some h" by (auto simp: converted_def)
    then have "on_bytes q 0 (pdp_llconv s RIF_GREY______U8 RIF_GREY______S16 w k) P1 = Some P1" for w k
      using set_same_packet [OF h] by (simp add: on_bytes_def pdp_llconv_def Let_def)
    then show ?thesis using held_reads [OF assms(3)] Some False
      by (simp add: bitmap_convert_grey8_to_grey_def make_then_def r Let_def)
  qed
qed (use held_reads [OF assms(3)] in \<open>simp add: bitmap_convert_grey8_to_grey_def make_then_def Let_def\<close>)

section \<open>The factory\<close>

text \<open>The encodings the factory knows.\<close>

definition factory_knows :: "t_bitmap \<Rightarrow> bool" where
  "factory_knows b \<longleftrightarrow> b_encoding b \<in> {PDP_BITMAP_GREY, PDP_BITMAP_YV12, PDP_BITMAP_RGB}"

lemma bitmap_desc_to_list:
  assumes "bitmap_legal b"
  shows "pdp_type_to_list (bitmap_desc b) =
    [''bitmap'', (if b_encoding b = PDP_BITMAP_RGB then ''rgb'' else if b_encoding b = PDP_BITMAP_RGBA then ''rgba''
        else if b_encoding b = PDP_BITMAP_GREY then ''grey'' else if b_encoding b = PDP_BITMAP_YV12 then ''yv12'' else ''i420''),
      fmt_d (b_width b) @ ''x'' @ fmt_d (b_height b)]" (is "_ = ?l")
proof -
  have "no_slash (fmt_d (b_width b))" "no_slash (fmt_d (b_height b))"
    using assms by (auto simp: bitmap_legal_def intro!: no_slash_fmt)
  then have "\<forall>s \<in> set ?l. no_slash s" by simp
  moreover have "bitmap_desc b = join_types ?l" by (simp add: bitmap_desc_def)
  ultimately show ?thesis by (simp only: pdp_type_to_list_split) (rule split_join, simp_all)
qed

lemma bitmap_factory_of_desc:
  assumes "bitmap_legal b"
  shows "pdp_bitmap_factory E bc (bitmap_desc b) P =
    (if factory_knows b
     then do { (p, P) \<leftarrow> pdp_packet_new_bitmap E bc (b_encoding b) (b_width b) (b_height b) P;
               if p \<noteq> -1
               then do { header \<leftarrow> pdp_packet_header p P;
                         if desc header \<noteq> Some (bitmap_desc b)
                         then do { P \<leftarrow> pdp_packet_delete p P; Some (-1, P) }
                         else Some (p, P) }
               else Some (p, P) }
     else Some (-1, P))"
proof -
  have lt: "unat (b_width b) < 2 ^ 31" "unat (b_height b) < 2 ^ 31" using assms by (simp_all add: bitmap_legal_def)
  consider "b_encoding b = PDP_BITMAP_GREY" | "b_encoding b = PDP_BITMAP_RGB" | "b_encoding b = PDP_BITMAP_RGBA"
    | "b_encoding b = PDP_BITMAP_YV12" | "b_encoding b = PDP_BITMAP_I420" using assms by (auto simp: bitmap_legal_def)
  then show ?thesis
    unfolding pdp_bitmap_factory_def bitmap_desc_to_list [OF assms]
    by cases (simp_all add: scan_dims_2 [OF lt] factory_knows_def bitmap_encodings dim_def Let_def del: append.simps append_Cons)
qed

text \<open>
  C39: the bitmap factory applied to the description of a legal bitmap (data and header below 2 GB) makes exactly that bitmap for the encodings grey,
  yv12 and rgb, with a buffer of exactly its size, and makes nothing for rgba and i420.
\<close>

theorem bitmap_factory_round_trip:
  assumes "pool_inv P R" "size R < 2 ^ 32 - 1" "data_ok P" "malloc_ok E" "bitmap_legal b"
  shows "if factory_knows b
    then \<exists>q P' d. pdp_bitmap_factory E bc (bitmap_desc b) P = Some (q, P') \<and> is_bitmap b bc d P R q P' \<and> length d = bitmap_bytes b
    else pdp_bitmap_factory E bc (bitmap_desc b) P = Some (-1, P)"
proof -
  from new_bitmap_ok [OF assms, of bc] obtain q P' d where
    n: "pdp_packet_new_bitmap E bc (b_encoding b) (b_width b) (b_height b) P = Some (q, P')" "is_bitmap b bc d P R q P'" "length d = bitmap_bytes b" by blast
  then show ?thesis unfolding bitmap_factory_of_desc [OF assms(5)] by (auto simp: is_packet_def)
qed

section \<open>The factories in the registry\<close>

text \<open>
  The constructors of the two classes, as \<open>pdp_image_setup\<close> and \<open>pdp_bitmap_setup\<close> install them in the
  class records \<open>ic\<close> and \<open>bc\<close>.
\<close>

definition with_factories :: "nat \<Rightarrow> nat \<Rightarrow> methods \<Rightarrow> methods" where
  "with_factories ic bc E =
     E\<lparr>m_create := (\<lambda>c ty P. if c = ic then pdp_image_factory E (Some ic) ty P
                          else if c = bc then pdp_bitmap_factory E (Some bc) ty P else m_create E c ty P)\<rparr>"

lemma with_factories_simps [simp]:
  "methods_ok (with_factories ic bc E) = methods_ok E" "malloc_fits (with_factories ic bc E) = malloc_fits E"
  "malloc_ok (with_factories ic bc E) = malloc_ok E"
  by (simp_all add: with_factories_def methods_ok_def malloc_ok_def malloc_fits_def)

text \<open>The registry after both setups.\<close>

definition pictures_registered :: "nat \<Rightarrow> nat \<Rightarrow> pool \<Rightarrow> bool" where
  "pictures_registered ic bc P \<longleftrightarrow> ic \<noteq> bc \<and> class_list P = [bc, ic] \<and>
     c_type (classes P ic) = Some ''image/*/*'' \<and> c_create (classes P ic) \<and>
     c_type (classes P bc) = Some ''bitmap/*/*'' \<and> c_create (classes P bc)"

lemma setups_register:
  assumes "class_list (tpool T) = []" "ic \<noteq> bc"
  shows "pictures_registered ic bc (tpool (snd (pdp_bitmap_setup bc (snd (pdp_image_setup ic T)))))"
  using assms by (simp add: pictures_registered_def pdp_image_setup_def pdp_bitmap_setup_def pdp_class_new_def
    pdp_type_register_conversion_def Let_def)

text \<open>The descriptions of images and bitmaps that the factories can make.\<close>

definition picture_type :: "symbol \<Rightarrow> bool" where
  "picture_type td \<longleftrightarrow> (\<exists>im. image_legal im \<and> td = image_desc im) \<or> (\<exists>b. bitmap_legal b \<and> factory_knows b \<and> td = bitmap_desc b)"

lemma templates_split: "pdp_type_to_list ''image/*/*'' = [''image'', ''*'', ''*'']" "pdp_type_to_list ''bitmap/*/*'' = [''bitmap'', ''*'', ''*'']"
  by code_simp+

lemma image_type_templates:
  assumes "image_legal im"
  shows "\<not> types_match (image_desc im) ''bitmap/*/*''" "types_match (image_desc im) ''image/*/*''"
proof -
  have "\<exists>a b. desc_parts im = [''image'', a, b]"
    by (cases "i_encoding im = PDP_IMAGE_YV12"; cases "i_encoding im = PDP_IMAGE_GREY") (simp_all add: desc_parts_def)
  then obtain a b where p: "desc_parts im = [''image'', a, b]" by blast
  then have l: "pdp_type_to_list (image_desc im) = [''image'', a, b]" using desc_to_list [OF assms] by simp
  then have "image_desc im \<noteq> ''bitmap/*/*''" using templates_split(2) by auto
  with l show "\<not> types_match (image_desc im) ''bitmap/*/*''" "types_match (image_desc im) ''image/*/*''"
    by (simp_all add: types_match_def templates_split wild_eq_def PDP_SYM_WILDCARD_def Let_def)
qed

lemma bitmap_type_templates:
  assumes "bitmap_legal b"
  shows "types_match (bitmap_desc b) ''bitmap/*/*''" "\<not> types_match (bitmap_desc b) ''image/*/*''"
proof -
  obtain a d where l: "pdp_type_to_list (bitmap_desc b) = [''bitmap'', a, d]" using bitmap_desc_to_list [OF assms] by blast
  then have "bitmap_desc b \<noteq> ''image/*/*''" using templates_split(1) by auto
  with l show "types_match (bitmap_desc b) ''bitmap/*/*''" "\<not> types_match (bitmap_desc b) ''image/*/*''"
    by (simp_all add: types_match_def templates_split wild_eq_def PDP_SYM_WILDCARD_def Let_def)
qed

text \<open>The constructor call for a bitmap the factory knows asks for the bytes of its planes.\<close>

lemma new_bitmap_of_packet:
  assumes "bitmap_legal b" "factory_knows b"
  obtains sz where "unat sz = bitmap_bytes b"
    "\<And>E bc P. pdp_packet_new_bitmap E bc (b_encoding b) (b_width b) (b_height b) P =
      new_bitmap_packet E bc sz (b_encoding b) (b_width b) (b_height b) P"
proof -
  let ?w = "b_width b" and ?h = "b_height b"
  note legal = assms(1) [unfolded bitmap_legal_def] and sizes = bitmap_sizes [OF legal_area [OF assms(1)]]
  consider "b_encoding b = PDP_BITMAP_GREY" | "b_encoding b = PDP_BITMAP_RGB" | "b_encoding b = PDP_BITMAP_YV12"
    using assms(2) by (auto simp: factory_knows_def)
  then show thesis
  proof cases
    case 1
    then show thesis using sizes(1)
      by (intro that [of "?w * ?h"])
        (simp_all add: pdp_packet_new_bitmap_def pdp_packet_new_bitmap_grey_def Let_def bitmap_encodings bitmap_bytes_def)
  next
    case 2
    then have e: "bitmap_bytes b = 3 * (unat ?w * unat ?h)" by (simp add: bitmap_bytes_def bitmap_encodings Let_def)
    then have "3 * (unat ?w * unat ?h) < 2 ^ 32" using legal by simp
    then have "unat (?w * ?h * 3) = bitmap_bytes b" unfolding e by (rule sizes(3))
    then show thesis using 2
      by (rule_tac that) (simp_all add: pdp_packet_new_bitmap_def pdp_packet_new_bitmap_rgb_def Let_def bitmap_encodings)
  next
    case 3
    then have e: "bitmap_bytes b = unat ?w * unat ?h + unat ?w * unat ?h div 2" by (simp add: bitmap_bytes_def Let_def bitmap_encodings)
    then have "unat ?w * unat ?h + unat ?w * unat ?h div 2 < 2 ^ 32" using legal by simp
    then have "unat (?w * ?h + drop_bit 1 (?w * ?h)) = bitmap_bytes b" unfolding e by (rule sizes(2))
    then show thesis using 3
      by (rule_tac that) (simp_all add: pdp_packet_new_bitmap_def pdp_packet_new_bitmap_yv12_def Let_def bitmap_encodings)
  qed
qed

text \<open>The bitmap factory keeps the contract of constructors on the description of every legal bitmap.\<close>

lemma bitmap_factory_creates:
  assumes "pool_inv P R" "size R < 2 ^ 32 - 1" "malloc_fits E" "bitmap_legal b"
  shows "\<exists>q P'. pdp_bitmap_factory E bc (bitmap_desc b) P = Some (q, P') \<and> packet_made PDP_BITMAP (Bitmap b) (bitmap_desc b) bc P R q P' \<and>
    (malloc_ok E \<longrightarrow> factory_knows b \<longrightarrow> q \<noteq> -1)"
proof (cases "factory_knows b")
  case False
  then show ?thesis unfolding bitmap_factory_of_desc [OF assms(4)] using kept_refl [OF assms(1)] by (simp add: packet_made_def)
next
  case True
  obtain sz where sz: "unat sz = bitmap_bytes b"
    "\<And>E bc P. pdp_packet_new_bitmap E bc (b_encoding b) (b_width b) (b_height b) P =
      new_bitmap_packet E bc sz (b_encoding b) (b_width b) (b_height b) P" by (rule new_bitmap_of_packet [OF assms(4) True]) (rule that)
  note legal = assms(4) [unfolded bitmap_legal_def]
  have lt: "unat sz + 256 < 2 ^ 31" using sz(1) legal by simp
  then have "unat sz + 256 < 2 ^ 32" by simp
  note r = new_bitmap_packet_returns [OF assms(1-3) this, of bc "b_encoding b" "b_width b" "b_height b"]
  from r(1) r(2) [OF _ lt] obtain q P' where
    n: "new_bitmap_packet E bc sz (b_encoding b) (b_width b) (b_height b) P = Some (q, P')" "malloc_ok E \<longrightarrow> q \<noteq> -1" by fastforce
  have "b = \<lparr>b_encoding = b_encoding b, b_width = b_width b, b_height = b_height b, b_bpp = 0\<rparr>" using legal by simp
  from new_bitmap_packet_made(1) [OF assms(1,2) n(1) this] legal
  have m: "packet_made PDP_BITMAP (Bitmap b) (bitmap_desc b) bc P R q P'" by blast
  then have "pdp_bitmap_factory E bc (bitmap_desc b) P = Some (q, P')"
    unfolding bitmap_factory_of_desc [OF assms(4)] sz(2) using n(1) True by (auto simp: packet_made_def)
  with m n(2) show ?thesis by blast
qed

lemma registered_creates:
  assumes "pictures_registered ic bc P" "malloc_fits E"
  shows "image_legal im \<Longrightarrow> creates_ok (with_factories ic bc E) P (image_desc im)"
    and "bitmap_legal b \<Longrightarrow> creates_ok (with_factories ic bc E) P (bitmap_desc b)"
proof -
  note reg = assms(1) [unfolded pictures_registered_def]
  show "creates_ok (with_factories ic bc E) P (image_desc im)" if im: "image_legal im"
    unfolding creates_ok_def
  proof (intro ballI allI impI)
    fix c t Q R
    assume a: "c \<in> set (class_list P)" "c_type (classes P c) = Some t" "types_match (image_desc im) t" "pool_inv Q R" "size R < 2 ^ 32 - 1"
    then have c: "c = ic" using reg image_type_templates(1) [OF im] by auto
    from image_factory_creates [OF a(4,5) assms(2) im, of "Some ic"] obtain q Q' where
      q: "pdp_image_factory E (Some ic) (image_desc im) Q = Some (q, Q')" "image_made (Some ic) im Q R q Q'" by blast
    then have "delivered Q R q Q'" by (simp add: image_made_def split: if_splits)
    with q(1) show "\<exists>q Q'. m_create (with_factories ic bc E) c (image_desc im) Q = Some (q, Q') \<and> delivered Q R q Q'"
      unfolding c by (simp add: with_factories_def)
  qed
  show "creates_ok (with_factories ic bc E) P (bitmap_desc b)" if b: "bitmap_legal b"
    unfolding creates_ok_def
  proof (intro ballI allI impI)
    fix c t Q R
    assume a: "c \<in> set (class_list P)" "c_type (classes P c) = Some t" "types_match (bitmap_desc b) t" "pool_inv Q R" "size R < 2 ^ 32 - 1"
    then have c: "c = bc" "ic \<noteq> bc" using reg bitmap_type_templates(2) [OF b] by auto
    from bitmap_factory_creates [OF a(4,5) assms(2) b, of "Some bc"] obtain q Q' where
      q: "pdp_bitmap_factory E (Some bc) (bitmap_desc b) Q = Some (q, Q')"
      "packet_made PDP_BITMAP (Bitmap b) (bitmap_desc b) (Some bc) Q R q Q'" by blast
    then have "delivered Q R q Q'" by (simp add: packet_made_def split: if_splits)
    with q(1) show "\<exists>q Q'. m_create (with_factories ic bc E) c (bitmap_desc b) Q = Some (q, Q') \<and> delivered Q R q Q'"
      unfolding c(1) using c(2) by (simp add: with_factories_def)
  qed
qed

lemma factory_loop_step:
  assumes "pool_inv P R" "c_type (classes P c) = Some t"
  obtains tc where "kept P R (P\<lparr>tcache := tc\<rparr>)"
    "factory_loop E (Some ty) (c # cs) P =
      (if types_match ty t then if c_create (classes P c) then m_create E c ty (P\<lparr>tcache := tc\<rparr>) else Some (-1, P\<lparr>tcache := tc\<rparr>)
       else factory_loop E (Some ty) cs (P\<lparr>tcache := tc\<rparr>))"
proof -
  obtain m tc where mt: "pdp_type_description_match ty t (tcache P) = (m, tc)" by fastforce
  note M = match_cached [OF invD(2) [OF assms(1)] mt]
  have "kept P R (P\<lparr>tcache := tc\<rparr>)" using cache_inv [OF assms(1) M(2)] by (simp add: kept_def)
  then show thesis by (rule that) (use assms(2) mt M(1) in \<open>simp add: Let_def\<close>)
qed

text \<open>Which constructor a request reaches.\<close>

lemma factory_reaches:
  assumes "pictures_registered ic bc P" "pool_inv P R"
  shows "image_legal im \<Longrightarrow> \<exists>Q. kept P R Q \<and>
      factory_loop (with_factories ic bc E) (Some (image_desc im)) (class_list P) P = pdp_image_factory E (Some ic) (image_desc im) Q"
    and "bitmap_legal b \<Longrightarrow> \<exists>Q. kept P R Q \<and>
      factory_loop (with_factories ic bc E) (Some (bitmap_desc b)) (class_list P) P = pdp_bitmap_factory E (Some bc) (bitmap_desc b) Q"
proof -
  note reg = assms(1) [unfolded pictures_registered_def]
  let ?E = "with_factories ic bc E"
  show "\<exists>Q. kept P R Q \<and> factory_loop ?E (Some (image_desc im)) (class_list P) P = pdp_image_factory E (Some ic) (image_desc im) Q"
    if im: "image_legal im"
  proof -
    obtain t1 where 1: "kept P R (P\<lparr>tcache := t1\<rparr>)"
      "factory_loop ?E (Some (image_desc im)) [bc, ic] P = factory_loop ?E (Some (image_desc im)) [ic] (P\<lparr>tcache := t1\<rparr>)"
      using factory_loop_step [OF assms(2), of bc "''bitmap/*/*''" ?E "image_desc im" "[ic]"] reg image_type_templates(1) [OF im] by auto
    let ?P = "P\<lparr>tcache := t1\<rparr>"
    obtain t2 where 2: "kept ?P R (?P\<lparr>tcache := t2\<rparr>)"
      "factory_loop ?E (Some (image_desc im)) [ic] ?P = m_create ?E ic (image_desc im) (?P\<lparr>tcache := t2\<rparr>)"
      using factory_loop_step [OF kept_inv [OF 1(1)], of ic "''image/*/*''" ?E "image_desc im" "[]"] reg image_type_templates(2) [OF im]
      by auto
    show ?thesis using kept_trans [OF 1(1) 2(1)] 1(2) 2(2) reg by (auto simp: with_factories_def)
  qed
  show "\<exists>Q. kept P R Q \<and> factory_loop ?E (Some (bitmap_desc b)) (class_list P) P = pdp_bitmap_factory E (Some bc) (bitmap_desc b) Q"
    if b: "bitmap_legal b"
  proof -
    obtain t1 where 1: "kept P R (P\<lparr>tcache := t1\<rparr>)"
      "factory_loop ?E (Some (bitmap_desc b)) [bc, ic] P = m_create ?E bc (bitmap_desc b) (P\<lparr>tcache := t1\<rparr>)"
      using factory_loop_step [OF assms(2), of bc "''bitmap/*/*''" ?E "bitmap_desc b" "[ic]"] reg bitmap_type_templates(1) [OF b] by auto
    then show ?thesis using reg by (auto simp: with_factories_def)
  qed
qed

text \<open>What both factories deliver for a type they know.\<close>

definition exactly :: "methods \<Rightarrow> symbol \<Rightarrow> pool \<Rightarrow> int multiset \<Rightarrow> int \<Rightarrow> pool \<Rightarrow> bool" where
  "exactly E td P R q P' \<longleftrightarrow>
     (if q = -1 then kept P R P' \<and> \<not> malloc_ok E else made P R q P' \<and> pdp_packet_get_description q P' = td)"

lemma factories_exact:
  assumes "pool_inv P R" "size R < 2 ^ 32 - 1" "malloc_fits E"
  shows "image_legal im \<Longrightarrow> \<exists>q P'. pdp_image_factory E ic (image_desc im) P = Some (q, P') \<and> exactly E (image_desc im) P R q P'"
    and "bitmap_legal b \<Longrightarrow> factory_knows b \<Longrightarrow>
      \<exists>q P'. pdp_bitmap_factory E bc (bitmap_desc b) P = Some (q, P') \<and> exactly E (bitmap_desc b) P R q P'"
  using image_factory_creates [OF assms, of im ic] bitmap_factory_creates [OF assms, of b bc]
  by (fastforce simp: exactly_def image_made_def packet_made_def pdp_packet_get_description_def)+

text \<open>
  C17: once \<open>pdp_image_setup\<close> and \<open>pdp_bitmap_setup\<close> have registered their classes, a request to
  \<open>pdp_factory_newpacket\<close> for the type of any image, or of any grey, yv12 or rgb bitmap, below 2 GB always returns: with \<open>-1\<close>
  and every held packet as it was, which can only be when \<open>malloc\<close> fails, or with a packet that nobody held, writable, whose type
  matches the request.
\<close>

theorem factory_delivers_pictures:
  assumes "pictures_registered ic bc P" "methods_ok E" "malloc_fits E" "pool_inv P R" "size R < 2 ^ 32 - 1" "picture_type td"
  shows "\<exists>q P'. pdp_factory_newpacket (with_factories ic bc E) (Some td) P = Some (q, P') \<and>
    (if q = -1 then kept P R P' \<and> \<not> malloc_ok E
     else made P R q P' \<and> types_match (pdp_packet_get_description q P') td)"
proof -
  let ?E = "with_factories ic bc E"
  have E: "methods_ok ?E" using assms(2) by simp
  from reuse_ok [OF E assms(4,5), of td] obtain q P1 where
    r: "pdp_packet_reuse ?E (Some td) P = Some (q, P1)" "reused td P R q P1" by blast
  show ?thesis
  proof (cases "q = -1")
    case False
    then show ?thesis using r by (auto simp: pdp_factory_newpacket_def reused_def pdp_packet_get_description_def)
  next
    case True
    with r have k: "kept P R P1" by (simp add: reused_def)
    have reg: "pictures_registered ic bc P1" using reuse_classes [OF r(1)] assms(1) by (simp add: pictures_registered_def)
    note F = factory_reaches [OF reg kept_inv [OF k]]
    have "\<exists>Q q P'. kept P1 R Q \<and> factory_loop ?E (Some td) (class_list P1) P1 = Some (q, P') \<and> exactly E td Q R q P'"
      using assms(6) unfolding picture_type_def
    proof (elim disjE exE conjE)
      fix im assume im: "image_legal im" "td = image_desc im"
      from F(1) [OF im(1)] factories_exact(1) [OF kept_inv assms(5,3) im(1)] show ?thesis unfolding im(2) by metis
    next
      fix b assume b: "bitmap_legal b" "factory_knows b" "td = bitmap_desc b"
      from F(2) [OF b(1)] factories_exact(2) [OF kept_inv assms(5,3) b(1,2)] show ?thesis unfolding b(3) by metis
    qed
    then obtain Q x P' where Q: "kept P1 R Q" "factory_loop ?E (Some td) (class_list P1) P1 = Some (x, P')" "exactly E td Q R x P'" by blast
    note kq = kept_trans [OF k Q(1)]
    have "if x = -1 then kept P R P' \<and> \<not> malloc_ok E else made P R x P' \<and> types_match (pdp_packet_get_description x P') td"
      using Q(3) kept_trans [OF kq] kept_made [OF kq] by (auto simp: exactly_def types_match_def split: if_splits)
    then show ?thesis using r(1) True Q(2) by (simp add: pdp_factory_newpacket_def)
  qed
qed

section \<open>All conversions\<close>

text \<open>
  C7: once \<open>pdp_image_setup\<close> and \<open>pdp_bitmap_setup\<close> have registered their conversions, whatever chain of them the registry
  finds for a packet, if it returns (a chain that accesses memory out of bounds or dereferences \<open>NULL\<close> has no result), leaves the
  references right: every held packet is untouched, intermediate packets have been released, the result is \<open>-1\<close> or a
  packet of the caller's alone.
\<close>

theorem all_conversions_keep_references:
  assumes "methods_ok E" "size R < 2 ^ 32 - 3" "tstate_ok T0 R"
    and "pdp_image_setup c T0 = (ic, T1)" "pdp_bitmap_setup c' T1 = (bc, T)"
    and "pdp_packet_convert E (pdp_conv_method E ic bc) p d T = Some (q, T')"
  shows "conversion T R q T'"
  using convert_ok [OF assms(1) pdp_conv_ok [OF assms(1)] assms(2) bitmap_setup_ok [OF image_setup_ok [OF assms(3,4)] assms(5)] assms(6)] by blast

text \<open>The registry of a program with one grey image, after both setups, and its methods.\<close>

definition start_state :: tstate where
  "start_state = snd (pdp_bitmap_setup 8 (snd (pdp_image_setup 7 reg_state)))"

definition start_methods :: methods where
  "start_methods = with_factories 7 8 plain_methods"

lemma start_ok: "methods_ok start_methods" "malloc_ok start_methods" "malloc_fits start_methods"
  using plain_methods_ok plain_malloc_ok by (simp_all add: start_methods_def)

lemma start_setups: "pdp_image_setup 7 reg_state = (Some 7, snd (pdp_image_setup 7 reg_state))"
  "pdp_bitmap_setup 8 (snd (pdp_image_setup 7 reg_state)) = (Some 8, start_state)"
  by (simp_all add: start_state_def pdp_image_setup_def pdp_bitmap_setup_def Let_def)

theorem all_conversions_keep_references_witness:
  "\<exists>T'. pdp_packet_convert start_methods (pdp_conv_method start_methods (Some 7) (Some 8)) 0 ''bitmap/i420/*'' start_state = Some (2, T') \<and>
     conversion start_state {#0#} 2 T'"
proof -
  have "map_option fst (pdp_packet_convert start_methods (pdp_conv_method start_methods (Some 7) (Some 8)) 0 ''bitmap/i420/*'' start_state) = Some 2"
    by code_simp
  then obtain T' where
    c: "pdp_packet_convert start_methods (pdp_conv_method start_methods (Some 7) (Some 8)) 0 ''bitmap/i420/*'' start_state = Some (2, T')"
    by auto
  have "conversion start_state {#0#} 2 T'"
    by (rule all_conversions_keep_references [OF start_ok(1) _ reg_state_ok start_setups c]) simp
  with c show ?thesis by blast
qed

theorem factory_delivers_pictures_witness:
  "pictures_registered 7 8 (tpool start_state) \<and> picture_type (image_desc small_image) \<and>
   (\<exists>q P'. pdp_factory_newpacket start_methods (Some (image_desc small_image)) (tpool start_state) = Some (q, P') \<and>
      made (tpool start_state) {#0#} q P' \<and> types_match (pdp_packet_get_description q P') (image_desc small_image))"
proof -
  have reg: "pictures_registered 7 8 (tpool start_state)"
    unfolding start_state_def by (rule setups_register)
      (simp_all add: reg_state_def demo_pool_def pdp_packet_setup_def empty_pool_def)
  have ty: "picture_type (image_desc small_image)" using small_legal by (auto simp: picture_type_def)
  have "tstate_ok start_state {#0#}" by (rule bitmap_setup_ok [OF image_setup_ok [OF reg_state_ok start_setups(1)] start_setups(2)])
  then have inv: "pool_inv (tpool start_state) {#0#}" by (simp add: tstate_ok_def)
  from factory_delivers_pictures [OF reg plain_methods_ok plain_malloc_ok(2) inv _ ty] plain_malloc_ok(1) reg ty
  show ?thesis unfolding start_methods_def by (auto split: if_splits)
qed

section \<open>Inhabitants\<close>

definition small_bitmap :: "u32 \<Rightarrow> t_bitmap" where
  "small_bitmap enc = \<lparr>b_encoding = enc, b_width = 4, b_height = 4, b_bpp = 0\<rparr>"

lemma small_bitmap_bytes: "bitmap_bytes (small_bitmap enc) =
    (if enc = PDP_BITMAP_RGB then 48 else if enc = PDP_BITMAP_RGBA then 64 else if enc = PDP_BITMAP_GREY then 16 else 24)"
  by (simp add: bitmap_bytes_def small_bitmap_def)

lemma small_bitmap_legal:
  "bitmap_legal (small_bitmap PDP_BITMAP_RGB)" "bitmap_legal (small_bitmap PDP_BITMAP_RGBA)" "bitmap_legal (small_bitmap PDP_BITMAP_GREY)"
  "bitmap_legal (small_bitmap PDP_BITMAP_YV12)" "bitmap_legal (small_bitmap PDP_BITMAP_I420)"
  by (simp_all add: bitmap_legal_def small_bitmap_bytes) (simp_all add: small_bitmap_def)

lemma bitmap_exists:
  assumes "bitmap_legal b"
  shows "\<exists>P p s. pool_inv P {#p#} \<and> data_ok P \<and> held p PDP_BITMAP (Bitmap b) s P {#p#} \<and> length s = bitmap_bytes b"
proof -
  from new_bitmap_ok [OF setup_pool_ok(1) _ setup_pool_ok(2) plain_malloc_ok(1) assms, of None] obtain q P' d where
    "is_bitmap b None d (pdp_packet_setup empty_pool) {#} q P'" "length d = bitmap_bytes b" by auto
  with held_made show ?thesis by (metis add_mset_add_single)
qed

lemma is_packet_data: "is_packet ty i ds c d P R q P' \<Longrightarrow> pdp_packet_data q P' = Some d"
  by (auto simp: is_packet_def pdp_packet_data_def)

theorem rgb_rgba_round_trip_witness:
  "\<exists>P p s q P1 r P2. bitmap_convert_rgb8_to_rgba8 plain_methods None p '''' P = Some (q, P1) \<and>
     bitmap_convert_rgba8_to_rgb8 plain_methods None q '''' P1 = Some (r, P2) \<and>
     pdp_packet_data p P = Some s \<and> pdp_packet_data r P2 = Some s \<and> length s = 48"
proof -
  let ?b = "small_bitmap PDP_BITMAP_RGB"
  have e: "encoded PDP_BITMAP_RGBA ?b = small_bitmap PDP_BITMAP_RGBA" "b_encoding ?b = PDP_BITMAP_RGB"
    by (simp_all add: encoded_def small_bitmap_def)
  have len: "bitmap_bytes ?b = 48" by (simp add: small_bitmap_bytes)
  from bitmap_exists [OF small_bitmap_legal(1)] obtain P p s where
    H: "pool_inv P {#p#}" "data_ok P" "held p PDP_BITMAP (Bitmap ?b) s P {#p#}" "length s = 48" unfolding len by blast
  from rgb_rgba_round_trip [OF H(1) _ H(2) plain_malloc_ok(1) H(3) e(2), of None "''''" "''''"] small_bitmap_legal(2) H(4) len
  show ?thesis unfolding e using held_reads(3) [OF H(3)] H(4) by (fastforce dest: is_packet_data)
qed

theorem yv12_i420_round_trip_witness:
  "\<exists>P p s q P1 r P2. bitmap_convert_yv12_tofrom_i420 plain_methods None p '''' P = Some (q, P1) \<and>
     bitmap_convert_yv12_tofrom_i420 plain_methods None q '''' P1 = Some (r, P2) \<and>
     pdp_packet_data p P = Some s \<and> pdp_packet_data r P2 = Some s \<and> length s = 24"
proof -
  let ?b = "small_bitmap PDP_BITMAP_YV12"
  have pl: "planar ?b 16" using small_bitmap_legal(4) by (simp add: planar_def) (simp add: small_bitmap_def)
  have len: "bitmap_bytes ?b = 24" by (simp add: small_bitmap_bytes bitmap_encodings)
  from bitmap_exists [OF small_bitmap_legal(4)] obtain P p s where
    H: "pool_inv P {#p#}" "data_ok P" "held p PDP_BITMAP (Bitmap ?b) s P {#p#}" "length s = 24" unfolding len by blast
  from yv12_i420_round_trip [OF H(1) _ H(2) plain_malloc_ok(1) H(3) pl, of None "''''" "''''"] H(4) len
  show ?thesis using held_reads(3) [OF H(3)] H(4) by (fastforce dest: is_packet_data)
qed

theorem yv12_image_round_trip_witness:
  "\<exists>P p s q P1 r P2. bitmap_convert_yv12_to_image plain_methods None p '''' P = Some (q, P1) \<and>
     bitmap_convert_image_to_yv12 plain_methods None q '''' P1 = Some (r, P2) \<and>
     pdp_packet_data p P = Some s \<and> pdp_packet_data r P2 = Some s \<and> length s = 24"
proof -
  let ?b = "small_bitmap PDP_BITMAP_YV12"
  have e: "b_encoding ?b = PDP_BITMAP_YV12" "convertible (yv12_image ?b)"
    by (simp_all add: small_bitmap_def convertible_def yv12_image_def)
  have len: "bitmap_bytes ?b = 24" by (simp add: small_bitmap_bytes bitmap_encodings)
  from bitmap_exists [OF small_bitmap_legal(4)] obtain P p s where
    H: "pool_inv P {#p#}" "data_ok P" "held p PDP_BITMAP (Bitmap ?b) s P {#p#}" "length s = 24" unfolding len by blast
  from yv12_image_round_trip [OF H(1) _ H(2) plain_malloc_ok(1) H(3) e(1) small_bitmap_legal(4) e(2), of None "''''" None "''''"] H(4) len
  show ?thesis using held_reads(3) [OF H(3)] H(4) by (fastforce dest: is_packet_data)
qed

theorem grey8_to_grey_writes_nothing_witness:
  "\<exists>P p s. pdp_packet_data p P = Some s \<and> length s = 16 \<and>
     bitmap_convert_grey8_to_grey plain_methods None p '''' P = pdp_packet_new_image_grey plain_methods None 4 4 P"
proof -
  let ?b = "small_bitmap PDP_BITMAP_GREY"
  have len: "bitmap_bytes ?b = 16" by (simp add: small_bitmap_bytes bitmap_encodings)
  from bitmap_exists [OF small_bitmap_legal(3)] obtain P p s where
    H: "pool_inv P {#p#}" "data_ok P" "held p PDP_BITMAP (Bitmap ?b) s P {#p#}" "length s = 16" unfolding len by blast
  from grey8_to_grey_writes_nothing [OF H(1) _ H(3), of plain_methods None "''''"] held_reads(3) [OF H(3)] H(4) show ?thesis
    by (auto simp: small_bitmap_def)
qed

theorem bitmap_factory_round_trip_witness:
  "pdp_bitmap_factory plain_methods None ''bitmap/rgba/4x4'' (pdp_packet_setup empty_pool) = Some (-1, pdp_packet_setup empty_pool) \<and>
   (\<exists>q P'. pdp_bitmap_factory plain_methods None ''bitmap/rgb/4x4'' (pdp_packet_setup empty_pool) = Some (q, P') \<and> pdp_packet_bitmap_isvalid q P')"
proof -
  note F = bitmap_factory_round_trip [OF setup_pool_ok(1) _ setup_pool_ok(2) plain_malloc_ok(1), of _ None]
  have d: "bitmap_desc (small_bitmap PDP_BITMAP_RGBA) = ''bitmap/rgba/4x4''" "bitmap_desc (small_bitmap PDP_BITMAP_RGB) = ''bitmap/rgb/4x4''"
    by code_simp+
  have k: "\<not> factory_knows (small_bitmap PDP_BITMAP_RGBA)" "factory_knows (small_bitmap PDP_BITMAP_RGB)"
    by (simp_all add: factory_knows_def small_bitmap_def bitmap_encodings)
  show ?thesis using F [OF _ small_bitmap_legal(2)] F [OF _ small_bitmap_legal(1)] unfolding d
    by (auto simp: k is_packet_def pdp_packet_bitmap_isvalid_def)
qed

end
