(* ===== verification/Net.thy ===== *)
theory Net
  imports Pixels
begin

text \<open>
  The UDP transport of \<^verbatim>\<open>system/net/pdp_net.c\<close>: packet data cut into numbered chunks, a header packet
  that opens a transmission, a DONE packet answered with the list of chunks to send again.

  Datagrams are byte lists; the header and the control bodies are read and written as little endian
  words, as the structures lie in memory. The socket is a parameter: what \<open>select\<close> and \<open>recv\<close> deliver is a
  sequence of \<open>event\<close>s (an exhausted sequence times out), what is sent is appended to the field \<open>out\<close>.
  \<open>PDP_ASSERT\<close> is empty in release builds: the model goes on behind it. \<open>None\<close> is an access outside a
  buffer or a division by zero. Addresses, messages and \<open>usleep\<close> are left out; \<open>pdp_alloc\<close> does not fail.
\<close>

section \<open>Datagrams\<close>

type_synonym bytes = "u8 list"

definition MAX_UDP_PACKET :: int where
  "MAX_UDP_PACKET = 1472"

definition HEADER_SIZE :: nat where
  "HEADER_SIZE = 16"

definition RESEND_MAX_CHUNKS :: nat where
  "RESEND_MAX_CHUNKS = nat ((MAX_UDP_PACKET - int HEADER_SIZE) div 4)"

definition PDP_UDP_BUFSIZE :: int where
  "PDP_UDP_BUFSIZE = 0xF000"

definition PDP_UDP_VERSION :: u32 where
  "PDP_UDP_VERSION = 1"

definition PDP_UDP_NEW :: u32 where
  "PDP_UDP_NEW = -1"

definition PDP_UDP_DONE :: u32 where
  "PDP_UDP_DONE = -2"

definition PDP_UDP_RESEND :: u32 where
  "PDP_UDP_RESEND = -3"

definition PDP_UDP_ACKNEW :: u32 where
  "PDP_UDP_ACKNEW = -4"

text \<open>The characters of \<open>PDP\<close> with the terminator.\<close>

definition signature_PDP :: bytes where
  "signature_PDP = [80, 68, 80, 0]"

record t_pdp_udp_header =
  signature :: bytes
  version :: u32
  connection_id :: u32
  sequence_number :: u32

definition le32 :: "u32 \<Rightarrow> bytes" where
  "le32 w = [ucast w, ucast (drop_bit 8 w), ucast (drop_bit 16 w), ucast (drop_bit 24 w)]"

definition un32 :: "u8 \<Rightarrow> u8 \<Rightarrow> u8 \<Rightarrow> u8 \<Rightarrow> u32" where
  "un32 a b c d = ucast a OR push_bit 8 (ucast b) OR push_bit 16 (ucast c) OR push_bit 24 (ucast d)"

text \<open>
  A fixed-size buffer is a function from byte offsets; what it holds beyond the bytes a datagram has just
  written is what was there before. An \<open>unsigned int\<close> at byte \<open>i\<close>, and the bytes of a copy of \<open>n\<close> bytes.
\<close>

type_synonym buffer = "nat \<Rightarrow> u8"

definition fill :: "bytes \<Rightarrow> buffer \<Rightarrow> buffer" where
  "fill new old = (\<lambda>i. if i < length new then new ! i else old i)"

definition word_at :: "buffer \<Rightarrow> nat \<Rightarrow> u32" where
  "word_at b i = un32 (b i) (b (i + 1)) (b (i + 2)) (b (i + 3))"

definition bytes_of :: "buffer \<Rightarrow> nat \<Rightarrow> bytes" where
  "bytes_of b n = map b [0..<n]"

text \<open>The string that starts at offset \<open>i\<close> and has at most \<open>n\<close> characters before the end of the buffer.\<close>

function cstring :: "buffer \<Rightarrow> nat \<Rightarrow> int \<Rightarrow> bytes" where
  "cstring b i n = (if n \<le> 0 \<or> b i = 0 then [] else b i # cstring b (i + 1) (n - 1))"
  by pat_completeness auto

termination cstring
  by (relation "measure (\<lambda>(b, i, n). nat n)") auto

declare cstring.simps [simp del]

definition header_bytes :: "t_pdp_udp_header \<Rightarrow> bytes" where
  "header_bytes h = signature h @ le32 (version h) @ le32 (connection_id h) @ le32 (sequence_number h)"

definition header_of :: "buffer \<Rightarrow> t_pdp_udp_header" where
  "header_of b = \<lparr>signature = bytes_of b 4, version = word_at b 4, connection_id = word_at b 8, sequence_number = word_at b 12\<rparr>"

text \<open>The header after a datagram of any length has been read over it.\<close>

definition read_header :: "bytes \<Rightarrow> t_pdp_udp_header \<Rightarrow> t_pdp_udp_header" where
  "read_header dg h = header_of (fill dg (\<lambda>i. header_bytes h ! i))"

definition is_udp_header :: "t_pdp_udp_header \<Rightarrow> nat \<Rightarrow> bool" where
  "is_udp_header header sz =
     (if sz < HEADER_SIZE then False
      else if signature header \<noteq> signature_PDP then False
      else if PDP_UDP_VERSION \<noteq> version header then False
      else True)"

definition make_udp_header :: "t_pdp_udp_header \<Rightarrow> t_pdp_udp_header" where
  "make_udp_header header = header\<lparr>signature := signature_PDP, version := PDP_UDP_VERSION\<rparr>"

text \<open>What a wait for a datagram can bring.\<close>

datatype event = SelectError | SelectTimeout | RecvError | Datagram bytes

text \<open>What \<open>recv\<close> delivers into a buffer of \<open>n\<close> bytes: the rest of a longer datagram is lost.\<close>

definition recv :: "int \<Rightarrow> bytes \<Rightarrow> bytes" where
  "recv n dg = (if int (length dg) > n then take (nat n) dg else dg)"

section \<open>The receiver\<close>

record t_pdp_udp_receiver =
  x_header :: t_pdp_udp_header
  x_buf :: buffer
  x_buf_size :: u32
  x_resend_header :: t_pdp_udp_header
  x_resend_chunks :: "u32 list"
  x_resend_udp_packet_size :: nat
  x_connection_id :: u32
  x_nb_chunks :: u32
  x_chunk_size :: u32
  x_chunk_list :: "bool list"
  x_data_type :: "bytes option"
  x_data_size :: u32
  x_data :: bytes
  x_receive_finished :: bool
  x_packet_transferred :: bool
  out :: "bytes list"

definition blank_header :: t_pdp_udp_header where
  "blank_header = \<lparr>signature = [0, 0, 0, 0], version = 0, connection_id = 0, sequence_number = 0\<rparr>"

text \<open>\<open>pdp_udp_receiver_new\<close> after its socket has been bound.\<close>

definition pdp_udp_receiver_new :: t_pdp_udp_receiver where
  "pdp_udp_receiver_new =
     \<lparr>x_header = blank_header, x_buf = (\<lambda>_. 0), x_buf_size = 0, x_resend_header = blank_header,
      x_resend_chunks = replicate RESEND_MAX_CHUNKS 0, x_resend_udp_packet_size = 0, x_connection_id = 0, x_nb_chunks = 0,
      x_chunk_size = 0, x_chunk_list = [], x_data_type = None, x_data_size = 0, x_data = [], x_receive_finished = False,
      x_packet_transferred = False, out = []\<rparr>"

definition pdp_udp_receiver_reset :: "t_pdp_udp_receiver \<Rightarrow> t_pdp_udp_receiver" where
  "pdp_udp_receiver_reset x = x\<lparr>x_connection_id := 0\<rparr>"

definition send_packet :: "t_pdp_udp_receiver \<Rightarrow> t_pdp_udp_receiver" where
  "send_packet x =
     (let x = x\<lparr>x_resend_header := make_udp_header (x_resend_header x)\<rparr>;
          bs = header_bytes (x_resend_header x) @ concat (map le32 (x_resend_chunks x))
      in x\<lparr>out := out x @ [take (x_resend_udp_packet_size x) bs]\<rparr>)"

definition send_ack_new :: "t_pdp_udp_receiver \<Rightarrow> t_pdp_udp_receiver" where
  "send_ack_new x =
     (let h = x_resend_header x;
          x = x\<lparr>x_resend_header := h\<lparr>connection_id := x_connection_id x, sequence_number := PDP_UDP_ACKNEW\<rparr>,
                x_resend_udp_packet_size := HEADER_SIZE\<rparr>
      in send_packet x)"

text \<open>The type string ends at a zero byte, at the latest with the terminator behind the buffer.\<close>

definition handle_PDP_UDP_NEW :: "t_pdp_udp_receiver \<Rightarrow> t_pdp_udp_receiver" where
  "handle_PDP_UDP_NEW x =
     (let np = x_buf x;
          x = (if x_connection_id x \<noteq> connection_id (x_header x)
               then x\<lparr>x_data_type := Some (cstring np 12 (PDP_UDP_BUFSIZE - 12)),
                      x_data_size := word_at np 0,
                      x_data := replicate (unat (word_at np 0)) 0,
                      x_connection_id := connection_id (x_header x),
                      x_nb_chunks := word_at np 4,
                      x_chunk_size := word_at np 8,
                      x_chunk_list := replicate (unat (word_at np 4)) False,
                      x_receive_finished := False,
                      x_packet_transferred := False\<rparr>
               else x)
      in send_ack_new x)"

text \<open>\<open>while (x->x_chunk_list[chunk]) chunk++\<close>, and the loop that fills the resend list from its end.\<close>

function next_missing :: "bool list \<Rightarrow> nat \<Rightarrow> nat option" where
  "next_missing cl chunk =
     (if chunk < length cl then (if cl ! chunk then next_missing cl (chunk + 1) else Some chunk) else None)"
  by pat_completeness auto

termination next_missing
  by (relation "measure (\<lambda>(cl, chunk). length cl - chunk)") simp_all

primrec resend_loop :: "bool list \<Rightarrow> nat \<Rightarrow> nat \<Rightarrow> u32 list \<Rightarrow> u32 list option" where
  "resend_loop cl 0 chunk rs = Some rs"
| "resend_loop cl (Suc i) chunk rs =
     do { c \<leftarrow> next_missing cl chunk;
          rs \<leftarrow> wr rs (int i) (of_nat c);
          resend_loop cl i (c + 1) rs }"

definition handle_PDP_UDP_DONE :: "t_pdp_udp_receiver \<Rightarrow> t_pdp_udp_receiver option" where
  "handle_PDP_UDP_DONE x =
     (if x_connection_id x \<noteq> connection_id (x_header x) then Some x
      else do { let missing = length (filter Not (x_chunk_list x));
                let missing = (if missing > RESEND_MAX_CHUNKS then RESEND_MAX_CHUNKS else missing);
                rs \<leftarrow> resend_loop (x_chunk_list x) missing 0 (x_resend_chunks x);
                let x = x\<lparr>x_resend_chunks := rs, x_resend_udp_packet_size := HEADER_SIZE + missing * 4,
                          x_resend_header := \<lparr>signature = signature_PDP, version = PDP_UDP_VERSION,
                             connection_id = x_connection_id x, sequence_number = PDP_UDP_RESEND\<rparr>\<rparr>;
                let x = send_packet x;
                Some (if missing = 0 then x\<lparr>x_receive_finished := True\<rparr> else x) })"

text \<open>The copy of a chunk; the bound on it is only asserted.\<close>

definition handle_UDP_DATA :: "t_pdp_udp_receiver \<Rightarrow> t_pdp_udp_receiver option" where
  "handle_UDP_DATA x =
     (let seq = sequence_number (x_header x);
          offset = unat (x_chunk_size x * seq);
          n = unat (x_buf_size x)
      in if x_connection_id x = 0 \<or> x_connection_id x \<noteq> connection_id (x_header x) then Some x
         else if seq \<ge> x_nb_chunks x then Some x
         else if offset + n \<le> length (x_data x)
         then Some (x\<lparr>x_data := take offset (x_data x) @ bytes_of (x_buf x) n @ drop (offset + n) (x_data x),
                      x_chunk_list := (x_chunk_list x)[unat seq := True]\<rparr>)
         else None)"

definition pdp_udp_receiver_receive :: "event \<Rightarrow> t_pdp_udp_receiver \<Rightarrow> (int \<times> t_pdp_udp_receiver) option" where
  "pdp_udp_receiver_receive ev x =
     (case ev of
        SelectError \<Rightarrow> Some (-1, x)
      | SelectTimeout \<Rightarrow> Some (0, x)
      | RecvError \<Rightarrow> Some (-1, x)
      | Datagram dg \<Rightarrow>
          (let dg = recv (PDP_UDP_BUFSIZE + int HEADER_SIZE) dg;
               sz = length dg;
               x = x\<lparr>x_header := read_header dg (x_header x), x_buf := fill (drop HEADER_SIZE dg) (x_buf x),
                     x_buf_size := of_nat sz - of_nat HEADER_SIZE\<rparr>
           in if is_udp_header (x_header x) sz
              then if sint (sequence_number (x_header x)) < 0
                   then if sequence_number (x_header x) = PDP_UDP_NEW then Some (0, handle_PDP_UDP_NEW x)
                        else if sequence_number (x_header x) = PDP_UDP_DONE
                        then do { x \<leftarrow> handle_PDP_UDP_DONE x;
                                  if x_receive_finished x \<and> \<not> x_packet_transferred x
                                  then Some (1, x\<lparr>x_packet_transferred := True\<rparr>)
                                  else Some (0, x) }
                        else Some (0, x)
                   else do { x \<leftarrow> handle_UDP_DATA x; Some (0, x) }
              else Some (0, x)))"

end
