(* ===== verification/NetSend.thy ===== *)
theory NetSend
  imports Net
begin

text \<open>
  The sending side of \<^verbatim>\<open>system/net/pdp_net.c\<close>. The fields of the sender carry the prefix \<open>s_\<close> where the
  source has \<open>x_\<close>, to stay apart from the receiver's. The environment is part of the state: \<open>inbox\<close> holds
  what the coming waits bring (a wait on the empty inbox times out), \<open>rands\<close> what the coming calls of
  \<open>rand\<close> return, \<open>sent\<close> the datagrams handed to \<open>sendto\<close>. \<open>None\<close> is an access outside a buffer, a division
  by zero, or a \<open>rand\<close> that never returns a number other than zero.
\<close>

section \<open>State and setup\<close>

record t_pdp_udp_sender =
  s_udp_payload_size :: u32
  s_connection_id :: u32
  s_data_type :: bytes
  s_data :: bytes
  s_data_size :: u32
  s_chunk_size :: u32
  s_chunk_list :: "u32 list"
  s_nb_chunks :: u32
  s_chunk_list_size :: u32
  s_socket :: int
  s_sleepgrain_us :: u32
  s_sleep_count :: u32
  s_sleep_period :: u32
  s_timeout_us :: u32
  s_header :: t_pdp_udp_header
  s_buf :: buffer
  s_buf_size :: u32
  s_resend_header :: t_pdp_udp_header
  s_resend_chunks :: buffer
  s_resend_items :: u32
  inbox :: "event list"
  rands :: "u32 list"
  sent :: "bytes list"

definition pdp_udp_sender_timeout_us :: "t_pdp_udp_sender \<Rightarrow> u32 \<Rightarrow> t_pdp_udp_sender" where
  "pdp_udp_sender_timeout_us x timeout_us = x\<lparr>s_timeout_us := timeout_us\<rparr>"

definition pdp_udp_sender_sleepgrain_us :: "t_pdp_udp_sender \<Rightarrow> u32 \<Rightarrow> t_pdp_udp_sender" where
  "pdp_udp_sender_sleepgrain_us x sleepgrain_us = x\<lparr>s_sleepgrain_us := sleepgrain_us\<rparr>"

definition pdp_udp_sender_sleepperiod :: "t_pdp_udp_sender \<Rightarrow> u32 \<Rightarrow> t_pdp_udp_sender" where
  "pdp_udp_sender_sleepperiod x sleepperiod = x\<lparr>s_sleep_period := sleepperiod\<rparr>"

definition pdp_udp_sender_udp_packet_size :: "t_pdp_udp_sender \<Rightarrow> u32 \<Rightarrow> t_pdp_udp_sender" where
  "pdp_udp_sender_udp_packet_size x udp_packet_size =
     (let i = udp_packet_size - of_nat HEADER_SIZE;
          i = (if sint i > PDP_UDP_BUFSIZE then of_int PDP_UDP_BUFSIZE else i)
      in x\<lparr>s_udp_payload_size := i\<rparr>)"

text \<open>The host lookup and the new socket are given: \<open>hp\<close> says whether the host was found.\<close>

definition pdp_udp_sender_connect :: "t_pdp_udp_sender \<Rightarrow> bool \<Rightarrow> int \<Rightarrow> t_pdp_udp_sender" where
  "pdp_udp_sender_connect x hp new_socket =
     (if \<not> hp then x
      else if s_socket x = -1 then x\<lparr>s_socket := new_socket\<rparr> else x)"

definition pdp_udp_sender_new :: "event list \<Rightarrow> u32 list \<Rightarrow> t_pdp_udp_sender" where
  "pdp_udp_sender_new evs rs =
     (let x = \<lparr>s_udp_payload_size = 0, s_connection_id = 0, s_data_type = [], s_data = [], s_data_size = 0,
               s_chunk_size = 0, s_chunk_list = [], s_nb_chunks = 0, s_chunk_list_size = 0, s_socket = -1,
               s_sleepgrain_us = 0, s_sleep_count = 0, s_sleep_period = 0, s_timeout_us = 0,
               s_header = blank_header, s_buf = (\<lambda>_. 0), s_buf_size = 0, s_resend_header = blank_header,
               s_resend_chunks = (\<lambda>_. 0), s_resend_items = 0, inbox = evs, rands = rs, sent = []\<rparr>;
          x = pdp_udp_sender_timeout_us x 50000;
          x = x\<lparr>s_sleep_count := 0\<rparr>;
          x = pdp_udp_sender_sleepgrain_us x 0;
          x = pdp_udp_sender_sleepperiod x 50
      in pdp_udp_sender_udp_packet_size x 1472)"

section \<open>Sending\<close>

definition flow_sleep :: "t_pdp_udp_sender \<Rightarrow> t_pdp_udp_sender" where
  "flow_sleep x =
     (let sleep_period = s_sleep_period x
      in if sleep_period \<noteq> 0 then x\<lparr>s_sleep_count := (s_sleep_count x + 1) mod sleep_period\<rparr> else x)"

definition send_datagram :: "t_pdp_udp_sender \<Rightarrow> t_pdp_udp_sender option" where
  "send_datagram x =
     (let x = x\<lparr>s_header := make_udp_header (s_header x)\<rparr>
      in if uint (s_buf_size x) > PDP_UDP_BUFSIZE then None
         else Some (flow_sleep (x\<lparr>sent := sent x @ [header_bytes (s_header x) @ bytes_of (s_buf x) (unat (s_buf_size x))]\<rparr>)))"

definition prepare_for_new_transmission :: "t_pdp_udp_sender \<Rightarrow> bytes \<Rightarrow> u32 \<Rightarrow> bytes \<Rightarrow> t_pdp_udp_sender option" where
  "prepare_for_new_transmission x ty sz data =
     (if s_udp_payload_size x = 0 then None
      else case dropWhile (\<lambda>r. r = 0) (rands x) of
             [] \<Rightarrow> None
           | r # rs \<Rightarrow>
               (let nb = (sz - 1) div s_udp_payload_size x + 1
                in Some (x\<lparr>s_data_type := ty, s_data_size := sz, s_data := data,
                           s_chunk_size := s_udp_payload_size x, s_nb_chunks := nb,
                           s_connection_id := r, rands := rs, s_chunk_list_size := nb,
                           s_chunk_list := map of_nat [0..<unat nb]\<rparr>)))"

definition send_header_packet :: "t_pdp_udp_sender \<Rightarrow> t_pdp_udp_sender option" where
  "send_header_packet x =
     (let h = s_header x;
          body = le32 (s_data_size x) @ le32 (s_nb_chunks x) @ le32 (s_chunk_size x) @ s_data_type x @ [0]
      in if int (length body) > PDP_UDP_BUFSIZE then None
         else send_datagram (x\<lparr>s_header := h\<lparr>sequence_number := PDP_UDP_NEW, connection_id := s_connection_id x\<rparr>,
                       s_buf := fill body (s_buf x), s_buf_size := of_nat (length body)\<rparr>))"

text \<open>One round of the loop of \<open>_send_chunks\<close>: the chunk with number \<open>seq\<close>.\<close>

definition send_chunk :: "u32 \<Rightarrow> t_pdp_udp_sender \<Rightarrow> t_pdp_udp_sender option" where
  "send_chunk seq x =
     (let offset = seq * s_chunk_size x;
          current = (if offset + s_chunk_size x > s_data_size x then s_data_size x - offset else s_chunk_size x);
          h = s_header x
      in if uint current > PDP_UDP_BUFSIZE \<or> unat offset + unat current > length (s_data x) then None
         else send_datagram (x\<lparr>s_header := h\<lparr>sequence_number := seq\<rparr>, s_buf_size := current,
                       s_buf := fill (take (unat current) (drop (unat offset) (s_data x))) (s_buf x)\<rparr>))"

primrec send_list :: "u32 list \<Rightarrow> t_pdp_udp_sender \<Rightarrow> t_pdp_udp_sender option" where
  "send_list [] x = Some x"
| "send_list (seq # seqs) x = do { x \<leftarrow> send_chunk seq x; send_list seqs x }"

definition send_chunks :: "t_pdp_udp_sender \<Rightarrow> t_pdp_udp_sender option" where
  "send_chunks x =
     (if unat (s_chunk_list_size x) > length (s_chunk_list x) then None
      else send_list (take (unat (s_chunk_list_size x)) (s_chunk_list x)) x)"

definition send_done :: "t_pdp_udp_sender \<Rightarrow> t_pdp_udp_sender option" where
  "send_done x = (let h = s_header x in send_datagram (x\<lparr>s_header := h\<lparr>sequence_number := PDP_UDP_DONE\<rparr>, s_buf_size := 0\<rparr>))"

section \<open>Answers\<close>

text \<open>The loop of \<open>_receive_packet\<close> over the coming events.\<close>

primrec receive_from :: "event list \<Rightarrow> u32 \<Rightarrow> t_pdp_udp_sender \<Rightarrow> int \<times> t_pdp_udp_sender" where
  "receive_from [] desired_type x = (0, x\<lparr>inbox := []\<rparr>)"
| "receive_from (ev # evs) desired_type x =
     (case ev of
        SelectError \<Rightarrow> (-1, x\<lparr>inbox := evs\<rparr>)
      | SelectTimeout \<Rightarrow> (0, x\<lparr>inbox := evs\<rparr>)
      | RecvError \<Rightarrow> (-1, x\<lparr>inbox := evs\<rparr>)
      | Datagram dg \<Rightarrow>
          (let dg = recv MAX_UDP_PACKET dg;
               sz = length dg;
               x = x\<lparr>s_resend_header := read_header dg (s_resend_header x),
                     s_resend_chunks := fill (drop HEADER_SIZE dg) (s_resend_chunks x)\<rparr>;
               ty = sequence_number (s_resend_header x)
           in if \<not> is_udp_header (s_resend_header x) sz then receive_from evs desired_type x
              else if s_connection_id x \<noteq> connection_id (s_resend_header x) then receive_from evs desired_type x
              else if ty \<noteq> desired_type then receive_from evs desired_type x
              else (1, (if ty = PDP_UDP_RESEND then x\<lparr>s_resend_items := of_nat ((sz - HEADER_SIZE) div 4)\<rparr> else x)
                         \<lparr>inbox := evs\<rparr>)))"

definition receive_packet :: "t_pdp_udp_sender \<Rightarrow> u32 \<Rightarrow> int \<times> t_pdp_udp_sender" where
  "receive_packet x desired_type = receive_from (inbox x) desired_type x"

definition resend_list :: "buffer \<Rightarrow> nat \<Rightarrow> u32 list" where
  "resend_list b n = map (\<lambda>i. word_at b (4 * i)) [0..<n]"

primrec need_resend_loop :: "nat \<Rightarrow> t_pdp_udp_sender \<Rightarrow> (bool \<times> t_pdp_udp_sender) option" where
  "need_resend_loop 0 x = Some (False, x\<lparr>s_chunk_list_size := 0\<rparr>)"
| "need_resend_loop (Suc retries) x =
     do { x \<leftarrow> send_done x;
          case receive_packet x PDP_UDP_RESEND of
            (r, x) \<Rightarrow>
              (if r = 0 then need_resend_loop retries x
               else if r = -1 then Some (False, x\<lparr>s_chunk_list_size := 0\<rparr>)
               else if s_resend_items x > s_nb_chunks x then need_resend_loop retries (x\<lparr>s_resend_items := 0\<rparr>)
               else let n = unat (s_resend_items x)
                    in if n > length (s_chunk_list x) \<or> n > RESEND_MAX_CHUNKS then None
                       else Some (0 < n, x\<lparr>s_chunk_list_size := s_resend_items x,
                                           s_chunk_list := resend_list (s_resend_chunks x) n @ drop n (s_chunk_list x)\<rparr>)) }"

definition need_resend :: "t_pdp_udp_sender \<Rightarrow> (bool \<times> t_pdp_udp_sender) option" where
  "need_resend x = need_resend_loop 3 x"

section \<open>A transmission\<close>

text \<open>
  The two loops of \<open>pdp_udp_sender_send\<close>. The result says whether the loop was left before its retries ran
  out, that is whether the counter is not negative behind it.
\<close>

primrec handshake_loop :: "nat \<Rightarrow> t_pdp_udp_sender \<Rightarrow> (bool \<times> t_pdp_udp_sender) option" where
  "handshake_loop 0 x = Some (False, x)"
| "handshake_loop (Suc hs_retry) x =
     do { x \<leftarrow> send_header_packet x;
          case receive_packet x PDP_UDP_ACKNEW of (r, x) \<Rightarrow> if r = 0 then handshake_loop hs_retry x else Some (True, x) }"

primrec transmission_loop :: "nat \<Rightarrow> t_pdp_udp_sender \<Rightarrow> (bool \<times> t_pdp_udp_sender) option" where
  "transmission_loop 0 x = Some (False, x)"
| "transmission_loop (Suc rs_retry) x =
     do { x \<leftarrow> send_chunks x;
          (again, x) \<leftarrow> need_resend x;
          if again then transmission_loop rs_retry x else Some (True, x) }"

definition pdp_udp_sender_send :: "t_pdp_udp_sender \<Rightarrow> bytes \<Rightarrow> u32 \<Rightarrow> bytes \<Rightarrow> (int \<times> t_pdp_udp_sender) option" where
  "pdp_udp_sender_send x ty sz data =
     (if s_socket x = -1 then Some (0, x)
      else do { x \<leftarrow> prepare_for_new_transmission x ty sz data;
                (hs_ok, x) \<leftarrow> handshake_loop 5 x;
                if \<not> hs_ok then Some (0, x)
                else do { (rs_ok, x) \<leftarrow> transmission_loop 5 x;
                          if \<not> rs_ok then Some (0, x) else Some (1, x) } })"

end
