(* ===== verification/NetOk.thy ===== *)
theory NetOk
  imports NetSend
begin

text \<open>Correctness of the UDP transport.\<close>

section \<open>Words and headers as bytes\<close>

unbundle bit_operations_syntax

lemma length_le32 [simp]: "length (le32 w) = 4"
  by (simp add: le32_def)

lemma un32_le32: "un32 (ucast w) (ucast (drop_bit 8 w)) (ucast (drop_bit 16 w)) (ucast (drop_bit 24 w)) = w"
  unfolding un32_def
proof (rule bit_word_eqI)
  fix n
  assume n: "n < LENGTH(32)"
  show "bit (ucast (ucast w :: u8) OR push_bit 8 (ucast (ucast (drop_bit 8 w) :: u8))
      OR push_bit 16 (ucast (ucast (drop_bit 16 w) :: u8)) OR push_bit 24 (ucast (ucast (drop_bit 24 w) :: u8)) :: u32) n \<longleftrightarrow> bit w n"
  proof -
    have "n = 8 + (n - 8) \<and> n - 8 < 8" if "\<not> n < 8" "n < 16" using that by simp
    moreover have "n = 16 + (n - 16) \<and> n - 16 < 8" if "\<not> n < 16" "n < 24" using that by simp
    moreover have "n = 24 + (n - 24) \<and> n - 24 < 8" if "\<not> n < 24" using that n by simp
    ultimately consider "n < 8" | m where "n = 8 + m" "m < 8" | m where "n = 16 + m" "m < 8" | m where "n = 24 + m" "m < 8"
      by blast
    then show ?thesis by cases (simp_all add: bit_simps)
  qed
qed

lemma word_at_fill:
  assumes "i + 4 \<le> length bs"
  shows "word_at (fill bs b) i = un32 (bs ! i) (bs ! (i + 1)) (bs ! (i + 2)) (bs ! (i + 3))"
  using assms by (simp add: word_at_def fill_def)

lemma word_at_le32:
  assumes "i = length pre"
  shows "word_at (fill (pre @ le32 w @ post) b) i = w"
proof -
  have "word_at (fill (pre @ le32 w @ post) b) i = un32 (le32 w ! 0) (le32 w ! 1) (le32 w ! 2) (le32 w ! 3)"
    using assms by (simp add: word_at_fill nth_append)
  then show ?thesis
    by (simp add: le32_def un32_le32 numeral_2_eq_2 numeral_3_eq_3)
qed

lemma bytes_of_fill: "n = length bs \<Longrightarrow> bytes_of (fill bs b) n = bs"
  unfolding bytes_of_def fill_def by (rule nth_equalityI) simp_all

text \<open>A datagram of the protocol, and what reading it leaves in header and buffer.\<close>

definition pdu :: "u32 \<Rightarrow> u32 \<Rightarrow> bytes \<Rightarrow> bytes" where
  "pdu k q body = header_bytes \<lparr>signature = signature_PDP, version = PDP_UDP_VERSION, connection_id = k, sequence_number = q\<rparr> @ body"

lemma length_signature_PDP [simp]: "length signature_PDP = 4"
  by (simp add: signature_PDP_def)

lemma length_pdu [simp]: "length (pdu k q body) = HEADER_SIZE + length body"
  by (simp add: pdu_def header_bytes_def HEADER_SIZE_def)

lemma drop_pdu [simp]: "drop HEADER_SIZE (pdu k q body) = body"
  by (simp add: pdu_def header_bytes_def HEADER_SIZE_def)

lemma read_header_pdu [simp]:
  "read_header (pdu k q body) h = \<lparr>signature = signature_PDP, version = PDP_UDP_VERSION, connection_id = k, sequence_number = q\<rparr>"
proof -
  let ?b = "fill (pdu k q body) (\<lambda>i. header_bytes h ! i)"
  have "bytes_of ?b 4 = signature_PDP"
    unfolding bytes_of_def fill_def by (rule nth_equalityI) (simp_all add: pdu_def header_bytes_def nth_append)
  moreover have "word_at ?b 4 = PDP_UDP_VERSION"
    using word_at_le32 [of 4 signature_PDP PDP_UDP_VERSION "le32 k @ le32 q @ body"] by (simp add: pdu_def header_bytes_def)
  moreover have "word_at ?b 8 = k"
    using word_at_le32 [of 8 "signature_PDP @ le32 PDP_UDP_VERSION" k "le32 q @ body"] by (simp add: pdu_def header_bytes_def)
  moreover have "word_at ?b 12 = q"
    using word_at_le32 [of 12 "signature_PDP @ le32 PDP_UDP_VERSION @ le32 k" q body] by (simp add: pdu_def header_bytes_def)
  ultimately show ?thesis
    by (simp add: read_header_def header_of_def)
qed

lemma is_udp_header_pdu [simp]:
  "is_udp_header \<lparr>signature = signature_PDP, version = PDP_UDP_VERSION, connection_id = k, sequence_number = q\<rparr> n \<longleftrightarrow> HEADER_SIZE \<le> n"
  by (simp add: is_udp_header_def not_less)

lemma recv_id: "int (length dg) \<le> n \<Longrightarrow> recv n dg = dg"
  by (simp add: recv_def)

section \<open>A transmission\<close>

text \<open>
  What a sender with connection id \<open>k\<close> and chunk size \<open>c\<close> has to say about \<open>sz\<close> bytes \<open>data\<close> of type
  \<open>ty\<close>: the header packet, one packet for each chunk, the closing packet. \<open>transmissible\<close> are the sizes
  the protocol can carry: at least one byte, a type that fits the header packet, a chunk number that is
  not negative as an \<open>int\<close>, and no wrap-around of the sum of an offset and the chunk size.
\<close>

definition nb_chunks :: "u32 \<Rightarrow> u32 \<Rightarrow> u32" where
  "nb_chunks sz c = (sz - 1) div c + 1"

definition chunk_bytes :: "u32 \<Rightarrow> u32 \<Rightarrow> bytes \<Rightarrow> nat \<Rightarrow> bytes" where
  "chunk_bytes sz c data i = take (unat c) (drop (unat c * i) (take (unat sz) data))"

definition pdu_new :: "u32 \<Rightarrow> bytes \<Rightarrow> u32 \<Rightarrow> u32 \<Rightarrow> bytes" where
  "pdu_new k ty sz c = pdu k PDP_UDP_NEW (le32 sz @ le32 (nb_chunks sz c) @ le32 c @ ty @ [0])"

definition pdu_chunk :: "u32 \<Rightarrow> u32 \<Rightarrow> u32 \<Rightarrow> bytes \<Rightarrow> nat \<Rightarrow> bytes" where
  "pdu_chunk k sz c data i = pdu k (of_nat i) (chunk_bytes sz c data i)"

definition pdu_done :: "u32 \<Rightarrow> bytes" where
  "pdu_done k = pdu k PDP_UDP_DONE []"

definition pdu_resend :: "u32 \<Rightarrow> nat list \<Rightarrow> bytes" where
  "pdu_resend k is = pdu k PDP_UDP_RESEND (concat (map (\<lambda>i. le32 (of_nat i)) is))"

definition pdu_acknew :: "u32 \<Rightarrow> bytes" where
  "pdu_acknew k = pdu k PDP_UDP_ACKNEW []"

definition transmissible :: "bytes \<Rightarrow> u32 \<Rightarrow> bytes \<Rightarrow> u32 \<Rightarrow> bool" where
  "transmissible ty sz data c \<longleftrightarrow>
     0 < sz \<and> unat sz \<le> length data \<and> 0 < c \<and> uint c \<le> PDP_UDP_BUFSIZE \<and> unat sz + unat c < 2 ^ 32 \<and>
     unat (nb_chunks sz c) < 2 ^ 31 \<and> 0 \<notin> set ty \<and> length ty + 13 \<le> nat PDP_UDP_BUFSIZE"

lemma transmissible_sizes:
  assumes "transmissible ty sz data c"
  shows "0 < unat sz" "unat sz \<le> length data" "0 < unat c" "int (unat c) \<le> PDP_UDP_BUFSIZE" "unat sz + unat c < 2 ^ 32"
    "unat (nb_chunks sz c) < 2 ^ 31" "0 \<notin> set ty" "length ty + 13 \<le> nat PDP_UDP_BUFSIZE"
  using assms by (auto simp: transmissible_def word_less_nat_alt)

lemma unat_nb_chunks:
  assumes "transmissible ty sz data c"
  shows "unat (nb_chunks sz c) = (unat sz - 1) div unat c + 1"
proof -
  have "unat (sz - 1) = unat sz - 1"
    using transmissible_sizes(1) [OF assms] by (subst unat_sub) (simp_all add: word_le_nat_alt)
  then have d: "unat ((sz - 1) div c) = (unat sz - 1) div unat c"
    by (simp add: unat_div_distrib)
  also have "\<dots> \<le> unat sz - 1" by (rule div_le_dividend)
  finally have "unat ((sz - 1) div c) + 1 < 2 ^ 32"
    using transmissible_sizes(1,3,5) [OF assms] by linarith
  then show ?thesis
    unfolding nb_chunks_def d [symmetric] by (subst unat_add_lem [THEN iffD1]) simp_all
qed

text \<open>The chunks tile the data: byte \<open>p\<close> is in chunk \<open>p div c\<close>, and chunk \<open>i\<close> ends at the data's end at the latest.\<close>

lemma byte_chunk_bound:
  assumes "transmissible ty sz data c" and "p < unat sz"
  shows "p div unat c < unat (nb_chunks sz c)"
proof -
  have "p div unat c \<le> (unat sz - 1) div unat c"
    using assms(2) by (intro div_le_mono) simp
  then show ?thesis by (simp add: unat_nb_chunks [OF assms(1)])
qed

lemma chunk_offset:
  assumes "transmissible ty sz data c" and "i < unat (nb_chunks sz c)"
  shows "unat c * i < unat sz"
proof -
  have "i \<le> (unat sz - 1) div unat c"
    using assms by (simp add: unat_nb_chunks)
  then have "unat c * i \<le> unat c * ((unat sz - 1) div unat c)" by simp
  also have "\<dots> \<le> unat sz - 1" by (rule mult_div_mod_eq [THEN eq_refl, THEN add_leD1])
  finally show ?thesis using transmissible_sizes(1) [OF assms(1)] by linarith
qed

lemma length_chunk_bytes:
  assumes "transmissible ty sz data c" and "i < unat (nb_chunks sz c)"
  shows "length (chunk_bytes sz c data i) = min (unat c) (unat sz - unat c * i)"
  using transmissible_sizes(2) [OF assms(1)] by (simp add: chunk_bytes_def)

lemma length_chunk_le:
  assumes "transmissible ty sz data c" and "i < unat (nb_chunks sz c)"
  shows "int (length (chunk_bytes sz c data i)) \<le> PDP_UDP_BUFSIZE"
proof -
  have "int (length (chunk_bytes sz c data i)) \<le> int (unat c)"
    by (simp only: length_chunk_bytes [OF assms] of_nat_le_iff min.cobounded1)
  then show ?thesis using transmissible_sizes(4) [OF assms(1)] by linarith
qed

lemma nth_chunk_bytes:
  assumes "transmissible ty sz data c" and "j < length (chunk_bytes sz c data i)" and "i < unat (nb_chunks sz c)"
  shows "chunk_bytes sz c data i ! j = data ! (unat c * i + j)"
proof -
  have "j < unat c" "j < unat sz - unat c * i"
    using assms(2) by (simp_all add: length_chunk_bytes [OF assms(1,3)])
  moreover from this have "unat c * i + j < unat sz" "unat c * i \<le> unat sz" by linarith+
  ultimately show ?thesis
    using transmissible_sizes(2) [OF assms(1)] by (simp add: chunk_bytes_def)
qed

lemma chunk_bytes_concat:
  assumes "transmissible ty sz data c"
  shows "concat (map (chunk_bytes sz c data) [0..<unat (nb_chunks sz c)]) = take (unat sz) data"
proof -
  define D where "D = take (unat sz) data"
  have "concat (map (chunk_bytes sz c data) [0..<n]) = take (unat c * n) D" for n
    by (induction n) (simp_all add: chunk_bytes_def D_def [symmetric] take_add [symmetric] algebra_simps)
  moreover have "unat sz \<le> unat c * unat (nb_chunks sz c)"
  proof -
    have "unat sz - 1 < unat c * ((unat sz - 1) div unat c) + unat c"
      using mult_div_mod_eq [of "unat c" "unat sz - 1"] mod_less_divisor [OF transmissible_sizes(3) [OF assms], of "unat sz - 1"]
      by linarith
    then show ?thesis by (simp add: unat_nb_chunks [OF assms] distrib_left)
  qed
  ultimately show ?thesis by (simp add: D_def)
qed

section \<open>The receiver\<close>

definition arrived :: "u32 \<Rightarrow> u32 \<Rightarrow> bytes \<Rightarrow> t_pdp_udp_receiver \<Rightarrow> t_pdp_udp_receiver" where
  "arrived k q body x =
     x\<lparr>x_header := \<lparr>signature = signature_PDP, version = PDP_UDP_VERSION, connection_id = k, sequence_number = q\<rparr>,
       x_buf := fill body (x_buf x), x_buf_size := of_nat (length body)\<rparr>"

lemma receive_pdu:
  assumes "int (length body) \<le> PDP_UDP_BUFSIZE"
  shows "pdp_udp_receiver_receive (Datagram (pdu k q body)) x =
    (let x = arrived k q body x
     in if sint q < 0
        then if q = PDP_UDP_NEW then Some (0, handle_PDP_UDP_NEW x)
             else if q = PDP_UDP_DONE
             then do { x \<leftarrow> handle_PDP_UDP_DONE x;
                       if x_receive_finished x \<and> \<not> x_packet_transferred x
                       then Some (1, x\<lparr>x_packet_transferred := True\<rparr>)
                       else Some (0, x) }
             else Some (0, x)
        else do { x \<leftarrow> handle_UDP_DATA x; Some (0, x) })"
  using assms
  by (simp add: pdp_udp_receiver_receive_def recv_id arrived_def Let_def)

lemma control_numbers [simp]:
  "sint PDP_UDP_NEW < 0" "sint PDP_UDP_DONE < 0" "PDP_UDP_DONE \<noteq> PDP_UDP_NEW" "PDP_UDP_NEW \<noteq> PDP_UDP_DONE"
  "PDP_UDP_RESEND \<noteq> PDP_UDP_ACKNEW" "PDP_UDP_ACKNEW \<noteq> PDP_UDP_RESEND"
  by (simp_all add: PDP_UDP_NEW_def PDP_UDP_DONE_def PDP_UDP_RESEND_def PDP_UDP_ACKNEW_def)

lemma unat_of_chunk: "i < 2 ^ 31 \<Longrightarrow> unat (of_nat i :: u32) = i"
  by (simp add: unsigned_of_nat take_bit_nat_eq_self)

lemma chunk_not_control: "i < 2 ^ 31 \<Longrightarrow> 0 \<le> sint (of_nat i :: u32)"
  by (simp add: signed_of_nat signed_take_bit_int_eq_self)

lemma chunk_number:
  assumes "transmissible ty sz data c" and "i < unat (nb_chunks sz c)"
  shows "unat (of_nat i :: u32) = i" "0 \<le> sint (of_nat i :: u32)" "unat (c * of_nat i) = unat c * i"
proof -
  from transmissible_sizes(6) [OF assms(1)] assms(2) have i: "i < 2 ^ 31" by linarith
  show u: "unat (of_nat i :: u32) = i" by (rule unat_of_chunk [OF i])
  show "0 \<le> sint (of_nat i :: u32)" by (rule chunk_not_control [OF i])
  have "unat c * i < 2 ^ 32"
    using chunk_offset [OF assms] transmissible_sizes(5) [OF assms(1)] by linarith
  then show "unat (c * of_nat i) = unat c * i"
    using u by (subst unat_mult_lem [THEN iffD1]) simp_all
qed

text \<open>The string read back out of a buffer.\<close>

lemma cstring_fill:
  assumes "0 \<notin> set ty" and "int (length ty) < n" and "i = length pre"
  shows "cstring (fill (pre @ ty @ [0]) b) i n = ty"
  using assms
proof (induction ty arbitrary: pre i n)
  case Nil
  then show ?case by (simp add: cstring.simps fill_def)
next
  case (Cons t ty)
  have "cstring (fill ((pre @ [t]) @ ty @ [0]) b) (i + 1) (n - 1) = ty"
    by (rule Cons.IH) (use Cons.prems in auto)
  with Cons.prems show ?case by (subst cstring.simps) (auto simp: fill_def)
qed

text \<open>
  \<open>assembling\<close>: the receiver is at work on this transmission, every byte of a chunk it has logged is the
  sender's, and it is finished only with all chunks logged. \<open>tracks\<close> asks for it while the connection is ours.
\<close>

definition assembling :: "bytes \<Rightarrow> u32 \<Rightarrow> bytes \<Rightarrow> u32 \<Rightarrow> t_pdp_udp_receiver \<Rightarrow> bool" where
  "assembling ty sz data c x \<longleftrightarrow>
     x_data_type x = Some ty \<and> x_data_size x = sz \<and> x_nb_chunks x = nb_chunks sz c \<and> x_chunk_size x = c \<and>
     length (x_data x) = unat sz \<and> length (x_chunk_list x) = unat (nb_chunks sz c) \<and>
     (\<forall>p < unat sz. x_chunk_list x ! (p div unat c) \<longrightarrow> x_data x ! p = data ! p) \<and>
     (x_receive_finished x \<longrightarrow> list_all id (x_chunk_list x))"

definition tracks :: "u32 \<Rightarrow> bytes \<Rightarrow> u32 \<Rightarrow> bytes \<Rightarrow> u32 \<Rightarrow> t_pdp_udp_receiver \<Rightarrow> bool" where
  "tracks k ty sz data c x \<longleftrightarrow> (x_connection_id x = k \<longrightarrow> assembling ty sz data c x)"

lemma send_packet_fields [simp]:
  "x_connection_id (send_packet x) = x_connection_id x" "x_receive_finished (send_packet x) = x_receive_finished x"
  "x_packet_transferred (send_packet x) = x_packet_transferred x" "x_chunk_list (send_packet x) = x_chunk_list x"
  "x_data (send_packet x) = x_data x" "x_data_type (send_packet x) = x_data_type x" "x_data_size (send_packet x) = x_data_size x"
  "assembling ty sz data c (send_packet x) = assembling ty sz data c x"
  by (simp_all add: send_packet_def Let_def assembling_def)

lemma arrived_fields [simp]:
  "x_connection_id (arrived k q body x) = x_connection_id x" "x_receive_finished (arrived k q body x) = x_receive_finished x"
  "x_packet_transferred (arrived k q body x) = x_packet_transferred x" "x_chunk_list (arrived k q body x) = x_chunk_list x"
  "x_data (arrived k q body x) = x_data x" "x_resend_chunks (arrived k q body x) = x_resend_chunks x"
  "x_data_type (arrived k q body x) = x_data_type x" "x_data_size (arrived k q body x) = x_data_size x"
  "x_nb_chunks (arrived k q body x) = x_nb_chunks x" "x_chunk_size (arrived k q body x) = x_chunk_size x"
  "connection_id (x_header (arrived k q body x)) = k" "sequence_number (x_header (arrived k q body x)) = q"
  "x_buf_size (arrived k q body x) = of_nat (length body)" "x_buf (arrived k q body x) = fill body (x_buf x)"
  "assembling ty sz data c (arrived k q body x) = assembling ty sz data c x" "out (arrived k q body x) = out x"
  by (simp_all add: arrived_def assembling_def)

lemma assembled:
  assumes "transmissible ty sz data c" and "assembling ty sz data c x" and "list_all id (x_chunk_list x)"
  shows "x_data x = take (unat sz) data"
proof (rule nth_equalityI)
  show "length (x_data x) = length (take (unat sz) data)"
    using assms(2) transmissible_sizes(2) [OF assms(1)] by (simp add: assembling_def)
  fix p
  assume "p < length (x_data x)"
  then have p: "p < unat sz" using assms(2) by (simp add: assembling_def)
  have "x_chunk_list x ! (p div unat c)"
    using assms(2,3) byte_chunk_bound [OF assms(1) p] by (auto simp: assembling_def list_all_length)
  then show "x_data x ! p = take (unat sz) data ! p"
    using assms(2) p by (simp add: assembling_def)
qed

lemma NEW_fields:
  fixes ty sz c b0
  defines "b \<equiv> fill (le32 sz @ le32 (nb_chunks sz c) @ le32 c @ ty @ [0]) b0"
  shows "word_at b 0 = sz" "word_at b 4 = nb_chunks sz c" "word_at b 8 = c"
  unfolding b_def
  using word_at_le32 [of 0 "[]" sz] word_at_le32 [of 4 "le32 sz" "nb_chunks sz c"]
    word_at_le32 [of 8 "le32 sz @ le32 (nb_chunks sz c)" c] by simp_all

lemma NEW_type:
  assumes "transmissible ty sz data c"
  shows "cstring (fill (le32 sz @ le32 (nb_chunks sz c) @ le32 c @ ty @ [0]) b) 12 (PDP_UDP_BUFSIZE - 12) = ty"
  using cstring_fill [of ty "PDP_UDP_BUFSIZE - 12" 12 "le32 sz @ le32 (nb_chunks sz c) @ le32 c" b]
    transmissible_sizes(7,8) [OF assms] by (simp add: PDP_UDP_BUFSIZE_def)

lemma out_send_packet:
  "out (send_packet x) = out x @ [take (x_resend_udp_packet_size x)
    (header_bytes (make_udp_header (x_resend_header x)) @ concat (map le32 (x_resend_chunks x)))]"
  by (simp add: send_packet_def Let_def)

lemma receive_NEW:
  assumes t: "transmissible ty sz data c" and x: "tracks k ty sz data c x"
  obtains x' where "pdp_udp_receiver_receive (Datagram (pdu_new k ty sz c)) x = Some (0, x')"
    "x_connection_id x' = k" "assembling ty sz data c x'" "out x' = out x @ [pdu_acknew k]"
    "x_connection_id x \<noteq> k \<Longrightarrow> x_chunk_list x' = replicate (unat (nb_chunks sz c)) False \<and>
       \<not> x_receive_finished x' \<and> \<not> x_packet_transferred x'"
    "x_connection_id x = k \<Longrightarrow> x_chunk_list x' = x_chunk_list x \<and> x_packet_transferred x' = x_packet_transferred x"
proof -
  let ?body = "le32 sz @ le32 (nb_chunks sz c) @ le32 c @ ty @ [0]"
  let ?x' = "handle_PDP_UDP_NEW (arrived k PDP_UDP_NEW ?body x)"
  have "pdp_udp_receiver_receive (Datagram (pdu_new k ty sz c)) x = Some (0, ?x')"
    unfolding pdu_new_def using transmissible_sizes(8) [OF t]
    by (subst receive_pdu) (simp_all add: Let_def PDP_UDP_BUFSIZE_def)
  moreover have "x_connection_id ?x' = k" "assembling ty sz data c ?x'"
    using x byte_chunk_bound [OF t]
    by (simp_all add: handle_PDP_UDP_NEW_def send_ack_new_def Let_def NEW_fields NEW_type [OF t] tracks_def)
      (auto simp add: assembling_def)
  moreover have "out ?x' = out x @ [pdu_acknew k]"
    by (simp add: handle_PDP_UDP_NEW_def send_ack_new_def out_send_packet Let_def pdu_acknew_def pdu_def make_udp_header_def
        header_bytes_def HEADER_SIZE_def)
  moreover have "x_connection_id x \<noteq> k \<Longrightarrow> x_chunk_list ?x' = replicate (unat (nb_chunks sz c)) False \<and>
       \<not> x_receive_finished ?x' \<and> \<not> x_packet_transferred ?x'"
    "x_connection_id x = k \<Longrightarrow> x_chunk_list ?x' = x_chunk_list x \<and> x_packet_transferred ?x' = x_packet_transferred x"
    by (simp_all add: handle_PDP_UDP_NEW_def send_ack_new_def Let_def NEW_fields)
  ultimately show ?thesis by (rule that)
qed

lemma assembling_chunk:
  assumes t: "transmissible ty sz data c" and i: "i < unat (nb_chunks sz c)" and x: "assembling ty sz data c x"
  defines "b \<equiv> chunk_bytes sz c data i"
  shows "assembling ty sz data c (x\<lparr>x_data := take (unat c * i) (x_data x) @ b @ drop (unat c * i + length b) (x_data x),
      x_chunk_list := (x_chunk_list x)[i := True]\<rparr>)" (is "assembling _ _ _ _ (x\<lparr>x_data := ?d, x_chunk_list := ?l\<rparr>)")
proof -
  have o: "unat c * i < unat sz" by (rule chunk_offset [OF t i])
  have lb: "length b = min (unat c) (unat sz - unat c * i)"
    unfolding b_def by (rule length_chunk_bytes [OF t i])
  have lx: "length (x_data x) = unat sz" "length (x_chunk_list x) = unat (nb_chunks sz c)"
    using x by (simp_all add: assembling_def)
  have ld: "length ?d = unat sz"
    using o lx by (simp add: lb)
  have byte: "?d ! p = data ! p" if p: "p < unat sz" and logged: "?l ! (p div unat c)" for p
  proof (cases "unat c * i \<le> p \<and> p < unat c * i + length b")
    case True
    then have "p - unat c * i < length b" by linarith
    with True have "?d ! p = b ! (p - unat c * i)"
      using o lx by (simp add: nth_append)
    also have "\<dots> = data ! (unat c * i + (p - unat c * i))"
      unfolding b_def by (rule nth_chunk_bytes [OF t _ i]) (use True in \<open>simp add: b_def [symmetric]; linarith\<close>)
    finally show ?thesis using True by simp
  next
    case False
    have "p div unat c \<noteq> i"
    proof
      assume eq: "p div unat c = i"
      have "unat c * i \<le> p" unfolding eq [symmetric] by (rule times_div_less_eq_dividend)
      moreover have "p < unat c * i + unat c"
        using mult_div_mod_eq [of "unat c" p] mod_less_divisor [OF transmissible_sizes(3) [OF t], of p] unfolding eq by linarith
      ultimately show False using False p by (simp add: lb)
    qed
    then have "x_data x ! p = data ! p"
      using x p logged by (simp add: assembling_def)
    moreover have "?d ! p = x_data x ! p"
      using False o lx p by (auto simp: nth_append)
    ultimately show ?thesis by simp
  qed
  have "list_all id (x_chunk_list x) \<Longrightarrow> list_all id ?l"
    by (simp add: list_all_length) (metis nth_list_update_eq nth_list_update_neq)
  with x ld byte show ?thesis by (simp add: assembling_def)
qed

lemma receive_chunk:
  assumes t: "transmissible ty sz data c" and k: "k \<noteq> 0" and i: "i < unat (nb_chunks sz c)" and x: "tracks k ty sz data c x"
  obtains x' where "pdp_udp_receiver_receive (Datagram (pdu_chunk k sz c data i)) x = Some (0, x')"
    "x_connection_id x' = x_connection_id x" "tracks k ty sz data c x'"
    "x_chunk_list x' = (if x_connection_id x = k then (x_chunk_list x)[i := True] else x_chunk_list x)"
    "x_receive_finished x' = x_receive_finished x" "x_packet_transferred x' = x_packet_transferred x" "out x' = out x"
proof -
  let ?b = "chunk_bytes sz c data i"
  let ?a = "arrived k (of_nat i) ?b x"
  have lb: "length ?b = min (unat c) (unat sz - unat c * i)" by (rule length_chunk_bytes [OF t i])
  have lb32: "unat (of_nat (length ?b) :: u32) = length ?b"
    using transmissible_sizes(5) [OF t] by (simp add: unsigned_of_nat take_bit_nat_eq_self lb)
  have r: "pdp_udp_receiver_receive (Datagram (pdu_chunk k sz c data i)) x = do { x \<leftarrow> handle_UDP_DATA ?a; Some (0, x) }"
    unfolding pdu_chunk_def using chunk_number(2) [OF t i]
    by (subst receive_pdu [OF length_chunk_le [OF t i]]) (simp add: Let_def)
  show ?thesis
  proof (cases "x_connection_id x = k")
    case True
    then have a: "assembling ty sz data c x" using x by (simp add: tracks_def)
    let ?x' = "?a\<lparr>x_data := take (unat c * i) (x_data ?a) @ ?b @ drop (unat c * i + length ?b) (x_data ?a),
      x_chunk_list := (x_chunk_list ?a)[i := True]\<rparr>"
    have "unat c * i + length ?b \<le> unat sz"
      using chunk_offset [OF t i] by (simp add: lb)
    moreover have "\<not> nb_chunks sz c \<le> of_nat i"
      using i by (simp add: word_le_nat_alt chunk_number(1) [OF t i])
    ultimately have h: "handle_UDP_DATA ?a = Some ?x'"
      using a True k unfolding handle_UDP_DATA_def Let_def
      by (simp add: assembling_def lb32 chunk_number(1,3) [OF t i] bytes_of_fill)
    have "assembling ty sz data c ?x'"
      by (rule assembling_chunk [OF t i]) (simp add: a)
    then show ?thesis
      using r h True by (intro that [of ?x']) (simp_all add: tracks_def)
  next
    case False
    then have "handle_UDP_DATA ?a = Some ?a"
      by (simp add: handle_UDP_DATA_def)
    with False r show ?thesis
      by (intro that [of ?a]) (simp_all add: tracks_def)
  qed
qed

text \<open>The chunks the receiver misses, and the resend request it answers a DONE packet with.\<close>

definition missing_chunks :: "bool list \<Rightarrow> nat list" where
  "missing_chunks cl = filter (\<lambda>i. \<not> cl ! i) [0..<length cl]"

lemma length_missing_chunks: "length (filter Not cl) = length (missing_chunks cl)"
proof -
  have "filter Not cl = map (\<lambda>i. cl ! i) (missing_chunks cl)"
    using filter_map [of Not "\<lambda>i. cl ! i" "[0..<length cl]"] by (simp add: missing_chunks_def map_nth o_def)
  then show ?thesis by simp
qed

lemma missing_chunks_empty: "missing_chunks cl = [] \<longleftrightarrow> list_all id cl"
  by (auto simp: missing_chunks_def filter_empty_conv list_all_length)

lemma missing_chunks_bound: "i \<in> set (missing_chunks cl) \<Longrightarrow> i < length cl"
  by (simp add: missing_chunks_def)

declare next_missing.simps [simp del]

lemma next_missing_filter:
  "filter (\<lambda>i. \<not> cl ! i) [chunk..<length cl] = m # ms \<Longrightarrow>
    next_missing cl chunk = Some m \<and> filter (\<lambda>i. \<not> cl ! i) [m + 1..<length cl] = ms"
proof (induction cl chunk rule: next_missing.induct)
  case (1 cl chunk)
  from "1.prems" have "chunk < length cl" by (cases "chunk < length cl") simp_all
  with 1 show ?case
    by (subst next_missing.simps) (auto simp: upt_conv_Cons split: if_splits)
qed

lemma resend_loop_missing:
  assumes "n \<le> length (filter (\<lambda>i. \<not> cl ! i) [chunk..<length cl])" and "n \<le> length rs"
  shows "resend_loop cl n chunk rs =
    Some (map of_nat (rev (take n (filter (\<lambda>i. \<not> cl ! i) [chunk..<length cl]))) @ drop n rs)"
  using assms
proof (induction n arbitrary: chunk rs)
  case (Suc n)
  then obtain m ms where ms: "filter (\<lambda>i. \<not> cl ! i) [chunk..<length cl] = m # ms"
    by (cases "filter (\<lambda>i. \<not> cl ! i) [chunk..<length cl]") simp_all
  from next_missing_filter [OF this]
  have m: "next_missing cl chunk = Some m" and rest: "filter (\<lambda>i. \<not> cl ! i) [m + 1..<length cl] = ms" by simp_all
  have "resend_loop cl n (m + 1) (rs[n := of_nat m]) = Some (map of_nat (rev (take n ms)) @ drop n (rs[n := of_nat m]))"
    using Suc.IH [of "m + 1" "rs[n := of_nat m]"] Suc.prems ms rest by simp
  moreover have "drop n (rs[n := of_nat m]) = of_nat m # drop (Suc n) rs"
    using Suc.prems(2) by (simp add: drop_update_swap Cons_nth_drop_Suc [symmetric] list_update_code)
  ultimately show ?case
    using Suc.prems(2) by (simp add: ms m)
qed simp

lemma length_concat_le32 [simp]: "length (concat (map (\<lambda>w. le32 (f w)) ws)) = 4 * length ws"
  by (induction ws) simp_all

definition resend_request :: "bool list \<Rightarrow> nat list" where
  "resend_request cl = rev (take RESEND_MAX_CHUNKS (missing_chunks cl))"

lemma handle_DONE:
  assumes id: "x_connection_id x = connection_id (x_header x)" and rs: "length (x_resend_chunks x) = RESEND_MAX_CHUNKS"
  obtains x' where "handle_PDP_UDP_DONE x = Some x'" "out x' = out x @ [pdu_resend (x_connection_id x) (resend_request (x_chunk_list x))]"
    "x_receive_finished x' = (x_receive_finished x \<or> list_all id (x_chunk_list x))"
    "x_connection_id x' = x_connection_id x" "x_packet_transferred x' = x_packet_transferred x"
    "x_chunk_list x' = x_chunk_list x" "length (x_resend_chunks x') = RESEND_MAX_CHUNKS"
    "assembling ty sz data c x \<Longrightarrow> assembling ty sz data c x'"
proof -
  let ?ms = "missing_chunks (x_chunk_list x)"
  define n where "n = (if length ?ms > RESEND_MAX_CHUNKS then RESEND_MAX_CHUNKS else length ?ms)"
  have n: "n \<le> length ?ms" "n \<le> RESEND_MAX_CHUNKS" "n = 0 \<longleftrightarrow> list_all id (x_chunk_list x)"
    by (auto simp: n_def RESEND_MAX_CHUNKS_def MAX_UDP_PACKET_def HEADER_SIZE_def missing_chunks_empty [symmetric])
  have tk: "take n ?ms = take RESEND_MAX_CHUNKS ?ms" by (simp add: n_def)
  define rs' where "rs' = (map of_nat (rev (take n ?ms)) :: u32 list) @ drop n (x_resend_chunks x)"
  have loop: "resend_loop (x_chunk_list x) n 0 (x_resend_chunks x) = Some rs'"
    using resend_loop_missing [of n "x_chunk_list x" 0 "x_resend_chunks x"] n rs by (simp add: missing_chunks_def rs'_def)
  let ?h = "\<lparr>signature = signature_PDP, version = PDP_UDP_VERSION, connection_id = x_connection_id x, sequence_number = PDP_UDP_RESEND\<rparr>"
  let ?y = "send_packet (x\<lparr>x_resend_chunks := rs', x_resend_udp_packet_size := HEADER_SIZE + n * 4,
    x_resend_header := ?h\<rparr>)"
  let ?x' = "if n = 0 then ?y\<lparr>x_receive_finished := True\<rparr> else ?y"
  have "handle_PDP_UDP_DONE x = Some ?x'"
    unfolding handle_PDP_UDP_DONE_def
    using id loop by (simp add: Let_def length_missing_chunks n_def [symmetric])
  moreover have "take (HEADER_SIZE + n * 4) (header_bytes ?h @ concat (map le32 rs'))
      = pdu_resend (x_connection_id x) (resend_request (x_chunk_list x))"
    using n(1) by (simp add: rs'_def pdu_resend_def pdu_def header_bytes_def HEADER_SIZE_def resend_request_def tk [symmetric] o_def rev_map)
  then have "out ?y = out x @ [pdu_resend (x_connection_id x) (resend_request (x_chunk_list x))]"
    by (simp add: out_send_packet make_udp_header_def)
  then have "out ?x' = out x @ [pdu_resend (x_connection_id x) (resend_request (x_chunk_list x))]"
    by (rule trans [rotated]) (cases "n = 0", simp_all)
  moreover have "assembling ty sz data c x \<Longrightarrow> assembling ty sz data c ?x'"
    using n(3) by (simp add: assembling_def send_packet_def Let_def) blast
  moreover have "length (x_resend_chunks ?x') = RESEND_MAX_CHUNKS"
    using n rs by (simp add: send_packet_def Let_def rs'_def)
  ultimately show ?thesis
    using n(3) by (intro that [of ?x']) simp_all
qed

lemma receive_DONE:
  assumes rs: "length (x_resend_chunks x) = RESEND_MAX_CHUNKS" and id: "x_connection_id x = k" and a: "assembling ty sz data c x"
  obtains x' where
    "pdp_udp_receiver_receive (Datagram (pdu_done k)) x =
       Some (if list_all id (x_chunk_list x) \<and> \<not> x_packet_transferred x then 1 else 0, x')"
    "x_connection_id x' = k" "assembling ty sz data c x'" "x_chunk_list x' = x_chunk_list x"
    "length (x_resend_chunks x') = RESEND_MAX_CHUNKS"
    "out x' = out x @ [pdu_resend k (resend_request (x_chunk_list x))]"
    "x_packet_transferred x' = (x_packet_transferred x \<or> list_all id (x_chunk_list x))"
proof -
  let ?a = "arrived k PDP_UDP_DONE [] x"
  obtain y where y: "handle_PDP_UDP_DONE ?a = Some y" "out y = out x @ [pdu_resend k (resend_request (x_chunk_list x))]"
    "x_receive_finished y = (x_receive_finished x \<or> list_all id (x_chunk_list x))"
    "x_connection_id y = k" "x_packet_transferred y = x_packet_transferred x"
    "x_chunk_list y = x_chunk_list x" "length (x_resend_chunks y) = RESEND_MAX_CHUNKS"
    "assembling ty sz data c x \<Longrightarrow> assembling ty sz data c y"
    using handle_DONE [of ?a ty sz data c] rs id by simp blast
  have fin: "x_receive_finished y = list_all id (x_chunk_list x)"
    using a y(3) by (auto simp: assembling_def)
  let ?x' = "if x_receive_finished y \<and> \<not> x_packet_transferred y then y\<lparr>x_packet_transferred := True\<rparr> else y"
  have "pdp_udp_receiver_receive (Datagram (pdu_done k)) x =
      Some (if list_all id (x_chunk_list x) \<and> \<not> x_packet_transferred x then 1 else 0, ?x')"
    unfolding pdu_done_def using y(1,5) fin by (subst receive_pdu) (simp_all add: Let_def PDP_UDP_BUFSIZE_def)
  moreover have "assembling ty sz data c ?x'"
    using y(8) [OF a] by (simp add: assembling_def)
  ultimately show ?thesis
    using y fin by (intro that [of ?x']) (simp_all, blast)
qed

lemma receive_DONE_other:
  assumes "x_connection_id x \<noteq> k"
  obtains r x' where "pdp_udp_receiver_receive (Datagram (pdu_done k)) x = Some (r, x')"
    "x_connection_id x' = x_connection_id x" "x_resend_chunks x' = x_resend_chunks x"
proof -
  let ?a = "arrived k PDP_UDP_DONE [] x"
  have "handle_PDP_UDP_DONE ?a = Some ?a"
    using assms by (simp add: handle_PDP_UDP_DONE_def)
  then have "pdp_udp_receiver_receive (Datagram (pdu_done k)) x =
      Some (if x_receive_finished x \<and> \<not> x_packet_transferred x then 1 else 0,
        if x_receive_finished x \<and> \<not> x_packet_transferred x then ?a\<lparr>x_packet_transferred := True\<rparr> else ?a)"
    unfolding pdu_done_def by (subst receive_pdu) (simp_all add: Let_def PDP_UDP_BUFSIZE_def)
  then show ?thesis by (rule that) simp_all
qed

text \<open>Datagrams that are not of the connection: no header of the protocol, or another connection id.\<close>

definition foreign :: "u32 \<Rightarrow> bytes \<Rightarrow> bool" where
  "foreign k dg \<longleftrightarrow>
     (let h = read_header dg blank_header in \<not> is_udp_header h (length dg) \<or> connection_id h \<noteq> k)"

lemma is_udp_header_long: "HEADER_SIZE \<le> length dg \<Longrightarrow> read_header dg h = read_header dg h'"
  by (simp add: read_header_def header_of_def word_at_def bytes_of_def fill_def HEADER_SIZE_def)

lemma foreign_header:
  assumes "foreign k dg" and "is_udp_header (read_header (recv n dg) h) (length (recv n dg))" and "int HEADER_SIZE \<le> n"
  shows "connection_id (read_header (recv n dg) h) \<noteq> k"
proof -
  have l: "HEADER_SIZE \<le> length (recv n dg)" using assms(2) by (simp add: is_udp_header_def split: if_splits)
  have eq: "read_header (recv n dg) h = read_header dg blank_header"
    using l assms(3)
    by (auto simp add: recv_def read_header_def header_of_def word_at_def bytes_of_def fill_def HEADER_SIZE_def)
  have "is_udp_header (read_header dg blank_header) (length dg)"
    using assms(2) l unfolding eq by (auto simp: is_udp_header_def recv_def split: if_splits)
  then show ?thesis using assms(1) by (simp add: foreign_def Let_def eq)
qed

lemma length_resend_loop: "resend_loop cl n chunk rs = Some rs' \<Longrightarrow> length rs' = length rs"
  by (induction n arbitrary: chunk rs) (auto simp: wr_def split: Option.bind_splits if_splits)

end
