(* ===== verification/NetRun.thy ===== *)
theory NetRun
  imports NetOk
begin

text \<open>
  Whole transmissions: what a receiver delivers when any of the sender's datagrams reach it, in any order,
  any number of times, among datagrams of others; what a sender emits; the two put together.
\<close>

section \<open>Datagrams of others\<close>

lemma NEW_id: "x_connection_id (handle_PDP_UDP_NEW x) = connection_id (x_header x)"
  by (simp add: handle_PDP_UDP_NEW_def send_ack_new_def Let_def)

lemma DONE_id: "handle_PDP_UDP_DONE x = Some y \<Longrightarrow> x_connection_id y = x_connection_id x"
  by (auto simp: handle_PDP_UDP_DONE_def Let_def split: if_splits Option.bind_splits)

lemma DATA_id: "handle_UDP_DATA x = Some y \<Longrightarrow> x_connection_id y = x_connection_id x"
  by (auto simp: handle_UDP_DATA_def Let_def split: if_splits)

lemma DONE_other: "x_connection_id x \<noteq> connection_id (x_header x) \<Longrightarrow> handle_PDP_UDP_DONE x = Some x"
  by (simp add: handle_PDP_UDP_DONE_def)

lemma DATA_other: "x_connection_id x \<noteq> connection_id (x_header x) \<Longrightarrow> handle_UDP_DATA x = Some x"
  by (simp add: handle_UDP_DATA_def)

lemma NEW_resend_chunks: "x_resend_chunks (handle_PDP_UDP_NEW x) = x_resend_chunks x"
  by (simp add: handle_PDP_UDP_NEW_def send_ack_new_def send_packet_def Let_def)

lemma DONE_resend_chunks: "handle_PDP_UDP_DONE x = Some y \<Longrightarrow> length (x_resend_chunks y) = length (x_resend_chunks x)"
  by (auto simp: handle_PDP_UDP_DONE_def send_packet_def Let_def dest: length_resend_loop split: if_splits Option.bind_splits)

lemma DATA_resend_chunks: "handle_UDP_DATA x = Some y \<Longrightarrow> x_resend_chunks y = x_resend_chunks x"
  by (auto simp: handle_UDP_DATA_def Let_def split: if_splits)

text \<open>The receiver after the read, and what the rest of the function makes of it.\<close>

definition read_datagram :: "bytes \<Rightarrow> t_pdp_udp_receiver \<Rightarrow> t_pdp_udp_receiver" where
  "read_datagram dg x =
     (let dg = recv (PDP_UDP_BUFSIZE + int HEADER_SIZE) dg
      in x\<lparr>x_header := read_header dg (x_header x), x_buf := fill (drop HEADER_SIZE dg) (x_buf x),
           x_buf_size := of_nat (length dg) - of_nat HEADER_SIZE\<rparr>)"

lemma read_datagram_fields [simp]:
  "x_connection_id (read_datagram dg x) = x_connection_id x" "x_resend_chunks (read_datagram dg x) = x_resend_chunks x"
  "assembling ty sz data c (read_datagram dg x) = assembling ty sz data c x"
  by (simp_all add: read_datagram_def Let_def assembling_def)

lemma receive_cases:
  assumes "pdp_udp_receiver_receive (Datagram dg) x = Some (r, x')"
  obtains (ignored) "r = 0" "x' = read_datagram dg x"
  | (NEW) "r = 0" "x' = handle_PDP_UDP_NEW (read_datagram dg x)"
      "is_udp_header (x_header (read_datagram dg x)) (length (recv (PDP_UDP_BUFSIZE + int HEADER_SIZE) dg))"
  | (DONE) y where "handle_PDP_UDP_DONE (read_datagram dg x) = Some y"
      "x' = (if r = 1 then y\<lparr>x_packet_transferred := True\<rparr> else y)"
      "r = (if x_receive_finished y \<and> \<not> x_packet_transferred y then 1 else 0)"
      "is_udp_header (x_header (read_datagram dg x)) (length (recv (PDP_UDP_BUFSIZE + int HEADER_SIZE) dg))"
  | (DATA) "r = 0" "handle_UDP_DATA (read_datagram dg x) = Some x'"
      "is_udp_header (x_header (read_datagram dg x)) (length (recv (PDP_UDP_BUFSIZE + int HEADER_SIZE) dg))"
proof -
  let ?y = "read_datagram dg x"
  have "pdp_udp_receiver_receive (Datagram dg) x =
    (if is_udp_header (x_header ?y) (length (recv (PDP_UDP_BUFSIZE + int HEADER_SIZE) dg))
     then if sint (sequence_number (x_header ?y)) < 0
          then if sequence_number (x_header ?y) = PDP_UDP_NEW then Some (0, handle_PDP_UDP_NEW ?y)
               else if sequence_number (x_header ?y) = PDP_UDP_DONE
               then do { x \<leftarrow> handle_PDP_UDP_DONE ?y;
                         if x_receive_finished x \<and> \<not> x_packet_transferred x
                         then Some (1, x\<lparr>x_packet_transferred := True\<rparr>)
                         else Some (0, x) }
               else Some (0, ?y)
          else do { x \<leftarrow> handle_UDP_DATA ?y; Some (0, x) }
     else Some (0, ?y))"
    by (simp add: pdp_udp_receiver_receive_def read_datagram_def Let_def)
  with assms that show ?thesis by (auto split: if_splits Option.bind_splits)
qed

lemma receive_foreign:
  assumes f: "case ev of Datagram dg \<Rightarrow> foreign k dg | _ \<Rightarrow> True"
    and r: "pdp_udp_receiver_receive ev x = Some (r, x')"
    and a: "tracks k ty sz data c x"
  shows "tracks k ty sz data c x' \<and> length (x_resend_chunks x') = length (x_resend_chunks x)"
proof (cases ev)
  case (Datagram dg)
  let ?x = "read_datagram dg x"
  have id: "is_udp_header (x_header ?x) (length (recv (PDP_UDP_BUFSIZE + int HEADER_SIZE) dg)) \<Longrightarrow> connection_id (x_header ?x) \<noteq> k"
    using f foreign_header [of k dg "PDP_UDP_BUFSIZE + int HEADER_SIZE" "x_header x"]
    by (simp add: Datagram PDP_UDP_BUFSIZE_def read_datagram_def Let_def)
  from r [unfolded Datagram] show ?thesis
  proof (cases rule: receive_cases)
    case ignored
    with a show ?thesis by (simp add: tracks_def)
  next
    case NEW
    with id show ?thesis by (simp add: tracks_def NEW_id NEW_resend_chunks)
  next
    case (DONE y)
    have "tracks k ty sz data c y"
      using DONE(1) DONE_id [OF DONE(1)] DONE_other [of ?x] id [OF DONE(4)] a
      by (cases "x_connection_id x = k") (auto simp: tracks_def)
    with DONE(2) DONE_resend_chunks [OF DONE(1)] show ?thesis
      by (auto simp: tracks_def assembling_def)
  next
    case DATA
    have "tracks k ty sz data c x'"
      using DATA(2) DATA_id [OF DATA(2)] DATA_other [of ?x] id [OF DATA(3)] a
      by (cases "x_connection_id x = k") (auto simp: tracks_def)
    with DATA_resend_chunks [OF DATA(2)] show ?thesis by simp
  qed
qed (use r a in \<open>simp_all add: pdp_udp_receiver_receive_def\<close>)

lemma delivery_finished:
  assumes "pdp_udp_receiver_receive ev x = Some (1, x')"
  shows "x_receive_finished x'"
proof (cases ev)
  case (Datagram dg)
  from assms [unfolded Datagram] show ?thesis by (cases rule: receive_cases) (auto split: if_splits)
qed (use assms in \<open>simp_all add: pdp_udp_receiver_receive_def\<close>)

section \<open>Integrity\<close>

text \<open>
  The datagrams of one transmission, and the states a receiver can be in when only those and datagrams of
  others reach it. A run ends where the receiver leaves its buffers.
\<close>

inductive own :: "u32 \<Rightarrow> bytes \<Rightarrow> u32 \<Rightarrow> bytes \<Rightarrow> u32 \<Rightarrow> bytes \<Rightarrow> bool" for k ty sz data c where
  NEW: "own k ty sz data c (pdu_new k ty sz c)"
| DATA: "i < unat (nb_chunks sz c) \<Longrightarrow> own k ty sz data c (pdu_chunk k sz c data i)"
| DONE: "own k ty sz data c (pdu_done k)"

definition admissible :: "u32 \<Rightarrow> bytes set \<Rightarrow> event \<Rightarrow> bool" where
  "admissible k own_datagrams ev = (case ev of Datagram dg \<Rightarrow> dg \<in> own_datagrams \<or> foreign k dg | _ \<Rightarrow> True)"

inductive receiving :: "u32 \<Rightarrow> bytes set \<Rightarrow> t_pdp_udp_receiver \<Rightarrow> bool" for k S where
  new: "receiving k S pdp_udp_receiver_new"
| reset: "receiving k S x \<Longrightarrow> receiving k S (pdp_udp_receiver_reset x)"
| event: "receiving k S x \<Longrightarrow> admissible k S ev \<Longrightarrow> pdp_udp_receiver_receive ev x = Some (r, x') \<Longrightarrow> receiving k S x'"

lemma receive_resend_chunks:
  assumes "pdp_udp_receiver_receive ev x = Some (r, x')"
  shows "length (x_resend_chunks x') = length (x_resend_chunks x)"
proof (cases ev)
  case (Datagram dg)
  from assms [unfolded Datagram] show ?thesis
    by (cases rule: receive_cases)
      (auto simp: NEW_resend_chunks dest!: DONE_resend_chunks DATA_resend_chunks split: if_splits)
qed (use assms in \<open>simp_all add: pdp_udp_receiver_receive_def\<close>)

lemma receive_own:
  assumes t: "transmissible ty sz data c" and k: "k \<noteq> 0" and o: "own k ty sz data c dg"
    and x: "tracks k ty sz data c x" "length (x_resend_chunks x) = RESEND_MAX_CHUNKS"
  obtains r x' where "pdp_udp_receiver_receive (Datagram dg) x = Some (r, x')" "tracks k ty sz data c x'"
  using o
proof cases
  case NEW
  with receive_NEW [OF t x(1)] that show ?thesis by (auto simp: tracks_def)
next
  case (DATA i)
  with receive_chunk [OF t k _ x(1)] that show ?thesis by metis
next
  case DONE
  show ?thesis
  proof (cases "x_connection_id x = k")
    case True
    with x(1) have "assembling ty sz data c x" by (simp add: tracks_def)
    from receive_DONE [OF x(2) True this] that show ?thesis
      unfolding DONE tracks_def by metis
  next
    case False
    with receive_DONE_other [OF False] that show ?thesis
      unfolding DONE tracks_def by metis
  qed
qed

lemma receiving_tracks:
  assumes t: "transmissible ty sz data c" and k: "k \<noteq> 0" and S: "\<And>dg. dg \<in> S \<Longrightarrow> own k ty sz data c dg"
    and x: "receiving k S x"
  shows "tracks k ty sz data c x \<and> length (x_resend_chunks x) = RESEND_MAX_CHUNKS"
  using x
proof induction
  case new
  from k show ?case by (simp add: tracks_def pdp_udp_receiver_new_def)
next
  case (reset x)
  with k show ?case by (simp add: tracks_def pdp_udp_receiver_reset_def)
next
  case (event x ev r x')
  show ?case
  proof (cases "case ev of Datagram dg \<Rightarrow> foreign k dg | _ \<Rightarrow> True")
    case True
    then show ?thesis using receive_foreign [OF True event(3), of ty sz data c] event.IH by simp
  next
    case False
    with event(2) obtain dg where "ev = Datagram dg" "own k ty sz data c dg"
      by (auto simp: admissible_def S split: event.splits)
    with event receive_own [OF t k] show ?thesis
      by (metis (no_types, lifting) Pair_inject option.inject receive_resend_chunks)
  qed
qed

text \<open>What is delivered under the id of the transmission is the sender's data, type and size.\<close>

lemma receiving_delivers:
  assumes t: "transmissible ty sz data c" and k: "k \<noteq> 0" and S: "\<And>dg. dg \<in> S \<Longrightarrow> own k ty sz data c dg"
    and x: "receiving k S x" and ev: "admissible k S ev"
    and r: "pdp_udp_receiver_receive ev x = Some (1, x')" and id: "x_connection_id x' = k"
  shows "x_data x' = take (unat sz) data \<and> x_data_type x' = Some ty \<and> x_data_size x' = sz"
proof -
  have "receiving k S x'" by (rule receiving.event [OF x ev r])
  then have a: "assembling ty sz data c x'"
    using receiving_tracks [OF t k S] id by (auto simp: tracks_def)
  with delivery_finished [OF r] have "list_all id (x_chunk_list x')" by (simp add: assembling_def)
  with a assembled [OF t a] show ?thesis by (simp add: assembling_def)
qed

end
