(* ===== verification/NetSendOk.thy ===== *)
theory NetSendOk
  imports NetRun
begin

text \<open>
  What a sender emits, the resend list it takes over, and the properties of sender and receiver together.
\<close>

section \<open>Datagrams of the sender\<close>

text \<open>\<open>sending\<close>: the sender is at work on the transmission and will send chunks of it only.\<close>

definition sending :: "u32 \<Rightarrow> bytes \<Rightarrow> u32 \<Rightarrow> bytes \<Rightarrow> u32 \<Rightarrow> t_pdp_udp_sender \<Rightarrow> bool" where
  "sending k ty sz data c s \<longleftrightarrow>
     s_connection_id s = k \<and> s_data_type s = ty \<and> s_data_size s = sz \<and> s_data s = data \<and> s_chunk_size s = c \<and>
     s_nb_chunks s = nb_chunks sz c \<and> length (s_chunk_list s) = unat (nb_chunks sz c) \<and>
     unat (s_chunk_list_size s) \<le> unat (nb_chunks sz c) \<and>
     (\<forall>w \<in> set (take (unat (s_chunk_list_size s)) (s_chunk_list s)). unat w < unat (nb_chunks sz c))"

lemma flow_sleep_count:
  obtains n where "flow_sleep s = s\<lparr>s_sleep_count := n\<rparr>"
proof (cases "s_sleep_period s = 0")
  case True
  then show ?thesis by (intro that [of "s_sleep_count s"]) (simp add: flow_sleep_def)
next
  case False
  then show ?thesis by (intro that) (simp add: flow_sleep_def)
qed

lemma send_datagram_result:
  assumes "uint (s_buf_size s) \<le> PDP_UDP_BUFSIZE"
  obtains n where "send_datagram s = Some (s\<lparr>s_header := make_udp_header (s_header s), s_sleep_count := n,
    sent := sent s @ [pdu (connection_id (s_header s)) (sequence_number (s_header s)) (bytes_of (s_buf s) (unat (s_buf_size s)))]\<rparr>)"
proof -
  have pdu: "header_bytes (make_udp_header h) @ body = pdu (connection_id h) (sequence_number h) body" for h body
    by (cases h) (simp add: make_udp_header_def pdu_def)
  obtain n where "flow_sleep (s\<lparr>s_header := make_udp_header (s_header s), sent := sent s @
      [pdu (connection_id (s_header s)) (sequence_number (s_header s)) (bytes_of (s_buf s) (unat (s_buf_size s)))]\<rparr>) =
    s\<lparr>s_header := make_udp_header (s_header s), sent := sent s @
      [pdu (connection_id (s_header s)) (sequence_number (s_header s)) (bytes_of (s_buf s) (unat (s_buf_size s)))],
      s_sleep_count := n\<rparr>"
    by (rule flow_sleep_count)
  then show ?thesis
    using assms by (intro that [of n]) (simp add: send_datagram_def Let_def pdu [symmetric] make_udp_header_def)
qed

text \<open>\<open>sends s ds s'\<close>: the step from \<open>s\<close> to \<open>s'\<close> emits the datagrams \<open>ds\<close> and keeps what the transmission rests on.\<close>

definition sends :: "u32 \<Rightarrow> t_pdp_udp_sender \<Rightarrow> bytes list \<Rightarrow> t_pdp_udp_sender \<Rightarrow> bool" where
  "sends k s ds s' \<longleftrightarrow>
     sent s' = sent s @ ds \<and> connection_id (s_header s') = k \<and> inbox s' = inbox s \<and>
     s_chunk_list s' = s_chunk_list s \<and> s_chunk_list_size s' = s_chunk_list_size s \<and>
     (\<forall>ty sz data c. sending k ty sz data c s \<longrightarrow> sending k ty sz data c s')"

lemma sends_trans: "sends k s ds s' \<Longrightarrow> sends k s' ds' s'' \<Longrightarrow> sends k s (ds @ ds') s''"
  by (simp add: sends_def)

lemma send_datagram_sends:
  assumes "connection_id h = k" and "int (length body) \<le> PDP_UDP_BUFSIZE"
  obtains s' where "send_datagram (s\<lparr>s_header := h, s_buf := fill body b, s_buf_size := of_nat (length body)\<rparr>) = Some s'"
    "sends k s [pdu k (sequence_number h) body] s'"
proof -
  have n: "unat (of_nat (length body) :: u32) = length body"
    using assms(2) by (simp add: unsigned_of_nat take_bit_nat_eq_self PDP_UDP_BUFSIZE_def)
  let ?s = "s\<lparr>s_header := h, s_buf := fill body b, s_buf_size := of_nat (length body)\<rparr>"
  have "uint (s_buf_size ?s) = int (length body)"
    using n by (simp add: uint_nat)
  with assms(2) have "uint (s_buf_size ?s) \<le> PDP_UDP_BUFSIZE" by simp
  then obtain m where "send_datagram ?s = Some (?s\<lparr>s_header := make_udp_header h, s_sleep_count := m,
      sent := sent s @ [pdu k (sequence_number h) body]\<rparr>)"
    using send_datagram_result [of ?s] assms(1) n by (auto simp add: bytes_of_fill)
  then show ?thesis
    by (rule that) (simp add: sends_def sending_def make_udp_header_def assms(1))
qed

lemma send_header_packet_sends:
  assumes t: "transmissible ty sz data c" and s: "sending k ty sz data c s"
  obtains s' where "send_header_packet s = Some s'" "sends k s [pdu_new k ty sz c] s'"
proof -
  let ?h = "(s_header s)\<lparr>sequence_number := PDP_UDP_NEW, connection_id := k\<rparr>"
  let ?body = "le32 sz @ le32 (nb_chunks sz c) @ le32 c @ ty @ [0]"
  have l: "int (length ?body) \<le> PDP_UDP_BUFSIZE"
    using transmissible_sizes(8) [OF t] by (simp add: PDP_UDP_BUFSIZE_def)
  obtain s' where s': "send_datagram (s\<lparr>s_header := ?h, s_buf := fill ?body (s_buf s), s_buf_size := of_nat (length ?body)\<rparr>) = Some s'"
      "sends k s [pdu k PDP_UDP_NEW ?body] s'"
    using send_datagram_sends [where h = ?h and k = k and body = ?body and s = s and b = "s_buf s", OF _ l] by auto
  have "send_header_packet s = Some s'"
    using s l s'(1) by (simp add: send_header_packet_def Let_def sending_def)
  with s'(2) show ?thesis by (intro that) (simp_all add: pdu_new_def)
qed

lemma send_chunk_sends:
  assumes t: "transmissible ty sz data c" and s: "sending k ty sz data c s" and h: "connection_id (s_header s) = k"
    and w: "unat w < unat (nb_chunks sz c)"
  obtains s' where "send_chunk w s = Some s'" "sends k s [pdu_chunk k sz c data (unat w)] s'"
proof -
  have comm: "s\<lparr>s_header := h, s_buf_size := m, s_buf := b\<rparr> = s\<lparr>s_header := h, s_buf := b, s_buf_size := m\<rparr>" for h m b
    by simp
  have f: "s_data_size s = sz" "s_data s = data" "s_chunk_size s = c"
    using s by (simp_all add: sending_def)
  define i where "i = unat w"
  have wi: "w = of_nat i" by (simp add: i_def)
  note i = w [folded i_def]
  let ?b = "chunk_bytes sz c data i"
  let ?h = "(s_header s)\<lparr>sequence_number := of_nat i\<rparr>"
  have o: "unat (of_nat i * c) = unat c * i" using chunk_number(3) [OF t i] by (simp add: mult.commute)
  have lt: "unat c * i < unat sz" by (rule chunk_offset [OF t i])
  have lb: "length ?b = min (unat c) (unat sz - unat c * i)" by (rule length_chunk_bytes [OF t i])
  have add: "unat (of_nat i * c + c) = unat c * i + unat c"
    using lt transmissible_sizes(5) [OF t] by (subst unat_add_lem [THEN iffD1]) (simp_all add: o)
  have sub: "unat (sz - of_nat i * c) = unat sz - unat c * i"
    using lt by (subst unat_sub) (simp_all add: word_le_nat_alt o)
  have cur: "(if sz < of_nat i * c + c then sz - of_nat i * c else c) = of_nat (length ?b)"
  proof (cases "unat sz < unat c * i + unat c")
    case True
    then have "of_nat (length ?b) = (of_nat (unat (sz - of_nat i * c)) :: u32)"
      unfolding lb sub by (intro arg_cong [of _ _ of_nat]) linarith
    with True show ?thesis by (simp add: word_less_nat_alt add)
  next
    case False
    then have "of_nat (length ?b) = (of_nat (unat c) :: u32)"
      unfolding lb by (intro arg_cong [of _ _ of_nat]) linarith
    with False show ?thesis by (simp add: word_less_nat_alt add)
  qed
  obtain s' where s': "send_datagram (s\<lparr>s_header := ?h, s_buf := fill ?b (s_buf s), s_buf_size := of_nat (length ?b)\<rparr>) = Some s'"
      "sends k s [pdu k (of_nat i) ?b] s'"
    using send_datagram_sends [where h = ?h and k = k and body = ?b and s = s and b = "s_buf s", OF _ length_chunk_le [OF t i]] h by auto
  have n: "unat (of_nat (length ?b) :: u32) = length ?b"
    using length_chunk_le [OF t i] by (simp add: unsigned_of_nat take_bit_nat_eq_self PDP_UDP_BUFSIZE_def)
  have "min (unat c) (unat sz - unat c * i) + unat c * i = min (unat sz) (unat c + unat c * i)"
    using lt by linarith
  then have "take (length ?b) (drop (unat c * i) data) = ?b"
    using lt transmissible_sizes(2) [OF t] by (simp add: lb) (simp add: chunk_bytes_def take_drop min.commute)
  moreover have "uint (of_nat (length ?b) :: u32) \<le> PDP_UDP_BUFSIZE"
    using length_chunk_le [OF t i] by (simp only: uint_nat n)
  moreover have "unat c * i + length ?b \<le> length data"
    using lt lb transmissible_sizes(2) [OF t] by linarith
  ultimately have "send_chunk w s = Some s'"
    using s'(1) unfolding send_chunk_def Let_def f wi cur o n comm by simp
  with s'(2) show ?thesis by (intro that) (simp_all add: pdu_chunk_def i_def)
qed


lemma send_list_sends:
  assumes t: "transmissible ty sz data c"
  shows "sending k ty sz data c s \<Longrightarrow> connection_id (s_header s) = k \<Longrightarrow>
    (\<And>w. w \<in> set ws \<Longrightarrow> unat w < unat (nb_chunks sz c)) \<Longrightarrow>
    \<exists>s'. send_list ws s = Some s' \<and> sends k s (map (\<lambda>w. pdu_chunk k sz c data (unat w)) ws) s'"
proof (induction ws arbitrary: s)
  case Nil
  then show ?case by (simp add: sends_def)
next
  case (Cons w ws)
  obtain s1 where s1: "send_chunk w s = Some s1" "sends k s [pdu_chunk k sz c data (unat w)] s1"
    by (rule send_chunk_sends [OF t Cons.prems(1,2)]) (use Cons.prems(3) in auto)
  then have "\<exists>s'. send_list ws s1 = Some s' \<and> sends k s1 (map (\<lambda>w. pdu_chunk k sz c data (unat w)) ws) s'"
    using Cons.prems by (intro Cons.IH) (auto simp: sends_def)
  with s1 sends_trans [OF s1(2)] show ?case by fastforce
qed

lemma send_chunks_sends:
  assumes t: "transmissible ty sz data c" and s: "sending k ty sz data c s" and h: "connection_id (s_header s) = k"
  obtains s' where "send_chunks s = Some s'"
    "sends k s (map (\<lambda>w. pdu_chunk k sz c data (unat w)) (take (unat (s_chunk_list_size s)) (s_chunk_list s))) s'"
  using send_list_sends [OF t s h, of "take (unat (s_chunk_list_size s)) (s_chunk_list s)"] s that
  by (auto simp: send_chunks_def sending_def)

lemma send_done_sends:
  assumes h: "connection_id (s_header s) = k"
  obtains s' where "send_done s = Some s'" "sends k s [pdu_done k] s'"
proof -
  let ?h = "(s_header s)\<lparr>sequence_number := PDP_UDP_DONE\<rparr>"
  obtain s' where "send_datagram (s\<lparr>s_header := ?h, s_buf := fill [] (s_buf s), s_buf_size := of_nat (length ([] :: bytes))\<rparr>) = Some s'"
      "sends k s [pdu k (sequence_number ?h) []] s'"
    by (rule send_datagram_sends [where h = ?h and k = k and body = "[]" and s = s and b = "s_buf s"])
      (use h in \<open>simp_all add: PDP_UDP_BUFSIZE_def\<close>)
  then show ?thesis
    by (intro that) (simp_all add: send_done_def pdu_done_def fill_def)
qed

section \<open>Answers\<close>

text \<open>
  A resend request that asks for existing chunks only. The receiver's own requests do; the sender takes over
  the list of any datagram with its connection id unchecked.
\<close>

definition fair_request :: "u32 \<Rightarrow> u32 \<Rightarrow> event \<Rightarrow> bool" where
  "fair_request k n ev =
     (case ev of
        Datagram dg \<Rightarrow>
          (let dg = recv MAX_UDP_PACKET dg; h = read_header dg blank_header
           in is_udp_header h (length dg) \<and> connection_id h = k \<and> sequence_number h = PDP_UDP_RESEND \<longrightarrow>
              list_all (\<lambda>w. unat w < unat n) (resend_list (fill (drop HEADER_SIZE dg) (\<lambda>_. 0)) ((length dg - HEADER_SIZE) div 4)))
      | _ \<Rightarrow> True)"

lemma resend_list_fill:
  "4 * n \<le> length bs \<Longrightarrow> resend_list (fill bs b) n = resend_list (fill bs b') n"
  by (simp add: resend_list_def word_at_def fill_def)

text \<open>What a wait leaves: only the fields of the answer and the inbox change.\<close>

definition heard :: "t_pdp_udp_sender \<Rightarrow> t_pdp_udp_sender \<Rightarrow> bool" where
  "heard s s' \<longleftrightarrow>
     sent s' = sent s \<and> s_header s' = s_header s \<and> s_nb_chunks s' = s_nb_chunks s \<and> s_connection_id s' = s_connection_id s \<and>
     s_chunk_list s' = s_chunk_list s \<and> (\<forall>k ty sz data c. sending k ty sz data c s \<longrightarrow> sending k ty sz data c s')"

lemma heard_trans: "heard s s' \<Longrightarrow> heard s' s'' \<Longrightarrow> heard s s''"
  by (simp add: heard_def)

definition read_answer :: "bytes \<Rightarrow> t_pdp_udp_sender \<Rightarrow> t_pdp_udp_sender" where
  "read_answer dg s = s\<lparr>s_resend_header := read_header dg (s_resend_header s), s_resend_chunks := fill (drop HEADER_SIZE dg) (s_resend_chunks s)\<rparr>"

lemma receive_from_Datagram:
  "receive_from (Datagram dg # evs) q s =
     (let dg = recv MAX_UDP_PACKET dg; y = read_answer dg s; h = s_resend_header y
      in if is_udp_header h (length dg) \<and> s_connection_id s = connection_id h \<and> sequence_number h = q
         then (1, (if q = PDP_UDP_RESEND then y\<lparr>s_resend_items := of_nat ((length dg - HEADER_SIZE) div 4)\<rparr> else y)\<lparr>inbox := evs\<rparr>)
         else receive_from evs q y)"
  by (simp add: read_answer_def Let_def)

declare receive_from.simps(2) [simp del]

lemma heard_answer [simp]: "heard s (read_answer dg s)" "s_connection_id (read_answer dg s) = s_connection_id s"
  by (simp_all add: heard_def read_answer_def sending_def)

definition requested :: "t_pdp_udp_sender \<Rightarrow> u32 list" where
  "requested s = resend_list (s_resend_chunks s) (unat (s_resend_items s))"

lemma receive_from_heard:
  assumes "receive_from evs q s = (r, s')"
  shows "heard s s' \<and> set (inbox s') \<subseteq> set evs \<and>
    (r = 1 \<and> q = PDP_UDP_RESEND \<longrightarrow> unat (s_resend_items s') \<le> RESEND_MAX_CHUNKS \<and>
       ((\<forall>ev \<in> set evs. fair_request (s_connection_id s) n ev) \<longrightarrow> (\<forall>w \<in> set (requested s'). unat w < unat n)))"
  using assms
proof (induction evs arbitrary: s)
  case Nil
  then show ?case by (auto simp: heard_def sending_def)
next
  case (Cons ev evs)
  show ?case
  proof (cases ev)
    case (Datagram dg)
    let ?d = "recv MAX_UDP_PACKET dg"
    let ?y = "read_answer ?d s"
    let ?h = "s_resend_header ?y"
    show ?thesis
    proof (cases "is_udp_header ?h (length ?d) \<and> s_connection_id s = connection_id ?h \<and> sequence_number ?h = q")
      case False
      then have "receive_from evs q ?y = (r, s')"
        using Cons.prems unfolding Datagram receive_from_Datagram Let_def if_not_P [OF False] by blast
      from Cons.IH [OF this] heard_trans [of s ?y s'] show ?thesis by auto
    next
      case True
      let ?n = "(length ?d - HEADER_SIZE) div 4"
      have res: "r = 1" "s' = (if q = PDP_UDP_RESEND then ?y\<lparr>s_resend_items := of_nat ?n\<rparr> else ?y)\<lparr>inbox := evs\<rparr>"
        using Cons.prems True by (simp_all add: Datagram receive_from_Datagram Let_def)
      have "heard ?y s'" by (simp add: res heard_def sending_def)
      then have "heard s s'" using heard_trans heard_answer(1) by blast
      moreover have bound: "?n \<le> RESEND_MAX_CHUNKS"
      proof -
        have "length ?d \<le> 1472" by (simp add: recv_def MAX_UDP_PACKET_def)
        then show ?thesis by (simp add: RESEND_MAX_CHUNKS_def MAX_UDP_PACKET_def HEADER_SIZE_def)
      qed
      moreover have "unat (of_nat ?n :: u32) = ?n"
        using bound by (simp add: unsigned_of_nat take_bit_nat_eq_self RESEND_MAX_CHUNKS_def MAX_UDP_PACKET_def HEADER_SIZE_def)
      moreover have "\<forall>w \<in> set (resend_list (s_resend_chunks ?y) ?n). unat w < unat n"
        if q: "q = PDP_UDP_RESEND" and fair: "fair_request (s_connection_id s) n ev"
      proof -
        have l: "HEADER_SIZE \<le> length ?d" using True by (simp add: is_udp_header_def split: if_splits)
        have "?h = read_header ?d blank_header"
          using is_udp_header_long [OF l] by (simp add: read_answer_def)
        then have "list_all (\<lambda>w. unat w < unat n) (resend_list (fill (drop HEADER_SIZE ?d) (\<lambda>_. 0)) ?n)"
          using fair True q by (simp add: fair_request_def Datagram Let_def)
        moreover have "resend_list (fill (drop HEADER_SIZE ?d) (\<lambda>_. 0)) ?n = resend_list (s_resend_chunks ?y) ?n"
          using l by (simp add: read_answer_def resend_list_fill)
        ultimately show ?thesis by (simp add: list_all_iff)
      qed
      ultimately show ?thesis by (auto simp: res requested_def)
    qed
  qed (use Cons.prems in \<open>auto simp: receive_from.simps heard_def sending_def\<close>)
qed


section \<open>The loops of a transmission\<close>

text \<open>
  \<open>progress\<close>: a step emits datagrams of the transmission only, keeps the sender at work on it, and leaves an
  inbox of fair requests.
\<close>

definition fair_inbox :: "u32 \<Rightarrow> u32 \<Rightarrow> t_pdp_udp_sender \<Rightarrow> bool" where
  "fair_inbox k n s \<longleftrightarrow> (\<forall>ev \<in> set (inbox s). fair_request k n ev)"

definition progress :: "u32 \<Rightarrow> bytes \<Rightarrow> u32 \<Rightarrow> bytes \<Rightarrow> u32 \<Rightarrow> t_pdp_udp_sender \<Rightarrow> t_pdp_udp_sender \<Rightarrow> bool" where
  "progress k ty sz data c s s' \<longleftrightarrow>
     sending k ty sz data c s' \<and> connection_id (s_header s') = k \<and> fair_inbox k (nb_chunks sz c) s' \<and>
     (\<exists>ds. sent s' = sent s @ ds \<and> (\<forall>d \<in> set ds. own k ty sz data c d))"

lemma progress_trans: "progress k ty sz data c s s' \<Longrightarrow> progress k ty sz data c s' s'' \<Longrightarrow> progress k ty sz data c s s''"
  by (auto simp: progress_def)

lemma progress_sends:
  assumes "sends k s ds s'" and "sending k ty sz data c s" and "fair_inbox k (nb_chunks sz c) s" and "\<forall>d \<in> set ds. own k ty sz data c d"
  shows "progress k ty sz data c s s'"
  using assms by (simp add: sends_def progress_def fair_inbox_def)

lemma progress_heard:
  assumes "progress k ty sz data c s s'" and "heard s' s''" and "set (inbox s'') \<subseteq> set (inbox s')"
  shows "progress k ty sz data c s s''"
  using assms by (auto simp: heard_def progress_def fair_inbox_def)

lemma receive_packet_progress:
  assumes "receive_packet s q = (r, s')" and "progress k ty sz data c s0 s"
  shows "progress k ty sz data c s0 s'"
    and "r = 1 \<and> q = PDP_UDP_RESEND \<Longrightarrow> unat (s_resend_items s') \<le> RESEND_MAX_CHUNKS \<and> (\<forall>w \<in> set (requested s'). unat w < unat (nb_chunks sz c))"
proof -
  have h: "heard s s' \<and> set (inbox s') \<subseteq> set (inbox s) \<and>
    (r = 1 \<and> q = PDP_UDP_RESEND \<longrightarrow> unat (s_resend_items s') \<le> RESEND_MAX_CHUNKS \<and>
       ((\<forall>ev \<in> set (inbox s). fair_request (s_connection_id s) (nb_chunks sz c) ev) \<longrightarrow> (\<forall>w \<in> set (requested s'). unat w < unat (nb_chunks sz c))))"
    using assms(1) unfolding receive_packet_def by (rule receive_from_heard)
  then show "progress k ty sz data c s0 s'"
    by (intro progress_heard [OF assms(2)]) simp_all
  have "s_connection_id s = k" using assms(2) by (simp add: progress_def sending_def)
  with h assms(2) show "r = 1 \<and> q = PDP_UDP_RESEND \<Longrightarrow> unat (s_resend_items s') \<le> RESEND_MAX_CHUNKS \<and> (\<forall>w \<in> set (requested s'). unat w < unat (nb_chunks sz c))"
    by (simp add: progress_def fair_inbox_def)
qed

lemma receive_from_result: "receive_from evs q s = (r, s') \<Longrightarrow> r = 0 \<or> r = -1 \<or> r = 1"
  by (induction evs arbitrary: s) (auto simp: receive_from.simps Let_def split: event.splits if_splits)

lemma progress_chunk_list:
  assumes "progress k ty sz data c s0 s" and "unat n \<le> length ws" and "length ws = unat (nb_chunks sz c)"
    and "\<forall>w \<in> set (take (unat n) ws). unat w < unat (nb_chunks sz c)"
  shows "progress k ty sz data c s0 (s\<lparr>s_chunk_list_size := n, s_chunk_list := ws\<rparr>)"
  using assms by (simp add: progress_def sending_def fair_inbox_def)

lemma progress_no_chunks:
  assumes "progress k ty sz data c s0 s"
  shows "progress k ty sz data c s0 (s\<lparr>s_chunk_list_size := 0\<rparr>)" "progress k ty sz data c s0 (s\<lparr>s_resend_items := 0\<rparr>)"
  using assms by (simp_all add: progress_def sending_def fair_inbox_def)

lemma need_resend_progress:
  assumes "progress k ty sz data c s0 s"
  shows "\<exists>b s'. need_resend_loop n s = Some (b, s') \<and> progress k ty sz data c s0 s'"
  using assms
proof (induction n arbitrary: s)
  case 0
  then show ?case by (auto simp add: progress_no_chunks)
next
  case (Suc n)
  have s: "sending k ty sz data c s" "connection_id (s_header s) = k" "fair_inbox k (nb_chunks sz c) s"
    using Suc.prems by (simp_all add: progress_def)
  obtain s1 where s1: "send_done s = Some s1" "sends k s [pdu_done k] s1"
    by (rule send_done_sends [OF s(2)])
  have p1: "progress k ty sz data c s0 s1"
    by (rule progress_trans [OF Suc.prems progress_sends [OF s1(2) s(1,3)]]) (simp add: own.DONE)
  obtain r s2 where r: "receive_packet s1 PDP_UDP_RESEND = (r, s2)" by force
  note p2 = receive_packet_progress [OF r p1]
  let ?n = "unat (s_resend_items s2)"
  have l: "length (s_chunk_list s2) = unat (nb_chunks sz c)" "s_nb_chunks s2 = nb_chunks sz c"
    using p2(1) by (simp_all add: progress_def sending_def)
  have step: "need_resend_loop (Suc n) s =
     (if r = 0 then need_resend_loop n s2
      else if r = -1 then Some (False, s2\<lparr>s_chunk_list_size := 0\<rparr>)
      else if s_resend_items s2 > s_nb_chunks s2 then need_resend_loop n (s2\<lparr>s_resend_items := 0\<rparr>)
      else if ?n > length (s_chunk_list s2) \<or> ?n > RESEND_MAX_CHUNKS then None
      else Some (0 < ?n, s2\<lparr>s_chunk_list_size := s_resend_items s2, s_chunk_list := requested s2 @ drop ?n (s_chunk_list s2)\<rparr>))"
    by (simp add: s1(1) r Let_def requested_def)
  have "r = 0 \<or> r = -1 \<or> r = 1"
    using r unfolding receive_packet_def by (rule receive_from_result)
  then consider "r = 0" | "r = -1" | "r = 1" "s_resend_items s2 > s_nb_chunks s2" | "r = 1" "s_resend_items s2 \<le> s_nb_chunks s2"
    by fastforce
  then show ?case
  proof cases
    case 1
    with Suc.IH [OF p2(1)] step show ?thesis by simp
  next
    case 2
    then have "need_resend_loop (Suc n) s = Some (False, s2\<lparr>s_chunk_list_size := 0\<rparr>)"
      by (subst step) simp
    with progress_no_chunks(1) [OF p2(1)] show ?thesis by blast
  next
    case 3
    with Suc.IH [OF progress_no_chunks(2) [OF p2(1)]] step show ?thesis by simp
  next
    case 4
    have lr: "length (requested s2) = ?n" by (simp add: requested_def resend_list_def)
    have le: "?n \<le> length (s_chunk_list s2)" using 4(2) l by (simp add: word_le_nat_alt)
    have "progress k ty sz data c s0 (s2\<lparr>s_chunk_list_size := s_resend_items s2, s_chunk_list := requested s2 @ drop ?n (s_chunk_list s2)\<rparr>)"
      using p2(2) 4(1) lr le l by (intro progress_chunk_list [OF p2(1)]) simp_all
    moreover have "need_resend_loop (Suc n) s =
        Some (0 < ?n, s2\<lparr>s_chunk_list_size := s_resend_items s2, s_chunk_list := requested s2 @ drop ?n (s_chunk_list s2)\<rparr>)"
      using p2(2) 4 le by (subst step) (simp add: leD)
    ultimately show ?thesis by blast
  qed
qed


lemma transmission_progress:
  assumes t: "transmissible ty sz data c" and "progress k ty sz data c s0 s"
  shows "\<exists>b s'. transmission_loop n s = Some (b, s') \<and> progress k ty sz data c s0 s'"
  using assms(2)
proof (induction n arbitrary: s)
  case 0
  then show ?case by auto
next
  case (Suc n)
  have s: "sending k ty sz data c s" "connection_id (s_header s) = k" "fair_inbox k (nb_chunks sz c) s"
    using Suc.prems by (simp_all add: progress_def)
  let ?ws = "take (unat (s_chunk_list_size s)) (s_chunk_list s)"
  obtain s1 where s1: "send_chunks s = Some s1" "sends k s (map (\<lambda>w. pdu_chunk k sz c data (unat w)) ?ws) s1"
    by (rule send_chunks_sends [OF t s(1,2)])
  have "\<forall>d \<in> set (map (\<lambda>w. pdu_chunk k sz c data (unat w)) ?ws). own k ty sz data c d"
    using s(1) by (auto simp: sending_def intro: own.DATA)
  from progress_trans [OF Suc.prems progress_sends [OF s1(2) s(1,3) this]]
  have p1: "progress k ty sz data c s0 s1" .
  obtain b s2 where s2: "need_resend s1 = Some (b, s2)" "progress k ty sz data c s0 s2"
    using need_resend_progress [OF p1] unfolding need_resend_def by blast
  show ?case
  proof (cases b)
    case True
    with Suc.IH [OF s2(2)] s1(1) s2(1) show ?thesis by simp
  next
    case False
    then have "transmission_loop (Suc n) s = Some (True, s2)" using s1(1) s2(1) by simp
    with s2(2) show ?thesis by blast
  qed
qed

lemma handshake_progress:
  assumes t: "transmissible ty sz data c" and "sending k ty sz data c s" and "fair_inbox k (nb_chunks sz c) s"
  shows "\<exists>b s'. handshake_loop n s = Some (b, s') \<and> (\<exists>ds. sent s' = sent s @ ds \<and> (\<forall>d \<in> set ds. own k ty sz data c d)) \<and>
    s_connection_id s' = k \<and> (b \<longrightarrow> progress k ty sz data c s s')"
  using assms(2,3)
proof (induction n arbitrary: s)
  case 0
  then show ?case by (auto simp add: sending_def)
next
  case (Suc n)
  obtain s1 where s1: "send_header_packet s = Some s1" "sends k s [pdu_new k ty sz c] s1"
    by (rule send_header_packet_sends [OF t Suc.prems(1)])
  have p1: "progress k ty sz data c s s1"
    by (rule progress_sends [OF s1(2) Suc.prems]) (simp add: own.NEW)
  obtain r s2 where r: "receive_packet s1 PDP_UDP_ACKNEW = (r, s2)" by force
  note p2 = receive_packet_progress(1) [OF r p1]
  show ?case
  proof (cases "r = 0")
    case True
    from p2 have s2: "sending k ty sz data c s2" "fair_inbox k (nb_chunks sz c) s2"
      and ds: "\<exists>ds. sent s2 = sent s @ ds \<and> (\<forall>d \<in> set ds. own k ty sz data c d)"
      by (simp_all add: progress_def)
    from Suc.IH [OF s2] obtain b s' where s': "handshake_loop n s2 = Some (b, s')"
      "\<exists>ds. sent s' = sent s2 @ ds \<and> (\<forall>d \<in> set ds. own k ty sz data c d)" "s_connection_id s' = k"
      "b \<Longrightarrow> progress k ty sz data c s2 s'" by auto
    have "handshake_loop (Suc n) s = Some (b, s')" using s1(1) r True s'(1) by simp
    moreover have "\<exists>ds. sent s' = sent s @ ds \<and> (\<forall>d \<in> set ds. own k ty sz data c d)"
      using ds s'(2) by (auto simp: ball_Un)
    moreover have "b \<Longrightarrow> progress k ty sz data c s s'"
      using progress_trans [OF p2] s'(4) by blast
    ultimately show ?thesis using s'(3) by blast
  next
    case False
    then have "handshake_loop (Suc n) s = Some (True, s2)" using s1(1) r by simp
    with p2 show ?thesis by (auto simp: progress_def sending_def)
  qed
qed

lemma prepare_sending:
  assumes t: "transmissible ty sz data c" and c: "s_udp_payload_size s = c"
    and k: "dropWhile (\<lambda>r. r = 0) (rands s) = k # rs"
  obtains s' where "prepare_for_new_transmission s ty sz data = Some s'" "sending k ty sz data c s'" "k \<noteq> 0"
    "inbox s' = inbox s" "sent s' = sent s" "s_chunk_list s' = map of_nat [0..<unat (nb_chunks sz c)]"
    "s_chunk_list_size s' = nb_chunks sz c" "rands s' = rs"
proof -
  let ?s' = "s\<lparr>s_data_type := ty, s_data_size := sz, s_data := data, s_chunk_size := c, s_nb_chunks := nb_chunks sz c,
    s_connection_id := k, rands := rs, s_chunk_list_size := nb_chunks sz c,
    s_chunk_list := map of_nat [0..<unat (nb_chunks sz c)]\<rparr>"
  have "c \<noteq> 0" using transmissible_sizes(3) [OF t] by auto
  then have "prepare_for_new_transmission s ty sz data = Some ?s'"
    by (simp add: prepare_for_new_transmission_def c k nb_chunks_def Let_def)
  moreover have "sending k ty sz data c ?s'"
    using chunk_number(1) [OF t] by (simp add: sending_def atLeast0LessThan [symmetric])
  moreover have "k \<noteq> 0" using hd_dropWhile [of "\<lambda>r. r = 0" "rands s"] k by simp
  ultimately show ?thesis by (rule that) simp_all
qed

lemma send_emits_own:
  assumes t: "transmissible ty sz data c" and c: "s_udp_payload_size s = c" and sock: "s_socket s \<noteq> -1"
    and k: "dropWhile (\<lambda>r. r = 0) (rands s) = k # rs" and fair: "fair_inbox k (nb_chunks sz c) s"
  obtains r s' ds where "pdp_udp_sender_send s ty sz data = Some (r, s')" "s_connection_id s' = k" "k \<noteq> 0"
    "sent s' = sent s @ ds" "\<forall>d \<in> set ds. own k ty sz data c d"
proof -
  obtain s1 where s1: "prepare_for_new_transmission s ty sz data = Some s1" "sending k ty sz data c s1" "k \<noteq> 0"
    "inbox s1 = inbox s" "sent s1 = sent s"
    by (rule prepare_sending [OF t c k])
  have "fair_inbox k (nb_chunks sz c) s1" using fair s1(4) by (simp add: fair_inbox_def)
  from handshake_progress [OF t s1(2) this] obtain b s2 ds where s2: "handshake_loop 5 s1 = Some (b, s2)"
    "sent s2 = sent s @ ds" "\<forall>d \<in> set ds. own k ty sz data c d" "s_connection_id s2 = k" "b \<longrightarrow> progress k ty sz data c s1 s2"
    using s1(5) by metis
  show ?thesis
  proof (cases b)
    case False
    then have "pdp_udp_sender_send s ty sz data = Some (0, s2)"
      using sock s1(1) s2(1) by (simp add: pdp_udp_sender_send_def)
    with s2 s1(3) that show ?thesis by blast
  next
    case True
    with s2(5) transmission_progress [OF t] obtain b' s3 where
      s3: "transmission_loop 5 s2 = Some (b', s3)" "progress k ty sz data c s1 s3" by blast
    then have "pdp_udp_sender_send s ty sz data = Some (if b' then 1 else 0, s3)"
      using True sock s1(1) s2(1) by (simp add: pdp_udp_sender_send_def)
    moreover obtain ds' where "sent s3 = sent s @ ds'" "\<forall>d \<in> set ds'. own k ty sz data c d"
      using s3(2) s1(5) by (auto simp: progress_def)
    moreover have "s_connection_id s3 = k" using s3(2) by (simp add: progress_def sending_def)
    ultimately show ?thesis using s1(3) that by blast
  qed
qed

end
