(* ===== verification/NetLink.thy ===== *)
theory NetLink
  imports NetSendOk
begin

text \<open>
  Sender and receiver together: integrity, completeness, the resend round, a transmission without loss, and
  what the sender reports when nobody answers.
\<close>

section \<open>Sequences of datagrams\<close>

primrec receive_all :: "event list \<Rightarrow> t_pdp_udp_receiver \<Rightarrow> (int list \<times> t_pdp_udp_receiver) option" where
  "receive_all [] x = Some ([], x)"
| "receive_all (ev # evs) x =
     do { (r, x) \<leftarrow> pdp_udp_receiver_receive ev x; (rs, x) \<leftarrow> receive_all evs x; Some (r # rs, x) }"

lemma receive_all_append:
  "receive_all evs x = Some (rs, x') \<Longrightarrow> receive_all evs' x' = Some (rs', x'') \<Longrightarrow> receive_all (evs @ evs') x = Some (rs @ rs', x'')"
  by (induction evs arbitrary: x rs) (auto split: Option.bind_splits)

lemma length_receive_all: "receive_all evs x = Some (rs, x') \<Longrightarrow> length rs = length evs"
  by (induction evs arbitrary: x rs) (auto split: Option.bind_splits)

lemma receive_all_append_conv:
  "receive_all (evs @ [ev]) x = Some (rs @ [r], x'') \<Longrightarrow>
    \<exists>x'. receive_all evs x = Some (rs, x') \<and> pdp_udp_receiver_receive ev x' = Some (r, x'')"
proof (induction evs arbitrary: x rs)
  case Nil
  then show ?case by (auto split: Option.bind_splits)
next
  case (Cons e evs)
  then obtain r0 x1 rs1 where e: "pdp_udp_receiver_receive e x = Some (r0, x1)"
    and rest: "receive_all (evs @ [ev]) x1 = Some (rs1, x'')" "rs @ [r] = r0 # rs1"
    by (auto split: Option.bind_splits)
  have "rs1 \<noteq> []" using length_receive_all [OF rest(1)] by auto
  with rest(2) obtain rs2 where "rs = r0 # rs2" "rs1 = rs2 @ [r]" by (cases rs) auto
  with Cons.IH [of x1 rs2] e rest(1) show ?case by auto
qed

lemma receive_all_receiving:
  "receiving k S x \<Longrightarrow> list_all (admissible k S) evs \<Longrightarrow> receive_all evs x = Some (rs, x') \<Longrightarrow> receiving k S x'"
proof (induction evs arbitrary: x rs)
  case (Cons ev evs)
  then obtain r x1 rs1 where "pdp_udp_receiver_receive ev x = Some (r, x1)" "receive_all evs x1 = Some (rs1, x')"
    by (auto split: Option.bind_splits)
  with Cons receiving.event [OF Cons.prems(1)] show ?case by simp blast
qed simp

lemma receive_chunks:
  assumes t: "transmissible ty sz data c" and k: "k \<noteq> 0"
  shows "x_connection_id x = k \<Longrightarrow> assembling ty sz data c x \<Longrightarrow> (\<And>i. i \<in> set js \<Longrightarrow> i < unat (nb_chunks sz c)) \<Longrightarrow>
    \<exists>x'. receive_all (map (\<lambda>i. Datagram (pdu_chunk k sz c data i)) js) x = Some (replicate (length js) 0, x') \<and>
      x_connection_id x' = k \<and> assembling ty sz data c x' \<and> x_packet_transferred x' = x_packet_transferred x \<and>
      out x' = out x \<and> length (x_resend_chunks x') = length (x_resend_chunks x) \<and>
      (\<forall>j < unat (nb_chunks sz c). x_chunk_list x' ! j \<longleftrightarrow> x_chunk_list x ! j \<or> j \<in> set js)"
proof (induction "js" arbitrary: x)
  case Nil
  then show ?case by simp
next
  case (Cons i js)
  have i: "i < unat (nb_chunks sz c)" using Cons.prems(3) by simp
  have tr: "tracks k ty sz data c x" using Cons.prems(2) by (simp add: tracks_def)
  obtain x1 where x1: "pdp_udp_receiver_receive (Datagram (pdu_chunk k sz c data i)) x = Some (0, x1)"
    "x_connection_id x1 = k" "tracks k ty sz data c x1" "x_chunk_list x1 = (x_chunk_list x)[i := True]"
    "x_packet_transferred x1 = x_packet_transferred x" "out x1 = out x"
    using receive_chunk [OF t k i tr] Cons.prems(1) by (metis (no_types, lifting))
  have a1: "assembling ty sz data c x1" using x1(2,3) by (simp add: tracks_def)
  obtain x' where x': "receive_all (map (\<lambda>i. Datagram (pdu_chunk k sz c data i)) js) x1 = Some (replicate (length js) 0, x')"
    "x_connection_id x' = k" "assembling ty sz data c x'" "x_packet_transferred x' = x_packet_transferred x1"
    "out x' = out x1" "length (x_resend_chunks x') = length (x_resend_chunks x1)"
    "\<forall>j < unat (nb_chunks sz c). x_chunk_list x' ! j \<longleftrightarrow> x_chunk_list x1 ! j \<or> j \<in> set js"
    using Cons.IH [OF x1(2) a1] Cons.prems(3) by auto
  have "length (x_chunk_list x) = unat (nb_chunks sz c)"
    using Cons.prems(2) by (simp add: assembling_def)
  then have "\<forall>j < unat (nb_chunks sz c). x_chunk_list x1 ! j \<longleftrightarrow> x_chunk_list x ! j \<or> j = i"
    using i by (auto simp add: x1(4) nth_list_update)
  with x1 x' receive_resend_chunks [OF x1(1)] show ?case by auto
qed

lemma complete_run:
  assumes t: "transmissible ty sz data c" and k: "k \<noteq> 0" and id: "x_connection_id x \<noteq> k"
    and rs: "length (x_resend_chunks x) = RESEND_MAX_CHUNKS" and js: "set js = {0..<unat (nb_chunks sz c)}"
  obtains x' where
    "receive_all (Datagram (pdu_new k ty sz c) # map (\<lambda>i. Datagram (pdu_chunk k sz c data i)) js @ [Datagram (pdu_done k)]) x
      = Some (replicate (Suc (length js)) 0 @ [1], x')"
    "x_data x' = take (unat sz) data" "x_data_type x' = Some ty" "x_data_size x' = sz"
    "out x' = out x @ [pdu_acknew k, pdu_resend k []]" "x_connection_id x' = k"
proof -
  have tr: "tracks k ty sz data c x" using id by (simp add: tracks_def)
  obtain x1 where x1: "pdp_udp_receiver_receive (Datagram (pdu_new k ty sz c)) x = Some (0, x1)"
    "x_connection_id x1 = k" "assembling ty sz data c x1" "out x1 = out x @ [pdu_acknew k]"
    "x_chunk_list x1 = replicate (unat (nb_chunks sz c)) False" "\<not> x_packet_transferred x1"
    using receive_NEW [OF t tr] id by metis
  obtain x2 where x2: "receive_all (map (\<lambda>i. Datagram (pdu_chunk k sz c data i)) js) x1 = Some (replicate (length js) 0, x2)"
    "x_connection_id x2 = k" "assembling ty sz data c x2" "\<not> x_packet_transferred x2" "out x2 = out x1"
    "length (x_resend_chunks x2) = RESEND_MAX_CHUNKS"
    "\<forall>j < unat (nb_chunks sz c). x_chunk_list x2 ! j"
    using receive_chunks [OF t k x1(2,3), of "js"] js x1(6) receive_resend_chunks [OF x1(1)] rs by auto
  have all: "list_all id (x_chunk_list x2)"
    using x2(3,7) by (simp add: list_all_length assembling_def)
  have none: "resend_request (x_chunk_list x2) = []"
    using all by (simp add: resend_request_def missing_chunks_empty [symmetric])
  obtain x' where x': "pdp_udp_receiver_receive (Datagram (pdu_done k)) x2 = Some (1, x')"
    "assembling ty sz data c x'" "x_chunk_list x' = x_chunk_list x2" "x_connection_id x' = k" "out x' = out x2 @ [pdu_resend k []]"
    by (rule receive_DONE [OF x2(6,2,3)]) (rule that, simp_all add: all x2(4) none)
  have "receive_all (map (\<lambda>i. Datagram (pdu_chunk k sz c data i)) js @ [Datagram (pdu_done k)]) x1 = Some (replicate (length js) 0 @ [1], x')"
    by (rule receive_all_append [OF x2(1)]) (simp add: x'(1))
  then have "receive_all (Datagram (pdu_new k ty sz c) # map (\<lambda>i. Datagram (pdu_chunk k sz c data i)) js @ [Datagram (pdu_done k)]) x
      = Some (replicate (Suc (length js)) 0 @ [1], x')"
    by (simp add: x1(1))
  then show ?thesis
  proof (rule that)
    show "x_data x' = take (unat sz) data"
      using assembled [OF t x'(2)] all x'(3) by simp
    show "x_data_type x' = Some ty" "x_data_size x' = sz" using x'(2) by (simp_all add: assembling_def)
    show "out x' = out x @ [pdu_acknew k, pdu_resend k []]" by (simp add: x'(5) x2(5) x1(4))
    show "x_connection_id x' = k" by (rule x'(4))
  qed
qed


section \<open>Answers that reach the sender\<close>

lemma receive_answer:
  assumes "s_connection_id s = k" and "inbox s = Datagram (pdu k q body) # evs" and "length body \<le> 4 * RESEND_MAX_CHUNKS"
  shows "receive_packet s q = (1, (if q = PDP_UDP_RESEND
      then (read_answer (pdu k q body) s)\<lparr>s_resend_items := of_nat (length body div 4)\<rparr> else read_answer (pdu k q body) s)\<lparr>inbox := evs\<rparr>)"
proof -
  have r: "recv MAX_UDP_PACKET (pdu k q body) = pdu k q body"
    using assms(3) by (intro recv_id) (simp add: MAX_UDP_PACKET_def HEADER_SIZE_def RESEND_MAX_CHUNKS_def)
  have "is_udp_header (s_resend_header (read_answer (pdu k q body) s)) (length (pdu k q body)) \<and>
      s_connection_id s = connection_id (s_resend_header (read_answer (pdu k q body) s)) \<and>
      sequence_number (s_resend_header (read_answer (pdu k q body) s)) = q"
    using assms(1) by (simp add: read_answer_def)
  then show ?thesis
    unfolding receive_packet_def assms(2) receive_from_Datagram Let_def r by simp
qed

lemma requested_resend:
  assumes "i \<le> length ws"
  shows "resend_list (fill (concat (map le32 ws)) b) i = take i ws"
proof (rule nth_equalityI)
  fix j
  assume "j < length (resend_list (fill (concat (map le32 ws)) b) i)"
  then have j: "j < length ws" "j < i" using assms by (simp_all add: resend_list_def)
  have "ws = take j ws @ ws ! j # drop (Suc j) ws" using j(1) by (rule id_take_nth_drop)
  then have "concat (map le32 ws) = concat (map le32 (take j ws)) @ le32 (ws ! j) @ concat (map le32 (drop (Suc j) ws))"
    by (metis concat.simps(2) concat_append list.map(2) map_append)
  moreover have "length (concat (map le32 (take j ws))) = 4 * j"
    using j(1) length_concat_le32 [of "\<lambda>w. w" "take j ws"] by simp
  ultimately have "word_at (fill (concat (map le32 ws)) b) (4 * j) = ws ! j"
    using word_at_le32 [of "4 * j" "concat (map le32 (take j ws))" "ws ! j"] by simp
  then show "resend_list (fill (concat (map le32 ws)) b) i ! j = take i ws ! j"
    using j by (simp add: resend_list_def)
qed (use assms in \<open>simp add: resend_list_def\<close>)

lemma need_resend_answered:
  assumes s: "sending k ty sz data c s" "connection_id (s_header s) = k"
    and i: "inbox s = Datagram (pdu_resend k js) # evs"
    and js: "length js \<le> RESEND_MAX_CHUNKS" "length js \<le> unat (nb_chunks sz c)"
  obtains s' where "need_resend s = Some (js \<noteq> [], s')" "inbox s' = evs" "sent s' = sent s @ [pdu_done k]"
    "take (unat (s_chunk_list_size s')) (s_chunk_list s') = map of_nat js"
proof -
  obtain s1 where s1: "send_done s = Some s1" "sends k s [pdu_done k] s1"
    by (rule send_done_sends [OF s(2)])
  have n: "sending k ty sz data c s1" "inbox s1 = Datagram (pdu_resend k js) # evs" "sent s1 = sent s @ [pdu_done k]"
    using s1(2) s(1) i by (simp_all add: sends_def)
  let ?ws = "map of_nat js :: u32 list"
  let ?d = "pdu k PDP_UDP_RESEND (concat (map le32 ?ws))"
  let ?y = "(read_answer ?d s1)\<lparr>s_resend_items := of_nat (length js), inbox := evs\<rparr>"
  have d: "pdu_resend k js = ?d" by (simp add: pdu_resend_def o_def)
  have r: "receive_packet s1 PDP_UDP_RESEND = (1, ?y)"
    using receive_answer [OF _ n(2) [unfolded d]] n(1) js(1) length_concat_le32 [of of_nat js] by (simp add: sending_def o_def)
  have len: "unat (of_nat (length js) :: u32) = length js"
    using js(1) by (simp add: unsigned_of_nat take_bit_nat_eq_self RESEND_MAX_CHUNKS_def MAX_UDP_PACKET_def HEADER_SIZE_def)
  have y: "s_nb_chunks ?y = nb_chunks sz c" "length (s_chunk_list ?y) = unat (nb_chunks sz c)" "sent ?y = sent s @ [pdu_done k]"
    "s_resend_items ?y = of_nat (length js)" "inbox ?y = evs" "s_resend_chunks ?y = fill (concat (map le32 ?ws)) (s_resend_chunks s1)"
    using n by (simp_all add: sending_def read_answer_def)
  have le: "\<not> nb_chunks sz c < of_nat (length js)"
    using js(2) len by (simp add: word_less_nat_alt)
  have req: "resend_list (s_resend_chunks ?y) (length js) = ?ws"
    unfolding y(6) using requested_resend [of "length js" ?ws] by simp
  define y where "y = ?y"
  have "need_resend s = Some (js \<noteq> [], y\<lparr>s_chunk_list_size := of_nat (length js), s_chunk_list := ?ws @ drop (length js) (s_chunk_list y)\<rparr>)"
    using s1(1) r [folded y_def] y [folded y_def] req [folded y_def] le js len
    by (simp add: need_resend_def numeral_3_eq_3 Let_def)
  then show ?thesis
    by (rule that) (simp_all add: y(3,5) [folded y_def] len)
qed

lemma need_resend_silence:
  assumes "connection_id (s_header s) = k" and "inbox s = []"
  obtains s' where "need_resend_loop n s = Some (False, s')"
  using assms
proof (induction n arbitrary: s thesis)
  case (Suc n)
  obtain s1 where s1: "send_done s = Some s1" "sends k s [pdu_done k] s1"
    by (rule send_done_sends [OF Suc.prems(2)])
  then have "receive_packet s1 PDP_UDP_RESEND = (0, s1\<lparr>inbox := []\<rparr>)" "connection_id (s_header s1) = k" "inbox s1 = []"
    using Suc.prems by (simp_all add: receive_packet_def sends_def)
  with Suc.IH [of "s1\<lparr>inbox := []\<rparr>"] Suc.prems(1) s1(1) show ?case by fastforce
qed simp

lemma send_handshaken:
  assumes t: "transmissible ty sz data c" and c: "s_udp_payload_size s = c" and sock: "s_socket s \<noteq> -1"
    and k: "dropWhile (\<lambda>r. r = 0) (rands s) = k # rs" and i: "inbox s = Datagram (pdu_acknew k) # evs"
  obtains s3 where
    "pdp_udp_sender_send s ty sz data =
       do { (again, x) \<leftarrow> need_resend s3;
            (ok, x) \<leftarrow> (if again then transmission_loop 4 x else Some (True, x));
            Some (if ok then 1 else 0, x) }"
    "sending k ty sz data c s3" "connection_id (s_header s3) = k" "inbox s3 = evs" "k \<noteq> 0"
    "sent s3 = sent s @ pdu_new k ty sz c # map (pdu_chunk k sz c data) [0..<unat (nb_chunks sz c)]"
proof -
  obtain s0 where s0: "prepare_for_new_transmission s ty sz data = Some s0" "sending k ty sz data c s0" "k \<noteq> 0"
    "inbox s0 = inbox s" "sent s0 = sent s" "s_chunk_list s0 = map of_nat [0..<unat (nb_chunks sz c)]"
    "s_chunk_list_size s0 = nb_chunks sz c"
    by (rule prepare_sending [OF t c k])
  obtain s1 where s1: "send_header_packet s0 = Some s1" "sends k s0 [pdu_new k ty sz c] s1"
    by (rule send_header_packet_sends [OF t s0(2)])
  let ?s2 = "(read_answer (pdu_acknew k) s1)\<lparr>inbox := evs\<rparr>"
  have r: "receive_packet s1 PDP_UDP_ACKNEW = (1, ?s2)"
    using receive_answer [of s1 k PDP_UDP_ACKNEW "[]" evs] s1(2) s0(2,4) i
    by (simp add: sends_def sending_def pdu_acknew_def)
  have hs: "handshake_loop 5 s0 = Some (True, ?s2)"
    using s1(1) r by (simp add: eval_nat_numeral)
  have n: "sending k ty sz data c ?s2" "connection_id (s_header ?s2) = k" "sent ?s2 = sent s @ [pdu_new k ty sz c]"
    "s_chunk_list ?s2 = map of_nat [0..<unat (nb_chunks sz c)]" "s_chunk_list_size ?s2 = nb_chunks sz c"
    using s1(2) s0 by (simp_all add: sends_def read_answer_def sending_def)
  obtain s3 where s3: "send_chunks ?s2 = Some s3"
    "sends k ?s2 (map (\<lambda>w. pdu_chunk k sz c data (unat w)) (take (unat (s_chunk_list_size ?s2)) (s_chunk_list ?s2))) s3"
    by (rule send_chunks_sends [OF t n(1,2)])
  have "map (\<lambda>w. pdu_chunk k sz c data (unat w)) (take (unat (s_chunk_list_size ?s2)) (s_chunk_list ?s2)) =
      map (pdu_chunk k sz c data) [0..<unat (nb_chunks sz c)]"
    unfolding n(4,5) using chunk_number(1) [OF t] by simp
  then have "sending k ty sz data c s3" "connection_id (s_header s3) = k" "inbox s3 = evs"
    "sent s3 = sent s @ pdu_new k ty sz c # map (pdu_chunk k sz c data) [0..<unat (nb_chunks sz c)]"
    using s3(2) n by (simp_all add: sends_def)
  moreover have five: "(5 :: nat) = Suc 4" by simp
  have "transmission_loop 5 ?s2 = do { (again, x) \<leftarrow> need_resend s3; if again then transmission_loop 4 x else Some (True, x) }"
    unfolding five transmission_loop.simps by (simp add: s3(1))
  then have "pdp_udp_sender_send s ty sz data =
       do { (again, x) \<leftarrow> need_resend s3;
            (ok, x) \<leftarrow> (if again then transmission_loop 4 x else Some (True, x));
            Some (if ok then 1 else 0, x) }"
    using sock s0(1) hs by (cases "need_resend s3") (auto simp add: pdp_udp_sender_send_def split: Option.bind_split)
  ultimately show ?thesis using s0(3) that by blast
qed


section \<open>Properties\<close>

lemma example_transmissible: "transmissible [65] 3 [1, 2, 3] 2"
  by (simp add: transmissible_def nb_chunks_def PDP_UDP_BUFSIZE_def)

definition example_sender :: "event list \<Rightarrow> t_pdp_udp_sender" where
  "example_sender evs =
     pdp_udp_sender_connect (pdp_udp_sender_udp_packet_size (pdp_udp_sender_new evs [0, 7]) 18) True 3"

lemma example_sender_fields [simp]:
  "s_udp_payload_size (example_sender evs) = 2" "s_socket (example_sender evs) = 3" "sent (example_sender evs) = []"
  "inbox (example_sender evs) = evs" "dropWhile (\<lambda>r. r = 0) (rands (example_sender evs)) = [7]"
  by (simp_all add: example_sender_def pdp_udp_sender_connect_def pdp_udp_sender_udp_packet_size_def pdp_udp_sender_new_def
      pdp_udp_sender_sleepperiod_def pdp_udp_sender_sleepgrain_us_def pdp_udp_sender_timeout_us_def HEADER_SIZE_def PDP_UDP_BUFSIZE_def Let_def)

lemma fresh_receiver: "x_connection_id pdp_udp_receiver_new = 0" "length (x_resend_chunks pdp_udp_receiver_new) = RESEND_MAX_CHUNKS"
  by (simp_all add: pdp_udp_receiver_new_def)

text \<open>
  C3: whatever reaches a receiver of the datagrams of a transmission, in any order, lost or repeated, between
  datagrams of others and resets: when the receiver reports a packet under the transmission's connection id,
  its data, type and size are those given to \<open>pdp_udp_sender_send\<close>.
\<close>

theorem udp_delivers_what_was_sent:
  assumes "transmissible ty sz data (s_udp_payload_size s)" and "s_socket s \<noteq> -1" and "sent s = []"
    and "dropWhile (\<lambda>r. r = 0) (rands s) = k # rs" and "fair_inbox k (nb_chunks sz (s_udp_payload_size s)) s"
    and "pdp_udp_sender_send s ty sz data = Some (res, s')"
    and "receiving k (set (sent s')) x" and "admissible k (set (sent s')) ev"
    and "pdp_udp_receiver_receive ev x = Some (1, x')" and "x_connection_id x' = k"
  shows "x_data x' = take (unat sz) data \<and> x_data_type x' = Some ty \<and> x_data_size x' = sz"
proof (rule receiving_delivers)
  show "own k ty sz data (s_udp_payload_size s) d" if "d \<in> set (sent s')" for d
    using that assms(3,6) by (rule_tac send_emits_own [OF assms(1) refl assms(2,4,5)]) auto
  show "k \<noteq> 0" using hd_dropWhile [of "\<lambda>r. r = 0" "rands s"] assms(4) by simp
qed (use assms in simp_all)

theorem udp_delivers_what_was_sent_witness:
  "\<exists>s' x x'. pdp_udp_sender_send (example_sender (map Datagram [pdu_acknew 7, pdu_resend 7 [1], pdu_resend 7 []])) [65] 3 [1, 2, 3] = Some (1, s') \<and>
    receive_all (Datagram (pdu_new 7 [65] 3 2) # map (\<lambda>i. Datagram (pdu_chunk 7 3 2 [1, 2, 3] i)) [1, 0, 1]) pdp_udp_receiver_new = Some ([0, 0, 0, 0], x) \<and>
    pdp_udp_receiver_receive (Datagram (pdu_done 7)) x = Some (1, x') \<and> x_data x' = [1, 2, 3]"
proof -
  let ?s = "example_sender (map Datagram [pdu_acknew 7, pdu_resend 7 [1], pdu_resend 7 []])"
  let ?evs = "Datagram (pdu_new 7 [65] 3 2) # map (\<lambda>i. Datagram (pdu_chunk 7 3 2 [1, 2, 3] i)) [1, 0, 1]"
  let ?S = "[pdu_new 7 [65] 3 2, pdu_chunk 7 3 2 [1, 2, 3] 0, pdu_chunk 7 3 2 [1, 2, 3] 1, pdu_done 7, pdu_chunk 7 3 2 [1, 2, 3] 1, pdu_done 7]"
  have "map_option (\<lambda>(r, s'). (r, sent s')) (pdp_udp_sender_send ?s [65] 3 [1, 2, 3]) = Some (1, ?S)"
    by code_simp
  then obtain s' where s': "pdp_udp_sender_send ?s [65] 3 [1, 2, 3] = Some (1, s')" "sent s' = ?S"
    by auto
  have js: "set [1, 0, 1] = {0..<unat (nb_chunks 3 2)}" by (auto simp: nb_chunks_def)
  obtain x' where x': "receive_all (?evs @ [Datagram (pdu_done 7)]) pdp_udp_receiver_new = Some ([0, 0, 0, 0] @ [1], x')" "x_connection_id x' = 7"
    using complete_run [OF example_transmissible _ _ _ js, of 7 pdp_udp_receiver_new] fresh_receiver
    by (auto simp del: receive_all.simps)
  from receive_all_append_conv [OF x'(1)] obtain x where
    x: "receive_all ?evs pdp_udp_receiver_new = Some ([0, 0, 0, 0], x)" "pdp_udp_receiver_receive (Datagram (pdu_done 7)) x = Some (1, x')"
    by blast
  have "list_all (admissible 7 (set (sent s'))) ?evs" by (simp add: admissible_def s'(2))
  then have "receiving 7 (set (sent s')) x"
    using x(1) by (rule receive_all_receiving [OF receiving.new])
  moreover have "fair_inbox 7 (nb_chunks 3 2) ?s"
    unfolding fair_inbox_def example_sender_fields by code_simp
  moreover have "admissible 7 (set (sent s')) (Datagram (pdu_done 7))" by (simp add: admissible_def s'(2))
  ultimately have "x_data x' = take (unat (3 :: u32)) [1, 2, 3]"
    using udp_delivers_what_was_sent [of "[65]" 3 "[1, 2, 3]" ?s 7 "[]" 1 s' x "Datagram (pdu_done 7)" x'] s' x(2) x'(2) example_transmissible
    by simp
  then have "x_data x' = [1, 2, 3]" by simp
  with s'(1) x show ?thesis by blast
qed

text \<open>
  C11: a receiver in any state that sees the header packet, then every chunk at least once in any order, then
  the closing packet, reports the packet at the closing packet and not before, with the sender's data, and
  answers with the acknowledgement and an empty resend list.
\<close>

theorem udp_transmission_completes:
  assumes "transmissible ty sz data c" and "k \<noteq> 0" and "x_connection_id x \<noteq> k"
    and "length (x_resend_chunks x) = RESEND_MAX_CHUNKS" and "set js = {0..<unat (nb_chunks sz c)}"
  shows "\<exists>x'. receive_all (Datagram (pdu_new k ty sz c) # map (\<lambda>i. Datagram (pdu_chunk k sz c data i)) js @ [Datagram (pdu_done k)]) x
      = Some (replicate (Suc (length js)) 0 @ [1], x') \<and>
    x_data x' = take (unat sz) data \<and> x_data_type x' = Some ty \<and> x_data_size x' = sz \<and>
    out x' = out x @ [pdu_acknew k, pdu_resend k []]"
  using complete_run [OF assms] by metis

theorem udp_transmission_completes_witness:
  "\<exists>x'. receive_all (Datagram (pdu_new 7 [65] 3 2) # map (\<lambda>i. Datagram (pdu_chunk 7 3 2 [1, 2, 3] i)) [1, 0, 1] @ [Datagram (pdu_done 7)])
      pdp_udp_receiver_new = Some ([0, 0, 0, 0, 1], x') \<and> x_data x' = [1, 2, 3]"
proof -
  have js: "set [1, 0, 1] = {0..<unat (nb_chunks 3 2)}" by (auto simp: nb_chunks_def)
  obtain x' where "receive_all (Datagram (pdu_new 7 [65] 3 2) # map (\<lambda>i. Datagram (pdu_chunk 7 3 2 [1, 2, 3] i)) [1, 0, 1] @ [Datagram (pdu_done 7)])
      pdp_udp_receiver_new = Some (replicate (Suc (length [1 :: nat, 0, 1])) 0 @ [1], x')" "x_data x' = take (unat (3 :: u32)) [1, 2, 3]"
    using udp_transmission_completes [OF example_transmissible _ _ _ js, of 7 pdp_udp_receiver_new] fresh_receiver by auto
  moreover have "replicate (Suc (length [1 :: nat, 0, 1])) 0 @ [1 :: int] = [0, 0, 0, 0, 1]" "take (unat (3 :: u32)) [1, 2, 3 :: u8] = [1, 2, 3]"
    by simp_all
  ultimately show ?thesis by metis
qed

text \<open>
  C15: the resend round. The receiver answers the closing packet with the chunks it misses, and the sender that
  gets the answer goes on exactly when some are missing, with a chunk list of the first \<open>RESEND_MAX_CHUNKS\<close> of
  them, last one first.
\<close>

theorem resend_round_trip:
  assumes "sending k ty sz data c s" and "connection_id (s_header s) = k"
    and "assembling ty sz data c x" and "x_connection_id x = k" and "length (x_resend_chunks x) = RESEND_MAX_CHUNKS"
    and "pdp_udp_receiver_receive (Datagram (pdu_done k)) x = Some (r, x')" and "inbox s = Datagram (last (out x')) # evs"
    and "transmissible ty sz data c"
  shows "\<exists>s'. need_resend s = Some (\<not> list_all id (x_chunk_list x), s') \<and>
    map unat (take (unat (s_chunk_list_size s')) (s_chunk_list s')) = rev (take RESEND_MAX_CHUNKS (missing_chunks (x_chunk_list x)))"
proof -
  let ?js = "resend_request (x_chunk_list x)"
  have bound: "i < unat (nb_chunks sz c)" if "i \<in> set ?js" for i
    using that assms(3) by (auto simp: resend_request_def assembling_def dest!: in_set_takeD missing_chunks_bound)
  have "length (missing_chunks (x_chunk_list x)) \<le> unat (nb_chunks sz c)"
    using assms(3) length_filter_le [of _ "[0..<length (x_chunk_list x)]"] by (simp add: missing_chunks_def assembling_def)
  then have js: "length ?js \<le> RESEND_MAX_CHUNKS" "length ?js \<le> unat (nb_chunks sz c)"
    by (simp_all add: resend_request_def)
  have empty: "?js \<noteq> [] \<longleftrightarrow> \<not> list_all id (x_chunk_list x)"
    by (simp add: resend_request_def missing_chunks_empty RESEND_MAX_CHUNKS_def MAX_UDP_PACKET_def HEADER_SIZE_def)
  have "last (out x') = pdu_resend k ?js"
    by (rule receive_DONE [OF assms(5,4,3)]) (use assms(6) in simp)
  then have "inbox s = Datagram (pdu_resend k ?js) # evs" using assms(7) by simp
  then obtain s' where s': "need_resend s = Some (?js \<noteq> [], s')"
      "take (unat (s_chunk_list_size s')) (s_chunk_list s') = map of_nat ?js"
    by (rule need_resend_answered [OF assms(1,2) _ js])
  have "map unat (map of_nat ?js :: u32 list) = ?js"
    using bound chunk_number(1) [OF assms(8)] by (simp add: map_idI)
  with s' empty show ?thesis by (auto simp: resend_request_def)
qed

theorem resend_round_trip_witness:
  "\<exists>s s' x. pdp_udp_receiver_receive (Datagram (pdu_done 7)) x \<noteq> None \<and> missing_chunks (x_chunk_list x) = [1] \<and>
    need_resend s = Some (True, s') \<and> map unat (take (unat (s_chunk_list_size s')) (s_chunk_list s')) = [1]"
proof -
  let ?ans = "[Datagram (pdu_resend 7 [1])]"
  obtain s where s: "sending 7 [65] 3 [1, 2, 3] 2 s" "connection_id (s_header s) = 7" "inbox s = ?ans"
    by (rule send_handshaken [OF example_transmissible, of "example_sender (Datagram (pdu_acknew 7) # ?ans)" 7 "[]" ?ans]) simp_all
  have tr: "tracks 7 [65] 3 [1, 2, 3] 2 pdp_udp_receiver_new" by (simp add: tracks_def fresh_receiver)
  obtain x1 where x1: "pdp_udp_receiver_receive (Datagram (pdu_new 7 [65] 3 2)) pdp_udp_receiver_new = Some (0, x1)"
    "x_connection_id x1 = 7" "assembling [65] 3 [1, 2, 3] 2 x1" "x_chunk_list x1 = replicate (unat (nb_chunks 3 2)) False"
    by (rule receive_NEW [OF example_transmissible tr]) (rule that, assumption+, simp add: fresh_receiver)
  then have "tracks 7 [65] 3 [1, 2, 3] 2 x1" by (simp add: tracks_def)
  then obtain x where x0: "pdp_udp_receiver_receive (Datagram (pdu_chunk 7 3 2 [1, 2, 3] 0)) x1 = Some (0, x)"
    "x_connection_id x = 7" "tracks 7 [65] 3 [1, 2, 3] 2 x" "x_chunk_list x = (x_chunk_list x1)[0 := True]"
    using receive_chunk [OF example_transmissible, of 7 0 x1] x1(2) by (auto simp: nb_chunks_def)
  have m: "missing_chunks (x_chunk_list x) = [1]" 
  proof -
    have "unat (nb_chunks 3 2) = Suc (Suc 0)" by (simp add: nb_chunks_def)
    then have "x_chunk_list x = [True, False]" by (simp add: x0(4) x1(4))
    moreover have "missing_chunks [True, False] = [1]" by code_simp
    ultimately show ?thesis by simp
  qed
  have rs: "length (x_resend_chunks x) = RESEND_MAX_CHUNKS"
    using receive_resend_chunks [OF x0(1)] receive_resend_chunks [OF x1(1)] fresh_receiver by simp
  have a: "assembling [65] 3 [1, 2, 3] 2 x" using x0(2,3) by (simp add: tracks_def)
  have req: "resend_request (x_chunk_list x) = [1]"
    by (simp add: resend_request_def m RESEND_MAX_CHUNKS_def MAX_UDP_PACKET_def HEADER_SIZE_def)
  obtain r x' where x': "pdp_udp_receiver_receive (Datagram (pdu_done 7)) x = Some (r, x')" "last (out x') = pdu_resend 7 [1]"
    by (rule receive_DONE [OF rs x0(2) a]) (rule that, auto simp: req)
  obtain s' where "need_resend s = Some (\<not> list_all id (x_chunk_list x), s')"
    "map unat (take (unat (s_chunk_list_size s')) (s_chunk_list s')) = rev (take RESEND_MAX_CHUNKS (missing_chunks (x_chunk_list x)))"
    using resend_round_trip [OF s(1,2) a x0(2) rs x'(1), of "[]"] s(3) x'(2) example_transmissible by auto
  moreover have "\<not> list_all id (x_chunk_list x)" using m missing_chunks_empty [of "x_chunk_list x"] by simp
  ultimately have "need_resend s = Some (True, s')" "map unat (take (unat (s_chunk_list_size s')) (s_chunk_list s')) = [1]"
    using m by (simp_all add: RESEND_MAX_CHUNKS_def MAX_UDP_PACKET_def HEADER_SIZE_def)
  moreover have "pdp_udp_receiver_receive (Datagram (pdu_done 7)) x \<noteq> None" using x'(1) by simp
  ultimately show ?thesis using m by (intro exI [of _ s] exI [of _ s'] exI [of _ x] conjI)
qed

text \<open>
  C20: a transmission without loss. The sender that gets the receiver's two answers emits the header packet,
  every chunk and the closing packet and reports success; the receiver that gets these delivers the data, and
  its answers are the two the sender has used.
\<close>

theorem udp_lossless_transmission:
  assumes "transmissible ty sz data (s_udp_payload_size s)" and "s_socket s \<noteq> -1" and "sent s = []"
    and "dropWhile (\<lambda>r. r = 0) (rands s) = k # rs"
    and "inbox s = map Datagram [pdu_acknew k, pdu_resend k []]"
  shows "\<exists>s' rs x'. pdp_udp_sender_send s ty sz data = Some (1, s') \<and>
    receive_all (map Datagram (sent s')) pdp_udp_receiver_new = Some (rs @ [1], x') \<and>
    x_data x' = take (unat sz) data \<and> x_data_type x' = Some ty \<and> map Datagram (out x') = inbox s"
proof -
  let ?c = "s_udp_payload_size s"
  have "inbox s = Datagram (pdu_acknew k) # [Datagram (pdu_resend k [])]" using assms(5) by simp
  then obtain s3 where s3: "pdp_udp_sender_send s ty sz data =
       do { (again, x) \<leftarrow> need_resend s3;
            (ok, x) \<leftarrow> (if again then transmission_loop 4 x else Some (True, x));
            Some (if ok then 1 else 0, x) }"
    "sending k ty sz data ?c s3" "connection_id (s_header s3) = k" "inbox s3 = [Datagram (pdu_resend k [])]" "k \<noteq> 0"
    "sent s3 = sent s @ pdu_new k ty sz ?c # map (pdu_chunk k sz ?c data) [0..<unat (nb_chunks sz ?c)]"
    by (rule send_handshaken [OF assms(1) refl assms(2,4)])
  obtain s' where s': "need_resend s3 = Some (False, s')" "sent s' = sent s3 @ [pdu_done k]"
    using need_resend_answered [OF s3(2,3,4)] by auto
  have "pdp_udp_sender_send s ty sz data = Some (1, s')" by (simp add: s3(1) s'(1))
  moreover obtain x' where "receive_all (map Datagram (sent s')) pdp_udp_receiver_new
      = Some (replicate (Suc (unat (nb_chunks sz ?c))) 0 @ [1], x')"
    "x_data x' = take (unat sz) data" "x_data_type x' = Some ty" "out x' = [pdu_acknew k, pdu_resend k []]"
    using complete_run [OF assms(1) s3(5), of pdp_udp_receiver_new "[0..<unat (nb_chunks sz ?c)]"] s3(5)
    by (auto simp: s'(2) s3(6) assms(3) pdp_udp_receiver_new_def o_def)
  ultimately show ?thesis using assms(5) by auto
qed

theorem udp_lossless_transmission_witness:
  "\<exists>s' rs x'. pdp_udp_sender_send (example_sender (map Datagram [pdu_acknew 7, pdu_resend 7 []])) [65] 3 [1, 2, 3] = Some (1, s') \<and>
    receive_all (map Datagram (sent s')) pdp_udp_receiver_new = Some (rs @ [1], x') \<and> x_data x' = [1, 2, 3]"
  using udp_lossless_transmission [of "[65]" 3 "[1, 2, 3]" "example_sender (map Datagram [pdu_acknew 7, pdu_resend 7 []])" 7 "[]"]
    example_transmissible by auto

text \<open>
  the sender reports success without a confirmation. Once the header packet has been acknowledged, the
  result is 1 although nothing is heard of the receiver afterwards.
\<close>

theorem send_succeeds_unconfirmed:
  assumes "transmissible ty sz data (s_udp_payload_size s)" and "s_socket s \<noteq> -1"
    and "dropWhile (\<lambda>r. r = 0) (rands s) = k # rs" and "inbox s = [Datagram (pdu_acknew k)]"
  shows "\<exists>s'. pdp_udp_sender_send s ty sz data = Some (1, s')"
proof -
  obtain s3 where s3: "pdp_udp_sender_send s ty sz data =
       do { (again, x) \<leftarrow> need_resend s3;
            (ok, x) \<leftarrow> (if again then transmission_loop 4 x else Some (True, x));
            Some (if ok then 1 else 0, x) }"
    "connection_id (s_header s3) = k" "inbox s3 = []"
    by (rule send_handshaken [OF assms(1) refl assms(2,3,4)])
  obtain s' where "need_resend s3 = Some (False, s')"
    unfolding need_resend_def by (rule need_resend_silence [OF s3(2,3)])
  then show ?thesis by (simp add: s3(1))
qed

theorem send_succeeds_unconfirmed_witness:
  "\<exists>s'. pdp_udp_sender_send (example_sender [Datagram (pdu_acknew 7)]) [65] 3 [1, 2, 3] = Some (1, s')"
  using send_succeeds_unconfirmed [of "[65]" 3 "[1, 2, 3]" "example_sender [Datagram (pdu_acknew 7)]" 7 "[]"] example_transmissible
  by simp

text \<open>
  C33: the bound of a chunk is only asserted. A datagram of the connection whose body runs past the end of the
  announced data makes the receiver write outside its buffer: one byte too many is enough.
\<close>

theorem long_chunk_overruns:
  assumes "transmissible ty sz data c" and "k \<noteq> 0" and "x_connection_id x = k" and "assembling ty sz data c x"
    and "i < unat (nb_chunks sz c)" and "int (length body) \<le> PDP_UDP_BUFSIZE" and "unat sz < unat c * i + length body"
  shows "pdp_udp_receiver_receive (Datagram (pdu k (of_nat i) body)) x = None"
proof -
  have n: "unat (of_nat (length body) :: u32) = length body"
    using assms(6) by (simp add: unsigned_of_nat take_bit_nat_eq_self PDP_UDP_BUFSIZE_def)
  have "\<not> nb_chunks sz c \<le> of_nat i"
    using assms(5) by (simp add: word_le_nat_alt chunk_number(1) [OF assms(1,5)])
  then have "handle_UDP_DATA (arrived k (of_nat i) body x) = None"
    using assms(2,3,4,7) unfolding handle_UDP_DATA_def Let_def
    by (simp add: assembling_def n chunk_number(3) [OF assms(1,5)])
  then show ?thesis
    using chunk_number(2) [OF assms(1,5)] by (simp add: receive_pdu [OF assms(6)] Let_def)
qed

theorem long_chunk_overruns_witness:
  "\<exists>x. pdp_udp_receiver_receive (Datagram (pdu_new 7 [65] 3 2)) pdp_udp_receiver_new = Some (0, x) \<and>
     pdp_udp_receiver_receive (Datagram (pdu 7 1 [8, 9])) x = None"
proof -
  have tr: "tracks 7 [65] 3 [1, 2, 3] 2 pdp_udp_receiver_new" by (simp add: tracks_def fresh_receiver)
  obtain x where x: "pdp_udp_receiver_receive (Datagram (pdu_new 7 [65] 3 2)) pdp_udp_receiver_new = Some (0, x)"
    "x_connection_id x = 7" "assembling [65] 3 [1, 2, 3] 2 x"
    by (rule receive_NEW [OF example_transmissible tr])
  with long_chunk_overruns [OF example_transmissible _ x(2,3), of 1 "[8, 9]"] show ?thesis
    by (simp add: nb_chunks_def PDP_UDP_BUFSIZE_def)
qed

end
