(* ===== verification/PdpTree.thy ===== *)
theory PdpTree
  imports CText PacketPool
begin

text \<open>
  Trees of atoms, the nested lists of \<^verbatim>\<open>system/kernel/pdp_list.c\<close>: the parser, the printer, the syntax check,
  traversal, copies and the packets a tree holds. A tree is a value here: what the flat list operations do to
  the heap is the subject of the theories on linked lists. Symbols are their names.

  The parser's two functions call each other; they run on fuel, and \<open>pdp_tree_from_cstring\<close> and
  \<open>pdp_atom_from_cstring\<close> give them enough for every string. The \<open>next\<close> pointer is the rest of the string.
\<close>

section \<open>Atoms\<close>

datatype t_pdp_atom =
  a_undef | a_pointer u32 | a_float c_float | a_int int | a_symbol string | a_packet int
| a_list "t_pdp_atom list" | a_atom_pointer "t_pdp_atom option"
| a_forthword u32 | a_vmword u32 | a_vmmacro u32

section \<open>The parser\<close>

definition is_whitespace :: "char \<Rightarrow> bool" where
  "is_whitespace c \<longleftrightarrow> c = CHR '' '' \<or> c = CHR 0x0A \<or> c = CHR 0x09"

definition skip_real_whitespace :: "string \<Rightarrow> string" where
  "skip_real_whitespace s = dropWhile is_whitespace s"

definition is_left_comment :: "char \<Rightarrow> bool" where
  "is_left_comment c \<longleftrightarrow> c = CHR ''#''"

definition is_right_comment :: "char \<Rightarrow> bool" where
  "is_right_comment c \<longleftrightarrow> c = CHR 0x0A"

definition skip_comment :: "string \<Rightarrow> string" where
  "skip_comment s =
     (case s of
        [] \<Rightarrow> []
      | c # r \<Rightarrow> if \<not> is_left_comment c then s
                 else (case dropWhile (\<lambda>c. \<not> is_right_comment c) r of [] \<Rightarrow> [] | _ # r \<Rightarrow> r))"

lemma length_skip_real_whitespace: "length (skip_real_whitespace s) \<le> length s"
  by (simp add: skip_real_whitespace_def length_dropWhile_le)

lemma length_skip_comment: "length (skip_comment s) \<le> length s \<and> (skip_comment s = s \<or> length (skip_comment s) < length s)"
proof (cases s)
  case (Cons c r)
  have "length (dropWhile (\<lambda>c. \<not> is_right_comment c) r) \<le> length r" by (rule length_dropWhile_le)
  then show ?thesis by (auto simp: Cons skip_comment_def split: list.split)
qed (simp add: skip_comment_def)

function skip_whitespace :: "string \<Rightarrow> string" where
  "skip_whitespace s =
     (let s' = skip_comment (skip_real_whitespace s) in if length s' = length s then s' else skip_whitespace s')"
  by pat_completeness auto

termination skip_whitespace
proof (relation "measure length")
  fix s s' :: string
  assume "s' = skip_comment (skip_real_whitespace s)" "length s' \<noteq> length s"
  then show "(s', s) \<in> measure length"
    using length_skip_comment [of "skip_real_whitespace s"] length_skip_real_whitespace [of s] by simp
qed simp

declare skip_whitespace.simps [simp del]

definition is_left_separator :: "char \<Rightarrow> bool" where
  "is_left_separator c \<longleftrightarrow> c = CHR ''(''"

definition is_right_separator :: "char \<Rightarrow> bool" where
  "is_right_separator c \<longleftrightarrow> c = CHR '')''"

text \<open>The terminator is the end of the character list.\<close>

definition is_separator :: "char \<Rightarrow> bool" where
  "is_separator c \<longleftrightarrow> is_left_separator c \<or> is_right_separator c \<or> is_whitespace c"

definition parse_pure_atom :: "string \<Rightarrow> t_pdp_atom" where
  "parse_pure_atom c =
     (if list_ex (\<lambda>x. x = CHR ''.'') c
      then (case strtod c of (f, r) \<Rightarrow> if r = [] then a_float (double_to_float f) else a_symbol c)
      else (case strtol0 c of (i, r) \<Rightarrow> if r = [] then a_int (wrap32 i) else a_symbol c))"

fun parse_atom :: "nat \<Rightarrow> string \<Rightarrow> (t_pdp_atom option \<times> string) option"
  and parse_tree :: "nat \<Rightarrow> string \<Rightarrow> (t_pdp_atom list option \<times> string) option"
  and parse_atoms :: "nat \<Rightarrow> string \<Rightarrow> (t_pdp_atom list \<times> string) option" where
  "parse_atom 0 s = None"
| "parse_atom (Suc n) s =
     (let chardef = skip_whitespace s
      in case chardef of
           [] \<Rightarrow> Some (None, chardef)
         | c # r \<Rightarrow>
             if is_right_separator c then Some (None, chardef)
             else if is_left_separator c
             then do { (l, rest) \<leftarrow> parse_tree n chardef; Some (map_option a_list l, rest) }
             else (let tmp = takeWhile (\<lambda>c. \<not> is_separator c) chardef
                   in if tmp = [] then Some (None, chardef)
                      else Some (Some (parse_pure_atom tmp), dropWhile (\<lambda>c. \<not> is_separator c) chardef)))"
| "parse_tree 0 s = None"
| "parse_tree (Suc n) s =
     (let chardef = skip_whitespace s
      in if \<not> starts is_left_separator chardef then Some (None, chardef)
         else do { (l, rest) \<leftarrow> parse_atoms n (drop 1 chardef);
                   let rest = skip_whitespace rest;
                   if \<not> starts is_right_separator rest then Some (None, rest) else Some (Some l, drop 1 rest) })"
| "parse_atoms 0 s = None"
| "parse_atoms (Suc n) s =
     do { (a, rest) \<leftarrow> parse_atom n s;
          case a of
            None \<Rightarrow> Some ([], rest)
          | Some a \<Rightarrow> do { (l, rest) \<leftarrow> parse_atoms n rest; Some (a # l, rest) } }"

definition pdp_atom_from_cstring :: "string \<Rightarrow> (t_pdp_atom option \<times> string) option" where
  "pdp_atom_from_cstring chardef = parse_atom (3 * length chardef + 3) chardef"

definition pdp_tree_from_cstring :: "string \<Rightarrow> (t_pdp_atom list option \<times> string) option" where
  "pdp_tree_from_cstring chardef = parse_tree (3 * length chardef + 3) chardef"

section \<open>The printer\<close>

definition fmt_int :: "int \<Rightarrow> string" where
  "fmt_int i = (if i < 0 then CHR ''-'' # nat_str (nat (- i)) else nat_str (nat i))"

definition hex_digit :: "u32 \<Rightarrow> nat \<Rightarrow> char" where
  "hex_digit w i = ''0123456789abcdef'' ! unat (drop_bit (4 * i) w AND 15)"

text \<open>\<open>%08x\<close>\<close>

definition fmt_08x :: "u32 \<Rightarrow> string" where
  "fmt_08x w = map (hex_digit w) [7, 6, 5, 4, 3, 2, 1, 0]"

fun atom_fprint :: "pool \<Rightarrow> t_pdp_atom option \<Rightarrow> string"
  and atomlist_rest :: "pool \<Rightarrow> t_pdp_atom list \<Rightarrow> string" where
  "atom_fprint P None = ''<NULL ATOM>''"
| "atom_fprint P (Some (a_symbol s)) = s"
| "atom_fprint P (Some (a_float f)) = fmt_f f"
| "atom_fprint P (Some (a_int i)) = fmt_int i"
| "atom_fprint P (Some (a_packet p)) = ''#<pdp '' @ fmt_int p @ '' '' @ pdp_packet_get_description p P @ ''>''"
| "atom_fprint P (Some (a_pointer w)) = ''#<0x'' @ fmt_08x w @ ''>''"
| "atom_fprint P (Some (a_list l)) = ''('' @ atomlist_rest P l"
| "atom_fprint P (Some (a_atom_pointer a)) = ''->'' @ atom_fprint P a"
| "atom_fprint P (Some a_undef) = ''<undef>''"
| "atom_fprint P (Some (a_forthword w)) = ''#<forth word 0x'' @ fmt_08x w @ ''>''"
| "atom_fprint P (Some (a_vmword w)) = ''#<vm word 0x'' @ fmt_08x w @ ''>''"
| "atom_fprint P (Some (a_vmmacro w)) = ''#<vm macro 0x'' @ fmt_08x w @ ''>''"
| "atomlist_rest P [] = '')''"
| "atomlist_rest P (a # l) = atom_fprint P (Some a) @ (if l = [] then [] else '' '') @ atomlist_rest P l"

definition atomlist_fprint :: "pool \<Rightarrow> t_pdp_atom list \<Rightarrow> string" where
  "atomlist_fprint P l = ''('' @ atomlist_rest P l"

definition pdp_list_fprint :: "pool \<Rightarrow> t_pdp_atom list \<Rightarrow> string" where
  "pdp_list_fprint P l = atomlist_fprint P l @ [CHR 0x0A]"

section \<open>The syntax check\<close>

text \<open>The type names of the code's \<open>switch\<close>; other atoms match the wildcard only.\<close>

definition type_name :: "t_pdp_atom \<Rightarrow> string option" where
  "type_name a =
     (case a of a_int _ \<Rightarrow> Some ''int'' | a_float _ \<Rightarrow> Some ''float'' | a_symbol _ \<Rightarrow> Some ''symbol''
              | a_packet _ \<Rightarrow> Some ''packet'' | a_list _ \<Rightarrow> Some ''list'' | _ \<Rightarrow> None)"

text \<open>
  \<open>check_atoms\<close> is the loop over both lists, \<open>first\<close> the syntax list from its start, \<open>sa\<close> what is left of it.
  \<open>check_atom\<close> is the body behind \<open>checkatom:\<close> without the ellipsis case. An ellipsis rewinds and tries the
  same atom again.
\<close>

fun pdp_tree_check_syntax :: "t_pdp_atom list \<Rightarrow> t_pdp_atom list \<Rightarrow> bool"
  and check_atoms :: "t_pdp_atom list \<Rightarrow> t_pdp_atom list \<Rightarrow> t_pdp_atom list \<Rightarrow> bool"
  and check_atom :: "t_pdp_atom \<Rightarrow> t_pdp_atom \<Rightarrow> bool" where
  "pdp_tree_check_syntax l syntax =
     (if l = [] then syntax = [] \<or> last syntax = a_symbol ''...'' else check_atoms l syntax syntax)"
| "check_atoms [] first sa = (sa = [] \<or> hd sa = a_symbol ''...'')"
| "check_atoms (la # l) first [] = False"
| "check_atoms (la # l) first (s # sa) =
     (if s = a_symbol ''...''
      then if length (s # sa) = length first then False
           else if first = [] \<or> hd first = a_symbol ''...'' then False
           else check_atom la (hd first) \<and> check_atoms l first (tl first)
      else check_atom la s \<and> check_atoms l first sa)"
| "check_atom la (a_list s) = (case la of a_list l \<Rightarrow> pdp_tree_check_syntax l s | _ \<Rightarrow> False)"
| "check_atom la (a_symbol s) = (s = ''*'' \<or> type_name la = Some s)"
| "check_atom la _ = False"

section \<open>Traversal, copies and packets\<close>

text \<open>A method that changes the atom it is given and a state, applied to every atom of a list or of a tree.\<close>

fun pdp_list_apply :: "(t_pdp_atom \<Rightarrow> 's \<Rightarrow> (t_pdp_atom \<times> 's) option) \<Rightarrow> t_pdp_atom list \<Rightarrow> 's \<Rightarrow> (t_pdp_atom list \<times> 's) option" where
  "pdp_list_apply m [] s = Some ([], s)"
| "pdp_list_apply m (a # l) s = do { (a, s) \<leftarrow> m a s; (l, s) \<leftarrow> pdp_list_apply m l s; Some (a # l, s) }"

fun pdp_tree_apply :: "(t_pdp_atom \<Rightarrow> 's \<Rightarrow> (t_pdp_atom \<times> 's) option) \<Rightarrow> t_pdp_atom list \<Rightarrow> 's \<Rightarrow> (t_pdp_atom list \<times> 's) option"
  and tree_apply_atom :: "(t_pdp_atom \<Rightarrow> 's \<Rightarrow> (t_pdp_atom \<times> 's) option) \<Rightarrow> t_pdp_atom \<Rightarrow> 's \<Rightarrow> (t_pdp_atom \<times> 's) option" where
  "pdp_tree_apply m [] s = Some ([], s)"
| "pdp_tree_apply m (a # l) s = do { (a, s) \<leftarrow> tree_apply_atom m a s; (l, s) \<leftarrow> pdp_tree_apply m l s; Some (a # l, s) }"
| "tree_apply_atom m (a_list l) s = do { (l, s) \<leftarrow> pdp_tree_apply m l s; Some (a_list l, s) }"
| "tree_apply_atom m a s = m a s"

text \<open>The values of the enumeration \<open>t_pdp_word_type\<close>.\<close>

definition word_type :: "t_pdp_atom \<Rightarrow> nat" where
  "word_type a =
     (case a of a_undef \<Rightarrow> 0 | a_pointer _ \<Rightarrow> 1 | a_float _ \<Rightarrow> 2 | a_int _ \<Rightarrow> 3 | a_symbol _ \<Rightarrow> 4 | a_packet _ \<Rightarrow> 5
              | a_list _ \<Rightarrow> 6 | a_atom_pointer _ \<Rightarrow> 7 | a_forthword _ \<Rightarrow> 8 | a_vmword _ \<Rightarrow> 9 | a_vmmacro _ \<Rightarrow> 10)"

definition on_type :: "nat \<Rightarrow> (t_pdp_atom \<Rightarrow> 's \<Rightarrow> (t_pdp_atom \<times> 's) option) \<Rightarrow> t_pdp_atom \<Rightarrow> 's \<Rightarrow> (t_pdp_atom \<times> 's) option" where
  "on_type ty m a s = (if word_type a = ty then m a s else Some (a, s))"

definition pdp_list_apply_pword_method where
  "pdp_list_apply_pword_method l ty pwm s = pdp_list_apply (on_type ty pwm) l s"

definition pdp_tree_apply_pword_method where
  "pdp_tree_apply_pword_method l ty pwm s = pdp_tree_apply (on_type ty pwm) l s"

text \<open>A word method sees the word, not its address: it cannot change the atom.\<close>

definition by_value :: "(t_pdp_atom \<Rightarrow> 's \<Rightarrow> 's option) \<Rightarrow> t_pdp_atom \<Rightarrow> 's \<Rightarrow> (t_pdp_atom \<times> 's) option" where
  "by_value wm a s = do { s \<leftarrow> wm a s; Some (a, s) }"

definition pdp_list_apply_word_method where
  "pdp_list_apply_word_method l ty wm s = pdp_list_apply (on_type ty (by_value wm)) l s"

definition pdp_tree_apply_word_method where
  "pdp_tree_apply_word_method l ty wm s = pdp_tree_apply (on_type ty (by_value wm)) l s"

definition atom_packet_mark_unused :: "methods \<Rightarrow> t_pdp_atom \<Rightarrow> pool \<Rightarrow> (t_pdp_atom \<times> pool) option" where
  "atom_packet_mark_unused E a P =
     (case a of a_packet p \<Rightarrow> do { P \<leftarrow> pdp_packet_mark_unused E p P; Some (a_packet (-1), P) } | _ \<Rightarrow> Some (a, P))"

definition atom_packet_copy_ro :: "t_pdp_atom \<Rightarrow> pool \<Rightarrow> (t_pdp_atom \<times> pool) option" where
  "atom_packet_copy_ro a P =
     (case a of a_packet p \<Rightarrow> (case pdp_packet_copy_ro p P of (q, P) \<Rightarrow> Some (a_packet q, P)) | _ \<Rightarrow> Some (a, P))"

definition pdp_tree_strip_packets :: "methods \<Rightarrow> t_pdp_atom list \<Rightarrow> pool \<Rightarrow> (t_pdp_atom list \<times> pool) option" where
  "pdp_tree_strip_packets E l P = pdp_tree_apply (atom_packet_mark_unused E) l P"

definition tree_copy_ro_packets :: "t_pdp_atom list \<Rightarrow> pool \<Rightarrow> (t_pdp_atom list \<times> pool) option" where
  "tree_copy_ro_packets l P = pdp_tree_apply atom_packet_copy_ro l P"

fun pdp_tree_copy :: "t_pdp_atom list \<Rightarrow> t_pdp_atom list"
  and tree_copy_atom :: "t_pdp_atom \<Rightarrow> t_pdp_atom" where
  "pdp_tree_copy [] = []"
| "pdp_tree_copy (a # l) = tree_copy_atom a # pdp_tree_copy l"
| "tree_copy_atom (a_list l) = a_list (pdp_tree_copy l)"
| "tree_copy_atom a = a"

definition pdp_tree_copy_ro :: "t_pdp_atom list \<Rightarrow> pool \<Rightarrow> (t_pdp_atom list \<times> pool) option" where
  "pdp_tree_copy_ro l P = tree_copy_ro_packets (pdp_tree_copy l) P"

section \<open>The parser returns\<close>

lemma length_skip_whitespace: "length (skip_whitespace s) \<le> length s"
proof (induction s rule: skip_whitespace.induct)
  case (1 s)
  then show ?case
    using length_skip_comment [of "skip_real_whitespace s"] length_skip_real_whitespace [of s]
    by (subst skip_whitespace.simps) (force simp: Let_def)
qed

lemma parse_total:
  shows "3 * length s + 2 \<le> n \<Longrightarrow>
      \<exists>a r. parse_atom n s = Some (a, r) \<and> length r \<le> length s \<and> (a \<noteq> None \<longrightarrow> length r < length s)"
    and "3 * length s + 1 \<le> n \<Longrightarrow>
      \<exists>l r. parse_tree n s = Some (l, r) \<and> length r \<le> length s \<and> (l \<noteq> None \<longrightarrow> length r < length s)"
    and "3 * length s + 3 \<le> n \<Longrightarrow> \<exists>l r. parse_atoms n s = Some (l, r) \<and> length r \<le> length s"
proof (induction n s and n s and n s rule: parse_atom_parse_tree_parse_atoms.induct)
  case (2 n s)
  let ?c = "skip_whitespace s"
  have l: "length ?c \<le> length s" by (rule length_skip_whitespace)
  show ?case
  proof (cases ?c)
    case (Cons c r)
    show ?thesis
    proof (cases "is_left_separator c \<and> \<not> is_right_separator c")
      case True
      have "3 * length ?c + 1 \<le> n" using l "2.prems" by linarith
      then obtain t rest where "parse_tree n ?c = Some (t, rest)" "length rest \<le> length ?c" "t \<noteq> None \<longrightarrow> length rest < length ?c"
        using "2.IH" [OF refl Cons] True by auto
      with l True Cons show ?thesis by auto
    next
      case False
      have "length (dropWhile (\<lambda>c. \<not> is_separator c) ?c) \<le> length ?c" by (rule length_dropWhile_le)
      moreover have "takeWhile (\<lambda>c. \<not> is_separator c) ?c \<noteq> [] \<Longrightarrow> length (dropWhile (\<lambda>c. \<not> is_separator c) ?c) < length ?c"
        using length_dropWhile_le [of "\<lambda>c. \<not> is_separator c" r] by (auto simp: Cons split: if_splits)
      ultimately show ?thesis using l Cons False by (auto simp: Let_def)
    qed
  qed (use l in simp)
next
  case (4 n s)
  let ?c = "skip_whitespace s"
  have l: "length ?c \<le> length s" by (rule length_skip_whitespace)
  show ?case
  proof (cases "starts is_left_separator ?c")
    case True
    then obtain c r where c: "?c = c # r" by (auto simp: starts_def split: list.splits)
    have "3 * length (drop 1 ?c) + 3 \<le> n" using l "4.prems" c by simp
    then obtain t rest where "parse_atoms n (drop 1 ?c) = Some (t, rest)" "length rest \<le> length (drop 1 ?c)"
      using "4.IH" [OF refl] True by auto
    with l c True length_skip_whitespace [of rest] show ?thesis by (auto simp: Let_def)
  qed (use l in simp)
next
  case (6 n s)
  have "3 * length s + 2 \<le> n" using "6.prems" by simp
  then obtain a r where a: "parse_atom n s = Some (a, r)" "length r \<le> length s" "a \<noteq> None \<longrightarrow> length r < length s"
    using "6.IH"(1) by auto
  show ?case
  proof (cases a)
    case (Some a')
    then have "3 * length r + 3 \<le> n" using a(3) "6.prems" by simp
    then obtain l r' where "parse_atoms n r = Some (l, r')" "length r' \<le> length r"
      using "6.IH"(2) [OF a(1) refl Some] by auto
    with a Some show ?thesis by auto
  qed (use a in simp)
qed simp_all

lemma parse_fuel:
  "parse_atom n s = Some r \<Longrightarrow> parse_atom (Suc n) s = Some r"
  "parse_tree n s = Some r' \<Longrightarrow> parse_tree (Suc n) s = Some r'"
  "parse_atoms n s = Some r'' \<Longrightarrow> parse_atoms (Suc n) s = Some r''"
proof (induction n s and n s and n s arbitrary: r and r' and r'' rule: parse_atom_parse_tree_parse_atoms.induct)
  case (2 n s)
  show ?case
  proof (cases "skip_whitespace s")
    case (Cons c cs)
    show ?thesis
    proof (cases "is_left_separator c \<and> \<not> is_right_separator c")
      case True
      with "2.prems" Cons obtain l rest where l: "parse_tree n (skip_whitespace s) = Some (l, rest)" "r = (map_option a_list l, rest)"
        by (auto split: Option.bind_splits)
      have "parse_tree (Suc n) (skip_whitespace s) = Some (l, rest)"
        using "2.IH" [OF refl Cons] True l(1) by blast
      with True Cons l show ?thesis by (subst parse_atom.simps) (simp del: parse_tree.simps)
    next
      case False
      with "2.prems" Cons show ?thesis by (cases "is_right_separator c") (simp_all add: Let_def)
    qed
  qed (use "2.prems" in simp)
next
  case (4 n s)
  show ?case
  proof (cases "starts is_left_separator (skip_whitespace s)")
    case True
    with "4.prems" obtain l rest where l: "parse_atoms n (drop 1 (skip_whitespace s)) = Some (l, rest)"
      by (auto split: Option.bind_splits)
    then have "parse_atoms (Suc n) (drop 1 (skip_whitespace s)) = Some (l, rest)"
      using "4.IH" [OF refl] True by blast
    with "4.prems" True l show ?thesis by (subst parse_tree.simps) (simp del: parse_atoms.simps)
  qed (use "4.prems" in simp)
next
  case (6 n s)
  then obtain a rest where a: "parse_atom n s = Some (a, rest)" by (auto split: Option.bind_splits)
  have a': "parse_atom (Suc n) s = Some (a, rest)" by (rule "6.IH"(1) [OF a])
  show ?case
  proof (cases a)
    case None
    with "6.prems" a a' show ?thesis by (subst parse_atoms.simps) (simp del: parse_atom.simps)
  next
    case (Some b)
    with "6.prems" a obtain l rest' where l: "parse_atoms n rest = Some (l, rest')" by (auto split: Option.bind_splits)
    have "parse_atoms (Suc n) rest = Some (l, rest')" by (rule "6.IH"(2) [OF a refl Some l])
    with "6.prems" [unfolded parse_atoms.simps] Some a a' l show ?thesis by (subst parse_atoms.simps) (simp del: parse_atom.simps parse_atoms.simps)
  qed
qed simp_all

lemma fuel_le:
  assumes "\<And>n. f n = Some r \<Longrightarrow> f (Suc n) = Some r" and "f m = Some (r :: 'a)" and "m \<le> n"
  shows "f n = Some r"
  using assms(3) by (induction n rule: dec_induct) (use assms(1,2) in auto)

text \<open>Some amount of fuel that works gives the result of the functions of the interface.\<close>

lemma tree_from_cstring_eq:
  assumes "parse_tree n s = Some r"
  shows "pdp_tree_from_cstring s = Some r"
proof -
  obtain l q where lq: "pdp_tree_from_cstring s = Some (l, q)"
    using parse_total(2) [of s "3 * length s + 3"] by (auto simp: pdp_tree_from_cstring_def)
  have "parse_tree (max n (3 * length s + 3)) s = Some r"
    by (rule fuel_le [where f = "\<lambda>n. parse_tree n s", OF parse_fuel(2) assms]) simp_all
  moreover have "parse_tree (max n (3 * length s + 3)) s = Some (l, q)"
    by (rule fuel_le [where f = "\<lambda>n. parse_tree n s", OF parse_fuel(2) lq [unfolded pdp_tree_from_cstring_def]]) simp_all
  ultimately show ?thesis using lq by simp
qed


section \<open>Printed trees read back\<close>

text \<open>
  Trees of integers, symbols and lists. A plain symbol is not empty, holds no separator, does not start
  with \<open>#\<close>, and has no digit at all or does not start the way a number can: with a digit, a sign, a
  point or one of the spaces that \<open>strtol\<close> skips and the parser does not.
\<close>

definition number_start :: "char \<Rightarrow> bool" where
  "number_start c \<longleftrightarrow> is_digit c \<or> is_space c \<or> c \<in> {CHR ''+'', CHR ''-'', CHR ''.''}"

definition plain_symbol :: "string \<Rightarrow> bool" where
  "plain_symbol s \<longleftrightarrow>
     s \<noteq> [] \<and> list_all (\<lambda>c. \<not> is_separator c) s \<and> hd s \<noteq> CHR ''#'' \<and>
     (list_all (\<lambda>c. \<not> is_digit c) s \<or> \<not> number_start (hd s))"

lemma base_digit_10: "base_digit 10 c = is_digit c"
  by (auto simp: base_digit_def digit_val_def is_digit_def Let_def split: if_splits)

lemma no_hex_prefix: "\<not> starts is_digit s \<Longrightarrow> \<not> hex_prefix s \<and> \<not> starts (\<lambda>c. c = CHR ''0'') s"
  by (auto simp: hex_prefix_def starts_def is_digit_def split: list.splits)

lemma takeWhile_starts: "\<not> starts p s \<Longrightarrow> takeWhile p s = [] \<and> dropWhile p s = s"
  by (cases s) (simp_all add: starts_def)

lemma signed_rest_set: "set (snd (signed_rest s)) \<subseteq> set s"
  using set_dropWhileD [of _ is_space s] by (auto simp: signed_rest_def Let_def split: list.splits if_splits)

text \<open>Where neither the string behind the sign nor what follows a point there starts with a digit, there is no number.\<close>

lemma no_number:
  assumes "\<not> starts is_digit (snd (signed_rest s))"
    and "starts (\<lambda>c. c = CHR ''.'') (snd (signed_rest s)) \<Longrightarrow> \<not> starts is_digit (drop 1 (snd (signed_rest s)))"
  shows "strtol0 s = (0, s)" "strtod s = (Finite False 0 0, s)"
proof -
  obtain neg s2 where s2: "signed_rest s = (neg, s2)" by fastforce
  have d: "\<not> starts (base_digit 10) s2" "starts (\<lambda>c. c = CHR ''.'') s2 \<Longrightarrow> \<not> starts (base_digit 10) (drop 1 s2)"
    using assms s2 by (simp_all add: starts_def base_digit_10 cong: list.case_cong)
  have h: "\<not> hex_prefix s2" "\<not> starts (\<lambda>c. c = CHR ''0'') s2" using no_hex_prefix [of s2] assms(1) s2 by simp_all
  note t = takeWhile_starts [OF d(1)]
  show "strtol0 s = (0, s)" using h t by (simp add: strtol0_def s2 Let_def)
  show "strtod s = (Finite False 0 0, s)"
    using h t takeWhile_starts [OF d(2)] by (simp add: strtod_def s2 Let_def)
qed

lemma plain_symbol_parses:
  assumes "plain_symbol s"
  shows "parse_pure_atom s = a_symbol s"
proof -
  have "\<not> starts is_digit (snd (signed_rest s)) \<and>
    (starts (\<lambda>c. c = CHR ''.'') (snd (signed_rest s)) \<longrightarrow> \<not> starts is_digit (drop 1 (snd (signed_rest s))))"
  proof (cases "number_start (hd s)")
    case True
    then have "\<forall>c \<in> set s. \<not> is_digit c" using assms by (auto simp: plain_symbol_def list_all_iff)
    then have n: "\<forall>c \<in> set (snd (signed_rest s)). \<not> is_digit c" using signed_rest_set [of s] by blast
    then have "\<forall>c \<in> set (drop 1 (snd (signed_rest s))). \<not> is_digit c" using set_drop_subset by fast
    with n show ?thesis by (auto simp: starts_def split: list.splits)
  next
    case False
    obtain c r where c: "s = c # r" using assms by (cases s) (simp_all add: plain_symbol_def)
    then have "signed_rest s = (False, s)" using False by (simp add: signed_rest_def number_start_def)
    then show ?thesis using False by (simp add: c starts_def number_start_def)
  qed
  then have "strtol0 s = (0, s)" "strtod s = (Finite False 0 0, s)" using no_number [of s] by blast+
  moreover have "s \<noteq> []" using assms by (simp add: plain_symbol_def)
  ultimately show ?thesis by (simp add: parse_pure_atom_def)
qed

fun readable :: "t_pdp_atom \<Rightarrow> bool" where
  "readable (a_int i) = in_s32 i"
| "readable (a_symbol s) = plain_symbol s"
| "readable (a_list l) = list_all readable l"
| "readable _ = False"

lemma skip_whitespace_at:
  assumes "\<not> is_whitespace c" and "\<not> is_left_comment c"
  shows "skip_whitespace (c # r) = c # r"
  using assms by (subst skip_whitespace.simps) (simp add: skip_real_whitespace_def skip_comment_def Let_def)

lemma skip_whitespace_space:
  assumes "\<not> is_whitespace c" and "\<not> is_left_comment c"
  shows "skip_whitespace ('' '' @ c # r) = c # r"
  using skip_whitespace_at [OF assms, of r] assms
  by (subst skip_whitespace.simps) (simp add: skip_real_whitespace_def skip_comment_def Let_def is_whitespace_def)

lemma separators:
  "is_separator (CHR '' '')" "is_separator (CHR '')'')" "is_separator (CHR ''('')" "is_left_separator (CHR ''('')"
  "is_right_separator (CHR '')'')" "\<not> is_left_separator (CHR '')'')" "\<not> is_right_separator (CHR ''('')"
  "\<not> is_whitespace (CHR '')'')" "\<not> is_whitespace (CHR ''('')" "\<not> is_left_comment (CHR '')'')" "\<not> is_left_comment (CHR ''('')"
  by (simp_all add: is_separator_def is_left_separator_def is_right_separator_def is_whitespace_def is_left_comment_def)

text \<open>A token in front of a separator.\<close>

lemma parse_token:
  assumes "tok \<noteq> []" and "list_all (\<lambda>c. \<not> is_separator c) tok" and "\<not> is_left_comment (hd tok)"
    and "is_separator d" and "pre = [] \<or> pre = '' ''"
  shows "parse_atom (Suc n) (pre @ tok @ d # r) = Some (Some (parse_pure_atom tok), d # r)"
proof -
  obtain c cs where c: "tok = c # cs" using assms(1) by (cases tok) auto
  with assms(2,3) have nc: "\<not> is_separator c" "\<not> is_left_comment c" by simp_all
  then have n: "\<not> is_whitespace c" "\<not> is_left_separator c" "\<not> is_right_separator c"
    by (simp_all add: is_separator_def)
  have "skip_whitespace (pre @ tok @ d # r) = tok @ d # r"
    using assms(5) skip_whitespace_at [OF n(1) nc(2)] skip_whitespace_space [OF n(1) nc(2)] by (auto simp: c)
  moreover have "takeWhile (\<lambda>c. \<not> is_separator c) (tok @ d # r) = tok" "dropWhile (\<lambda>c. \<not> is_separator c) (tok @ d # r) = d # r"
    using assms(2,4) by (simp_all add: takeWhile_append2 dropWhile_append2 list_all_iff)
  ultimately show ?thesis
    using n c by (simp add: Let_def)
qed

lemma digit_of_base: "is_digit c \<longleftrightarrow> base_digit 10 c"
  by (auto simp: is_digit_def base_digit_def digit_val_def Let_def)

lemma base_value_digits: "\<forall>c \<in> set ds. is_digit c \<Longrightarrow> base_value 10 ds = int (digits_value ds)"
proof (induction ds rule: rev_induct)
  case (snoc c ds)
  have "the (digit_val c) = of_char c - 48" "48 \<le> (of_char c :: nat)"
    using snoc.prems by (auto simp: is_digit_def digit_val_def Let_def)
  with snoc show ?case by (simp add: base_value_def digits_value_snoc of_nat_diff)
qed (simp add: base_value_def digits_value_def)

text \<open>A printed number does not start with a zero, unless it is zero, which base 8 reads as well.\<close>

lemma nat_str_head: "0 < n \<Longrightarrow> hd (nat_str n) \<noteq> CHR ''0''"
proof (induction n rule: nat_str.induct)
  case (1 n)
  show ?case
  proof (cases "n < 10")
    case True
    have "(of_char (char_of (48 + n) :: char) :: nat) = 48 + n" using True by (simp add: of_char_of)
    then show ?thesis using True "1.prems" by (subst nat_str.simps) (auto dest!: arg_cong [where f = "of_char :: char \<Rightarrow> nat"])
  next
    case False
    then show ?thesis using 1 by (subst nat_str.simps) (simp add: hd_append)
  qed
qed

lemma strtol_nat_str:
  assumes "int n \<le> 2 ^ 31" and "pre = [] \<or> pre = ''-''"
  shows "strtol0 (pre @ nat_str n) = (if pre = [] then int n else - int n, [])"
proof (cases "n = 0")
  case True
  have "nat_str 0 = ''0''" by code_simp
  then show ?thesis
    using assms(2) True
    by (auto simp: strtol0_def signed_rest_def is_space_def hex_prefix_def starts_def base_digit_def digit_val_def base_value_def)
next
  case False
  obtain c cs where c: "nat_str n = c # cs" by (cases "nat_str n") simp_all
  have d: "\<forall>x \<in> set (nat_str n). is_digit x" by (rule nat_str_digits)
  have c0: "c \<noteq> CHR ''0''" using nat_str_head [of n] False by (simp add: c)
  have cd: "is_digit c" using d by (simp add: c)
  note k = digit_kinds [OF cd]
  have s: "signed_rest (pre @ nat_str n) = (pre \<noteq> [], nat_str n)"
    using assms(2) k by (auto simp: signed_rest_def c is_space_def)
  have h: "\<not> hex_prefix (nat_str n)" "\<not> starts (\<lambda>c. c = CHR ''0'') (nat_str n)"
    using c0 by (auto simp: hex_prefix_def starts_def c split: list.splits)
  have t: "takeWhile (base_digit 10) (nat_str n) = nat_str n" "dropWhile (base_digit 10) (nat_str n) = []"
    using d by (simp_all add: digit_of_base)
  have v: "base_value 10 (nat_str n) = int n"
    using base_value_digits [OF d] by (simp add: digits_value_nat_str)
  show ?thesis
    unfolding strtol0_def s using assms(1) by (simp add: Let_def h t v)
qed


lemma readable_symbol_chars: "plain_symbol s \<Longrightarrow> s \<noteq> [] \<and> list_all (\<lambda>c. \<not> is_separator c) s \<and> \<not> is_left_comment (hd s)"
  by (simp add: plain_symbol_def is_left_comment_def)

lemma digit_no_separator: "is_digit c \<Longrightarrow> \<not> is_separator c \<and> \<not> is_left_comment c \<and> c \<noteq> CHR ''.''"
  by (auto simp: is_digit_def is_separator_def is_left_separator_def is_right_separator_def is_whitespace_def is_left_comment_def)

lemma fmt_int_token:
  assumes "in_s32 i"
  shows "fmt_int i \<noteq> [] \<and> list_all (\<lambda>c. \<not> is_separator c) (fmt_int i) \<and> \<not> is_left_comment (hd (fmt_int i)) \<and> parse_pure_atom (fmt_int i) = a_int i"
proof -
  define n where "n = nat (abs i)"
  define pre where "pre = (if i < 0 then ''-'' else [])"
  have f: "fmt_int i = pre @ nat_str n" by (simp add: fmt_int_def pre_def n_def)
  have d: "\<forall>x \<in> set (nat_str n). is_digit x" by (rule nat_str_digits)
  have m: "\<not> is_separator (CHR ''-'')" "\<not> is_left_comment (CHR ''-'')"
    by (simp_all add: is_separator_def is_left_separator_def is_right_separator_def is_whitespace_def is_left_comment_def)
  have chars: "list_all (\<lambda>c. \<not> is_separator c) (fmt_int i)"
    using d digit_no_separator m by (auto simp: f pre_def list_all_iff)
  have head: "\<not> is_left_comment (hd (fmt_int i))"
  proof (cases "nat_str n")
    case (Cons c cs)
    with d digit_no_separator [of c] m show ?thesis by (simp add: f pre_def)
  qed simp
  have "\<not> list_ex (\<lambda>x. x = CHR ''.'') (fmt_int i)"
    using d digit_no_separator by (auto simp: f pre_def list_ex_iff)
  moreover have "strtol0 (fmt_int i) = (i, [])"
    unfolding f using assms by (subst strtol_nat_str) (auto simp: n_def pre_def in_s32_def)
  ultimately have "parse_pure_atom (fmt_int i) = a_int i"
    using wrap32_id [OF assms] by (simp add: parse_pure_atom_def)
  with chars head show ?thesis by (simp add: f)
qed

lemma parse_list:
  assumes "parse_atoms n (drop 1 (''('' @ s)) = Some (l, '')'' @ r)" and "pre = [] \<or> pre = '' ''"
  shows "parse_tree (Suc n) (pre @ ''('' @ s) = Some (Some l, r)"
proof -
  have "skip_whitespace (pre @ ''('' @ s) = ''('' @ s"
    using assms(2) skip_whitespace_at skip_whitespace_space separators by auto
  then show ?thesis
    using assms(1) skip_whitespace_at [of "CHR '')''" r] separators by (simp add: starts_def)
qed

text \<open>The atoms of a printed list, up to its closing parenthesis, when each of them reads back.\<close>

definition reads_back :: "pool \<Rightarrow> t_pdp_atom \<Rightarrow> bool" where
  "reads_back P a \<longleftrightarrow> (\<forall>d pre r. is_separator d \<and> (pre = [] \<or> pre = '' '') \<longrightarrow>
     (\<exists>n. parse_atom n (pre @ atom_fprint P (Some a) @ d # r) = Some (Some a, d # r)))"

lemma parse_atoms_step:
  assumes "parse_atom n s = Some (Some a, s')" and "parse_atoms m s' = Some (l, r)"
  shows "parse_atoms (Suc (max n m)) s = Some (a # l, r)"
proof -
  have "parse_atom (max n m) s = Some (Some a, s')"
    by (rule fuel_le [where f = "\<lambda>n. parse_atom n s", OF parse_fuel(1) assms(1)]) simp_all
  moreover have "parse_atoms (max n m) s' = Some (l, r)"
    by (rule fuel_le [where f = "\<lambda>n. parse_atoms n s'", OF parse_fuel(3) assms(2)]) simp_all
  ultimately show ?thesis by simp
qed

lemma parse_printed_list:
  assumes "\<And>a. a \<in> set l \<Longrightarrow> reads_back P a" and "pre = [] \<or> pre = '' '' \<and> l \<noteq> []"
  shows "\<exists>n. parse_atoms n (pre @ atomlist_rest P l @ r) = Some (l, '')'' @ r)"
  using assms
proof (induction l arbitrary: pre)
  case Nil
  have "parse_atom 1 ('')'' @ r) = Some (None, '')'' @ r)"
    using skip_whitespace_at [of "CHR '')''" r] separators by simp
  then have "parse_atoms 2 ('')'' @ r) = Some ([], '')'' @ r)" by (simp add: numeral_2_eq_2)
  with Nil show ?case by (auto intro: exI [of _ 2])
next
  case (Cons a l)
  let ?pre = "if l = [] then [] else '' ''"
  obtain d r' where d: "?pre @ atomlist_rest P l @ r = d # r'" "is_separator d"
    using separators by (cases l) simp_all
  have "reads_back P a" using Cons.prems(1) by simp
  then obtain n where n: "parse_atom n (pre @ atom_fprint P (Some a) @ d # r') = Some (Some a, d # r')"
    unfolding reads_back_def using Cons.prems(2) d(2) by blast
  obtain m where m: "parse_atoms m (?pre @ atomlist_rest P l @ r) = Some (l, '')'' @ r)"
    using Cons.IH [of ?pre] Cons.prems(1) by (metis list.set_intros(2))
  have "pre @ atomlist_rest P (a # l) @ r = pre @ atom_fprint P (Some a) @ d # r'"
    using d(1) by simp
  with parse_atoms_step [OF n m [unfolded d(1)]] show ?case by metis
qed

lemma readable_reads_back: "readable a \<Longrightarrow> reads_back P a"
proof (induction a)
  case (a_int i)
  then show ?case
    unfolding reads_back_def using parse_token fmt_int_token [of i] by (metis atom_fprint.simps(4) readable.simps(1))
next
  case (a_symbol s)
  then have s: "plain_symbol s" by simp
  then have "parse_pure_atom s = a_symbol s" by (rule plain_symbol_parses)
  then show ?case
    unfolding reads_back_def using parse_token readable_symbol_chars [OF s] by (metis atom_fprint.simps(2))
next
  case (a_list l)
  have b: "reads_back P a" if "a \<in> set l" for a
    using a_list that by (simp add: list_all_iff)
  show ?case unfolding reads_back_def
  proof (intro allI impI)
    fix d pre r
    assume d: "is_separator d \<and> (pre = [] \<or> pre = '' '')"
    obtain n where "parse_atoms n (atomlist_rest P l @ d # r) = Some (l, '')'' @ d # r)"
      using parse_printed_list [of l P "[]" "d # r"] b by auto
    then have "parse_tree (Suc n) (''('' @ atomlist_rest P l @ d # r) = Some (Some l, d # r)"
      using parse_list [of n "atomlist_rest P l @ d # r" l "d # r" "[]"] by simp
    moreover have "skip_whitespace (pre @ ''('' @ s) = ''('' @ s" for s
      using d skip_whitespace_at skip_whitespace_space separators by auto
    ultimately have "parse_atom (Suc (Suc n)) (pre @ ''('' @ atomlist_rest P l @ d # r) = Some (Some (a_list l), d # r)"
      using separators by (subst parse_atom.simps) (simp del: parse_tree.simps)
    moreover have "pre @ atom_fprint P (Some (a_list l)) @ d # r = pre @ ''('' @ atomlist_rest P l @ d # r" by simp
    ultimately show "\<exists>n. parse_atom n (pre @ atom_fprint P (Some (a_list l)) @ d # r) = Some (Some (a_list l), d # r)"
      by metis
  qed
qed simp_all

text \<open>
  C34: a printed tree of integers, plain symbols and lists, nested at will, reads back as the same tree, and the parser
  stops right behind it. The integers are those of 32 bits. A plain symbol is not empty, holds no blank, tab, newline or
  parenthesis, does not start with \<open>#\<close>, and either holds no digit or does not start with a digit, a sign, a point
  or a space; others, such as \<open>12\<close>, \<open>#x\<close> or a symbol with a blank, print without quotes and do not read back
  as themselves.
\<close>

theorem tree_print_parse:
  assumes "list_all readable l"
  shows "pdp_tree_from_cstring (atomlist_fprint P l @ r) = Some (Some l, r)"
proof -
  obtain n where "parse_atoms n (atomlist_rest P l @ r) = Some (l, '')'' @ r)"
    using parse_printed_list [of l P "[]" r] readable_reads_back assms by (auto simp: list_all_iff)
  then have "parse_tree (Suc n) (''('' @ atomlist_rest P l @ r) = Some (Some l, r)"
    using parse_list [of n "atomlist_rest P l @ r" l r "[]"] by simp
  from tree_from_cstring_eq [OF this] show ?thesis unfolding atomlist_fprint_def by simp
qed

theorem tree_print_parse_witness:
  "pdp_tree_from_cstring (atomlist_fprint empty_pool [a_symbol ''ab'', a_int (-12), a_list [], a_list [a_int 0, a_symbol ''-'', a_symbol ''...'', a_symbol ''x2'']] @ '' rest'') =
     Some (Some [a_symbol ''ab'', a_int (-12), a_list [], a_list [a_int 0, a_symbol ''-'', a_symbol ''...'', a_symbol ''x2'']], '' rest'')"
proof -
  have "list_all readable [a_symbol ''ab'', a_int (-12), a_list [], a_list [a_int 0, a_symbol ''-'', a_symbol ''...'', a_symbol ''x2'']]" by code_simp
  then show ?thesis by (rule tree_print_parse)
qed


section \<open>The syntax check matches the grammar\<close>

abbreviation ellipsis :: t_pdp_atom where
  "ellipsis \<equiv> a_symbol ''...''"

text \<open>A syntax: type names, the wildcard and lists, the ellipsis only at the end of a list.\<close>

fun wf_syntax :: "t_pdp_atom \<Rightarrow> bool" where
  "wf_syntax (a_symbol s) = True"
| "wf_syntax (a_list l) = (list_all wf_syntax l \<and> ellipsis \<notin> set (butlast l))"
| "wf_syntax _ = False"

text \<open>What a syntax stands for. A final ellipsis repeats the elements before it any number of times.\<close>

inductive conforms :: "t_pdp_atom \<Rightarrow> t_pdp_atom \<Rightarrow> bool"
  and conforms_list :: "t_pdp_atom list \<Rightarrow> t_pdp_atom list \<Rightarrow> bool" where
  wildcard: "conforms a (a_symbol ''*'')"
| type: "type_name a = Some s \<Longrightarrow> conforms a (a_symbol s)"
| sublist: "conforms_list l s \<Longrightarrow> conforms (a_list l) (a_list s)"
| once: "list_all2 conforms l s \<Longrightarrow> s = [] \<or> last s \<noteq> ellipsis \<Longrightarrow> conforms_list l s"
| repeated: "list_all2 conforms l (concat (replicate n p)) \<Longrightarrow> conforms_list l (p @ [ellipsis])"
monos list.rel_mono_strong

inductive_simps conforms_symbol: "conforms a (a_symbol s)"
inductive_simps conforms_list_atom: "conforms a (a_list s)"
inductive_simps conforms_list_iff: "conforms_list l s"

lemma check_atoms_once: "ellipsis \<notin> set sa \<Longrightarrow> check_atoms l first sa \<longleftrightarrow> list_all2 check_atom l sa"
proof (induction l arbitrary: sa)
  case Nil
  then show ?case by (cases sa) auto
next
  case (Cons la l)
  then show ?case by (cases sa) auto
qed

lemma check_atoms_repeated:
  assumes "p \<noteq> []" and "ellipsis \<notin> set p"
  shows "ellipsis \<notin> set q \<Longrightarrow>
    check_atoms l (p @ [ellipsis]) (q @ [ellipsis]) \<longleftrightarrow> (\<exists>n. list_all2 check_atom l (q @ concat (replicate n p)))"
proof (induction l arbitrary: q)
  case Nil
  show ?case
  proof (cases q)
    case Nil
    then show ?thesis by (auto intro: exI [of _ 0])
  qed (use Nil.prems in auto)
next
  case (Cons la l)
  show ?case
  proof (cases q)
    case Nil
    obtain s p' where p: "p = s # p'" using assms(1) by (cases p) auto
    have "check_atoms (la # l) (p @ [ellipsis]) [ellipsis] \<longleftrightarrow> check_atom la s \<and> check_atoms l (p @ [ellipsis]) (p' @ [ellipsis])"
      using assms(2) by (auto simp add: p)
    also have "\<dots> \<longleftrightarrow> check_atom la s \<and> (\<exists>n. list_all2 check_atom l (p' @ concat (replicate n p)))"
      using Cons.IH [of p'] assms(2) by (simp add: p)
    also have "\<dots> \<longleftrightarrow> (\<exists>n. list_all2 check_atom (la # l) (concat (replicate (Suc n) p)))"
      by (simp add: p)
    also have "\<dots> \<longleftrightarrow> (\<exists>n. list_all2 check_atom (la # l) (concat (replicate n p)))"
      by (metis concat.simps(1) list_all2_Cons1 list.distinct(1) not0_implies_Suc replicate_0)
    finally show ?thesis by (simp add: Nil)
  next
    case q: (Cons s q')
    with Cons.prems have "s \<noteq> ellipsis" by auto
    then show ?thesis using Cons.IH [of q'] Cons.prems by (simp add: q)
  qed
qed

lemma check_syntax_list:
  assumes "ellipsis \<notin> set (butlast s)"
  shows "pdp_tree_check_syntax l s \<longleftrightarrow>
    (if s \<noteq> [] \<and> last s = ellipsis then \<exists>n. list_all2 check_atom l (concat (replicate n (butlast s))) else list_all2 check_atom l s)"
proof (cases "s \<noteq> [] \<and> last s = ellipsis")
  case True
  define p where "p = butlast s"
  have s: "s = p @ [ellipsis]" using True append_butlast_last_id [of s] by (simp add: p_def)
  have p: "ellipsis \<notin> set p" using assms by (simp add: p_def)
  show ?thesis
  proof (cases "p = []")
    case True
    then show ?thesis by (cases l) (auto simp: s intro: exI [of _ 0])
  next
    case False
    show ?thesis
    proof (cases l)
      case Nil
      then show ?thesis by (auto simp: s intro: exI [of _ 0])
    next
      case (Cons a l')
      have "check_atoms l s s \<longleftrightarrow> (\<exists>n. list_all2 check_atom l (concat (replicate (Suc n) p)))"
        using check_atoms_repeated [OF False p p, of l] by (simp add: s)
      also have "\<dots> \<longleftrightarrow> (\<exists>n. list_all2 check_atom l (concat (replicate n p)))"
        unfolding Cons by (metis concat.simps(1) list_all2_Cons1 list.distinct(1) not0_implies_Suc replicate_0)
      finally show ?thesis using True Cons by (simp add: p_def)
    qed
  qed
next
  case False
  then have "ellipsis \<notin> set s" using assms by (cases s rule: rev_cases) auto
  with False check_atoms_once [of s l s] show ?thesis by auto
qed

lemma list_all2_cong_set:
  assumes "\<And>a s. s \<in> set ss \<Longrightarrow> f a s \<longleftrightarrow> g a s"
  shows "list_all2 f l ss \<longleftrightarrow> list_all2 g l ss"
  using assms by (auto intro: list.rel_mono_strong)

lemma check_atom_conforms: "wf_syntax s \<Longrightarrow> check_atom a s \<longleftrightarrow> conforms a s"
proof (induction s arbitrary: a)
  case (a_symbol s)
  show ?case by (auto simp: conforms_symbol)
next
  case (a_list ss)
  have e: "check_atom a s \<longleftrightarrow> conforms a s" if "s \<in> set ss" for a s
    using a_list that by (simp add: list_all_iff)
  have b: "ellipsis \<notin> set (butlast ss)" using a_list.prems by simp
  have eb: "list_all2 check_atom l (concat (replicate n (butlast ss))) \<longleftrightarrow> list_all2 conforms l (concat (replicate n (butlast ss)))" for l n
    by (rule list_all2_cong_set) (use e in \<open>auto dest: in_set_butlastD split: if_splits\<close>)
  have es: "list_all2 check_atom l ss \<longleftrightarrow> list_all2 conforms l ss" for l
    by (rule list_all2_cong_set) (rule e)
  have "pdp_tree_check_syntax l ss \<longleftrightarrow> conforms_list l ss" for l
  proof (cases "ss \<noteq> [] \<and> last ss = ellipsis")
    case True
    then have "conforms_list l ss \<longleftrightarrow> (\<exists>n. list_all2 conforms l (concat (replicate n (butlast ss))))"
      by (subst conforms_list_iff) (metis butlast_snoc append_butlast_last_id)
    with True show ?thesis using check_syntax_list [OF b, of l] eb by simp
  next
    case False
    then have "conforms_list l ss \<longleftrightarrow> list_all2 conforms l ss"
      by (subst conforms_list_iff) (auto simp: snoc_eq_iff_butlast)
    with False show ?thesis using check_syntax_list [OF b, of l] es by auto
  qed
  then show ?case by (auto simp: conforms_list_atom split: t_pdp_atom.splits)
qed simp_all

text \<open>
  C35: for a syntax that is well formed, \<open>pdp_tree_check_syntax\<close> accepts exactly the trees the syntax stands for,
  at every depth.
\<close>

theorem check_syntax_matches_grammar:
  assumes "wf_syntax (a_list syntax)"
  shows "pdp_tree_check_syntax l syntax \<longleftrightarrow> conforms_list l syntax"
  using check_atom_conforms [OF assms, of "a_list l"] by (simp add: conforms_list_atom)

theorem check_syntax_matches_grammar_witness:
  "conforms_list [a_int 1, a_list [a_symbol ''x''], a_int 2, a_list []] [a_symbol ''int'', a_list [a_symbol ''symbol'', a_symbol ''...''], a_symbol ''...''] \<and>
   \<not> conforms_list [a_int 1, a_list [a_symbol ''x'', a_int 3]] [a_symbol ''int'', a_list [a_symbol ''symbol'', a_symbol ''...''], a_symbol ''...'']"
proof -
  let ?s = "[a_symbol ''int'', a_list [a_symbol ''symbol'', a_symbol ''...''], a_symbol ''...'']"
  have "wf_syntax (a_list ?s)" by code_simp
  note c = check_syntax_matches_grammar [OF this]
  have "pdp_tree_check_syntax [a_int 1, a_list [a_symbol ''x''], a_int 2, a_list []] ?s" by code_simp
  moreover have "\<not> pdp_tree_check_syntax [a_int 1, a_list [a_symbol ''x'', a_int 3]] ?s" by code_simp
  ultimately show ?thesis by (simp only: c simp_thms)
qed

section \<open>Packets in a tree\<close>

fun tree_packets :: "t_pdp_atom list \<Rightarrow> int list"
  and atom_packets :: "t_pdp_atom \<Rightarrow> int list" where
  "tree_packets [] = []"
| "tree_packets (a # l) = atom_packets a @ tree_packets l"
| "atom_packets (a_packet p) = [p]"
| "atom_packets (a_list l) = tree_packets l"
| "atom_packets _ = []"

lemma tree_copy_id: "pdp_tree_copy l = l" "tree_copy_atom a = a"
  by (induction l and a rule: pdp_tree_copy_tree_copy_atom.induct) simp_all

definition has_desc :: "pool \<Rightarrow> int \<Rightarrow> bool" where
  "has_desc P p \<longleftrightarrow> (\<exists>h. pdp_packet_header p P = Some h \<and> desc h \<noteq> None)"

lemma copy_ro_tree:
  "\<forall>p \<in> set (tree_packets l). p \<in># R \<Longrightarrow> pool_inv P R \<Longrightarrow> size R + length (tree_packets l) < 2 ^ 32 \<Longrightarrow>
     \<exists>P'. pdp_tree_apply atom_packet_copy_ro l P = Some (l, P') \<and> pool_inv P' (R + mset (tree_packets l)) \<and>
       (\<forall>p. has_desc P p \<longrightarrow> has_desc P' p)"
  "\<forall>p \<in> set (atom_packets a). p \<in># R \<Longrightarrow> pool_inv P R \<Longrightarrow> size R + length (atom_packets a) < 2 ^ 32 \<Longrightarrow>
     \<exists>P'. tree_apply_atom atom_packet_copy_ro a P = Some (a, P') \<and> pool_inv P' (R + mset (atom_packets a)) \<and>
       (\<forall>p. has_desc P p \<longrightarrow> has_desc P' p)"
proof (induction l and a arbitrary: P R and P R rule: tree_packets_atom_packets.induct)
  case (2 a l)
  from "2.IH"(1) [of R P] "2.prems" obtain P1 where P1: "tree_apply_atom atom_packet_copy_ro a P = Some (a, P1)"
    "pool_inv P1 (R + mset (atom_packets a))" "\<forall>p. has_desc P p \<longrightarrow> has_desc P1 p" by auto
  from "2.IH"(2) [of "R + mset (atom_packets a)" P1] "2.prems" P1(2) obtain P2 where P2:
    "pdp_tree_apply atom_packet_copy_ro l P1 = Some (l, P2)" "pool_inv P2 (R + mset (atom_packets a) + mset (tree_packets l))"
    "\<forall>p. has_desc P1 p \<longrightarrow> has_desc P2 p" by auto
  with P1 show ?case by (auto simp: add.assoc)
next
  case (3 p)
  then have p: "p \<in># R" "size R < 2 ^ 32 - 1" by simp_all
  from copy_ro_ok [OF "3.prems"(2) p] obtain h where h: "pdp_packet_header p P = Some h"
    "pdp_packet_copy_ro p P = (p, set_packet p (Some (h\<lparr>users := users h + 1\<rparr>)) P)"
    "pool_inv (snd (pdp_packet_copy_ro p P)) (add_mset p R)" by blast
  then show ?case
    using header_valid [OF h(1)] by (auto simp: atom_packet_copy_ro_def has_desc_def header_set_packet)
next
  case (4 l)
  from "4.IH" [of R P] "4.prems" obtain P' where "pdp_tree_apply atom_packet_copy_ro l P = Some (l, P')"
    "pool_inv P' (R + mset (tree_packets l))" "\<forall>p. has_desc P p \<longrightarrow> has_desc P' p" by auto
  then show ?case by simp
qed (auto simp: atom_packet_copy_ro_def)


lemma mark_unused_has_desc:
  assumes E: "methods_ok E" and inv: "pool_inv P R" and p: "p \<in># R" "has_desc P p"
  obtains P' where "pdp_packet_mark_unused E p P = Some P'" "pool_inv P' (R - {#p#})" "\<And>q. has_desc P q \<Longrightarrow> has_desc P' q"
proof -
  from p(2) obtain h where h: "pdp_packet_header p P = Some h" "desc h \<noteq> None" by (auto simp: has_desc_def)
  obtain P' where P': "pdp_packet_mark_unused E p P = Some P'" "pool_inv P' (R - {#p#})"
    "\<forall>q. q \<noteq> p \<longrightarrow> pdp_packet_header q P' = pdp_packet_header q P"
    using mark_unused_ok [OF E inv p(1) h] by blast
  have "has_desc P' p"
  proof (cases "users h > 1")
    case True
    then have "P' = set_packet p (Some (h\<lparr>users := users h - 1\<rparr>)) P"
      using P'(1) h(1) by (simp add: pdp_packet_mark_unused_def)
    then show ?thesis using h(2) header_valid [OF h(1)] by (simp add: has_desc_def header_set_packet)
  next
    case False
    define g where "g = (case theclass h of Some c \<Rightarrow> if c_sleep (classes P c) then m_sleep E c h else h | None \<Rightarrow> h)\<lparr>users := 0\<rparr>"
    have gd: "desc g = desc h" using E by (auto simp: g_def methods_ok_def split: option.splits)
    have hp: "pdp_packet_header p (set_packet p (Some g) P) = Some g"
      using header_valid [OF h(1)] by (simp add: header_set_packet)
    have "pdp_packet_save_nolock p (set_packet p (Some g) P) = Some P'"
      using P'(1) h False gd by (simp add: pdp_packet_mark_unused_def Let_def g_def)
    then have "pdp_packet_header p P' = Some g"
      using hp by (auto simp: pdp_packet_save_nolock_def Let_def split: Option.bind_splits option.splits)
    with gd h(2) show ?thesis by (simp add: has_desc_def)
  qed
  then have "has_desc P' q" if "has_desc P q" for q
    using that P'(3) by (cases "q = p") (auto simp: has_desc_def)
  with P'(1,2) show ?thesis by (rule that)
qed

fun strip_list :: "t_pdp_atom list \<Rightarrow> t_pdp_atom list"
  and strip_atom :: "t_pdp_atom \<Rightarrow> t_pdp_atom" where
  "strip_list [] = []"
| "strip_list (a # l) = strip_atom a # strip_list l"
| "strip_atom (a_packet p) = a_packet (-1)"
| "strip_atom (a_list l) = a_list (strip_list l)"
| "strip_atom a = a"

lemma strip_tree:
  assumes E: "methods_ok E"
  shows "mset (tree_packets l) \<subseteq># R \<Longrightarrow> pool_inv P R \<Longrightarrow> \<forall>p \<in> set (tree_packets l). has_desc P p \<Longrightarrow>
     \<exists>P'. pdp_tree_apply (atom_packet_mark_unused E) l P = Some (strip_list l, P') \<and> pool_inv P' (R - mset (tree_packets l)) \<and>
       (\<forall>p. has_desc P p \<longrightarrow> has_desc P' p)"
    and "mset (atom_packets a) \<subseteq># R \<Longrightarrow> pool_inv P R \<Longrightarrow> \<forall>p \<in> set (atom_packets a). has_desc P p \<Longrightarrow>
     \<exists>P'. tree_apply_atom (atom_packet_mark_unused E) a P = Some (strip_atom a, P') \<and> pool_inv P' (R - mset (atom_packets a)) \<and>
       (\<forall>p. has_desc P p \<longrightarrow> has_desc P' p)"
proof (induction l and a arbitrary: P R and P R rule: tree_packets_atom_packets.induct)
  case (2 a l)
  from "2.prems"(1) have sub: "mset (atom_packets a) \<subseteq># R" "mset (tree_packets l) \<subseteq># R - mset (atom_packets a)"
    using subset_mset.le_diff_conv2 [of "mset (atom_packets a)" R "mset (tree_packets l)"]
    by (auto simp: add.commute intro: subset_mset.order_trans [OF mset_subset_eq_add_left])
  from "2.IH"(1) [OF sub(1) "2.prems"(2)] "2.prems"(3) obtain P1 where P1:
    "tree_apply_atom (atom_packet_mark_unused E) a P = Some (strip_atom a, P1)"
    "pool_inv P1 (R - mset (atom_packets a))" "\<forall>p. has_desc P p \<longrightarrow> has_desc P1 p" by auto
  from "2.IH"(2) [OF sub(2) P1(2)] P1(3) "2.prems"(3) obtain P2 where P2:
    "pdp_tree_apply (atom_packet_mark_unused E) l P1 = Some (strip_list l, P2)"
    "pool_inv P2 (R - mset (atom_packets a) - mset (tree_packets l))" "\<forall>p. has_desc P1 p \<longrightarrow> has_desc P2 p" by auto
  with P1 show ?case by (auto simp: diff_diff_add_mset)
next
  case (3 p)
  then have p: "p \<in># R" "has_desc P p" by simp_all
  obtain P' where "pdp_packet_mark_unused E p P = Some P'" "pool_inv P' (R - {#p#})" "\<And>q. has_desc P q \<Longrightarrow> has_desc P' q"
    by (rule mark_unused_has_desc [OF E "3.prems"(2) p]) blast
  then show ?case by (auto simp: atom_packet_mark_unused_def)
next
  case (4 l)
  from "4.IH" [of R P] "4.prems" obtain P' where "pdp_tree_apply (atom_packet_mark_unused E) l P = Some (strip_list l, P')"
    "pool_inv P' (R - mset (tree_packets l))" "\<forall>p. has_desc P p \<longrightarrow> has_desc P' p" by auto
  then show ?case by simp
qed (auto simp: atom_packet_mark_unused_def)

text \<open>
  C36: a read-only copy of a tree has the same atoms and takes exactly one reference for every packet atom of
  the tree, at every depth; stripping the copy gives back exactly these and leaves no packet in it.
\<close>

theorem tree_copy_ro_strip:
  assumes "methods_ok E" and "preach E P R"
    and "\<forall>p \<in> set (tree_packets l). p \<in># R \<and> has_desc P p" and "size R + length (tree_packets l) < 2 ^ 32"
  shows "\<exists>P1 P2. pdp_tree_copy_ro l P = Some (l, P1) \<and> pool_inv P1 (R + mset (tree_packets l)) \<and>
    pdp_tree_strip_packets E l P1 = Some (strip_list l, P2) \<and> pool_inv P2 R \<and> set (tree_packets (strip_list l)) \<subseteq> {-1}"
proof -
  have inv: "pool_inv P R" by (rule preach_inv [OF assms(2,1)])
  obtain P1 where P1: "pdp_tree_apply atom_packet_copy_ro l P = Some (l, P1)" "pool_inv P1 (R + mset (tree_packets l))"
    "\<forall>p. has_desc P p \<longrightarrow> has_desc P1 p"
    using copy_ro_tree(1) [OF _ inv assms(4)] assms(3) by blast
  obtain P2 where P2: "pdp_tree_apply (atom_packet_mark_unused E) l P1 = Some (strip_list l, P2)" "pool_inv P2 R"
    using strip_tree(1) [OF assms(1) _ P1(2), of l] P1(3) assms(3) by auto
  have "set (tree_packets (strip_list l)) \<subseteq> {-1}" "set (atom_packets (strip_atom a)) \<subseteq> {-1}" for a
    by (induction l and a rule: strip_list_strip_atom.induct) auto
  with P1 P2 show ?thesis
    by (simp add: pdp_tree_copy_ro_def tree_copy_ro_packets_def tree_copy_id pdp_tree_strip_packets_def)
qed

theorem tree_copy_ro_strip_witness:
  "\<exists>P1 P2. pdp_tree_copy_ro [a_int 1, a_list [a_packet 0], a_packet 0] one_packet_pool = Some ([a_int 1, a_list [a_packet 0], a_packet 0], P1) \<and>
    pool_inv P1 {#0, 0, 0#} \<and>
    pdp_tree_strip_packets plain_methods [a_int 1, a_list [a_packet 0], a_packet 0] P1 = Some ([a_int 1, a_list [a_packet (-1)], a_packet (-1)], P2) \<and>
    pool_inv P2 {#0#}"
proof -
  have "has_desc one_packet_pool 0" by (simp add: has_desc_def one_packet_header grey_packet_def)
  with tree_copy_ro_strip [OF plain_methods_ok one_packet_reach, of "[a_int 1, a_list [a_packet 0], a_packet 0]"]
  show ?thesis by (auto simp: add_mset_commute)
qed

end
