(* ===== verification/Spec2Isabelle.thy ===== *)
theory Spec2Isabelle
  imports PdpListOps Symbol Queue BitmapConv NetLink PdpTree
begin

text \<open>
  Verification of PDP, the Pure Data Packet library: packets of image data that circulate between the objects
  of a Pd patch. File names below are under \<^verbatim>\<open>src/\<close>.

  \<^bold>\<open>How the program is put together.\<close> Everything is named by symbols (\<^verbatim>\<open>system/kernel/pdp_symbol.c\<close>) and
  collected in lists of atoms (\<^verbatim>\<open>pdp_list.c\<close>) that come from fixed-size allocators (\<^verbatim>\<open>pdp_mem.c\<close>). Data lives
  in packets, reference-counted slots of a pool (\<^verbatim>\<open>pdp_packet.c\<close>); a packet has a type description such as
  \<open>image/YCrCb/320x240\<close>, under which unused packets are kept for reuse, and \<^verbatim>\<open>pdp_type.c\<close> matches descriptions
  with wildcards and chains registered conversion programs until a packet fits. \<^verbatim>\<open>system/type/pdp_image.c\<close>
  and \<^verbatim>\<open>pdp_bitmap.c\<close> make image packets and register the conversions, which call \<^verbatim>\<open>system/image/pdp_llconv.c\<close>
  and the scalers of \<^verbatim>\<open>pdp_resample.c\<close>. Pixel routines (\<^verbatim>\<open>pdp_imageproc_portable.c\<close>,
  \<^verbatim>\<open>pdp_imageproc_common.c\<close>) work on planes; the dispatchers of the latter run them over the planes of packets.
  Objects hand packets to each other and process them in a worker thread fed through \<^verbatim>\<open>puredata/pdp_queue.c\<close>.
  \<^verbatim>\<open>system/net/pdp_net.c\<close> carries packets over UDP.

  \<^bold>\<open>Which theory models what.\<close> Definitions keep the names of the code.

  \<^item> \<open>Prelude\<close>: pointers (\<open>NULL\<close> is 0), C integers with their wrap-around, chains of \<open>next\<close> pointers.
    \<open>CText\<close>: the text forms of numbers (\<open>%d\<close>, \<open>%f\<close>, \<open>strtol\<close>, \<open>strtod\<close>).
  \<^item> \<open>Mem\<close>: the allocator; its memory is the map of first words, its state the record \<open>t_pdp_fastalloc\<close>.
    A live cell is never handed out again.
  \<^item> \<open>PdpList\<close>, \<open>PdpListOps\<close>: the linked lists on an explicit heap with all pointers; \<open>lists_inv\<close> says which
    lists live in a heap. Every legal call refines the same call on a store of sequences, whatever the
    aliasing; the locale \<open>list_store\<close> gives the clients the queue and stack laws.
  \<^item> \<open>PdpTree\<close>: trees of atoms as values, parser, printer, syntax check. The mutually recursive parser runs on
    fuel, three rounds for every character and three more, which is enough for every string because each round
    consumes a character or enters one of three functions.
  \<^item> \<open>Symbol\<close>: the hash table; pointers are equal exactly when names are, so that the later theories use names
    for symbols.
  \<^item> \<open>TypeDesc\<close>: parsing and matching of descriptions and the cache of parsed ones, which does not change the
    result. \<open>TypeConv\<close>: conversion programs, the program cache, chained conversions and what they do to references.
  \<^item> \<open>Packet\<close>, \<open>PacketPool\<close>: the pool, record \<open>pool\<close>; the hooks of classes, their constructors and
    \<open>malloc\<close> are the parameter \<open>methods\<close>, with the contract \<open>methods_ok\<close> for the hooks and \<open>creates_ok\<close> for
    the constructors that a request can reach. \<open>pool_inv P R\<close> relates a pool to the multiset \<open>R\<close> of references its clients hold; the step
    relation \<open>pstep\<close> has a rule for every operation of a client.
  \<^item> \<open>Pixels\<close>, \<open>ImageProc\<close>, \<open>ImageProcOk\<close>, \<open>PixelOps\<close>, \<open>PixelOpsOk\<close>, \<open>Resample\<close>: buffers, loops over them and every
    pixel routine, with reference functions. A read or write outside a buffer is \<open>None\<close>, so that a routine
    shown to return stays inside. \<open>Dispatch\<close>: the dispatchers; the locale \<open>plane_routine\<close> is what they rely on.
  \<^item> \<open>Image\<close>, \<open>ImageOk\<close>: image packets, constructors, the factory, conversions, set-up.
  \<^item> \<open>LLConv\<close>, \<open>LLConvOk\<close>: the low level conversions between raw formats (\<^verbatim>\<open>pdp_llconv.c\<close>,
    \<^verbatim>\<open>pdp_llconv_portable.c\<close>) on bytes, with reference pictures for the colour conversions.
    \<open>Bitmap\<close>, \<open>BitmapOk\<close>, \<open>BitmapConv\<close>: bitmap packets, their conversions from and to images, factory and set-up.
    \<open>with_factories\<close> installs the modelled factories as constructors; they meet \<open>creates_ok\<close> for their descriptions.
  \<^item> \<open>Queue\<close>: the ring of tasks, the worker thread as a step, callbacks; the locale \<open>worker_queue\<close> derives the
    order of execution.
  \<^item> \<open>Net\<close>, \<open>NetSend\<close>: receiver and sender on byte-exact datagrams. \<open>NetOk\<close>, \<open>NetRun\<close>, \<open>NetSendOk\<close>, \<open>NetLink\<close>: integrity of
    what is delivered under loss, duplication, reordering and foreign datagrams, completeness, resending.

  \<^bold>\<open>Conventions.\<close> \<open>None\<close> is undefined behaviour of the code (a dereference of \<open>NULL\<close>, an access outside a
  buffer, a division by zero) or a loop that does not end; loops whose end is not structural are
  \<open>partial_function (option)\<close>, so that returning is a theorem. Results that the code signals by a value
  (\<open>-1\<close>, 0) are that value. Integers are words or integers with \<open>wrap16\<close> and \<open>wrap32\<close> written out where a result
  can leave its range. Locks make the operations they enclose atomic. Numbers of retries are those of the code
  (three headers, five rounds of a transmission).

  \<^bold>\<open>What the properties show.\<close> Theorems marked \<open>C1\<close>, \<open>C2\<close>, \<dots> are the properties of the library, each followed
  by a run that satisfies its hypotheses. Those on lists, symbols, packets, conversions, queue and network are
  invariants and refinements over arbitrary sequences of operations; those on pixels are equivalences with
  reference functions and bounds; those named after a defect (\<open>\<dots>_corrupts\<close>, \<open>\<dots>_crashes\<close>, \<open>\<dots>_dangles\<close>, \<open>\<dots>_overruns\<close>)
  prove that the code misbehaves on inputs it should handle.

  \<^bold>\<open>Not modelled.\<close> The MMX variants of the pixel routines (inline assembly, \<^verbatim>\<open>pdp_imageproc_mmx.c\<close>,
  \<^verbatim>\<open>pdp_imageproc_gcc_mmx.c\<close>, \<^verbatim>\<open>pdp_llconv_mmx.c\<close>); devices, windows, OpenGL, video files and cameras
  (\<^verbatim>\<open>system/zl\<close>, \<^verbatim>\<open>opengl\<close>, \<^verbatim>\<open>modules/image_io\<close>, \<^verbatim>\<open>system/png\<close>), which only call libraries outside the
  repository; matrices (\<^verbatim>\<open>system/type/pdp_matrix.c\<close>, \<^verbatim>\<open>modules/matrix_basic\<close>), wrappers of GSL; the cellular
  automata of \<^verbatim>\<open>scaf\<close>, which run generated machine code; \<^verbatim>\<open>pdp_packet2.c\<close> and \<^verbatim>\<open>clusterstuff.c\<close>, which
  the build leaves out; debug output; the double arithmetic that prepares the affine map of the zoom.
\<close>

end
